(* ===== verification/Prelude.thy ===== *)
theory Prelude
  imports Complex_Main "HOL-Library.Word"
begin

section \<open>Shared types, collections and lemmas\<close>

text \<open>
  What every component of the development uses: bytes and big-endian integers (the JavaScript
  \<open>DataView\<close> and \<open>Buffer\<close> accessors), results of code that may throw, lower-case
  hexadecimal text, the array idiom \<open>slice\<close>, and the collections of facts that the component
  proofs pass to the simplifier.
\<close>

named_theorems bytes_simps \<open>lengths and values of byte encodings\<close>
named_theorems result_simps \<open>results of code that may throw\<close>
named_theorems step_simps \<open>one step of a component's machine\<close>

type_synonym byte = "8 word"
type_synonym bytes = "byte list"

subsection \<open>Results\<close>

text \<open>
  A computation that may throw returns \<open>Inl e\<close> for the thrown error and \<open>Inr v\<close> for the
  value. \<open>bind_r\<close> is sequencing: the first throw ends the computation.
\<close>

definition bind_r :: "'e + 'a \<Rightarrow> ('a \<Rightarrow> 'e + 'b) \<Rightarrow> 'e + 'b" where
  "bind_r r f = (case r of Inl e \<Rightarrow> Inl e | Inr a \<Rightarrow> f a)"

lemma bind_r_simps [simp, result_simps]:
  "bind_r (Inl e) f = Inl e"
  "bind_r (Inr a) f = f a"
  by (simp_all add: bind_r_def)

lemma bind_r_eq_Inr [result_simps]:
  "bind_r r f = Inr b \<longleftrightarrow> (\<exists>a. r = Inr a \<and> f a = Inr b)"
  by (cases r) auto

lemma bind_r_cong [fundef_cong]:
  "r = r' \<Longrightarrow> (\<And>a. r' = Inr a \<Longrightarrow> f a = g a) \<Longrightarrow> bind_r r f = bind_r r' g"
  by (cases r') auto

lemma if_Inl_eq_Inr [simp, result_simps]:
  "((if b then Inl e else r) = Inr v) \<longleftrightarrow> \<not> b \<and> r = Inr v"
  by auto

subsection \<open>Big-endian unsigned integers\<close>

text \<open>
  \<open>be_enc n v\<close> is the \<open>n\<close> bytes that \<open>setUintN(offset, v, false)\<close> stores (the value
  modulo \<open>256 ^ n\<close>), \<open>be_dec\<close> the value \<open>getUintN(offset, false)\<close> reads back.
\<close>

fun be_enc :: "nat \<Rightarrow> nat \<Rightarrow> bytes" where
  "be_enc 0 v = []"
| "be_enc (Suc n) v = be_enc n (v div 256) @ [word_of_nat v]"

definition be_dec :: "bytes \<Rightarrow> nat" where
  "be_dec bs = foldl (\<lambda>acc b. acc * 256 + unat b) 0 bs"

lemma length_be_enc [simp, bytes_simps]: "length (be_enc n v) = n"
  by (induction n arbitrary: v) auto

lemma unat_byte_lt [simp, bytes_simps]: "unat (b :: byte) < 256"
  using unsigned_less [of b] by simp

lemma be_dec_Nil [simp]: "be_dec [] = 0"
  by (simp add: be_dec_def)

lemma be_dec_snoc [simp]: "be_dec (bs @ [b]) = be_dec bs * 256 + unat b"
  by (simp add: be_dec_def)

lemma unat_byte_of_nat [bytes_simps]: "unat (word_of_nat v :: byte) = v mod 256"
  by (simp add: unat_of_nat)

lemma be_dec_enc_mod: "be_dec (be_enc n v) = v mod 256 ^ n"
proof (induction n arbitrary: v)
  case 0
  then show ?case by simp
next
  case (Suc n)
  have "v div 256 mod 256 ^ n * 256 + v mod 256 = v mod (256 * 256 ^ n)"
    by (metis mod_mult2_eq mult.commute)
  with Suc show ?case by (simp add: unat_byte_of_nat mult.commute)
qed

lemma be_dec_enc [bytes_simps]: "v < 256 ^ n \<Longrightarrow> be_dec (be_enc n v) = v"
  by (simp add: be_dec_enc_mod)

lemma be_enc_dec: "be_enc (length bs) (be_dec bs) = bs"
proof (induction bs rule: rev_induct)
  case Nil
  then show ?case by simp
next
  case (snoc b bs)
  then have d: "(be_dec bs * 256 + unat b) div 256 = be_dec bs" by simp
  have "(word_of_nat (be_dec bs * 256 + unat b) :: byte) = b"
    by (rule word_unat_eq_iff [THEN iffD2]) (simp only: unat_byte_of_nat, simp)
  with snoc d show ?case by simp
qed

lemma be_dec_bound: "be_dec bs < 256 ^ length bs"
proof (induction bs rule: rev_induct)
  case Nil
  then show ?case by simp
next
  case (snoc b bs)
  with snoc have "be_dec bs + 1 \<le> 256 ^ length bs" by simp
  then have "be_dec bs * 256 + unat b < 256 ^ length bs * 256"
    using unat_byte_lt [of b] by linarith
  then show ?case by (simp add: mult.commute)
qed

lemma be_dec_inj: "length xs = length ys \<Longrightarrow> be_dec xs = be_dec ys \<Longrightarrow> xs = ys"
  by (metis be_enc_dec)

lemma be_enc_inj: "be_enc n v = be_enc n w \<Longrightarrow> v < 256 ^ n \<Longrightarrow> w < 256 ^ n \<Longrightarrow> v = w"
  by (metis be_dec_enc)

subsection \<open>Slices of byte arrays\<close>

text \<open>
  \<open>slice i j xs\<close> is \<open>xs.slice(i, j)\<close> (or \<open>subarray\<close>) for \<open>0 \<le> i\<close>: both ends are clamped
  to the length of the array, so no index is out of range.
\<close>

definition slice :: "nat \<Rightarrow> nat \<Rightarrow> 'a list \<Rightarrow> 'a list" where
  "slice i j xs = take (j - i) (drop i xs)"

lemma length_slice [simp, bytes_simps]: "length (slice i j xs) = min (j - i) (length xs - i)"
  by (simp add: slice_def)

lemma slice_append: "i \<le> j \<Longrightarrow> j \<le> length xs \<Longrightarrow> slice i j (xs @ ys) = slice i j xs"
  by (simp add: slice_def)

lemma slice_append_right: "length xs \<le> i \<Longrightarrow> slice i j (xs @ ys) = slice (i - length xs) (j - length xs) ys"
  by (simp add: slice_def)

lemma slice_all [simp]: "length xs \<le> j \<Longrightarrow> slice 0 j xs = xs"
  by (simp add: slice_def)

lemma slice_split: "i \<le> j \<Longrightarrow> slice i j xs @ drop j xs = drop i xs"
  by (metis append_take_drop_id drop_drop le_add_diff_inverse2 slice_def)

lemma slice_join: "i \<le> j \<Longrightarrow> j \<le> k \<Longrightarrow> slice i j xs @ slice j k xs = slice i k xs"
proof -
  assume le: "i \<le> j" "j \<le> k"
  have "take (j - i + (k - j)) (drop i xs) =
      take (j - i) (drop i xs) @ take (k - j) (drop (j - i) (drop i xs))"
    by (rule take_add)
  with le show ?thesis by (simp add: slice_def)
qed

subsection \<open>Lists cut into records of a fixed size\<close>

function chunks :: "nat \<Rightarrow> 'a list \<Rightarrow> 'a list list" where
  "chunks n xs = (if n = 0 \<or> xs = [] then [] else take n xs # chunks n (drop n xs))"
  by pat_completeness auto
termination
  by (relation "measure (\<lambda>(n, xs). length xs)") auto

declare chunks.simps [simp del]

lemma chunks_Nil [simp]: "chunks n [] = []"
  by (simp add: chunks.simps)

lemma chunks_append [simp]:
  "length r = n \<Longrightarrow> 0 < n \<Longrightarrow> chunks n (r @ xs) = r # chunks n xs"
  by (subst chunks.simps) auto

lemma concat_chunks: "0 < n \<Longrightarrow> concat (chunks n xs) = xs"
proof (induction n xs rule: chunks.induct)
  case (1 n xs)
  then show ?case by (subst chunks.simps) auto
qed

lemma chunks_concat:
  "0 < n \<Longrightarrow> \<forall>r \<in> set rs. length r = n \<Longrightarrow> chunks n (concat rs) = rs"
  by (induction rs) auto

lemma length_chunks:
  "0 < n \<Longrightarrow> n dvd length xs \<Longrightarrow> length (chunks n xs) = length xs div n"
proof (induction n xs rule: chunks.induct)
  case (1 n xs)
  show ?case
  proof (cases "xs = []")
    case False
    with 1 have le: "n \<le> length xs" by (simp add: dvd_imp_le)
    with 1 False have "length (chunks n (drop n xs)) = (length xs - n) div n" by simp
    with False 1 le show ?thesis by (subst chunks.simps) (simp add: le_div_geq)
  qed simp
qed

lemma chunks_lengths:
  "0 < n \<Longrightarrow> n dvd length xs \<Longrightarrow> r \<in> set (chunks n xs) \<Longrightarrow> length r = n"
proof (induction n xs rule: chunks.induct)
  case (1 n xs)
  show ?case
  proof (cases "xs = []")
    case False
    with 1 have "n \<le> length xs" by (simp add: dvd_imp_le)
    with 1 False show ?thesis by (subst (asm) (2) chunks.simps) auto
  qed (use 1 in simp)
qed

subsection \<open>Lower-case hexadecimal text\<close>

text \<open>
  \<open>Buffer.toString('hex')\<close> and \<open>Buffer.from(s, 'hex')\<close>. The decoder stops, without an error,
  at the first pair of characters that is not hexadecimal and at an odd last character.
\<close>

definition hex_digit :: "nat \<Rightarrow> char" where
  "hex_digit n = (if n < 10 then char_of (48 + n) else char_of (87 + n))"

definition hex_val :: "char \<Rightarrow> nat option" where
  "hex_val c = (let k = of_char c :: nat in
     if 48 \<le> k \<and> k \<le> 57 then Some (k - 48)
     else if 97 \<le> k \<and> k \<le> 102 then Some (k - 87)
     else if 65 \<le> k \<and> k \<le> 70 then Some (k - 55)
     else None)"

fun to_hex :: "bytes \<Rightarrow> string" where
  "to_hex [] = []"
| "to_hex (b # bs) = hex_digit (unat b div 16) # hex_digit (unat b mod 16) # to_hex bs"

fun from_hex :: "string \<Rightarrow> bytes" where
  "from_hex (c # d # cs) =
     (case (hex_val c, hex_val d) of
        (Some h, Some l) \<Rightarrow> word_of_nat (16 * h + l) # from_hex cs
      | _ \<Rightarrow> [])"
| "from_hex _ = []"

lemma hex_val_digit [simp, bytes_simps]: "n < 16 \<Longrightarrow> hex_val (hex_digit n) = Some n"
  by (auto simp: hex_val_def hex_digit_def Let_def)

lemma from_to_hex [simp, bytes_simps]: "from_hex (to_hex bs) = bs"
proof (induction bs)
  case Nil
  then show ?case by simp
next
  case (Cons b bs)
  have "unat b div 16 < 16" "unat b mod 16 < 16"
    using unat_byte_lt [of b] by (auto simp: less_mult_imp_div_less)
  moreover have "(word_of_nat (16 * (unat b div 16) + unat b mod 16) :: byte) = b" by simp
  ultimately show ?case using Cons by simp
qed

lemma length_to_hex [simp, bytes_simps]: "length (to_hex bs) = 2 * length bs"
  by (induction bs) auto

lemma to_hex_inj: "to_hex xs = to_hex ys \<Longrightarrow> xs = ys"
  by (metis from_to_hex)

end
