(* ===== verification/Sdk_Base.thy ===== *)
theory Sdk_Base
  imports Prelude
begin

section \<open>JavaScript values and the primitives of the SDK\<close>

text \<open>
  The data that \<open>qv-sdk/src/index.mjs\<close> and the claims validator of the server share: a JavaScript
  string is its list of UTF-16 code units, a parsed JSON value (or a value a caller builds) is a
  \<open>jsval\<close>, everything the SDK may throw is an \<open>sdk_error\<close>. The cryptographic packages
  (\<open>@noble/post-quantum\<close>, \<open>@noble/ciphers\<close>, \<open>@noble/hashes\<close>) and \<open>node:zlib\<close> are not
  in the repository: they are the fields of a record \<open>prims\<close> that every definition using them
  takes as an argument.
\<close>

type_synonym jsstr = "16 word list"

definition js :: "string \<Rightarrow> jsstr" where
  "js s = map (\<lambda>c. word_of_nat (of_char c)) s"

text \<open>A number of the language: finite, or one of the infinities and NaN.\<close>

datatype jsnum = Finite rat | NonFinite

datatype jsval =
    JNull
  | JBool bool
  | JNum jsnum
  | JBig int
  | JStr jsstr
  | JArr "jsval list"
  | JObj "(jsstr \<times> jsval) list"   \<comment> \<open>own enumerable properties, in \<open>Object.keys\<close> order\<close>
  | JOther string                    \<comment> \<open>\<open>typeof\<close> of any other value: function, symbol, undefined\<close>

datatype sdk_error =
    RangeErr | TypeErr
  | EntropyTooLow
  | Replay int int
  | InvalidMagic | UnsupportedVersion nat
  | TokenNotYetValid | TokenExpired int int
  | SignatureInvalid | SignatureThrow
  | AeadThrow | SignThrow
  | DecompressionUnavailable | InflateThrow | CompressionUnavailable
  | ExpectedFixmap | UnexpectedMsgpack nat
  | TooManyClaims | ClaimTooLong | UnsupportedClaim jsstr
  | AmbiguousSigningKey | MissingSigningKey
  | BadChainSeed | BadCounter
  | StoreMissing | StoreKeyIdMissing | StoreSeedMissing
  | BadPlaintext | BadKey | BadNonce

text \<open>
  The third-party primitives. A \<open>None\<close> of \<open>p_aead_enc\<close>, \<open>p_aead_dec\<close>, \<open>p_sign\<close>,
  \<open>p_verify\<close> or \<open>p_inflate\<close> is a throw of the package; \<open>p_zlib\<close> is
  \<open>_compressionAvailable\<close>. The arguments follow the calls: key, nonce, associated data, text;
  message, secret key; signature, message, public key.
\<close>

record prims =
  p_sha3 :: "bytes \<Rightarrow> bytes"
  p_aead_enc :: "bytes \<Rightarrow> bytes \<Rightarrow> bytes \<Rightarrow> bytes \<Rightarrow> bytes option"
  p_aead_dec :: "bytes \<Rightarrow> bytes \<Rightarrow> bytes \<Rightarrow> bytes \<Rightarrow> bytes option"
  p_sign :: "bytes \<Rightarrow> bytes \<Rightarrow> bytes option"
  p_verify :: "bytes \<Rightarrow> bytes \<Rightarrow> bytes \<Rightarrow> bool option"
  p_zlib :: bool
  p_deflate :: "bytes \<Rightarrow> bytes"
  p_inflate :: "bytes \<Rightarrow> bytes option"
  p_numstr :: "jsnum \<Rightarrow> jsstr"

text \<open>What the packages document and the theorems below rely on.\<close>

definition sha3_len :: "(bytes \<Rightarrow> bytes) \<Rightarrow> bool" where
  "sha3_len h \<longleftrightarrow> (\<forall>x. length (h x) = 32)"

definition aead_correct :: "prims \<Rightarrow> bool" where
  "aead_correct P \<longleftrightarrow> (\<forall>k n ad pt ct. p_aead_enc P k n ad pt = Some ct \<longrightarrow>
     p_aead_dec P k n ad ct = Some pt)"

definition inflate_correct :: "prims \<Rightarrow> bool" where
  "inflate_correct P \<longleftrightarrow> (\<forall>x. p_inflate P (p_deflate P x) = Some x)"

definition key_pair :: "prims \<Rightarrow> bytes \<Rightarrow> bytes \<Rightarrow> bool" where
  "key_pair P sk vk \<longleftrightarrow> (\<forall>m s. p_sign P m sk = Some s \<longrightarrow> p_verify P s m vk = Some True)"

lemma sha3_lenD [simp]: "sha3_len h \<Longrightarrow> length (h x) = 32"
  by (simp add: sha3_len_def)

lemma aead_correctD: "aead_correct P \<Longrightarrow> p_aead_enc P k n ad pt = Some ct \<Longrightarrow>
    p_aead_dec P k n ad ct = Some pt"
  by (simp add: aead_correct_def)

lemma inflate_correctD: "inflate_correct P \<Longrightarrow> p_inflate P (p_deflate P x) = Some x"
  by (simp add: inflate_correct_def)

lemma key_pairD: "key_pair P sk vk \<Longrightarrow> p_sign P m sk = Some s \<Longrightarrow> p_verify P s m vk = Some True"
  by (simp add: key_pair_def)

subsection \<open>A concrete instance\<close>

text \<open>
  Functions that satisfy the hypotheses above, for the witnesses: no cryptography, but the same
  types, lengths and laws.
\<close>

definition sample_hash :: "bytes \<Rightarrow> bytes" where
  "sample_hash x = replicate 24 7 @ be_enc 8 (be_dec x)"

definition sample_prims :: prims where
  "sample_prims =
     \<lparr>p_sha3 = sample_hash,
      p_aead_enc = (\<lambda>k n ad pt. Some (pt @ replicate 16 0)),
      p_aead_dec = (\<lambda>k n ad ct. if drop (length ct - 16) ct = replicate 16 0
                                 then Some (take (length ct - 16) ct) else None),
      p_sign = (\<lambda>m sk. Some (sk @ [fold (+) m 0])),
      p_verify = (\<lambda>s m vk. Some (s = vk @ [fold (+) m 0])),
      p_zlib = True,
      p_deflate = (\<lambda>x. 0 # x),
      p_inflate = (\<lambda>x. case x of [] \<Rightarrow> None | _ # y \<Rightarrow> Some y),
      p_numstr = (\<lambda>_. js ''?'')\<rparr>"

lemma sample_hash_len [simp]: "sha3_len sample_hash"
  by (simp add: sha3_len_def sample_hash_def)

lemma sample_prims_ok [simp]:
  "sha3_len (p_sha3 sample_prims)" "aead_correct sample_prims" "inflate_correct sample_prims"
  "key_pair sample_prims k k"
  by (simp_all add: sample_prims_def aead_correct_def inflate_correct_def key_pair_def)

end
