(* ===== verification/Mutation_Chain.thy ===== *)
theory Mutation_Chain
  imports Sdk_Base
begin

section \<open>The mutation chain of the SDK\<close>

text \<open>
  \<open>class MutationChain\<close> of \<open>qv-sdk/src/index.mjs\<close>: a 32-byte state ratcheted by SHA3-256 over the
  state and the 64-bit big-endian counter, and the counter itself, a BigInt. The class mutates in
  place; here every method returns the new chain, or the error it throws (the throws of
  \<open>advance\<close>, \<open>checkTokenCounter\<close> and \<open>advanceTo\<close> come before any mutation of that call,
  so the chain of a failed call is the one given).
\<close>

record chain =
  c_state :: bytes
  c_counter :: int

definition new_chain :: "bytes \<Rightarrow> chain" where
  "new_chain seed = \<lparr>c_state = seed, c_counter = 0\<rparr>"

definition from_state :: "bytes \<Rightarrow> int \<Rightarrow> chain" where
  "from_state st ctr = (new_chain st)\<lparr>c_counter := ctr\<rparr>"

text \<open>
  The 40-byte buffer: the state in front (\<open>TypedArray.set\<close> throws when it does not fit), then the
  counter written over bytes 32 to 39, modulo \<open>2 ^ 64\<close>; what the state leaves open is zero.
\<close>

definition pad32 :: "bytes \<Rightarrow> bytes" where
  "pad32 s = take 32 (s @ replicate 32 0)"

definition ctr_bytes :: "int \<Rightarrow> bytes" where
  "ctr_bytes c = be_enc 8 (nat (c mod 2 ^ 64))"

definition advance :: "(bytes \<Rightarrow> bytes) \<Rightarrow> chain \<Rightarrow> sdk_error + chain" where
  "advance h c =
     (if 40 < length (c_state c) then Inl RangeErr
      else Inr \<lparr>c_state = h (pad32 (c_state c) @ ctr_bytes (c_counter c)),
                c_counter = c_counter c + 1\<rparr>)"

definition check_token_counter :: "chain \<Rightarrow> int \<Rightarrow> sdk_error + unit" where
  "check_token_counter c tc =
     (if tc \<le> c_counter c then Inl (Replay tc (c_counter c)) else Inr ())"

lemma advance_counter [step_simps]:
  "advance h c = Inr c' \<Longrightarrow> c_counter c' = c_counter c + 1"
  by (auto simp: advance_def)

function advance_loop :: "(bytes \<Rightarrow> bytes) \<Rightarrow> int \<Rightarrow> chain \<Rightarrow> sdk_error + chain" where
  "advance_loop h t c =
     (if c_counter c < t
      then (case advance h c of Inl e \<Rightarrow> Inl e | Inr c' \<Rightarrow> advance_loop h t c')
      else Inr c)"
  by pat_completeness auto
termination
  by (relation "measure (\<lambda>(h, t, c). nat (t - c_counter c))") (auto simp: advance_counter)

declare advance_loop.simps [simp del]

definition advance_to :: "(bytes \<Rightarrow> bytes) \<Rightarrow> chain \<Rightarrow> int \<Rightarrow> sdk_error + chain" where
  "advance_to h c t =
     (if t \<le> c_counter c then Inl (Replay t (c_counter c)) else advance_loop h t c)"

subsection \<open>The ratchet as a function of the seed\<close>

primrec ratchet :: "(bytes \<Rightarrow> bytes) \<Rightarrow> bytes \<Rightarrow> nat \<Rightarrow> bytes" where
  "ratchet h seed 0 = seed"
| "ratchet h seed (Suc n) = h (pad32 (ratchet h seed n) @ be_enc 8 n)"

lemma length_pad32 [simp, bytes_simps]: "length (pad32 s) = 32"
  by (simp add: pad32_def)

lemma pad32_id [simp, bytes_simps]: "length s = 32 \<Longrightarrow> pad32 s = s"
  by (simp add: pad32_def)

lemma ctr_bytes_nat [bytes_simps]: "n < 2 ^ 64 \<Longrightarrow> ctr_bytes (int n) = be_enc 8 n"
  by (simp add: ctr_bytes_def nat_mod_distrib nat_power_eq)

lemma length_ratchet [simp]: "sha3_len h \<Longrightarrow> length seed = 32 \<Longrightarrow> length (ratchet h seed n) = 32"
  by (cases n) auto

definition chain_at :: "(bytes \<Rightarrow> bytes) \<Rightarrow> bytes \<Rightarrow> nat \<Rightarrow> chain" where
  "chain_at h seed n = \<lparr>c_state = ratchet h seed n, c_counter = int n\<rparr>"

lemma chain_at_sel [simp]:
  "c_state (chain_at h seed n) = ratchet h seed n" "c_counter (chain_at h seed n) = int n"
  by (simp_all add: chain_at_def)

lemma new_chain_at: "new_chain seed = chain_at h seed 0"
  by (simp add: new_chain_def chain_at_def)

lemma from_state_at: "from_state (ratchet h seed n) (int n) = chain_at h seed n"
  by (simp add: from_state_def new_chain_def chain_at_def)

lemma advance_chain_at:
  assumes "sha3_len h" "length seed = 32" "n < 2 ^ 64"
  shows "advance h (chain_at h seed n) = Inr (chain_at h seed (Suc n))"
  using assms by (simp add: advance_def chain_at_def ctr_bytes_nat)

text \<open>A chain whose state fits the buffer: every chain made from a key, and every later one.\<close>

definition wf_chain :: "chain \<Rightarrow> bool" where
  "wf_chain c \<longleftrightarrow> length (c_state c) \<le> 40"

lemma advance_total: "wf_chain c \<Longrightarrow> \<exists>c'. advance h c = Inr c'"
  by (simp add: wf_chain_def advance_def)

lemma advance_wf: "sha3_len h \<Longrightarrow> advance h c = Inr c' \<Longrightarrow> wf_chain c'"
  by (auto simp: wf_chain_def advance_def)

lemma advance_loop_total:
  assumes "sha3_len h" "wf_chain c"
  shows "\<exists>c'. advance_loop h t c = Inr c' \<and> c_counter c' = max t (c_counter c) \<and> wf_chain c'"
  using assms
proof (induction h t c rule: advance_loop.induct)
  case (1 h t c)
  show ?case
  proof (cases "c_counter c < t")
    case True
    obtain c1 where c1: "advance h c = Inr c1" using advance_total 1 by blast
    with 1 True have "\<exists>c'. advance_loop h t c1 = Inr c' \<and>
        c_counter c' = max t (c_counter c1) \<and> wf_chain c'"
      by (blast intro: advance_wf)
    with True c1 show ?thesis
      by (subst advance_loop.simps) (auto simp: advance_counter max_def)
  next
    case False
    with 1 show ?thesis by (subst advance_loop.simps) auto
  qed
qed

lemma advance_loop_at:
  assumes "sha3_len h" "length seed = 32" "n \<le> m" "m \<le> 2 ^ 64"
  shows "advance_loop h (int m) (chain_at h seed n) = Inr (chain_at h seed m)"
  using assms(3,4)
proof (induction "m - n" arbitrary: n)
  case 0
  then show ?case by (subst advance_loop.simps) auto
next
  case (Suc d)
  then have "n < m" "n < 2 ^ 64" by auto
  with Suc assms show ?case
    by (subst advance_loop.simps) (simp add: advance_chain_at)
qed

lemma advance_to_counter:
  assumes "sha3_len h" "wf_chain c" "c_counter c < t"
  shows "\<exists>c'. advance_to h c t = Inr c' \<and> c_counter c' = t \<and> wf_chain c'"
  using advance_loop_total [OF assms(1,2), of t] assms(3) by (auto simp: advance_to_def)

lemma advance_to_replay [simp]:
  "t \<le> c_counter c \<Longrightarrow> advance_to h c t = Inl (Replay t (c_counter c))"
  by (simp add: advance_to_def)

lemma check_token_counter_iff [simp]:
  "check_token_counter c tc = Inr () \<longleftrightarrow> c_counter c < tc"
  by (auto simp: check_token_counter_def)

end
