(* ===== verification/Wire.thy ===== *)
theory Wire
  imports Mutation_Chain
begin

section \<open>The wire format of a token\<close>

text \<open>
  \<open>serializeToken\<close>, \<open>deserializeToken\<close>, \<open>signedBytes\<close> and \<open>certifyEntropy\<close> of
  \<open>qv-sdk/src/index.mjs\<close>. The serializer fills a zeroed buffer by a sequence of stores, each of
  which throws when it does not fit, and the parser reads at fixed offsets, a read outside the data
  throwing and a \<open>slice\<close> clamping; the lemmas show the byte layout the two agree on. The token is
  a \<open>Uint8Array\<close> that owns its buffer (what \<open>fromHex\<close> returns), and the numbers stored in
  integer fields are integers (a BigInt below \<open>2 ^ 85\<close> in size, so that \<open>Number\<close> is exact).
\<close>

record header =
  h_suite :: int
  h_type :: int
  h_issued :: int
  h_ttl :: int
  h_nonce :: bytes
  h_fp :: bytes
  h_ctr :: int

definition MAGIC :: nat where "MAGIC = 0x51564C54"
definition VERSION :: nat where "VERSION = 0x0300"

subsection \<open>Entropy of the nonce\<close>

definition entropy_windows :: "bytes \<Rightarrow> nat list" where
  "entropy_windows d = map (\<lambda>i. be_dec (slice i (i + 4) d)) [0..<length d - 3]"

text \<open>\<open>seen.size / total < 0.85\<close>; the quotient of the doubles is below the literal exactly when
  \<open>seen / total\<close> is below 17/20, since the two differ by at least \<open>1 / (20 * total)\<close> or not at all.\<close>

definition certify_entropy :: "bytes \<Rightarrow> sdk_error + unit" where
  "certify_entropy d =
     (if length d < 8 then Inr ()
      else let total = length d - 3; seen = length (remdups (entropy_windows d)) in
        if 20 * seen < 17 * total then Inl EntropyTooLow else Inr ())"

subsection \<open>Stores and reads\<close>

definition write_at :: "nat \<Rightarrow> bytes \<Rightarrow> bytes \<Rightarrow> sdk_error + bytes" where
  "write_at i bs buf =
     (if length buf < i + length bs then Inl RangeErr
      else Inr (take i buf @ bs @ drop (i + length bs) buf))"

fun writes :: "(nat \<times> bytes) list \<Rightarrow> bytes \<Rightarrow> sdk_error + bytes" where
  "writes [] buf = Inr buf"
| "writes ((i, bs) # ws) buf = bind_r (write_at i bs buf) (writes ws)"

definition u32 :: "int \<Rightarrow> bytes" where
  "u32 v = be_enc 4 (nat (v mod 2 ^ 32))"

definition write_uint64_be :: "int \<Rightarrow> bytes" where
  "write_uint64_be v = u32 (v div 2 ^ 32) @ u32 v"

definition get_uint :: "nat \<Rightarrow> nat \<Rightarrow> bytes \<Rightarrow> sdk_error + nat" where
  "get_uint n i d = (if length d < i + n then Inl RangeErr else Inr (be_dec (slice i (i + n) d)))"

definition read_uint64_be :: "bytes \<Rightarrow> nat \<Rightarrow> sdk_error + int" where
  "read_uint64_be d i =
     bind_r (get_uint 4 i d) (\<lambda>hi. bind_r (get_uint 4 (i + 4) d) (\<lambda>lo.
       Inr (int hi * 2 ^ 32 + int lo)))"

subsection \<open>The serializer and the parser\<close>

definition serialize_token :: "header \<Rightarrow> bytes \<Rightarrow> bytes \<Rightarrow> sdk_error + bytes" where
  "serialize_token h pl sig =
     (let plLen = length pl in
      writes
        [(0, be_enc 4 MAGIC),
         (4, be_enc 2 VERSION),
         (6, [word_of_int (h_suite h)]),
         (7, [word_of_int (h_type h)]),
         (8, write_uint64_be (h_issued h)),
         (16, u32 (h_ttl h)),
         (20, h_nonce h),
         (52, h_fp h),
         (84, u32 (int plLen)),
         (88, pl),
         (88 + plLen, write_uint64_be (h_ctr h)),
         (96 + plLen, sig)]
        (replicate (88 + plLen + 8 + length sig) 0))"

definition deserialize_token :: "bytes \<Rightarrow> sdk_error + header \<times> bytes \<times> bytes" where
  "deserialize_token d =
     bind_r (get_uint 4 0 d) (\<lambda>magic.
     if magic \<noteq> MAGIC then Inl InvalidMagic else
     bind_r (get_uint 2 4 d) (\<lambda>version.
     if version \<noteq> VERSION then Inl (UnsupportedVersion version) else
     let suite = d ! 6; tokenType = d ! 7 in
     bind_r (read_uint64_be d 8) (\<lambda>issuedAt.
     bind_r (get_uint 4 16 d) (\<lambda>ttl.
     let nonce = slice 20 52 d; deviceFp = slice 52 84 d in
     bind_r (get_uint 4 84 d) (\<lambda>plLen.
     let encPayload = slice 88 (88 + plLen) d in
     bind_r (read_uint64_be d (88 + plLen)) (\<lambda>mutationCtr.
     let signature = drop (96 + plLen) d in
     Inr (\<lparr>h_suite = int (unat suite), h_type = int (unat tokenType), h_issued = issuedAt,
           h_ttl = int ttl, h_nonce = nonce, h_fp = deviceFp, h_ctr = mutationCtr\<rparr>,
          encPayload, signature)))))))"

definition signed_bytes :: "header \<Rightarrow> bytes \<Rightarrow> sdk_error + bytes" where
  "signed_bytes h pl =
     bind_r (serialize_token h pl []) (\<lambda>buf. Inr (slice 0 (96 + length pl) buf))"

subsection \<open>The layout\<close>

fun contiguous :: "nat \<Rightarrow> (nat \<times> bytes) list \<Rightarrow> bool" where
  "contiguous p [] = True"
| "contiguous p ((i, bs) # ws) = (i = p \<and> contiguous (p + length bs) ws)"

lemma writes_fill:
  "contiguous (length pre) ws \<Longrightarrow> length (concat (map snd ws)) \<le> k \<Longrightarrow>
   writes ws (pre @ replicate k 0) =
     Inr (pre @ concat (map snd ws) @ replicate (k - length (concat (map snd ws))) 0)"
proof (induction ws arbitrary: pre k)
  case Nil
  then show ?case by simp
next
  case (Cons w ws)
  obtain i bs where w: "w = (i, bs)" by force
  have "write_at i bs (pre @ replicate k 0) = Inr ((pre @ bs) @ replicate (k - length bs) 0)"
    using Cons.prems by (simp add: w write_at_def)
  then show ?case
    using Cons.IH [of "pre @ bs" "k - length bs"] Cons.prems by (simp add: w)
qed

lemma length_u32 [simp, bytes_simps]: "length (u32 v) = 4"
  by (simp add: u32_def)

lemma length_u64 [simp, bytes_simps]: "length (write_uint64_be v) = 8"
  by (simp add: write_uint64_be_def)

definition signed_layout :: "header \<Rightarrow> bytes \<Rightarrow> bytes" where
  "signed_layout h pl =
     be_enc 4 MAGIC @ be_enc 2 VERSION @ [word_of_int (h_suite h), word_of_int (h_type h)] @
     write_uint64_be (h_issued h) @ u32 (h_ttl h) @ h_nonce h @ h_fp h @ u32 (int (length pl)) @
     pl @ write_uint64_be (h_ctr h)"

definition wf_header :: "header \<Rightarrow> bool" where
  "wf_header h \<longleftrightarrow> length (h_nonce h) = 32 \<and> length (h_fp h) = 32"

lemma length_signed_layout [simp, bytes_simps]:
  "wf_header h \<Longrightarrow> length (signed_layout h pl) = 96 + length pl"
  by (simp add: signed_layout_def wf_header_def)

lemma serialize_layout:
  assumes "wf_header h"
  shows "serialize_token h pl sig = Inr (signed_layout h pl @ sig)"
  unfolding serialize_token_def Let_def
  using assms writes_fill [of "[]" _ "88 + length pl + 8 + length sig", simplified]
  by (subst writes_fill [of "[]", simplified])
    (simp_all add: signed_layout_def wf_header_def)

lemma signed_bytes_layout:
  "wf_header h \<Longrightarrow> signed_bytes h pl = Inr (signed_layout h pl)"
  by (simp add: signed_bytes_def serialize_layout)

subsection \<open>Reading back\<close>

definition fits :: "header \<Rightarrow> bytes \<Rightarrow> bool" where
  "fits h pl \<longleftrightarrow> wf_header h \<and>
     0 \<le> h_suite h \<and> h_suite h < 2 ^ 8 \<and> 0 \<le> h_type h \<and> h_type h < 2 ^ 8 \<and>
     0 \<le> h_issued h \<and> h_issued h < 2 ^ 64 \<and> 0 \<le> h_ttl h \<and> h_ttl h < 2 ^ 32 \<and>
     0 \<le> h_ctr h \<and> h_ctr h < 2 ^ 64 \<and> length pl < 2 ^ 32"

lemma be_dec_u32 [bytes_simps]: "0 \<le> v \<Longrightarrow> v < 2 ^ 32 \<Longrightarrow> int (be_dec (u32 v)) = v"
  by (simp add: u32_def be_dec_enc nat_less_iff)

lemma be_dec_u32_mod [bytes_simps]: "int (be_dec (u32 v)) = v mod 2 ^ 32"
  by (simp add: u32_def be_dec_enc nat_less_iff)

lemma u32_be_dec: "length bs = 4 \<Longrightarrow> u32 (int (be_dec bs)) = bs"
  using be_enc_dec [of bs] be_dec_bound [of bs] by (simp add: u32_def nat_mod_distrib)

lemma get_uint_app:
  assumes "length pre = i" "length bs = n"
  shows "get_uint n i (pre @ bs @ rest) = Inr (be_dec bs)"
  using assms by (simp add: get_uint_def slice_def)

lemma read_uint64_app:
  assumes "length pre = i"
  shows "read_uint64_be (pre @ write_uint64_be v @ rest) i = Inr (v mod 2 ^ 64)"
proof -
  have 1: "get_uint 4 i (pre @ u32 (v div 2 ^ 32) @ u32 v @ rest) = Inr (be_dec (u32 (v div 2 ^ 32)))"
    using assms by (intro get_uint_app) simp_all
  have 2: "get_uint 4 (i + 4) ((pre @ u32 (v div 2 ^ 32)) @ u32 v @ rest) = Inr (be_dec (u32 v))"
    using assms by (intro get_uint_app) simp_all
  have "v div 2 ^ 32 mod 2 ^ 32 * 2 ^ 32 + v mod 2 ^ 32 = v mod (2 ^ 32 * 2 ^ 32)"
    by (subst zmod_zmult2_eq) (simp_all add: mult.commute)
  then show ?thesis using 1 2 be_dec_u32_mod [of "v div 2 ^ 32"] be_dec_u32_mod [of v]
    by (simp add: read_uint64_be_def write_uint64_be_def)
qed

lemma slice_app: "length pre = i \<Longrightarrow> length bs = j - i \<Longrightarrow> i \<le> j \<Longrightarrow> slice i j (pre @ bs @ rest) = bs"
  by (simp add: slice_def)

lemma deserialize_layout:
  assumes "fits h pl"
  shows "deserialize_token (signed_layout h pl @ sig) = Inr (h, pl, sig)"
proof -
  define M V where "M = be_enc 4 MAGIC" and "V = be_enc 2 VERSION"
  define S T where "S = (word_of_int (h_suite h) :: byte)" and "T = (word_of_int (h_type h) :: byte)"
  define A L where "A = write_uint64_be (h_issued h)" and "L = u32 (h_ttl h)"
  define N F where "N = h_nonce h" and "F = h_fp h"
  define B C where "B = u32 (int (length pl))" and "C = write_uint64_be (h_ctr h)"
  define P where "P = M @ V @ [S, T]"
  note parts = M_def V_def S_def T_def A_def L_def N_def F_def B_def C_def P_def
  have len: "length M = 4" "length V = 2" "length A = 8" "length L = 4" "length N = 32" "length F = 32"
    "length B = 4" "length C = 8" "length P = 8"
    using assms by (simp_all add: parts fits_def wf_header_def)
  define d where "d = P @ A @ L @ N @ F @ B @ pl @ C @ sig"
  have d: "signed_layout h pl @ sig = d"
    by (simp add: d_def signed_layout_def parts)
  have r: "get_uint 4 0 d = Inr (be_dec M)" "get_uint 2 4 d = Inr (be_dec V)" "d ! 6 = S" "d ! 7 = T"
    "read_uint64_be d 8 = Inr (h_issued h mod 2 ^ 64)" "get_uint 4 16 d = Inr (be_dec L)"
    "slice 20 52 d = N" "slice 52 84 d = F" "get_uint 4 84 d = Inr (be_dec B)"
    "slice 88 (88 + length pl) d = pl" "read_uint64_be d (88 + length pl) = Inr (h_ctr h mod 2 ^ 64)"
    using len get_uint_app [of "[]" 0 M 4] get_uint_app [of M 4 V 2]
      read_uint64_app [of P 8 "h_issued h", folded A_def] get_uint_app [of "P @ A" 16 L 4]
      slice_app [of "P @ A @ L" 20 N 52] slice_app [of "P @ A @ L @ N" 52 F 84]
      get_uint_app [of "P @ A @ L @ N @ F" 84 B 4]
      slice_app [of "P @ A @ L @ N @ F @ B" 88 pl "88 + length pl"]
      read_uint64_app [of "P @ A @ L @ N @ F @ B @ pl" "88 + length pl" "h_ctr h", folded C_def]
    by (simp_all add: d_def P_def nth_append)
  have "d = (P @ A @ L @ N @ F @ B @ pl @ C) @ sig"
    "length (P @ A @ L @ N @ F @ B @ pl @ C) = 96 + length pl" using len by (simp_all add: d_def)
  then have s: "drop (96 + length pl) d = sig" by (metis append_eq_conv_conj)
  have v: "be_dec M = MAGIC" "be_dec V = VERSION" "be_dec B = length pl" "int (be_dec L) = h_ttl h"
    "int (unat S) = h_suite h" "int (unat T) = h_type h"
    using assms by (simp_all add: parts MAGIC_def VERSION_def be_dec_enc u32_def fits_def nat_less_iff
        unat_eq_nat_uint uint_word_of_int)
  show ?thesis
    unfolding d deserialize_token_def Let_def r v bind_r_simps using assms r s v
    by (simp add: N_def F_def fits_def)
qed

lemma serialize_deserialize:
  assumes "fits h pl" "serialize_token h pl sig = Inr d"
  shows "deserialize_token d = Inr (h, pl, sig)"
  using assms deserialize_layout [OF assms(1), of sig] serialize_layout [of h pl sig]
  by (simp add: fits_def)

text \<open>What a parse that succeeds says about the data: it is exactly what the serializer writes.\<close>

lemma get_uint_Inr: "get_uint n i d = Inr v \<longleftrightarrow> i + n \<le> length d \<and> v = be_dec (slice i (i + n) d)"
  by (auto simp: get_uint_def)

lemma be_enc_slice: "i + n \<le> length d \<Longrightarrow> be_enc n (be_dec (slice i (i + n) d)) = slice i (i + n) d"
  using be_enc_dec [of "slice i (i + n) d"] by (simp add: min_def split: if_splits)

lemma read_uint64_Inr:
  assumes "read_uint64_be d i = Inr v"
  shows "i + 8 \<le> length d" "write_uint64_be v = slice i (i + 8) d" "0 \<le> v" "v < 2 ^ 64"
proof -
  from assms obtain hi lo where r: "get_uint 4 i d = Inr hi" "get_uint 4 (i + 4) d = Inr lo"
    "v = int hi * 2 ^ 32 + int lo"
    by (auto simp: read_uint64_be_def bind_r_eq_Inr)
  then have len: "i + 8 \<le> length d" by (simp add: get_uint_Inr)
  have hi: "hi = be_dec (slice i (i + 4) d)" and lo: "lo = be_dec (slice (i + 4) (i + 8) d)"
    using r by (simp_all add: get_uint_Inr add.commute)
  have b: "hi < 2 ^ 32" "lo < 2 ^ 32"
    using be_dec_bound [of "slice i (i + 4) d"] be_dec_bound [of "slice (i + 4) (i + 8) d"] len
    by (simp_all add: hi lo)
  have "v div 2 ^ 32 = int hi" "v mod 2 ^ 32 = int lo" using b r(3) by simp_all
  then have "write_uint64_be v = be_enc 4 hi @ be_enc 4 lo"
    using b by (simp add: write_uint64_be_def u32_def nat_mod_distrib)
  also have "\<dots> = slice i (i + 4) d @ slice (i + 4) (i + 8) d"
    using be_enc_slice [of i 4 d] be_enc_slice [of "i + 4" 4 d] len by (simp add: hi lo add.commute)
  finally show "write_uint64_be v = slice i (i + 8) d" by (simp add: slice_join)
  show "i + 8 \<le> length d" by (fact len)
  show "0 \<le> v" "v < 2 ^ 64" using b r(3) by simp_all
qed

lemma two_bytes: "i + 2 \<le> length d \<Longrightarrow> slice i (i + 2) d = [d ! i, d ! (i + 1)]"
  by (rule nth_equalityI) (auto simp: slice_def less_Suc_eq numeral_2_eq_2)

lemma deserialize_Inr:
  assumes "deserialize_token d = Inr (h, pl, sig)"
  obtains plLen where
    "96 + plLen \<le> length d" "plLen = be_dec (slice 84 88 d)"
    "slice 0 4 d = be_enc 4 MAGIC" "slice 4 6 d = be_enc 2 VERSION"
    "h_suite h = int (unat (d ! 6))" "h_type h = int (unat (d ! 7))"
    "read_uint64_be d 8 = Inr (h_issued h)" "h_ttl h = int (be_dec (slice 16 20 d))"
    "h_nonce h = slice 20 52 d" "h_fp h = slice 52 84 d" "pl = slice 88 (88 + plLen) d"
    "read_uint64_be d (88 + plLen) = Inr (h_ctr h)" "sig = drop (96 + plLen) d"
proof -
  from assms obtain issued ctr where r:
    "get_uint 4 0 d = Inr MAGIC" "get_uint 2 4 d = Inr VERSION" "read_uint64_be d 8 = Inr issued"
    "get_uint 4 16 d = Inr (be_dec (slice 16 20 d))" "get_uint 4 84 d = Inr (be_dec (slice 84 88 d))"
    "read_uint64_be d (88 + be_dec (slice 84 88 d)) = Inr ctr"
    "h = \<lparr>h_suite = int (unat (d ! 6)), h_type = int (unat (d ! 7)), h_issued = issued,
        h_ttl = int (be_dec (slice 16 20 d)), h_nonce = slice 20 52 d, h_fp = slice 52 84 d, h_ctr = ctr\<rparr>"
    "pl = slice 88 (88 + be_dec (slice 84 88 d)) d" "sig = drop (96 + be_dec (slice 84 88 d)) d"
    by (auto simp: deserialize_token_def bind_r_eq_Inr Let_def get_uint_Inr)
  have "96 + be_dec (slice 84 88 d) \<le> length d" using read_uint64_Inr(1) [OF r(6)] by simp
  moreover have "slice 0 4 d = be_enc 4 MAGIC" "slice 4 6 d = be_enc 2 VERSION"
    using r(1,2) be_enc_slice [of 0 4 d] be_enc_slice [of 4 2 d] by (simp_all add: get_uint_Inr)
  ultimately show thesis using r by (intro that) simp_all
qed

lemma uint_byte_lt: "uint (b :: byte) < 256"
  using uint_lt2p [of b] by simp

lemma deserialize_sound:
  assumes "deserialize_token d = Inr (h, pl, sig)"
  shows "fits h pl \<and> d = signed_layout h pl @ sig"
proof -
  from assms obtain n where n:
    "96 + n \<le> length d" "n = be_dec (slice 84 88 d)"
    "slice 0 4 d = be_enc 4 MAGIC" "slice 4 6 d = be_enc 2 VERSION"
    "h_suite h = int (unat (d ! 6))" "h_type h = int (unat (d ! 7))"
    "read_uint64_be d 8 = Inr (h_issued h)" "h_ttl h = int (be_dec (slice 16 20 d))"
    "h_nonce h = slice 20 52 d" "h_fp h = slice 52 84 d" "pl = slice 88 (88 + n) d"
    "read_uint64_be d (88 + n) = Inr (h_ctr h)" "sig = drop (96 + n) d"
    by (rule deserialize_Inr)
  have st: "[word_of_int (h_suite h), word_of_int (h_type h)] = slice 6 8 d"
    using two_bytes [of 6 d] n by simp
  have u: "u32 (h_ttl h) = slice 16 20 d" "length pl = n" "u32 (int n) = slice 84 88 d"
    using n u32_be_dec [of "slice 16 20 d"] u32_be_dec [of "slice 84 88 d"] by simp_all
  have w: "write_uint64_be (h_issued h) = slice 8 16 d"
    "write_uint64_be (h_ctr h) = slice (88 + n) (96 + n) d"
    using read_uint64_Inr(2) [OF n(7)] read_uint64_Inr(2) [OF n(12)] by (simp_all add: add.commute)
  have "signed_layout h pl = slice 0 4 d @ slice 4 6 d @ slice 6 8 d @ slice 8 16 d @ slice 16 20 d @
      slice 20 52 d @ slice 52 84 d @ slice 84 88 d @ slice 88 (88 + n) d @ slice (88 + n) (96 + n) d"
    unfolding signed_layout_def u(2) w u(1,3) using st n(3,4,9,10,11) by simp
  also have "\<dots> = slice 0 (96 + n) d" by (simp add: slice_join)
  finally have lay: "signed_layout h pl = take (96 + n) d" by (simp add: slice_def)
  have b: "be_dec (slice 16 20 d) < 2 ^ 32" "n < 2 ^ 32"
    using be_dec_bound [of "slice 16 20 d"] be_dec_bound [of "slice 84 88 d"] n(1,2) by simp_all
  have "fits h pl"
    unfolding fits_def wf_header_def
    using n b u(2) read_uint64_Inr(3,4) [OF n(7)] read_uint64_Inr(3,4) [OF n(12)]
      uint_byte_lt [of "d ! 6"] uint_byte_lt [of "d ! 7"]
    by simp
  then show ?thesis using lay n(13) by simp
qed

text \<open>The parser and the serializer are inverse, and the signed bytes are all the bytes in front of
  the signature, as they were received.\<close>

lemma deserialize_serialize:
  "deserialize_token d = Inr (h, pl, sig) \<Longrightarrow> serialize_token h pl sig = Inr d"
  using deserialize_sound [of d h pl sig] serialize_layout [of h pl sig] by (simp add: fits_def)

lemma deserialize_iff:
  "deserialize_token d = Inr (h, pl, sig) \<longleftrightarrow> fits h pl \<and> serialize_token h pl sig = Inr d"
  using deserialize_sound deserialize_serialize serialize_deserialize by blast

lemma signed_bytes_received:
  assumes "deserialize_token d = Inr (h, pl, sig)"
  shows "signed_bytes h pl = Inr (take (96 + length pl) d) \<and> drop (96 + length pl) d = sig"
proof -
  from assms have f: "wf_header h" "d = signed_layout h pl @ sig"
    using deserialize_sound by (auto simp: fits_def)
  then have "length (signed_layout h pl) = 96 + length pl" by simp
  with f show ?thesis by (simp add: signed_bytes_layout)
qed

lemma deserialize_total:
  "(\<exists>e. deserialize_token d = Inl e) \<or> (\<exists>h pl sig. deserialize_token d = Inr (h, pl, sig))"
  by (cases "deserialize_token d") auto

lemma deserialize_short: "length d < 96 \<Longrightarrow> \<exists>e. deserialize_token d = Inl e"
  using deserialize_sound [of d] by (cases "deserialize_token d") (fastforce simp: fits_def)+

lemma certify_entropy_32:
  assumes "length d = 32"
  shows "certify_entropy d = Inr () \<longleftrightarrow> 25 \<le> card (set (entropy_windows d))"
proof -
  have "20 * c < 17 * (29 :: nat) \<longleftrightarrow> \<not> 25 \<le> c" for c by presburger
  with assms show ?thesis by (simp add: certify_entropy_def Let_def length_remdups_card_conv)
qed

lemma distinct_entropy:
  assumes "distinct d"
  shows "certify_entropy d = Inr ()"
proof -
  have "inj_on (\<lambda>i. be_dec (slice i (i + 4) d)) {0..<length d - 3}"
  proof (rule inj_onI)
    fix i j assume ij: "i \<in> {0..<length d - 3}" "j \<in> {0..<length d - 3}"
      and e: "be_dec (slice i (i + 4) d) = be_dec (slice j (j + 4) d)"
    then have "slice i (i + 4) d = slice j (j + 4) d" by (intro be_dec_inj) auto
    then have "slice i (i + 4) d ! 0 = slice j (j + 4) d ! 0" by simp
    then have "d ! i = d ! j" using ij by (simp add: slice_def)
    then show "i = j" using assms ij by (simp add: nth_eq_iff_index_eq)
  qed
  then have "distinct (entropy_windows d)" by (simp add: entropy_windows_def distinct_map)
  then have "length (remdups (entropy_windows d)) = length d - 3"
    by (simp add: distinct_remdups_id) (simp add: entropy_windows_def)
  then show ?thesis by (simp add: certify_entropy_def Let_def)
qed

end
