(* ===== verification/Utf8.thy ===== *)
theory Utf8
  imports Sdk_Base
begin

section \<open>UTF-8: \<open>TextEncoder\<close> and \<open>TextDecoder\<close>\<close>

text \<open>
  The claims of a token are text, so their encoding rests on the two classes of the language's
  Encoding standard. The encoder turns UTF-16 code units into scalar values (a lone surrogate
  becomes U+FFFD) and those into bytes; the decoder is the state machine of the standard, with its
  replacement characters, and drops a leading byte order mark.
\<close>

definition is_high :: "16 word \<Rightarrow> bool" where
  "is_high u \<longleftrightarrow> 0xD800 \<le> unat u \<and> unat u \<le> 0xDBFF"

definition is_low :: "16 word \<Rightarrow> bool" where
  "is_low u \<longleftrightarrow> 0xDC00 \<le> unat u \<and> unat u \<le> 0xDFFF"

definition join_pair :: "16 word \<Rightarrow> 16 word \<Rightarrow> nat" where
  "join_pair u v = 0x10000 + (unat u - 0xD800) * 0x400 + (unat v - 0xDC00)"

fun scalars :: "jsstr \<Rightarrow> nat list" where
  "scalars [] = []"
| "scalars [u] = [if is_high u \<or> is_low u then 0xFFFD else unat u]"
| "scalars (u # v # us) =
     (if is_high u \<and> is_low v then join_pair u v # scalars us
      else (if is_high u \<or> is_low u then 0xFFFD else unat u) # scalars (v # us))"

definition units_of :: "nat \<Rightarrow> jsstr" where
  "units_of c = (if c < 0x10000 then [word_of_nat c]
     else [word_of_nat (0xD800 + (c - 0x10000) div 0x400),
           word_of_nat (0xDC00 + (c - 0x10000) mod 0x400)])"

definition enc_scalar :: "nat \<Rightarrow> bytes" where
  "enc_scalar c =
     map word_of_nat
      (if c < 0x80 then [c]
       else if c < 0x800 then [0xC0 + c div 64, 0x80 + c mod 64]
       else if c < 0x10000 then [0xE0 + c div 4096, 0x80 + c div 64 mod 64, 0x80 + c mod 64]
       else [0xF0 + c div 262144, 0x80 + c div 4096 mod 64, 0x80 + c div 64 mod 64, 0x80 + c mod 64])"

definition utf8_encode :: "jsstr \<Rightarrow> bytes" where
  "utf8_encode s = concat (map enc_scalar (scalars s))"

text \<open>
  The decoder's state: the code point so far, the continuation bytes still needed, and the bounds
  of the next one. A byte out of bounds emits U+FFFD and is read again as a first byte.
\<close>

function utf8_run :: "nat \<Rightarrow> nat \<Rightarrow> nat \<Rightarrow> nat \<Rightarrow> bytes \<Rightarrow> nat list" where
  "utf8_run cp need lo hi [] = (if need = 0 then [] else [0xFFFD])"
| "utf8_run cp need lo hi (b # bs) =
     (let n = unat b in
      if need = 0 then
        (if n < 0x80 then n # utf8_run 0 0 0x80 0xBF bs
         else if 0xC2 \<le> n \<and> n \<le> 0xDF then utf8_run (n - 0xC0) 1 0x80 0xBF bs
         else if 0xE0 \<le> n \<and> n \<le> 0xEF then
           utf8_run (n - 0xE0) 2 (if n = 0xE0 then 0xA0 else 0x80) (if n = 0xED then 0x9F else 0xBF) bs
         else if 0xF0 \<le> n \<and> n \<le> 0xF4 then
           utf8_run (n - 0xF0) 3 (if n = 0xF0 then 0x90 else 0x80) (if n = 0xF4 then 0x8F else 0xBF) bs
         else 0xFFFD # utf8_run 0 0 0x80 0xBF bs)
      else if lo \<le> n \<and> n \<le> hi then
        (if need = 1 then (cp * 64 + (n - 0x80)) # utf8_run 0 0 0x80 0xBF bs
         else utf8_run (cp * 64 + (n - 0x80)) (need - 1) 0x80 0xBF bs)
      else 0xFFFD # utf8_run 0 0 0x80 0xBF (b # bs))"
  by pat_completeness auto
termination
  by (relation "measure (\<lambda>(cp, need, lo, hi, bs). 2 * length bs + (if need = 0 then 0 else 1))") auto

definition utf8_bom :: bytes where
  "utf8_bom = [0xEF, 0xBB, 0xBF]"

definition utf8_decode :: "bytes \<Rightarrow> jsstr" where
  "utf8_decode bs =
     concat (map units_of (utf8_run 0 0 0x80 0xBF (if take 3 bs = utf8_bom then drop 3 bs else bs)))"

subsection \<open>Round trip\<close>

definition valid_scalar :: "nat \<Rightarrow> bool" where
  "valid_scalar c \<longleftrightarrow> c < 0x110000 \<and> \<not> (0xD800 \<le> c \<and> c \<le> 0xDFFF)"

text \<open>A string without lone surrogates (\<open>isWellFormed\<close>), not starting with U+FEFF.\<close>

fun well_formed :: "jsstr \<Rightarrow> bool" where
  "well_formed [] = True"
| "well_formed [u] = (\<not> is_high u \<and> \<not> is_low u)"
| "well_formed (u # v # us) =
     (if is_high u \<and> is_low v then well_formed us
      else \<not> is_high u \<and> \<not> is_low u \<and> well_formed (v # us))"

definition clean_text :: "jsstr \<Rightarrow> bool" where
  "clean_text s \<longleftrightarrow> well_formed s \<and> (s = [] \<or> hd s \<noteq> 0xFEFF)"

lemma unat_unit_lt [simp]: "unat (u :: 16 word) < 65536"
  using unsigned_less [of u] by simp

lemma scalars_valid: "c \<in> set (scalars s) \<Longrightarrow> valid_scalar c"
proof (induction s rule: scalars.induct)
  case (2 u)
  have "unat u < 65536" by simp
  then have "unat u < 0x110000" by linarith
  with 2 show ?case by (auto simp: valid_scalar_def is_high_def is_low_def split: if_splits)
next
  case (3 u v us)
  have "unat u < 65536" by simp
  then have "unat u < 0x110000" by linarith
  moreover have "is_high u \<Longrightarrow> is_low v \<Longrightarrow> valid_scalar (join_pair u v)"
    by (auto simp: valid_scalar_def join_pair_def is_high_def is_low_def)
  ultimately show ?case
    using 3 by (auto simp: valid_scalar_def is_high_def is_low_def split: if_splits)
qed simp

lemma word_unat_self: "word_of_nat (unat u) = u"
  by simp

lemma units_of_unit: "units_of (unat u) = [u]" for u :: "16 word"
  by (simp add: units_of_def)

lemma units_of_pair:
  assumes "is_high u" "is_low v"
  shows "units_of (join_pair u v) = [u, v]"
proof -
  define a b where "a = unat u - 0xD800" and "b = unat v - 0xDC00"
  then have ab: "unat u = 0xD800 + a" "unat v = 0xDC00 + b" "a < 0x400" "b < 0x400"
    using assms by (auto simp: is_high_def is_low_def)
  have "units_of (join_pair u v) = [word_of_nat (0xD800 + a), word_of_nat (0xDC00 + b)]"
    unfolding units_of_def join_pair_def ab using ab(3,4) by (simp del: of_nat_add)
  then show ?thesis by (simp only: ab(1,2) [symmetric] word_unat_self)
qed

lemma units_scalars: "well_formed s \<Longrightarrow> concat (map units_of (scalars s)) = s"
  by (induction s rule: scalars.induct) (auto simp: units_of_unit units_of_pair split: if_splits)

text \<open>The four lengths of an encoded scalar, each a run of the decoder back to its first state.\<close>

lemma utf8_run_1:
  "unat b < 0x80 \<Longrightarrow> utf8_run 0 0 0x80 0xBF (b # bs) = unat b # utf8_run 0 0 0x80 0xBF bs"
  by (simp add: Let_def)

lemma utf8_run_2:
  assumes "unat b = 0xC0 + h" "2 \<le> h" "h < 32" "unat b1 = 0x80 + l" "l < 64"
  shows "utf8_run 0 0 0x80 0xBF (b # b1 # bs) = (h * 64 + l) # utf8_run 0 0 0x80 0xBF bs"
  using assms by (simp add: Let_def)

lemma utf8_run_3:
  assumes "unat b = 0xE0 + q" "q < 16" "unat b1 = 0x80 + m" "m < 64" "unat b2 = 0x80 + l" "l < 64"
    and "q = 0 \<Longrightarrow> 0x20 \<le> m" "q = 13 \<Longrightarrow> m \<le> 0x1F"
  shows "utf8_run 0 0 0x80 0xBF (b # b1 # b2 # bs) =
    ((q * 64 + m) * 64 + l) # utf8_run 0 0 0x80 0xBF bs"
  using assms by (simp add: Let_def)

lemma utf8_run_4:
  assumes "unat b = 0xF0 + q" "q < 5" "unat b1 = 0x80 + k" "k < 64" "unat b2 = 0x80 + m" "m < 64"
    "unat b3 = 0x80 + l" "l < 64" and "q = 0 \<Longrightarrow> 0x10 \<le> k" "q = 4 \<Longrightarrow> k \<le> 0xF"
  shows "utf8_run 0 0 0x80 0xBF (b # b1 # b2 # b3 # bs) =
    (((q * 64 + k) * 64 + m) * 64 + l) # utf8_run 0 0 0x80 0xBF bs"
  using assms by (simp add: Let_def)

lemma unat_byte_small: "n < 256 \<Longrightarrow> unat (word_of_nat n :: byte) = n"
  by (simp add: unat_byte_of_nat)

lemma utf8_run_scalar:
  assumes "valid_scalar c"
  shows "utf8_run 0 0 0x80 0xBF (enc_scalar c @ bs) = c # utf8_run 0 0 0x80 0xBF bs"
proof -
  define l m k where "l = c mod 64" and "m = c div 64 mod 64" and "k = c div 4096 mod 64"
  have lt: "l < 64" "m < 64" "k < 64" by (simp_all add: l_def m_def k_def)
  have d: "c = c div 64 * 64 + l" "c div 64 = c div 4096 * 64 + m"
    "c div 4096 = c div 262144 * 64 + k"
    using div_mult_mod_eq [of c 64] div_mult_mod_eq [of "c div 64" 64]
      div_mult_mod_eq [of "c div 4096" 64]
    by (simp_all add: l_def m_def k_def div_mult2_eq [of c 64 64, simplified]
        div_mult2_eq [of c 4096 64, simplified])
  consider "c < 0x80" | "0x80 \<le> c" "c < 0x800" | "0x800 \<le> c" "c < 0x10000" | "0x10000 \<le> c"
    by linarith
  then show ?thesis
  proof cases
    case 1
    then show ?thesis
      using utf8_run_1 [of "word_of_nat c" bs] by (simp add: enc_scalar_def unat_byte_of_nat)
  next
    case 2
    define h where "h = c div 64"
    have h: "2 \<le> h" "h < 32" "c = h * 64 + l" using 2 d lt by (auto simp: h_def)
    have "enc_scalar c = [word_of_nat (0xC0 + h), word_of_nat (0x80 + l)]"
      unfolding enc_scalar_def h_def l_def using 2 by (simp del: of_nat_add)
    then show ?thesis
      using utf8_run_2 [OF unat_byte_small h(1,2) unat_byte_small lt(1), of bs] h lt by simp
  next
    case 3
    define q where "q = c div 4096"
    have q: "c = (q * 64 + m) * 64 + l" using d by (simp add: q_def)
    have b: "q < 16" "q = 0 \<Longrightarrow> 0x20 \<le> m" "q = 13 \<Longrightarrow> m \<le> 0x1F"
      using q 3 assms lt by (auto simp: valid_scalar_def)
    have "enc_scalar c = [word_of_nat (0xE0 + q), word_of_nat (0x80 + m), word_of_nat (0x80 + l)]"
      unfolding enc_scalar_def q_def m_def l_def using 3 by (simp del: of_nat_add)
    then show ?thesis
      using utf8_run_3 [OF unat_byte_small b(1) unat_byte_small lt(2) unat_byte_small lt(1) b(2,3), of bs]
        q b(1) lt by simp
  next
    case 4
    define q where "q = c div 262144"
    have q: "c = ((q * 64 + k) * 64 + m) * 64 + l" using d by (simp add: q_def)
    have b: "q < 5" "q = 0 \<Longrightarrow> 0x10 \<le> k" "q = 4 \<Longrightarrow> k \<le> 0xF"
      using q 4 assms lt by (auto simp: valid_scalar_def)
    have "enc_scalar c = [word_of_nat (0xF0 + q), word_of_nat (0x80 + k), word_of_nat (0x80 + m),
        word_of_nat (0x80 + l)]"
      unfolding enc_scalar_def q_def k_def m_def l_def using 4 by (simp del: of_nat_add)
    then show ?thesis
      using utf8_run_4 [OF unat_byte_small b(1) unat_byte_small lt(3) unat_byte_small lt(2)
          unat_byte_small lt(1) b(2,3), of bs] q b(1) lt by simp
  qed
qed

lemma utf8_run_scalars:
  "\<forall>c \<in> set cs. valid_scalar c \<Longrightarrow> utf8_run 0 0 0x80 0xBF (concat (map enc_scalar cs)) = cs"
  by (induction cs) (simp_all add: utf8_run_scalar)

lemma utf8_run_bom: "utf8_run 0 0 0x80 0xBF (utf8_bom @ bs) = 0xFEFF # utf8_run 0 0 0x80 0xBF bs"
  by (simp add: utf8_bom_def Let_def)

lemma no_bom:
  assumes "clean_text s"
  shows "take 3 (utf8_encode s) \<noteq> utf8_bom"
proof
  assume "take 3 (utf8_encode s) = utf8_bom"
  then have "utf8_encode s = utf8_bom @ drop 3 (utf8_encode s)" by (metis append_take_drop_id)
  then have "utf8_run 0 0 0x80 0xBF (utf8_encode s) =
      0xFEFF # utf8_run 0 0 0x80 0xBF (drop 3 (utf8_encode s))"
    using utf8_run_bom by metis
  then have "\<exists>cs. scalars s = 0xFEFF # cs"
    using utf8_run_scalars [of "scalars s"] scalars_valid by (auto simp: utf8_encode_def)
  then obtain cs where cs: "scalars s = 0xFEFF # cs" by blast
  have "concat (map units_of (scalars s)) = s"
    using assms by (simp add: units_scalars clean_text_def)
  then have "s = 0xFEFF # concat (map units_of cs)"
    by (simp add: cs units_of_def)
  then have "s \<noteq> []" "hd s = 0xFEFF" by (metis list.distinct(1), metis list.sel(1))
  then show False using assms by (simp add: clean_text_def)
qed

lemma utf8_roundtrip: "clean_text s \<Longrightarrow> utf8_decode (utf8_encode s) = s"
  using no_bom [of s] utf8_run_scalars [of "scalars s"] scalars_valid [of _ s] units_scalars [of s]
  by (auto simp: utf8_decode_def utf8_encode_def clean_text_def)

lemma utf8_bom_lost:
  assumes "well_formed s"
  shows "utf8_decode (utf8_encode (0xFEFF # s)) = s"
proof -
  have sc: "scalars (0xFEFF # s) = 0xFEFF # scalars s"
    by (cases s) (simp_all add: is_high_def is_low_def)
  have "utf8_encode (0xFEFF # s) = utf8_bom @ utf8_encode s"
    by (simp add: utf8_encode_def sc) (simp add: enc_scalar_def utf8_bom_def)
  then show ?thesis
    using utf8_run_scalars [of "scalars s"] scalars_valid [of _ s] units_scalars [OF assms]
    by (simp add: utf8_decode_def utf8_bom_def utf8_encode_def)
qed

subsection \<open>ASCII text and lengths\<close>

lemma length_scalars: "length (scalars s) \<le> length s"
  by (induction s rule: scalars.induct) auto

lemma length_enc_unit: "c < 0x10000 \<Longrightarrow> length (enc_scalar c) \<le> 3"
  by (simp add: enc_scalar_def)

lemma length_utf8_encode: "length (utf8_encode s) \<le> 3 * length s"
proof (induction s rule: scalars.induct)
  case (2 u)
  have "unat u < 0x10000" using unat_unit_lt [of u] by simp
  then show ?case by (simp add: utf8_encode_def length_enc_unit)
next
  case (3 u v us)
  have u: "unat u < 0x10000" using unat_unit_lt [of u] by simp
  have 4: "length (enc_scalar c) \<le> 4" for c by (simp add: enc_scalar_def)
  show ?case
  proof (cases "is_high u \<and> is_low v")
    case True
    then show ?thesis using 3(1) 4 [of "join_pair u v"] by (simp add: utf8_encode_def)
  next
    case False
    define c where "c = (if is_high u \<or> is_low u then 0xFFFD else unat u)"
    have "length (enc_scalar c) \<le> 3" using u by (intro length_enc_unit) (simp add: c_def)
    moreover have "length (utf8_encode (v # us)) \<le> 3 * length (v # us)" using False by (intro 3(2))
    moreover have "utf8_encode (u # v # us) = enc_scalar c @ utf8_encode (v # us)"
      unfolding utf8_encode_def c_def scalars.simps(3) if_not_P [OF False] by simp
    ultimately show ?thesis by simp
  qed
qed (simp add: utf8_encode_def)

definition ascii :: "string \<Rightarrow> bool" where
  "ascii s \<longleftrightarrow> list_all (\<lambda>c. of_char c < (128 :: nat)) s"

lemma unat_js_char: "unat (word_of_nat (of_char c) :: 16 word) = of_char c"
proof -
  have "(of_char c :: nat) mod 256 < 256" by simp
  then have "(of_char c :: nat) < 65536" by (simp only: of_char_mod_256)
  then show ?thesis by (simp add: unat_of_nat)
qed

lemma ascii_unit:
  assumes "of_char c < (128 :: nat)"
  shows "\<not> is_high (word_of_nat (of_char c))" "\<not> is_low (word_of_nat (of_char c))"
    "(word_of_nat (of_char c) :: 16 word) \<noteq> 0xFEFF"
proof -
  have u: "unat (word_of_nat (of_char c) :: 16 word) < 128" using assms by (simp only: unat_js_char)
  show "\<not> is_high (word_of_nat (of_char c))" "\<not> is_low (word_of_nat (of_char c))"
    using u unfolding is_high_def is_low_def by linarith+
  show "(word_of_nat (of_char c) :: 16 word) \<noteq> 0xFEFF"
  proof
    assume "(word_of_nat (of_char c) :: 16 word) = 0xFEFF"
    then have "unat (word_of_nat (of_char c) :: 16 word) = unat (0xFEFF :: 16 word)" by (simp only:)
    with u show False by simp
  qed
qed

lemma clean_ascii: "ascii s \<Longrightarrow> clean_text (js s)"
proof -
  assume a: "ascii s"
  have "well_formed (js s)" using a
  proof (induction s)
    case (Cons c s)
    then show ?case
      using ascii_unit [of c] by (cases s) (simp_all add: js_def ascii_def)
  qed (simp add: js_def)
  moreover have "s = [] \<or> hd (js s) \<noteq> 0xFEFF"
    using a ascii_unit(3) by (cases s) (simp_all add: js_def ascii_def)
  ultimately show "clean_text (js s)" by (auto simp: clean_text_def js_def)
qed

end
