(* ===== verification/Js_Text.thy ===== *)
theory Js_Text
  imports Prelude
begin

section \<open>Text: the string operations the server uses\<close>

text \<open>
  Header values and environment variables are modelled as \<open>string\<close>, one \<open>char\<close> per UTF-16
  code unit below 256: Node decodes HTTP headers as Latin-1, and every pattern the server matches
  them against is ASCII. The operations are those of the language: \<open>trim\<close>, \<open>split\<close>,
  \<open>startsWith\<close>, \<open>toLowerCase\<close>, \<open>Number(s)\<close>, \<open>parseInt(s, 16)\<close>, \<open>BigInt(s)\<close>. A numeric
  literal is given its exact rational value: the rounding of literals with more than 15 significant
  digits to a double is not modelled.
\<close>

definition code :: "char \<Rightarrow> nat" where
  "code c = of_char c"

definition is_ws :: "char \<Rightarrow> bool" where
  "is_ws c \<longleftrightarrow> code c \<in> {9, 10, 11, 12, 13, 32, 160}"

definition js_trim :: "string \<Rightarrow> string" where
  "js_trim s = rev (dropWhile is_ws (rev (dropWhile is_ws s)))"

text \<open>\<open>s.split(c)\<close> for a one-character separator: always at least one part.\<close>

fun split_on :: "'a \<Rightarrow> 'a list \<Rightarrow> 'a list list" where
  "split_on c [] = [[]]"
| "split_on c (x # xs) =
     (if x = c then [] # split_on c xs
      else (case split_on c xs of [] \<Rightarrow> [[x]] | p # ps \<Rightarrow> (x # p) # ps))"

fun join_with :: "'a list \<Rightarrow> 'a list list \<Rightarrow> 'a list" where
  "join_with sep [] = []"
| "join_with sep [p] = p"
| "join_with sep (p # q # ps) = p @ sep @ join_with sep (q # ps)"

definition starts_with :: "'a list \<Rightarrow> 'a list \<Rightarrow> bool" where
  "starts_with p s \<longleftrightarrow> take (length p) s = p"

definition lower_char :: "char \<Rightarrow> char" where
  "lower_char c = (let k = code c in
     if (65 \<le> k \<and> k \<le> 90) \<or> (192 \<le> k \<and> k \<le> 222 \<and> k \<noteq> 215) then char_of (k + 32) else c)"

definition to_lower :: "string \<Rightarrow> string" where
  "to_lower s = map lower_char s"

lemma split_on_nonempty [simp]: "split_on c s \<noteq> []"
  by (induction s) (auto split: list.splits)

lemma split_on_no_sep: "c \<notin> set s \<Longrightarrow> split_on c s = [s]"
  by (induction s) auto

lemma split_on_Cons_sep: "c \<notin> set p \<Longrightarrow> split_on c (p @ c # s) = p # split_on c s"
  by (induction p) auto

lemma split_join:
  "ps \<noteq> [] \<Longrightarrow> \<forall>p \<in> set ps. c \<notin> set p \<Longrightarrow> split_on c (join_with [c] ps) = ps"
  by (induction "[c]" ps rule: join_with.induct) (auto simp: split_on_no_sep split_on_Cons_sep)

lemma split_on_parts: "p \<in> set (split_on c s) \<Longrightarrow> c \<notin> set p"
  by (induction s arbitrary: p) (auto split: list.splits if_splits)

subsection \<open>Digits\<close>

definition dec_val :: "char \<Rightarrow> nat option" where
  "dec_val c = (if 48 \<le> code c \<and> code c \<le> 57 then Some (code c - 48) else None)"

definition is_digit :: "char \<Rightarrow> bool" where
  "is_digit c \<longleftrightarrow> dec_val c \<noteq> None"

definition is_hex :: "char \<Rightarrow> bool" where
  "is_hex c \<longleftrightarrow> hex_val c \<noteq> None"

definition digit_char :: "nat \<Rightarrow> char" where
  "digit_char n = char_of (48 + n)"

definition digits_val :: "nat \<Rightarrow> (char \<Rightarrow> nat option) \<Rightarrow> string \<Rightarrow> nat" where
  "digits_val base val s = foldl (\<lambda>acc c. acc * base + (case val c of Some d \<Rightarrow> d | None \<Rightarrow> 0)) 0 s"

fun dec_print :: "nat \<Rightarrow> string" where
  "dec_print n = (if n < 10 then [digit_char n] else dec_print (n div 10) @ [digit_char (n mod 10)])"

declare dec_print.simps [simp del]

lemma dec_val_digit [simp]: "n < 10 \<Longrightarrow> dec_val (digit_char n) = Some n"
  by (simp add: dec_val_def digit_char_def code_def)

lemma is_digit_digit [simp]: "n < 10 \<Longrightarrow> is_digit (digit_char n)"
  by (simp add: is_digit_def)

lemma dec_print_digits: "c \<in> set (dec_print n) \<Longrightarrow> is_digit c"
proof (induction n arbitrary: c rule: dec_print.induct)
  case (1 n)
  then show ?case by (subst (asm) (2) dec_print.simps) (auto split: if_splits)
qed

lemma dec_print_nonempty [simp]: "dec_print n \<noteq> []"
  by (subst dec_print.simps) simp

lemma digits_val_snoc [simp]:
  "digits_val b v (s @ [c]) = digits_val b v s * b + (case v c of Some d \<Rightarrow> d | None \<Rightarrow> 0)"
  by (simp add: digits_val_def)

lemma digits_val_print [simp]: "digits_val 10 dec_val (dec_print n) = n"
proof (induction n rule: dec_print.induct)
  case (1 n)
  show ?case
  proof (cases "n < 10")
    case True
    then show ?thesis by (subst dec_print.simps) (simp add: digits_val_def)
  next
    case False
    with 1 have "digits_val 10 dec_val (dec_print (n div 10)) = n div 10" by simp
    with False show ?thesis by (subst dec_print.simps) simp
  qed
qed

text \<open>
  \<open>BigInt(s)\<close> of the decimal text of an integer, with an optional sign; \<open>None\<close> is the
  SyntaxError. (The other forms \<open>BigInt\<close> accepts, such as hexadecimal, never reach it here.)
\<close>

definition big_of_text :: "string \<Rightarrow> int option" where
  "big_of_text s =
     (case js_trim s of
        [] \<Rightarrow> Some 0
      | c # cs \<Rightarrow>
          if c = CHR ''-'' then
            (if cs \<noteq> [] \<and> list_all is_digit cs then Some (- int (digits_val 10 dec_val cs)) else None)
          else if list_all is_digit (c # cs) then Some (int (digits_val 10 dec_val (c # cs)))
          else None)"

lemma digit_code: "is_digit c \<Longrightarrow> 48 \<le> code c \<and> code c \<le> 57"
  by (simp add: is_digit_def dec_val_def split: if_splits)

lemma digit_ne:
  assumes "is_digit x"
  shows "x \<noteq> CHR ''-''" "x \<noteq> CHR ''+''" "x \<noteq> CHR ''I''" "x \<noteq> CHR ''x''" "x \<noteq> CHR ''X''"
    "x \<noteq> CHR ''o''" "x \<noteq> CHR ''O''" "x \<noteq> CHR ''b''" "x \<noteq> CHR ''B''" "x \<noteq> CHR ''.''"
  using digit_code [OF assms] by (auto simp: code_def)

lemma digit_not_ws: "is_digit c \<Longrightarrow> \<not> is_ws c"
  by (auto simp: is_ws_def dest!: digit_code)

lemma js_trim_id:
  assumes "s = [] \<or> (\<not> is_ws (hd s) \<and> \<not> is_ws (last s))"
  shows "js_trim s = s"
proof -
  have "dropWhile is_ws s = s" "dropWhile is_ws (rev s) = rev s"
    using assms by (auto simp: dropWhile_eq_self_iff hd_rev)
  then show ?thesis by (simp add: js_trim_def)
qed

lemma js_trim_digits: "list_all is_digit s \<Longrightarrow> js_trim s = s"
  by (rule js_trim_id) (cases "s = []", auto simp: list_all_iff digit_not_ws)

lemma dec_print_all: "list_all is_digit (dec_print n)"
  by (auto simp: list_all_iff intro: dec_print_digits)

lemma big_of_dec_print [simp]: "big_of_text (dec_print n) = Some (int n)"
proof -
  obtain c cs where s: "dec_print n = c # cs" by (cases "dec_print n") auto
  then have "c \<noteq> CHR ''-''" using dec_print_digits [of c n] by (auto dest: digit_ne(1))
  with s show ?thesis
    using dec_print_all [of n] digits_val_print [of n]
    by (simp add: big_of_text_def js_trim_digits)
qed

text \<open>\<open>String(n)\<close> of an integer.\<close>

definition int_text :: "int \<Rightarrow> string" where
  "int_text c = (if c < 0 then CHR ''-'' # dec_print (nat (- c)) else dec_print (nat c))"

lemma big_of_int_text [simp]: "0 \<le> c \<Longrightarrow> big_of_text (int_text c) = Some c"
  by (simp add: int_text_def)

subsection \<open>\<open>Number(s)\<close>\<close>

text \<open>
  The decimal literal of the language: an optional sign, digits with an optional fraction and
  exponent, or \<open>Infinity\<close>; the unsigned \<open>0x\<close>, \<open>0o\<close> and \<open>0b\<close> forms; the empty or blank
  text is 0. \<open>NaN\<close> is \<open>None\<close>, the infinities \<open>Some None\<close>.
\<close>

definition exponent_of :: "string \<Rightarrow> int option" where
  "exponent_of s =
     (let (sgn, ds) = (case s of c # cs \<Rightarrow> if c = CHR ''-'' then (- 1, cs)
                                        else if c = CHR ''+'' then (1, cs) else (1 :: int, s)
                                | [] \<Rightarrow> (1, []))
      in if ds \<noteq> [] \<and> list_all is_digit ds then Some (sgn * int (digits_val 10 dec_val ds)) else None)"

definition pow10 :: "int \<Rightarrow> rat" where
  "pow10 e = (if 0 \<le> e then 10 ^ nat e else 1 / 10 ^ nat (- e))"

definition unsigned_literal :: "string \<Rightarrow> rat option option" where
  "unsigned_literal s =
     (if s = ''Infinity'' then Some None
      else let ip = takeWhile is_digit s; r1 = dropWhile is_digit s;
               (fp, r2) = (case r1 of c # cs \<Rightarrow> if c = CHR ''.''
                             then (takeWhile is_digit cs, dropWhile is_digit cs) else ([], r1)
                           | [] \<Rightarrow> ([], []));
               mant = of_nat (digits_val 10 dec_val (ip @ fp)) * pow10 (- int (length fp))
           in if ip = [] \<and> fp = [] then None
              else (case r2 of
                      [] \<Rightarrow> Some (Some mant)
                    | c # cs \<Rightarrow>
                        if c = CHR ''e'' \<or> c = CHR ''E'' then
                          (case exponent_of cs of None \<Rightarrow> None | Some e \<Rightarrow> Some (Some (mant * pow10 e)))
                        else None))"

definition bin_val :: "char \<Rightarrow> nat option" where
  "bin_val c = (case dec_val c of Some d \<Rightarrow> if d < 2 then Some d else None | None \<Rightarrow> None)"

definition oct_val :: "char \<Rightarrow> nat option" where
  "oct_val c = (case dec_val c of Some d \<Rightarrow> if d < 8 then Some d else None | None \<Rightarrow> None)"

definition radix_literal :: "nat \<Rightarrow> (char \<Rightarrow> nat option) \<Rightarrow> string \<Rightarrow> rat option option" where
  "radix_literal base val s =
     (if s \<noteq> [] \<and> list_all (\<lambda>c. val c \<noteq> None) s
      then Some (Some (of_nat (digits_val base val s))) else None)"

definition js_number :: "string \<Rightarrow> rat option option" where
  "js_number s0 =
     (let s = js_trim s0 in
      case s of
        [] \<Rightarrow> Some (Some 0)
      | c # cs \<Rightarrow>
          if c = CHR ''-'' then
            (case unsigned_literal cs of Some (Some r) \<Rightarrow> Some (Some (- r)) | x \<Rightarrow> x)
          else if c = CHR ''+'' then unsigned_literal cs
          else if c = CHR ''0'' \<and> cs \<noteq> [] \<and> (hd cs = CHR ''x'' \<or> hd cs = CHR ''X'') then
            radix_literal 16 hex_val (tl cs)
          else if c = CHR ''0'' \<and> cs \<noteq> [] \<and> (hd cs = CHR ''o'' \<or> hd cs = CHR ''O'') then
            radix_literal 8 oct_val (tl cs)
          else if c = CHR ''0'' \<and> cs \<noteq> [] \<and> (hd cs = CHR ''b'' \<or> hd cs = CHR ''B'') then
            radix_literal 2 bin_val (tl cs)
          else unsigned_literal s)"

text \<open>\<open>Number.isInteger(Number(s))\<close>, with the value.\<close>

definition js_integer :: "string \<Rightarrow> int option" where
  "js_integer s = (case js_number s of
     Some (Some r) \<Rightarrow> if r = of_int \<lfloor>r\<rfloor> then Some \<lfloor>r\<rfloor> else None | _ \<Rightarrow> None)"

lemma takeWhile_all: "list_all P s \<Longrightarrow> takeWhile P s = s \<and> dropWhile P s = []"
  by (induction s) auto

lemma unsigned_literal_digits:
  assumes "list_all is_digit ds" "ds \<noteq> []"
  shows "unsigned_literal ds = Some (Some (of_nat (digits_val 10 dec_val ds)))"
proof -
  have "ds \<noteq> ''Infinity''" using assms(1) digit_ne(3) by (cases ds) auto
  then show ?thesis
    unfolding unsigned_literal_def Let_def takeWhile_all [OF assms(1), THEN conjunct1]
      takeWhile_all [OF assms(1), THEN conjunct2]
    using assms(2) by (simp add: pow10_def)
qed

lemma js_number_digits:
  assumes all: "list_all is_digit ds" and ne: "ds \<noteq> []"
  shows "js_number ds = Some (Some (of_nat (digits_val 10 dec_val ds)))"
proof -
  obtain c cs where s: "ds = c # cs" using ne by (cases ds) auto
  have c: "is_digit c" and cs: "cs \<noteq> [] \<Longrightarrow> is_digit (hd cs)"
    using all s by (auto simp: list_all_iff)
  have "js_number ds = unsigned_literal ds"
    unfolding js_number_def Let_def js_trim_digits [OF all]
    using digit_ne [OF c] digit_ne [OF cs] by (cases "cs = []") (simp_all add: s)
  with unsigned_literal_digits [OF all ne] show ?thesis by simp
qed

lemma js_number_dec_print: "js_number (dec_print n) = Some (Some (of_nat n))"
  using js_number_digits [OF dec_print_all dec_print_nonempty, of n] by simp

lemma js_integer_dec_print [simp]: "js_integer (dec_print n) = Some (int n)"
  by (simp add: js_integer_def js_number_dec_print)

text \<open>\<open>parseInt(s, 16)\<close>: leading blanks, a sign and \<open>0x\<close> are skipped, the longest run of
  hexadecimal digits is read and the rest ignored; \<open>None\<close> is NaN.\<close>

definition strip_0x :: "string \<Rightarrow> string" where
  "strip_0x s = (case s of c # d # cs \<Rightarrow>
     if c = CHR ''0'' \<and> (d = CHR ''x'' \<or> d = CHR ''X'') then cs else s | _ \<Rightarrow> s)"

definition parse_int16 :: "string \<Rightarrow> int option" where
  "parse_int16 s0 =
     (let s = dropWhile is_ws s0;
          (sgn, r) = (case s of c # cs \<Rightarrow> if c = CHR ''-'' then (- 1 :: int, cs)
                                       else if c = CHR ''+'' then (1, cs) else (1, s)
                     | [] \<Rightarrow> (1, []));
          ds = takeWhile is_hex (strip_0x r)
      in if ds = [] then None else Some (sgn * int (digits_val 16 hex_val ds)))"

end
