(* ===== verification/Claims_Codec.thy ===== *)
theory Claims_Codec
  imports Utf8 Js_Text
begin

unbundle bit_operations_syntax

section \<open>Claims as a MessagePack map of strings\<close>

text \<open>
  \<open>encodeClaims\<close>, \<open>decodeClaims\<close>, \<open>encodeStr\<close> and \<open>decodeStr\<close> of
  \<open>qv-sdk/src/index.mjs\<close>. Claims come in as the list of \<open>Object.entries\<close> and come back as a
  finite map (the order of an object's properties is not modelled on the way out). A read past the
  end of the array is \<open>undefined\<close>, not an error, and the position may become NaN; both are \<open>None\<close>.
\<close>

text \<open>\<open>String(v)\<close> of a finite number: decimal for the safe integers, the language's shortest
  notation (a parameter) for the others.\<close>

definition num_text :: "prims \<Rightarrow> rat \<Rightarrow> jsstr" where
  "num_text P q = (if \<lfloor>q\<rfloor> = \<lceil>q\<rceil> \<and> \<bar>\<lfloor>q\<rfloor>\<bar> \<le> 2 ^ 53 then js (int_text \<lfloor>q\<rfloor>) else p_numstr P (Finite q))"

fun claim_text :: "prims \<Rightarrow> jsval \<Rightarrow> jsstr option" where
  "claim_text P (JStr s) = Some s"
| "claim_text P (JNum (Finite q)) = Some (num_text P q)"
| "claim_text P (JBig n) = Some (js (int_text n))"
| "claim_text P (JBool b) = Some (js (if b then ''true'' else ''false''))"
| "claim_text P JNull = Some (js ''null'')"
| "claim_text P _ = None"

definition encode_str :: "jsstr \<Rightarrow> sdk_error + bytes" where
  "encode_str s = (let b = utf8_encode s; n = length b in
     if n \<le> 31 then Inr ((0xA0 OR word_of_nat n) # b)
     else if n \<le> 255 then Inr (0xD9 # word_of_nat n # b)
     else Inl ClaimTooLong)"

fun encode_entries :: "prims \<Rightarrow> (jsstr \<times> jsval) list \<Rightarrow> sdk_error + bytes" where
  "encode_entries P [] = Inr []"
| "encode_entries P ((k, v) # es) =
     (case claim_text P v of
        None \<Rightarrow> Inl (UnsupportedClaim k)
      | Some s \<Rightarrow> bind_r (encode_str k) (\<lambda>bk. bind_r (encode_str s) (\<lambda>bs.
          bind_r (encode_entries P es) (\<lambda>rest. Inr (bk @ bs @ rest)))))"

definition encode_claims :: "prims \<Rightarrow> (jsstr \<times> jsval) list \<Rightarrow> sdk_error + bytes" where
  "encode_claims P es =
     (if 15 < length es then Inl TooManyClaims
      else bind_r (encode_entries P es) (\<lambda>b. Inr ((0x80 OR word_of_nat (length es)) # b)))"

definition byte_at :: "bytes \<Rightarrow> nat option \<Rightarrow> byte option" where
  "byte_at d pos = (case pos of None \<Rightarrow> None | Some p \<Rightarrow> if p < length d then Some (d ! p) else None)"

definition advance_pos :: "nat option \<Rightarrow> nat option \<Rightarrow> nat option" where
  "advance_pos pos n = (case (pos, n) of (Some p, Some k) \<Rightarrow> Some (p + k) | _ \<Rightarrow> None)"

text \<open>\<open>decodeStr\<close> returns the text and the bytes read, which are NaN when the length byte is
  missing; a missing first byte throws a \<open>TypeError\<close> on the way to the message.\<close>

definition decode_str :: "bytes \<Rightarrow> nat option \<Rightarrow> sdk_error + jsstr \<times> nat option" where
  "decode_str d pos =
     (case byte_at d pos of
        None \<Rightarrow> Inl TypeErr
      | Some b0 \<Rightarrow> let p = the pos in
          if b0 AND 0xE0 = 0xA0 then
            let len = unat (b0 AND 0x1F) in Inr (utf8_decode (slice (p + 1) (p + 1 + len) d), Some (1 + len))
          else if b0 = 0xD9 then
            (case byte_at d (Some (p + 1)) of
               None \<Rightarrow> Inr ([], None)
             | Some l \<Rightarrow> let len = unat l in
                 Inr (utf8_decode (slice (p + 2) (p + 2 + len) d), Some (2 + len)))
          else Inl (UnexpectedMsgpack (unat b0)))"

text \<open>\<open>claims[k] = v\<close> on a fresh object: a string assigned to \<open>__proto__\<close> is ignored.\<close>

definition put_claim :: "jsstr \<Rightarrow> jsstr \<Rightarrow> (jsstr \<Rightarrow> jsstr option) \<Rightarrow> (jsstr \<Rightarrow> jsstr option)" where
  "put_claim k v m = (if k = js ''__proto__'' then m else m(k \<mapsto> v))"

fun decode_entries ::
  "nat \<Rightarrow> bytes \<Rightarrow> nat option \<Rightarrow> (jsstr \<Rightarrow> jsstr option) \<Rightarrow> sdk_error + (jsstr \<Rightarrow> jsstr option)" where
  "decode_entries 0 d pos m = Inr m"
| "decode_entries (Suc n) d pos m =
     bind_r (decode_str d pos) (\<lambda>(k, ka). let pos1 = advance_pos pos ka in
     bind_r (decode_str d pos1) (\<lambda>(v, va). let pos2 = advance_pos pos1 va in
       decode_entries n d pos2 (put_claim k v m)))"

definition decode_claims :: "bytes \<Rightarrow> sdk_error + (jsstr \<Rightarrow> jsstr option)" where
  "decode_claims d =
     (case d of [] \<Rightarrow> Inl ExpectedFixmap
      | b # _ \<Rightarrow> if b AND 0xF0 \<noteq> 0x80 then Inl ExpectedFixmap
                 else decode_entries (unat (b AND 0x0F)) d (Some 1) Map.empty)"

subsection \<open>Round trip\<close>

lemma fixstr_bits:
  assumes "n \<le> 31"
  shows "(0xA0 OR word_of_nat n :: byte) AND 0xE0 = 0xA0"
    "unat ((0xA0 OR word_of_nat n :: byte) AND 0x1F) = n"
proof -
  have "list_all (\<lambda>n. (0xA0 OR word_of_nat n :: byte) AND 0xE0 = 0xA0 \<and>
      unat ((0xA0 OR word_of_nat n :: byte) AND 0x1F) = n) [0..<32]" by code_simp
  with assms show "(0xA0 OR word_of_nat n :: byte) AND 0xE0 = 0xA0"
    "unat ((0xA0 OR word_of_nat n :: byte) AND 0x1F) = n"
    by (auto simp: list_all_iff)
qed

lemma fixmap_bits:
  assumes "n \<le> 15"
  shows "(0x80 OR word_of_nat n :: byte) AND 0xF0 = 0x80"
    "unat ((0x80 OR word_of_nat n :: byte) AND 0x0F) = n"
proof -
  have "list_all (\<lambda>n. (0x80 OR word_of_nat n :: byte) AND 0xF0 = 0x80 \<and>
      unat ((0x80 OR word_of_nat n :: byte) AND 0x0F) = n) [0..<16]" by code_simp
  with assms show "(0x80 OR word_of_nat n :: byte) AND 0xF0 = 0x80"
    "unat ((0x80 OR word_of_nat n :: byte) AND 0x0F) = n"
    by (auto simp: list_all_iff)
qed

lemma d9_bits: "(0xD9 :: byte) AND 0xE0 \<noteq> 0xA0"
  by code_simp

lemma decode_encode_str:
  assumes "encode_str s = Inr bs" "clean_text s" "length pre = p"
  shows "decode_str (pre @ bs @ rest) (Some p) = Inr (s, Some (length bs))"
proof -
  let ?b = "utf8_encode s"
  consider "length ?b \<le> 31" "bs = (0xA0 OR word_of_nat (length ?b)) # ?b"
    | "\<not> length ?b \<le> 31" "length ?b \<le> 255" "bs = 0xD9 # word_of_nat (length ?b) # ?b"
    using assms(1) by (auto simp: encode_str_def Let_def split: if_splits)
  then show ?thesis
  proof cases
    case 1
    have "slice (p + 1) (p + 1 + length ?b) (pre @ bs @ rest) = ?b"
      using 1 assms(3) by (simp add: slice_def)
    then show ?thesis
      using 1 assms fixstr_bits [OF 1(1)]
      by (simp add: decode_str_def byte_at_def nth_append utf8_roundtrip)
  next
    case 2
    have "slice (p + 2) (p + 2 + length ?b) (pre @ bs @ rest) = ?b"
      using 2 assms(3) by (simp add: slice_def)
    moreover have "unat (word_of_nat (length ?b) :: byte) = length ?b"
      using 2 by (simp add: unat_byte_of_nat)
    ultimately show ?thesis
      using 2 assms d9_bits
      by (simp add: decode_str_def byte_at_def nth_append utf8_roundtrip Let_def)
  qed
qed

text \<open>The object a list of entries denotes, and the claims the format carries without loss.\<close>

definition claims_map :: "prims \<Rightarrow> (jsstr \<times> jsval) list \<Rightarrow> (jsstr \<Rightarrow> jsstr option)" where
  "claims_map P es = fold (\<lambda>(k, v). put_claim k (the (claim_text P v))) es Map.empty"

definition clean_claims :: "prims \<Rightarrow> (jsstr \<times> jsval) list \<Rightarrow> bool" where
  "clean_claims P es \<longleftrightarrow>
     (\<forall>(k, v) \<in> set es. clean_text k \<and> (\<forall>s. claim_text P v = Some s \<longrightarrow> clean_text s))"

lemma decode_encode_entries:
  assumes "encode_entries P es = Inr bs" "clean_claims P es"
  shows "decode_entries (length es) (pre @ bs @ rest) (Some (length pre)) m =
    Inr (fold (\<lambda>(k, v). put_claim k (the (claim_text P v))) es m)"
  using assms
proof (induction P es arbitrary: bs pre m rule: encode_entries.induct)
  case (1 P)
  then show ?case by simp
next
  case (2 P k v es)
  from 2 obtain s bk bv br where e: "claim_text P v = Some s" "encode_str k = Inr bk"
    "encode_str s = Inr bv" "encode_entries P es = Inr br" "bs = bk @ bv @ br"
    by (auto simp: bind_r_eq_Inr split: option.splits)
  have c: "clean_text k" "clean_text s" "clean_claims P es"
    using 2 e(1) by (auto simp: clean_claims_def)
  have 1: "decode_str (pre @ bs @ rest) (Some (length pre)) = Inr (k, Some (length bk))"
    using decode_encode_str [OF e(2) c(1) refl, of pre "bv @ br @ rest"] by (simp add: e(5))
  have 2: "decode_str (pre @ bs @ rest) (Some (length pre + length bk)) = Inr (s, Some (length bv))"
    using decode_encode_str [OF e(3) c(2) refl, of "pre @ bk" "br @ rest"] by (simp add: e(5))
  show ?case
    using "2.IH" [OF e(1-4) c(3), of "pre @ bk @ bv"] 1 2
    by (simp add: e(1,5) advance_pos_def Let_def add.assoc)
qed

lemma decode_encode_claims:
  assumes "encode_claims P es = Inr bs" "clean_claims P es"
  shows "decode_claims bs = Inr (claims_map P es)"
proof -
  from assms obtain b where b: "encode_entries P es = Inr b"
    "bs = (0x80 OR word_of_nat (length es)) # b" "length es \<le> 15"
    by (auto simp: encode_claims_def bind_r_eq_Inr)
  show ?thesis
    using decode_encode_entries [OF b(1) assms(2), of "[0x80 OR word_of_nat (length es)]" "[]"]
      fixmap_bits [OF b(3)]
    by (simp add: decode_claims_def b(2) claims_map_def)
qed

lemma claims_map_map_of:
  assumes "distinct (map fst es)" "js ''__proto__'' \<notin> set (map fst es)"
  shows "claims_map P es = map_of (map (\<lambda>(k, v). (k, the (claim_text P v))) es)"
proof -
  have "fold (\<lambda>(k, v). put_claim k (the (claim_text P v))) es m =
      m ++ map_of (map (\<lambda>(k, v). (k, the (claim_text P v))) es)" for m
    using assms
  proof (induction es arbitrary: m)
    case (Cons e es)
    obtain k v where e: "e = (k, v)" by force
    have "map_of (map (\<lambda>(k, v). (k, the (claim_text P v))) es) k = None"
      using Cons.prems by (auto simp: map_of_eq_None_iff e image_iff split: prod.splits)
    then show ?case
      using Cons by (auto simp: e put_claim_def fun_eq_iff map_add_def split: option.splits)
  qed simp
  then show ?thesis by (simp add: claims_map_def)
qed

lemma claim_text_kinds: "claim_text P v \<noteq> None \<longleftrightarrow>
    (case v of JNum NonFinite \<Rightarrow> False | JArr _ \<Rightarrow> False | JObj _ \<Rightarrow> False | JOther _ \<Rightarrow> False | _ \<Rightarrow> True)"
proof (cases v)
  case (JNum n)
  then show ?thesis by (cases n) simp_all
qed simp_all

text \<open>When the encoder accepts: at most 15 claims, of primitive values, each text at most 255 bytes.\<close>

definition fits_str :: "jsstr \<Rightarrow> bool" where
  "fits_str s \<longleftrightarrow> length (utf8_encode s) \<le> 255"

definition encodable :: "prims \<Rightarrow> (jsstr \<times> jsval) list \<Rightarrow> bool" where
  "encodable P es \<longleftrightarrow> length es \<le> 15 \<and>
     (\<forall>(k, v) \<in> set es. fits_str k \<and> (\<exists>s. claim_text P v = Some s \<and> fits_str s))"

lemma encode_str_Inr: "(\<exists>b. encode_str s = Inr b) \<longleftrightarrow> fits_str s"
  by (auto simp: encode_str_def fits_str_def Let_def)

lemma encode_entries_Inr:
  "(\<exists>b. encode_entries P es = Inr b) \<longleftrightarrow>
   (\<forall>(k, v) \<in> set es. fits_str k \<and> (\<exists>s. claim_text P v = Some s \<and> fits_str s))"
proof (induction es)
  case (Cons e es)
  obtain k v where e: "e = (k, v)" by force
  show ?case
  proof (cases "claim_text P v")
    case (Some s)
    have "(\<exists>b. encode_entries P (e # es) = Inr b) \<longleftrightarrow>
        (\<exists>b. encode_str k = Inr b) \<and> (\<exists>b. encode_str s = Inr b) \<and> (\<exists>b. encode_entries P es = Inr b)"
      by (auto simp: e Some bind_r_eq_Inr)
    with Cons Some show ?thesis by (simp add: e encode_str_Inr)
  qed (simp add: e)
qed simp

lemma encode_claims_iff: "(\<exists>b. encode_claims P es = Inr b) \<longleftrightarrow> encodable P es"
proof -
  have "(\<exists>b. encode_claims P es = Inr b) \<longleftrightarrow> length es \<le> 15 \<and> (\<exists>b. encode_entries P es = Inr b)"
    by (auto simp: encode_claims_def bind_r_eq_Inr)
  then show ?thesis by (simp add: encode_entries_Inr encodable_def)
qed

lemma fits_short: "length s \<le> 85 \<Longrightarrow> fits_str s"
  using length_utf8_encode [of s] by (simp add: fits_str_def)

lemma ascii_int_text: "ascii (int_text n)"
proof -
  have "ascii (dec_print k)" for k
    using dec_print_digits [of _ k] digit_code by (fastforce simp: ascii_def list_all_iff code_def)
  then show ?thesis by (simp add: int_text_def) (simp add: ascii_def)
qed

lemma clean_claim_literals [simp]:
  "clean_text (js (int_text n))" "clean_text (js ''true'')" "clean_text (js ''false'')"
  "clean_text (js ''null'')"
proof -
  have "ascii ''true''" "ascii ''false''" "ascii ''null''" by (simp_all add: ascii_def)
  then show "clean_text (js (int_text n))" "clean_text (js ''true'')" "clean_text (js ''false'')"
    "clean_text (js ''null'')" by (simp_all add: clean_ascii ascii_int_text)
qed

end
