(* ===== verification/Token.thy ===== *)
theory Token
  imports Wire Claims_Codec
begin

section \<open>Issuing and verifying tokens\<close>

text \<open>
  \<open>issueToken\<close>, \<open>issueTokenAt\<close>, \<open>verifyToken\<close>, \<open>encrypt\<close> and \<open>decrypt\<close> of
  \<open>qv-sdk/src/index.mjs\<close>. The clock and the random nonce are arguments. A call returns the chain
  as it leaves it, next to its value or the error it throws, because both calls mutate the chain in
  the middle of their work: issuing advances it before the claims are encoded, verifying moves it up
  to the counter of the token before the payload is decompressed and decoded.
\<close>

datatype compress = CompressAuto | CompressAlways | CompressNever

record issue_params =
  i_signing_key_seed :: "bytes option"
  i_signing_key :: "bytes option"
  i_encrypt_key :: bytes
  i_claims :: "(jsstr \<times> jsval) list"
  i_ttl :: int
  i_suite :: int
  i_token_type :: int
  i_device_fp :: "bytes option"
  i_compress :: compress

definition PAYLOAD_RAW :: byte where "PAYLOAD_RAW = 0"
definition PAYLOAD_DEFLATE :: byte where "PAYLOAD_DEFLATE = 1"

definition of_opt :: "'e \<Rightarrow> 'a option \<Rightarrow> 'e + 'a" where
  "of_opt e x = (case x of None \<Rightarrow> Inl e | Some a \<Rightarrow> Inr a)"

lemma of_opt_simps [simp, result_simps]:
  "of_opt e None = Inl e" "of_opt e (Some a) = Inr a" "of_opt e x = Inr a \<longleftrightarrow> x = Some a"
  by (auto simp: of_opt_def split: option.splits)

subsection \<open>The payload\<close>

definition aead_nonce :: "prims \<Rightarrow> bytes \<Rightarrow> bytes" where
  "aead_nonce P nonce = slice 0 12 (p_sha3 P nonce)"

definition encrypt_payload :: "prims \<Rightarrow> bytes \<Rightarrow> bytes \<Rightarrow> bytes \<Rightarrow> sdk_error + bytes" where
  "encrypt_payload P pt key nonce = of_opt AeadThrow (p_aead_enc P key (aead_nonce P nonce) [] pt)"

definition decrypt_payload :: "prims \<Rightarrow> bytes \<Rightarrow> bytes \<Rightarrow> bytes \<Rightarrow> sdk_error + bytes" where
  "decrypt_payload P ct key nonce = of_opt AeadThrow (p_aead_dec P key (aead_nonce P nonce) [] ct)"

definition pack_payload :: "prims \<Rightarrow> compress \<Rightarrow> bytes \<Rightarrow> sdk_error + bytes" where
  "pack_payload P mode raw =
     (if mode = CompressNever \<or> \<not> p_zlib P then
        (if mode = CompressAlways \<and> \<not> p_zlib P then Inl CompressionUnavailable
         else Inr (PAYLOAD_RAW # raw))
      else let deflated = p_deflate P raw;
               useCompressed = (mode = CompressAlways \<or>
                 mode = CompressAuto \<and> length deflated + 1 < length raw + 1) in
        if useCompressed then Inr (PAYLOAD_DEFLATE # deflated) else Inr (PAYLOAD_RAW # raw))"

definition unpack_payload :: "prims \<Rightarrow> bytes \<Rightarrow> sdk_error + bytes" where
  "unpack_payload P pt =
     (case pt of [] \<Rightarrow> Inr []
      | b # body \<Rightarrow>
          if b = PAYLOAD_RAW \<or> b = PAYLOAD_DEFLATE then
            (if b = PAYLOAD_DEFLATE then
               (if \<not> p_zlib P then Inl DecompressionUnavailable
                else of_opt InflateThrow (p_inflate P body))
             else Inr body)
          else Inr pt)"

subsection \<open>Issue\<close>

text \<open>Steps 5 to 8 of \<open>issueToken\<close>, which no longer touch the chain.\<close>

definition seal_token ::
  "prims \<Rightarrow> issue_params \<Rightarrow> bytes \<Rightarrow> int \<Rightarrow> bytes \<Rightarrow> bytes \<Rightarrow> int \<Rightarrow> sdk_error + bytes" where
  "seal_token P prm key issuedAt nonce fp mutationCtr =
     bind_r (encode_claims P (i_claims prm)) (\<lambda>raw.
     bind_r (pack_payload P (i_compress prm) raw) (\<lambda>plaintext.
     bind_r (encrypt_payload P plaintext (i_encrypt_key prm) nonce) (\<lambda>encPayload.
     let header = \<lparr>h_suite = i_suite prm, h_type = i_token_type prm, h_issued = issuedAt,
                   h_ttl = i_ttl prm, h_nonce = nonce, h_fp = fp, h_ctr = mutationCtr\<rparr> in
     bind_r (signed_bytes header encPayload) (\<lambda>msgBuf.
     bind_r (of_opt SignThrow (p_sign P msgBuf key)) (\<lambda>sig.
     serialize_token header encPayload sig)))))"

definition issue_token ::
  "prims \<Rightarrow> int \<Rightarrow> bytes \<Rightarrow> issue_params \<Rightarrow> chain \<Rightarrow> chain \<times> (sdk_error + bytes \<times> string)" where
  "issue_token P now_ms nonce prm chn =
     (if i_signing_key_seed prm \<noteq> None \<and> i_signing_key prm \<noteq> None
      then (chn, Inl AmbiguousSigningKey)
      else case (case i_signing_key_seed prm of None \<Rightarrow> i_signing_key prm | Some k \<Rightarrow> Some k) of
        None \<Rightarrow> (chn, Inl MissingSigningKey)
      | Some key \<Rightarrow>
          let issuedAt = now_ms * 1000 in
          case certify_entropy nonce of
            Inl e \<Rightarrow> (chn, Inl e)
          | Inr _ \<Rightarrow>
              let fp = (case i_device_fp prm of None \<Rightarrow> p_sha3 P nonce | Some f \<Rightarrow> f) in
              (case advance (p_sha3 P) chn of
                 Inl e \<Rightarrow> (chn, Inl e)
               | Inr chn' \<Rightarrow>
                   (chn', bind_r (seal_token P prm key issuedAt nonce fp (c_counter chn'))
                            (\<lambda>tokenBytes. Inr (tokenBytes, to_hex tokenBytes)))))"

definition issue_token_at ::
  "prims \<Rightarrow> int \<Rightarrow> bytes \<Rightarrow> issue_params \<Rightarrow> bytes \<Rightarrow> int \<Rightarrow> sdk_error + bytes \<times> string" where
  "issue_token_at P now_ms nonce prm chainSeed counter =
     (if length chainSeed \<noteq> 32 then Inl BadChainSeed
      else if counter \<le> 0 then Inl BadCounter
      else snd (issue_token P now_ms nonce prm (from_state chainSeed (counter - 1))))"

subsection \<open>Verify\<close>

datatype token_input = TokenHex string | TokenBytes bytes

definition token_data :: "token_input \<Rightarrow> bytes" where
  "token_data t = (case t of TokenHex s \<Rightarrow> from_hex s | TokenBytes b \<Rightarrow> b)"

record verified =
  v_claims :: "jsstr \<Rightarrow> jsstr option"
  v_issued :: int
  v_ttl :: int
  v_ctr :: int

definition check_time :: "int \<Rightarrow> header \<Rightarrow> sdk_error + unit" where
  "check_time now_ms h =
     (let nowUs = now_ms * 1000; expiryUs = h_issued h + h_ttl h * 1000000 in
      if nowUs + 5000000 < h_issued h then Inl TokenNotYetValid
      else if expiryUs < nowUs then Inl (TokenExpired (h_issued h) (h_ttl h))
      else Inr ())"

definition check_signature :: "prims \<Rightarrow> bytes \<Rightarrow> header \<Rightarrow> bytes \<Rightarrow> bytes \<Rightarrow> sdk_error + unit" where
  "check_signature P vk h encPayload sig =
     bind_r (signed_bytes h encPayload) (\<lambda>msgBuf.
     bind_r (of_opt SignatureThrow (p_verify P sig msgBuf vk)) (\<lambda>valid.
       if \<not> valid then Inl SignatureInvalid else Inr ()))"

text \<open>Layers 1 to 5: everything before the chain is touched.\<close>

definition open_token ::
  "prims \<Rightarrow> int \<Rightarrow> bytes \<Rightarrow> bytes \<Rightarrow> token_input \<Rightarrow> sdk_error + header \<times> bytes" where
  "open_token P now_ms vk key t =
     bind_r (deserialize_token (token_data t)) (\<lambda>(h, encPayload, sig).
     bind_r (certify_entropy (h_nonce h)) (\<lambda>_.
     bind_r (check_time now_ms h) (\<lambda>_.
     bind_r (check_signature P vk h encPayload sig) (\<lambda>_.
     bind_r (decrypt_payload P encPayload key (h_nonce h)) (\<lambda>plaintext.
       Inr (h, plaintext))))))"

definition verify_token ::
  "prims \<Rightarrow> int \<Rightarrow> bytes \<Rightarrow> bytes \<Rightarrow> chain \<Rightarrow> token_input \<Rightarrow> chain \<times> (sdk_error + verified)" where
  "verify_token P now_ms vk key chn t =
     (case open_token P now_ms vk key t of
        Inl e \<Rightarrow> (chn, Inl e)
      | Inr (h, plaintext) \<Rightarrow>
          (case bind_r (check_token_counter chn (h_ctr h)) (\<lambda>_. advance_to (p_sha3 P) chn (h_ctr h)) of
             Inl e \<Rightarrow> (chn, Inl e)
           | Inr chn' \<Rightarrow>
               (chn', bind_r (unpack_payload P plaintext) (\<lambda>payloadBytes.
                      bind_r (decode_claims payloadBytes) (\<lambda>claims.
                        Inr \<lparr>v_claims = claims, v_issued = h_issued h, v_ttl = h_ttl h,
                             v_ctr = h_ctr h\<rparr>)))))"

subsection \<open>The public AEAD\<close>

definition encrypt :: "prims \<Rightarrow> bytes option \<Rightarrow> bytes option \<Rightarrow> bytes option \<Rightarrow> bytes \<Rightarrow> sdk_error + bytes" where
  "encrypt P plaintext key nonce aad =
     bind_r (of_opt BadPlaintext plaintext) (\<lambda>pt.
     if key = None \<or> length (the key) \<noteq> 32 then Inl BadKey
     else if nonce = None \<or> length (the nonce) \<noteq> 32 then Inl BadNonce
     else of_opt AeadThrow (p_aead_enc P (the key) (aead_nonce P (the nonce)) aad pt))"

definition decrypt :: "prims \<Rightarrow> bytes option \<Rightarrow> bytes option \<Rightarrow> bytes option \<Rightarrow> bytes \<Rightarrow> sdk_error + bytes" where
  "decrypt P ciphertext key nonce aad =
     bind_r (of_opt BadPlaintext ciphertext) (\<lambda>ct.
     if key = None \<or> length (the key) \<noteq> 32 then Inl BadKey
     else if nonce = None \<or> length (the nonce) \<noteq> 32 then Inl BadNonce
     else of_opt AeadThrow (p_aead_dec P (the key) (aead_nonce P (the nonce)) aad ct))"

subsection \<open>What issuing does\<close>

lemma issue_token_chain:
  "issue_token P now nonce prm chn = (chn', r) \<Longrightarrow>
   chn' = chn \<and> (\<exists>e. r = Inl e) \<or> advance (p_sha3 P) chn = Inr chn'"
  by (auto simp: issue_token_def Let_def split: if_splits option.splits sum.splits)

lemma issue_token_Inr:
  assumes "issue_token P now nonce prm chn = (chn', Inr (tok, hex))"
  obtains key where
    "advance (p_sha3 P) chn = Inr chn'" "hex = to_hex tok" "certify_entropy nonce = Inr ()"
    "i_signing_key_seed prm = Some key \<or> i_signing_key prm = Some key"
    "seal_token P prm key (now * 1000) nonce
       (case i_device_fp prm of None \<Rightarrow> p_sha3 P nonce | Some f \<Rightarrow> f) (c_counter chn') = Inr tok"
  using assms
  by (auto simp: issue_token_def Let_def bind_r_eq_Inr split: if_splits option.splits sum.splits)

lemma seal_token_Inr:
  assumes "seal_token P prm key issuedAt nonce fp ctr = Inr tok"
    and "length nonce = 32" "length fp = 32"
  obtains raw pt ep sig h where
    "encode_claims P (i_claims prm) = Inr raw" "pack_payload P (i_compress prm) raw = Inr pt"
    "p_aead_enc P (i_encrypt_key prm) (aead_nonce P nonce) [] pt = Some ep"
    "h = \<lparr>h_suite = i_suite prm, h_type = i_token_type prm, h_issued = issuedAt,
          h_ttl = i_ttl prm, h_nonce = nonce, h_fp = fp, h_ctr = ctr\<rparr>"
    "signed_bytes h ep = Inr (signed_layout h ep)"
    "p_sign P (signed_layout h ep) key = Some sig" "tok = signed_layout h ep @ sig" "wf_header h"
proof -
  from assms(1) obtain raw pt ep m sig where r:
    "encode_claims P (i_claims prm) = Inr raw" "pack_payload P (i_compress prm) raw = Inr pt"
    "p_aead_enc P (i_encrypt_key prm) (aead_nonce P nonce) [] pt = Some ep"
    and sg: "signed_bytes \<lparr>h_suite = i_suite prm, h_type = i_token_type prm, h_issued = issuedAt,
          h_ttl = i_ttl prm, h_nonce = nonce, h_fp = fp, h_ctr = ctr\<rparr> ep = Inr m"
    "p_sign P m key = Some sig"
    "serialize_token \<lparr>h_suite = i_suite prm, h_type = i_token_type prm, h_issued = issuedAt,
          h_ttl = i_ttl prm, h_nonce = nonce, h_fp = fp, h_ctr = ctr\<rparr> ep sig = Inr tok"
    by (auto simp: seal_token_def encrypt_payload_def bind_r_eq_Inr Let_def)
  define h where "h = \<lparr>h_suite = i_suite prm, h_type = i_token_type prm, h_issued = issuedAt,
          h_ttl = i_ttl prm, h_nonce = nonce, h_fp = fp, h_ctr = ctr\<rparr>"
  have wf: "wf_header h" using assms(2,3) by (simp add: h_def wf_header_def)
  then have "signed_bytes h ep = Inr (signed_layout h ep)"
    "serialize_token h ep sig = Inr (signed_layout h ep @ sig)"
    by (simp_all add: signed_bytes_layout serialize_layout)
  then show thesis using r sg wf by (intro that [of raw pt ep h sig]) (simp_all add: h_def)
qed

lemma unpack_pack:
  assumes "pack_payload P mode raw = Inr pt" "inflate_correct P"
  shows "unpack_payload P pt = Inr raw"
  using assms
  by (auto simp: pack_payload_def unpack_payload_def PAYLOAD_RAW_def PAYLOAD_DEFLATE_def Let_def
      inflate_correctD split: if_splits)

subsection \<open>What verifying does\<close>

text \<open>The five layers as one condition on the received bytes.\<close>

definition authentic ::
  "prims \<Rightarrow> int \<Rightarrow> bytes \<Rightarrow> bytes \<Rightarrow> bytes \<Rightarrow> header \<Rightarrow> bytes \<Rightarrow> bool" where
  "authentic P now vk key d h pt \<longleftrightarrow>
     (\<exists>ep sig. deserialize_token d = Inr (h, ep, sig) \<and> certify_entropy (h_nonce h) = Inr () \<and>
        h_issued h \<le> now * 1000 + 5000000 \<and> now * 1000 \<le> h_issued h + h_ttl h * 1000000 \<and>
        p_verify P sig (take (96 + length ep) d) vk = Some True \<and>
        p_aead_dec P key (aead_nonce P (h_nonce h)) [] ep = Some pt)"

lemma check_time_iff: "check_time now h = Inr () \<longleftrightarrow>
    h_issued h \<le> now * 1000 + 5000000 \<and> now * 1000 \<le> h_issued h + h_ttl h * 1000000"
  by (auto simp: check_time_def Let_def)

lemma check_signature_iff:
  "deserialize_token d = Inr (h, ep, sig) \<Longrightarrow>
   check_signature P vk h ep sig = Inr () \<longleftrightarrow> p_verify P sig (take (96 + length ep) d) vk = Some True"
  using signed_bytes_received [of d h ep sig]
  by (auto simp: check_signature_def bind_r_eq_Inr)

lemma open_token_iff:
  "open_token P now vk key t = Inr (h, pt) \<longleftrightarrow> authentic P now vk key (token_data t) h pt"
proof -
  have "open_token P now vk key t = Inr (h, pt) \<longleftrightarrow>
      (\<exists>ep sig. deserialize_token (token_data t) = Inr (h, ep, sig) \<and>
        certify_entropy (h_nonce h) = Inr () \<and> check_time now h = Inr () \<and>
        check_signature P vk h ep sig = Inr () \<and>
        p_aead_dec P key (aead_nonce P (h_nonce h)) [] ep = Some pt)"
    by (auto simp: open_token_def bind_r_eq_Inr decrypt_payload_def)
  then show ?thesis
    unfolding authentic_def check_time_iff
    by (metis (no_types, lifting) check_signature_iff)
qed

lemma verify_token_cases:
  assumes "sha3_len (p_sha3 P)" "wf_chain chn" "verify_token P now vk key chn t = (chn', r)"
  obtains (early) e where "open_token P now vk key t = Inl e" "r = Inl e" "chn' = chn"
  | (replay) h pt where "open_token P now vk key t = Inr (h, pt)" "h_ctr h \<le> c_counter chn"
      "r = Inl (Replay (h_ctr h) (c_counter chn))" "chn' = chn"
  | (fresh) h pt where "open_token P now vk key t = Inr (h, pt)" "c_counter chn < h_ctr h"
      "c_counter chn' = h_ctr h" "wf_chain chn'" "advance_to (p_sha3 P) chn (h_ctr h) = Inr chn'"
      "r = bind_r (unpack_payload P pt) (\<lambda>b. bind_r (decode_claims b) (\<lambda>claims.
             Inr \<lparr>v_claims = claims, v_issued = h_issued h, v_ttl = h_ttl h, v_ctr = h_ctr h\<rparr>))"
proof (cases "open_token P now vk key t")
  case (Inl e)
  show thesis
    by (rule early [OF Inl]) (use Inl assms(3) in \<open>simp_all add: verify_token_def\<close>)
next
  case (Inr a)
  then obtain h pt where o: "open_token P now vk key t = Inr (h, pt)" by (cases a) simp
  show thesis
  proof (cases "h_ctr h \<le> c_counter chn")
    case True
    show thesis
      by (rule replay [OF o True])
        (use True o assms(3) in \<open>auto simp: verify_token_def check_token_counter_def\<close>)
  next
    case False
    then obtain c where c: "advance_to (p_sha3 P) chn (h_ctr h) = Inr c" "c_counter c = h_ctr h" "wf_chain c"
      using advance_to_counter [OF assms(1,2)] by force
    with o assms(3) False have "chn' = c" and r: "r = bind_r (unpack_payload P pt) (\<lambda>b.
        bind_r (decode_claims b) (\<lambda>claims. Inr \<lparr>v_claims = claims, v_issued = h_issued h,
          v_ttl = h_ttl h, v_ctr = h_ctr h\<rparr>))"
      by (simp_all add: verify_token_def check_token_counter_def)
    with c False show thesis by (intro fresh [OF o _ _ _ _ r]) simp_all
  qed
qed

lemma verify_token_sound:
  assumes "sha3_len (p_sha3 P)" "wf_chain chn" "verify_token P now vk key chn t = (chn', Inr v)"
  shows "\<exists>h pt. authentic P now vk key (token_data t) h pt \<and> c_counter chn < h_ctr h \<and>
    c_counter chn' = h_ctr h \<and> v_ctr v = h_ctr h \<and> v_issued v = h_issued h \<and> v_ttl v = h_ttl h \<and>
    (\<exists>b. unpack_payload P pt = Inr b \<and> decode_claims b = Inr (v_claims v))"
  using assms(1,2) assms(3)
proof (cases rule: verify_token_cases)
  case (fresh h pt)
  then show ?thesis
    by (intro exI [of _ h] exI [of _ pt]) (auto simp: open_token_iff [symmetric] bind_r_eq_Inr dest!: sym [of "Inr v"])
qed simp_all

lemma verify_token_moves:
  assumes "sha3_len (p_sha3 P)" "wf_chain chn" "verify_token P now vk key chn t = (chn', Inr v)"
  shows "c_counter chn < v_ctr v \<and> c_counter chn' = v_ctr v \<and> advance_to (p_sha3 P) chn (v_ctr v) = Inr chn'"
  using assms(1,2) assms(3)
proof (cases rule: verify_token_cases)
  case (fresh h pt)
  then show ?thesis by (auto simp: bind_r_eq_Inr dest!: sym [of "Inr v"])
qed simp_all

lemma verify_token_counter:
  assumes "sha3_len (p_sha3 P)" "wf_chain chn" "verify_token P now vk key chn t = (chn', r)"
  shows "c_counter chn \<le> c_counter chn'" "wf_chain chn'"
  using assms(1,2) assms(3) by (cases rule: verify_token_cases; use assms in simp)+

lemma verify_token_replay:
  assumes "sha3_len (p_sha3 P)" "wf_chain chn" "verify_token P now vk key chn t = (chn', Inr v)"
    and "token_data t' = token_data t"
  shows "\<exists>e. verify_token P now' vk key chn' t' = (chn', Inl e) \<and>
    (now' = now \<longrightarrow> e = Replay (v_ctr v) (v_ctr v))"
proof -
  obtain h pt where f: "authentic P now vk key (token_data t) h pt" "c_counter chn' = h_ctr h"
    "v_ctr v = h_ctr h" using verify_token_sound [OF assms(1-3)] by blast
  have w: "wf_chain chn'" using verify_token_counter [OF assms(1-3)] by simp
  obtain c r where v: "verify_token P now' vk key chn' t' = (c, r)" by force
  have h: "h' = h" if "open_token P now' vk key t' = Inr (h', pt')" for h' pt'
    using that f(1) assms(4) by (auto simp: open_token_iff authentic_def)
  from assms(1) w v show ?thesis
  proof (cases rule: verify_token_cases)
    case (early e)
    moreover have "open_token P now vk key t' = Inr (h, pt)"
      using f(1) assms(4) by (simp add: open_token_iff)
    ultimately show ?thesis using v by auto
  next
    case (replay h' pt')
    then show ?thesis using v f h [OF replay(1)] by auto
  next
    case (fresh h' pt')
    then show ?thesis using f h [OF fresh(1)] by simp
  qed
qed

text \<open>A verifier that runs a list of verifications against one chain.\<close>

fun verify_run ::
  "prims \<Rightarrow> bytes \<Rightarrow> bytes \<Rightarrow> chain \<Rightarrow> (int \<times> token_input) list \<Rightarrow> chain \<times> (sdk_error + verified) list" where
  "verify_run P vk key chn [] = (chn, [])"
| "verify_run P vk key chn ((now, t) # ts) =
     (let (chn1, r) = verify_token P now vk key chn t; (chn2, rs) = verify_run P vk key chn1 ts
      in (chn2, r # rs))"

definition accepted :: "(sdk_error + verified) list \<Rightarrow> verified list" where
  "accepted rs = concat (map (\<lambda>r. case r of Inl _ \<Rightarrow> [] | Inr v \<Rightarrow> [v]) rs)"

lemma accepted_simps [simp]:
  "accepted [] = []" "accepted (Inl e # rs) = accepted rs" "accepted (Inr v # rs) = v # accepted rs"
  by (simp_all add: accepted_def)

lemma verify_run_increasing:
  assumes "sha3_len (p_sha3 P)" "wf_chain chn" "verify_run P vk key chn ts = (chn', rs)"
  shows "sorted_wrt (<) (map v_ctr (accepted rs)) \<and> (\<forall>v \<in> set (accepted rs). c_counter chn < v_ctr v)"
  using assms(2,3)
proof (induction ts arbitrary: chn chn' rs)
  case Nil
  then show ?case by simp
next
  case (Cons a ts)
  obtain now t where a: "a = (now, t)" by force
  obtain chn1 r where v: "verify_token P now vk key chn t = (chn1, r)" by force
  obtain chn2 rs2 where u: "verify_run P vk key chn1 ts = (chn2, rs2)" by force
  have rs: "rs = r # rs2" using Cons.prems v u by (simp add: a)
  have c: "c_counter chn \<le> c_counter chn1" "wf_chain chn1"
    using verify_token_counter [OF assms(1) Cons.prems(1) v] by auto
  have IH: "sorted_wrt (<) (map v_ctr (accepted rs2)) \<and> (\<forall>v \<in> set (accepted rs2). c_counter chn1 < v_ctr v)"
    using Cons.IH [OF c(2) u] .
  show ?case
  proof (cases r)
    case (Inl e)
    then show ?thesis using IH c rs by force
  next
    case (Inr w)
    then have "c_counter chn < v_ctr w" "c_counter chn1 = v_ctr w"
      using verify_token_sound [OF assms(1) Cons.prems(1)] v by fastforce+
    then show ?thesis using IH Inr rs by force
  qed
qed

subsection \<open>Issue, then verify\<close>

lemma verify_issued:
  assumes iss: "issue_token P now nonce prm chn = (chn', Inr (tok, hex))"
    and prims: "sha3_len (p_sha3 P)" "aead_correct P" "inflate_correct P"
      "\<And>k. i_signing_key_seed prm = Some k \<or> i_signing_key prm = Some k \<Longrightarrow> key_pair P k vk"
    and nonce: "length nonce = 32" and fplen: "\<forall>f. i_device_fp prm = Some f \<longrightarrow> length f = 32"
    and fields: "0 \<le> i_suite prm" "i_suite prm < 2 ^ 8" "0 \<le> i_token_type prm" "i_token_type prm < 2 ^ 8"
      "0 \<le> i_ttl prm" "i_ttl prm < 2 ^ 32" "0 \<le> now" "now * 1000 < 2 ^ 64"
      "0 \<le> c_counter chn" "c_counter chn < 2 ^ 64 - 1"
    and short: "length tok < 2 ^ 32"
    and clean: "clean_claims P (i_claims prm)"
    and verifier: "wf_chain vchn" "c_counter vchn \<le> c_counter chn"
    and window: "now * 1000 \<le> now' * 1000 + 5000000" "now' * 1000 \<le> now * 1000 + i_ttl prm * 1000000"
    and input: "token_data t = tok"
  shows "\<exists>vchn'. verify_token P now' vk (i_encrypt_key prm) vchn t =
    (vchn', Inr \<lparr>v_claims = claims_map P (i_claims prm), v_issued = now * 1000,
                 v_ttl = i_ttl prm, v_ctr = c_counter chn + 1\<rparr>) \<and>
    c_counter vchn' = c_counter chn + 1"
proof -
  obtain key where k: "advance (p_sha3 P) chn = Inr chn'" "certify_entropy nonce = Inr ()"
    "i_signing_key_seed prm = Some key \<or> i_signing_key prm = Some key"
    "seal_token P prm key (now * 1000) nonce
       (case i_device_fp prm of None \<Rightarrow> p_sha3 P nonce | Some f \<Rightarrow> f) (c_counter chn') = Inr tok"
    using issue_token_Inr [OF iss] by metis
  have ctr: "c_counter chn' = c_counter chn + 1" using k(1) by (rule advance_counter)
  define fp where "fp = (case i_device_fp prm of None \<Rightarrow> p_sha3 P nonce | Some f \<Rightarrow> f)"
  have fl: "length fp = 32" using fplen prims(1) by (auto simp: fp_def split: option.splits)
  have seal: "seal_token P prm key (now * 1000) nonce fp (c_counter chn + 1) = Inr tok"
    using k(4) by (simp only: fp_def ctr)
  obtain raw pt ep sig h where s:
    "encode_claims P (i_claims prm) = Inr raw" "pack_payload P (i_compress prm) raw = Inr pt"
    "p_aead_enc P (i_encrypt_key prm) (aead_nonce P nonce) [] pt = Some ep"
    "h = \<lparr>h_suite = i_suite prm, h_type = i_token_type prm, h_issued = now * 1000,
          h_ttl = i_ttl prm, h_nonce = nonce, h_fp = fp, h_ctr = c_counter chn + 1\<rparr>"
    "p_sign P (signed_layout h ep) key = Some sig" "tok = signed_layout h ep @ sig"
    by (rule seal_token_Inr [OF seal nonce fl]) (rule that; assumption)
  have wf: "wf_header h" using nonce fl by (simp add: s(4) wf_header_def)
  then have "length ep < 2 ^ 32" using short by (simp add: s(6))
  then have "fits h ep" using wf fields by (simp add: fits_def s(4))
  then have d: "deserialize_token tok = Inr (h, ep, sig)"
    unfolding s(6) by (rule deserialize_layout)
  have sv: "p_verify P sig (take (96 + length ep) tok) vk = Some True"
    using key_pairD [OF prims(4) [OF k(3)] s(5)] wf by (simp add: s(6))
  have "authentic P now' vk (i_encrypt_key prm) tok h pt"
    unfolding authentic_def using d sv k(2) window aead_correctD [OF prims(2) s(3)] by (simp add: s(4))
  then have o: "open_token P now' vk (i_encrypt_key prm) t = Inr (h, pt)"
    by (simp add: open_token_iff input)
  have body: "unpack_payload P pt = Inr raw" "decode_claims raw = Inr (claims_map P (i_claims prm))"
    using unpack_pack [OF s(2) prims(3)] decode_encode_claims [OF s(1) clean] by simp_all
  obtain vchn' where a: "advance_to (p_sha3 P) vchn (h_ctr h) = Inr vchn'" "c_counter vchn' = h_ctr h"
    using advance_to_counter [OF prims(1) verifier(1), of "h_ctr h"] verifier(2) by (auto simp: s(4))
  then show ?thesis
    using o body verifier(2) by (simp add: verify_token_def check_token_counter_def s(4))
qed

text \<open>When the primitives return and the claims can be encoded, issuing succeeds.\<close>

definition prims_total :: "prims \<Rightarrow> bool" where
  "prims_total P \<longleftrightarrow> (\<forall>k n ad pt. p_aead_enc P k n ad pt \<noteq> None) \<and> (\<forall>m sk. p_sign P m sk \<noteq> None)"

lemma pack_payload_total:
  "m \<noteq> CompressAlways \<or> p_zlib P \<Longrightarrow> \<exists>pt. pack_payload P m raw = Inr pt"
  by (auto simp: pack_payload_def Let_def)

lemma issue_token_ok:
  assumes "prims_total P" "sha3_len (p_sha3 P)" "wf_chain chn"
    and "i_signing_key_seed prm = Some key" "i_signing_key prm = None"
    and "length nonce = 32" "certify_entropy nonce = Inr ()"
    and "\<forall>f. i_device_fp prm = Some f \<longrightarrow> length f = 32"
    and "i_compress prm \<noteq> CompressAlways \<or> p_zlib P" "encodable P (i_claims prm)"
  shows "\<exists>chn' tok. issue_token P now nonce prm chn = (chn', Inr (tok, to_hex tok)) \<and>
    c_counter chn' = c_counter chn + 1"
proof -
  define fp where "fp = (case i_device_fp prm of None \<Rightarrow> p_sha3 P nonce | Some f \<Rightarrow> f)"
  have fp: "length fp = 32" using assms(2,8) by (auto simp: fp_def split: option.splits)
  obtain chn' where adv: "advance (p_sha3 P) chn = Inr chn'" using advance_total [OF assms(3)] by blast
  obtain raw where raw: "encode_claims P (i_claims prm) = Inr raw"
    using assms(10) encode_claims_iff by blast
  obtain pt where pt: "pack_payload P (i_compress prm) raw = Inr pt"
    using pack_payload_total [OF assms(9)] by blast
  obtain ep where ep: "p_aead_enc P (i_encrypt_key prm) (aead_nonce P nonce) [] pt = Some ep"
    using assms(1) unfolding prims_total_def by blast
  define h where "h = \<lparr>h_suite = i_suite prm, h_type = i_token_type prm, h_issued = now * 1000,
    h_ttl = i_ttl prm, h_nonce = nonce, h_fp = fp, h_ctr = c_counter chn'\<rparr>"
  have wf: "wf_header h" using fp assms(6) by (simp add: h_def wf_header_def)
  obtain sig where sig: "p_sign P (signed_layout h ep) key = Some sig"
    using assms(1) unfolding prims_total_def by blast
  have "seal_token P prm key (now * 1000) nonce fp (c_counter chn') = Inr (signed_layout h ep @ sig)"
    using raw pt ep sig signed_bytes_layout [OF wf, of ep] serialize_layout [OF wf, of ep sig]
    by (simp add: seal_token_def encrypt_payload_def Let_def h_def [symmetric])
  then show ?thesis
    using assms(4,5,7) adv by (simp add: issue_token_def Let_def fp_def [symmetric] advance_counter [OF adv])
qed

subsection \<open>Properties\<close>

definition sample_nonce :: bytes where
  "sample_nonce = map word_of_nat [0..<32]"

definition sample_params :: issue_params where
  "sample_params = \<lparr>i_signing_key_seed = Some [1, 2, 3], i_signing_key = None,
     i_encrypt_key = replicate 32 9, i_claims = [(js ''sub'', JStr (js ''u1'')), (js ''n'', JBig 5)],
     i_ttl = 3600, i_suite = 5, i_token_type = 1, i_device_fp = None, i_compress = CompressNever\<rparr>"

lemma sample_nonce_entropy [simp]: "certify_entropy sample_nonce = Inr ()" "length sample_nonce = 32"
proof -
  have "inj_on (word_of_nat :: nat \<Rightarrow> byte) {0..<32}"
  proof (rule inj_onI)
    fix a b assume ab: "a \<in> {0..<32}" "b \<in> {0..<32}" and e: "(word_of_nat a :: byte) = word_of_nat b"
    have "unat (word_of_nat a :: byte) = unat (word_of_nat b :: byte)" by (simp only: e)
    moreover have "unat (word_of_nat a :: byte) = a" "unat (word_of_nat b :: byte) = b"
      using ab by (intro unat_byte_small; simp)+
    ultimately show "a = b" by simp
  qed
  then have "distinct sample_nonce" unfolding sample_nonce_def distinct_map by simp
  then show "certify_entropy sample_nonce = Inr ()" by (rule distinct_entropy)
qed (simp add: sample_nonce_def)

lemma sample_claims_ok [simp]:
  "encodable P (i_claims sample_params)" "clean_claims P (i_claims sample_params)"
proof -
  have "length (js (int_text 5)) \<le> 85" by (simp add: int_text_def js_def dec_print.simps)
  then show "encodable P (i_claims sample_params)"
    by (simp add: sample_params_def encodable_def fits_short) (simp add: fits_short js_def)
  have "ascii ''sub''" "ascii ''u1''" "ascii ''n''" by (simp_all add: ascii_def)
  then show "clean_claims P (i_claims sample_params)"
    by (simp add: sample_params_def clean_claims_def clean_ascii)
qed

lemma sample_prims_total [simp]: "prims_total sample_prims"
  by (simp add: prims_total_def sample_prims_def)

definition sample_chain :: "nat \<Rightarrow> chain" where
  "sample_chain n = chain_at sample_hash (replicate 32 1) n"

lemma sample_chain_ok [simp]: "wf_chain (sample_chain n)" "c_counter (sample_chain n) = int n"
  by (simp_all add: sample_chain_def wf_chain_def)

lemma sample_issue:
  assumes "wf_chain chn"
  obtains chn' tok where
    "issue_token sample_prims 1000 sample_nonce sample_params chn = (chn', Inr (tok, to_hex tok))"
proof -
  have "\<exists>chn' tok. issue_token sample_prims 1000 sample_nonce sample_params chn =
      (chn', Inr (tok, to_hex tok)) \<and> c_counter chn' = c_counter chn + 1"
    by (rule issue_token_ok [where key = "[1, 2, 3]"]) (simp_all add: assms, simp_all add: sample_params_def)
  then show thesis using that by blast
qed

lemma small_token:
  assumes "issue_token sample_prims 1000 sample_nonce sample_params chn = (chn', Inr (tok, hex))"
  shows "length tok < 2 ^ 32"
proof -
  obtain key where k: "seal_token sample_prims sample_params key (1000 * 1000) sample_nonce
      (case i_device_fp sample_params of None \<Rightarrow> p_sha3 sample_prims sample_nonce | Some f \<Rightarrow> f)
      (c_counter chn') = Inr tok"
    and "i_signing_key_seed sample_params = Some key \<or> i_signing_key sample_params = Some key"
    by (rule issue_token_Inr [OF assms])
  then have key: "key = [1, 2, 3]" by (simp add: sample_params_def)
  have fp: "length (case i_device_fp sample_params of None \<Rightarrow> p_sha3 sample_prims sample_nonce | Some f \<Rightarrow> f) = 32"
    by (simp add: sample_params_def)
  obtain raw pt ep sig h where s:
    "encode_claims sample_prims (i_claims sample_params) = Inr raw"
    "pack_payload sample_prims (i_compress sample_params) raw = Inr pt"
    "p_aead_enc sample_prims (i_encrypt_key sample_params) (aead_nonce sample_prims sample_nonce) [] pt = Some ep"
    "p_sign sample_prims (signed_layout h ep) key = Some sig" "tok = signed_layout h ep @ sig" "wf_header h"
    by (rule seal_token_Inr [OF k sample_nonce_entropy(2) fp]) (rule that; assumption)
  have "length raw \<le> 1 + 4 * 257"
  proof -
    have es: "length b \<le> 257" if "encode_str x = Inr b" for x b
      using that by (auto simp: encode_str_def Let_def split: if_splits)
    show ?thesis
      using s(1) by (auto simp: encode_claims_def sample_params_def bind_r_eq_Inr dest!: es)
  qed
  moreover have "length ep = length raw + 17" "length sig = 4"
    using s(2-4) by (auto simp: sample_params_def pack_payload_def sample_prims_def key)
  ultimately show ?thesis using s(5,6) by simp
qed

lemma sample_verifies:
  assumes "wf_chain chn" "wf_chain vchn" "0 \<le> c_counter chn" "c_counter chn < 2 ^ 64 - 1"
    "c_counter vchn \<le> c_counter chn"
  shows "\<exists>chn' tok vchn' v.
    issue_token sample_prims 1000 sample_nonce sample_params chn = (chn', Inr (tok, to_hex tok)) \<and>
    verify_token sample_prims 1000 [1, 2, 3] (replicate 32 9) vchn (TokenBytes tok) = (vchn', Inr v) \<and>
    c_counter vchn' = v_ctr v \<and> v_ctr v = c_counter chn + 1"
proof -
  obtain chn' tok where i:
    "issue_token sample_prims 1000 sample_nonce sample_params chn = (chn', Inr (tok, to_hex tok))"
    by (rule sample_issue [OF assms(1)])
  have "\<exists>vchn'. verify_token sample_prims 1000 [1, 2, 3] (i_encrypt_key sample_params) vchn (TokenBytes tok) =
      (vchn', Inr \<lparr>v_claims = claims_map sample_prims (i_claims sample_params),
         v_issued = 1000 * 1000, v_ttl = i_ttl sample_params, v_ctr = c_counter chn + 1\<rparr>) \<and>
      c_counter vchn' = c_counter chn + 1"
    by (rule verify_issued [OF i sample_prims_ok(1-3) _ sample_nonce_entropy(2)])
      (use assms in \<open>simp_all add: small_token [OF i, simplified] token_data_def\<close>, simp_all add: sample_params_def)
  then show ?thesis using i by (fastforce simp: sample_params_def)
qed

text \<open>C2: A token issued with any clean claims verifies: within its time window, under the matching
  keys, against a chain that has not passed its counter, it yields the claims as texts, its times and
  its counter, and moves the verifier's chain to that counter.\<close>

theorem issued_token_verifies:
  assumes iss: "issue_token P now nonce prm chn = (chn', Inr (tok, hex))"
    and "sha3_len (p_sha3 P)" "aead_correct P" "inflate_correct P"
      "\<And>k. i_signing_key_seed prm = Some k \<or> i_signing_key prm = Some k \<Longrightarrow> key_pair P k vk"
    and "length nonce = 32" "\<forall>f. i_device_fp prm = Some f \<longrightarrow> length f = 32"
    and "0 \<le> i_suite prm" "i_suite prm < 2 ^ 8" "0 \<le> i_token_type prm" "i_token_type prm < 2 ^ 8"
      "0 \<le> i_ttl prm" "i_ttl prm < 2 ^ 32" "0 \<le> now" "now * 1000 < 2 ^ 64"
      "0 \<le> c_counter chn" "c_counter chn < 2 ^ 64 - 1"
    and "length tok < 2 ^ 32" and "clean_claims P (i_claims prm)"
    and "distinct (map fst (i_claims prm))" "js ''__proto__'' \<notin> set (map fst (i_claims prm))"
    and "wf_chain vchn" "c_counter vchn \<le> c_counter chn"
    and "now * 1000 \<le> now' * 1000 + 5000000" "now' * 1000 \<le> now * 1000 + i_ttl prm * 1000000"
  shows "\<exists>vchn'. verify_token P now' vk (i_encrypt_key prm) vchn (TokenHex hex) =
    (vchn', Inr \<lparr>v_claims = map_of (map (\<lambda>(k, v). (k, the (claim_text P v))) (i_claims prm)),
                 v_issued = now * 1000, v_ttl = i_ttl prm, v_ctr = c_counter chn + 1\<rparr>) \<and>
    c_counter vchn' = c_counter chn + 1"
proof -
  have "hex = to_hex tok" by (rule issue_token_Inr [OF iss])
  then have d: "token_data (TokenHex hex) = tok" by (simp add: token_data_def)
  show ?thesis
    using verify_issued [OF assms(1-19) assms(22-25) d] claims_map_map_of [OF assms(20,21), of P] by simp
qed

lemma issued_token_verifies_witness:
  "\<exists>chn' hex vchn' v. issue_token sample_prims 1000 sample_nonce sample_params (sample_chain 4) = (chn', Inr (from_hex hex, hex)) \<and>
     verify_token sample_prims 1001 [1, 2, 3] (replicate 32 9) (sample_chain 2) (TokenHex hex) = (vchn', Inr v) \<and>
     v_ctr v = 5"
proof -
  obtain chn' tok where i:
    "issue_token sample_prims 1000 sample_nonce sample_params (sample_chain 4) = (chn', Inr (tok, to_hex tok))"
    by (rule sample_issue [OF sample_chain_ok(1)])
  have k: "\<And>k. i_signing_key_seed sample_params = Some k \<or> i_signing_key sample_params = Some k \<Longrightarrow>
      key_pair sample_prims k [1, 2, 3]" by (simp add: sample_params_def)
  have "\<exists>vchn'. verify_token sample_prims 1001 [1, 2, 3] (i_encrypt_key sample_params) (sample_chain 2)
      (TokenHex (to_hex tok)) =
      (vchn', Inr \<lparr>v_claims = map_of (map (\<lambda>(k, v). (k, the (claim_text sample_prims v))) (i_claims sample_params)),
         v_issued = 1000 * 1000, v_ttl = i_ttl sample_params, v_ctr = c_counter (sample_chain 4) + 1\<rparr>) \<and>
      c_counter vchn' = c_counter (sample_chain 4) + 1"
    by (rule issued_token_verifies [OF i sample_prims_ok(1-3) k sample_nonce_entropy(2)])
      (simp_all add: small_token [OF i, simplified], simp_all add: sample_params_def js_def)
  then show ?thesis using i by (fastforce simp: sample_params_def)
qed

text \<open>C1: \<open>verifyToken\<close> accepts exactly the tokens that parse, whose nonce passes the entropy test,
  whose time window contains the present (with five seconds of skew), whose signature verifies over
  every byte in front of it, whose payload decrypts to decodable claims, and whose counter is above
  the chain; it returns those fields. Whenever it accepts, the chain has been advanced, round by round,
  to exactly the counter of the token.\<close>

theorem verify_token_accepts_iff:
  assumes "sha3_len (p_sha3 P)" "wf_chain chn"
  shows "((\<exists>chn'. verify_token P now vk key chn t = (chn', Inr v)) \<longleftrightarrow>
      (\<exists>h pt b. authentic P now vk key (token_data t) h pt \<and> c_counter chn < h_ctr h \<and>
         unpack_payload P pt = Inr b \<and> decode_claims b = Inr (v_claims v) \<and>
         v_issued v = h_issued h \<and> v_ttl v = h_ttl h \<and> v_ctr v = h_ctr h)) \<and>
    (\<forall>chn'. verify_token P now vk key chn t = (chn', Inr v) \<longrightarrow>
       c_counter chn < v_ctr v \<and> c_counter chn' = v_ctr v \<and> advance_to (p_sha3 P) chn (v_ctr v) = Inr chn')"
    (is "(?accepts \<longleftrightarrow> ?authentic) \<and> ?moved")
proof (intro conjI iffI)
  assume ?accepts
  then show ?authentic using verify_token_sound [OF assms] by blast
next
  assume ?authentic
  then obtain h pt b where a: "authentic P now vk key (token_data t) h pt" "c_counter chn < h_ctr h"
    "unpack_payload P pt = Inr b" "decode_claims b = Inr (v_claims v)"
    "v_issued v = h_issued h" "v_ttl v = h_ttl h" "v_ctr v = h_ctr h" by blast
  then have o: "open_token P now vk key t = Inr (h, pt)" by (simp add: open_token_iff)
  obtain c where "advance_to (p_sha3 P) chn (h_ctr h) = Inr c"
    using advance_to_counter [OF assms a(2)] by blast
  with o a show ?accepts by (simp add: verify_token_def check_token_counter_def)
next
  show ?moved using verify_token_moves [OF assms] by blast
qed

lemma verify_token_accepts_iff_witness:
  "\<exists>t v. (\<exists>chn'. verify_token sample_prims 1000 [1, 2, 3] (replicate 32 9) (sample_chain 4) t = (chn', Inr v) \<and>
      c_counter chn' = v_ctr v) \<and>
    (\<exists>h pt. authentic sample_prims 1000 [1, 2, 3] (replicate 32 9) (token_data t) h pt \<and> 4 < h_ctr h)"
proof -
  obtain chn' tok vchn' v where
    "issue_token sample_prims 1000 sample_nonce sample_params (sample_chain 4) = (chn', Inr (tok, to_hex tok))"
    and v: "verify_token sample_prims 1000 [1, 2, 3] (replicate 32 9) (sample_chain 4) (TokenBytes tok) = (vchn', Inr v)"
    using sample_verifies [of "sample_chain 4" "sample_chain 4"] by auto
  note t = verify_token_accepts_iff [OF sample_prims_ok(1) sample_chain_ok(1), of 1000 "[1, 2, 3]"
      "replicate 32 9" 4 "TokenBytes tok" v]
  have "c_counter vchn' = v_ctr v" using t v by blast
  moreover have "\<exists>h pt. authentic sample_prims 1000 [1, 2, 3] (replicate 32 9) (token_data (TokenBytes tok)) h pt \<and>
      4 < h_ctr h"
    using t v by (metis sample_chain_ok(2) of_nat_numeral)
  ultimately show ?thesis using v by blast
qed

text \<open>C3: However many tokens are verified against one chain, in whatever order, the counters of the
  accepted ones are strictly increasing and above the chain's first counter: no token is accepted
  twice.\<close>

theorem verify_run_no_replay:
  assumes "sha3_len (p_sha3 P)" "wf_chain chn"
  shows "sorted_wrt (<) (map v_ctr (accepted (snd (verify_run P vk key chn ts)))) \<and>
    (\<forall>v \<in> set (accepted (snd (verify_run P vk key chn ts))). c_counter chn < v_ctr v)"
  using verify_run_increasing [OF assms] by (metis prod.collapse)

lemma verify_run_no_replay_witness:
  "\<exists>tok v. snd (verify_run sample_prims [1, 2, 3] (replicate 32 9) (sample_chain 3)
      [(1000, TokenBytes tok), (5, TokenBytes [1, 2]), (1000, TokenBytes tok)]) = [Inr v, Inl RangeErr, Inl (Replay 4 4)] \<and>
    sorted_wrt (<) (map v_ctr (accepted (snd (verify_run sample_prims [1, 2, 3] (replicate 32 9) (sample_chain 3)
      [(1000, TokenBytes tok), (5, TokenBytes [1, 2]), (1000, TokenBytes tok)]))))"
proof -
  obtain chn' tok vchn' v where
    "issue_token sample_prims 1000 sample_nonce sample_params (sample_chain 3) = (chn', Inr (tok, to_hex tok))"
    and v: "verify_token sample_prims 1000 [1, 2, 3] (replicate 32 9) (sample_chain 3) (TokenBytes tok) = (vchn', Inr v)"
    and c: "v_ctr v = 4"
    using sample_verifies [of "sample_chain 3" "sample_chain 3"] by auto
  have r: "verify_token sample_prims 1000 [1, 2, 3] (replicate 32 9) vchn' (TokenBytes tok) = (vchn', Inl (Replay 4 4))"
    using verify_token_replay [OF sample_prims_ok(1) sample_chain_ok(1) v refl, of 1000] c by force
  have b: "verify_token sample_prims 5 [1, 2, 3] (replicate 32 9) w (TokenBytes [1, 2]) = (w, Inl RangeErr)" for w
    by (simp add: verify_token_def open_token_def token_data_def deserialize_token_def get_uint_def)
  have "snd (verify_run sample_prims [1, 2, 3] (replicate 32 9) (sample_chain 3)
      [(1000, TokenBytes tok), (5, TokenBytes [1, 2]), (1000, TokenBytes tok)]) = [Inr v, Inl RangeErr, Inl (Replay 4 4)]"
    by (simp add: v r b)
  moreover note verify_run_no_replay [OF sample_prims_ok(1) sample_chain_ok(1), of "[1, 2, 3]" "replicate 32 9" 3
      "[(1000, TokenBytes tok), (5, TokenBytes [1, 2]), (1000, TokenBytes tok)]", THEN conjunct1]
  ultimately show ?thesis by blast
qed

text \<open>A verification that fails leaves the chain as it was, except in one case: the token is
  authentic and fresh but its payload cannot be decompressed or decoded; then the chain has already
  moved to the counter of that token.\<close>

theorem verify_failure_chain:
  assumes "sha3_len (p_sha3 P)" "wf_chain chn" "verify_token P now vk key chn t = (chn', Inl e)"
  shows "chn' = chn \<or>
    (\<exists>h pt. authentic P now vk key (token_data t) h pt \<and> c_counter chn < h_ctr h \<and>
      c_counter chn' = h_ctr h \<and> bind_r (unpack_payload P pt) decode_claims = Inl e)"
  using assms
proof (cases rule: verify_token_cases)
  case (fresh h pt)
  have "bind_r (unpack_payload P pt) decode_claims = Inl e"
    using fresh(6) by (auto simp: bind_r_def split: sum.splits)
  with fresh show ?thesis by (auto simp: open_token_iff [symmetric])
qed auto

lemma verify_failure_chain_witness:
  "\<exists>chn' e. verify_token sample_prims 5 [1] [2] (sample_chain 3) (TokenBytes []) = (chn', Inl e) \<and> chn' = sample_chain 3"
proof -
  have v: "verify_token sample_prims 5 [1] [2] (sample_chain 3) (TokenBytes []) = (sample_chain 3, Inl RangeErr)"
    by (simp add: verify_token_def open_token_def token_data_def deserialize_token_def get_uint_def)
  then show ?thesis
    using verify_failure_chain [OF _ _ v] by simp
qed

text \<open>Issuing advances the chain before it encodes the claims: with claims that the format cannot
  carry (more than 15, a text over 255 bytes, a nested value) it throws, and the chain stays one
  counter further without a token.\<close>

theorem unencodable_claims_burn_counter:
  assumes "wf_chain chn" "certify_entropy nonce = Inr ()"
    and "i_signing_key_seed prm = Some key" "i_signing_key prm = None"
    and "\<not> encodable P (i_claims prm)"
  shows "\<exists>chn' e. issue_token P now nonce prm chn = (chn', Inl e) \<and>
    advance (p_sha3 P) chn = Inr chn' \<and> c_counter chn' = c_counter chn + 1"
proof -
  obtain chn' where adv: "advance (p_sha3 P) chn = Inr chn'" using advance_total [OF assms(1)] by blast
  obtain e where "encode_claims P (i_claims prm) = Inl e"
    using assms(5) encode_claims_iff [of P "i_claims prm"] by (cases "encode_claims P (i_claims prm)") auto
  then have "seal_token P prm key i n f c = Inl e" for i n f c by (simp add: seal_token_def)
  then show ?thesis using assms adv by (simp add: issue_token_def Let_def advance_counter [OF adv])
qed

lemma unencodable_claims_burn_counter_witness:
  "\<exists>chn' e. issue_token sample_prims 1000 sample_nonce
      (sample_params\<lparr>i_claims := [(js ''roles'', JArr [])]\<rparr>) (sample_chain 4) = (chn', Inl e) \<and>
    c_counter chn' = 5"
proof -
  have "\<exists>chn' e. issue_token sample_prims 1000 sample_nonce
      (sample_params\<lparr>i_claims := [(js ''roles'', JArr [])]\<rparr>) (sample_chain 4) = (chn', Inl e) \<and>
    advance (p_sha3 sample_prims) (sample_chain 4) = Inr chn' \<and> c_counter chn' = c_counter (sample_chain 4) + 1"
    by (rule unencodable_claims_burn_counter [where key = "[1, 2, 3]"])
      (simp_all add: sample_params_def encodable_def)
  then show ?thesis by force
qed

end
