(* ===== verification/Counter_Store.thy ===== *)
theory Counter_Store
  imports Token
begin

section \<open>External counter stores\<close>

text \<open>
  The \<open>ChainStore\<close> interface of the SDK (\<open>reserveNext\<close>, \<open>observe\<close>), its reference
  implementation \<open>InMemoryChainStore\<close>, and the two entry points over it, \<open>issueTokenWithStore\<close>
  and \<open>verifyTokenWithStore\<close>. The interface is the locale \<open>counter_store\<close>, whose laws are those
  the source lists (atomic, monotonic, the value persisted before it is returned); its lemmas speak
  of any interleaving of calls, each call being one atomic step.
\<close>

text \<open>One call on a store: its key and, for \<open>observe\<close>, the counter.\<close>

datatype store_call = Reserve string | Observe string int

datatype store_reply = Reserved string int | Observed string int | Refused string

type_synonym 's reserve_fun = "'s \<Rightarrow> string \<Rightarrow> int \<times> 's"
type_synonym 's observe_fun = "'s \<Rightarrow> string \<Rightarrow> int \<Rightarrow> sdk_error + 's"

fun store_step :: "'s reserve_fun \<Rightarrow> 's observe_fun \<Rightarrow> 's \<Rightarrow> store_call \<Rightarrow> 's \<times> store_reply" where
  "store_step res obs s (Reserve k) = (let (n, s') = res s k in (s', Reserved k n))"
| "store_step res obs s (Observe k c) =
     (case obs s k c of Inl e \<Rightarrow> (s, Refused k) | Inr s' \<Rightarrow> (s', Observed k c))"

fun store_run :: "'s reserve_fun \<Rightarrow> 's observe_fun \<Rightarrow> 's \<Rightarrow> store_call list \<Rightarrow> 's \<times> store_reply list" where
  "store_run res obs s [] = (s, [])"
| "store_run res obs s (c # cs) =
     (let (s1, r) = store_step res obs s c; (s2, rs) = store_run res obs s1 cs in (s2, r # rs))"

text \<open>The counters a key got, by either call, in the order of the calls.\<close>

fun reply_counter :: "string \<Rightarrow> store_reply \<Rightarrow> int list" where
  "reply_counter k (Reserved k' n) = (if k' = k then [n] else [])"
| "reply_counter k (Observed k' n) = (if k' = k then [n] else [])"
| "reply_counter k (Refused k') = []"

definition counters_of :: "string \<Rightarrow> store_reply list \<Rightarrow> int list" where
  "counters_of k rs = concat (map (reply_counter k) rs)"

lemma counters_of_simps [simp]:
  "counters_of k [] = []" "counters_of k (r # rs) = reply_counter k r @ counters_of k rs"
  by (simp_all add: counters_of_def)

locale counter_store =
  fixes reserve :: "'s \<Rightarrow> string \<Rightarrow> int \<times> 's"
    and observe :: "'s \<Rightarrow> string \<Rightarrow> int \<Rightarrow> sdk_error + 's"
    and current :: "'s \<Rightarrow> string \<Rightarrow> int"
  assumes reserve_next: "reserve s k = (n, s') \<Longrightarrow>
      n = current s k + 1 \<and> current s' = (current s)(k := n)"
    and observe_new: "current s k < c \<Longrightarrow>
      \<exists>s'. observe s k c = Inr s' \<and> current s' = (current s)(k := c)"
    and observe_old: "c \<le> current s k \<Longrightarrow> observe s k c = Inl (Replay c (current s k))"
begin

lemma step_counter:
  assumes "store_step reserve observe s c = (s', r)"
  shows "(\<exists>n. reply_counter k r = [n] \<and> current s k < n \<and> current s' k = n) \<or>
    reply_counter k r = [] \<and> current s' k = current s k"
proof (cases c)
  case (Reserve k')
  then show ?thesis
    using assms reserve_next [of s k'] by (cases "reserve s k'") auto
next
  case (Observe k' n)
  then show ?thesis
    using assms observe_new [of s k' n] observe_old [of n s k'] by (cases "current s k' < n") (auto split: if_splits)
qed

lemma run_increasing:
  "store_run reserve observe s cs = (s', rs) \<Longrightarrow>
   sorted_wrt (<) (counters_of k rs) \<and> (\<forall>n \<in> set (counters_of k rs). current s k < n)"
proof (induction cs arbitrary: s s' rs)
  case Nil
  then show ?case by simp
next
  case (Cons c cs)
  obtain s1 r where st: "store_step reserve observe s c = (s1, r)" by force
  obtain s2 rs2 where ru: "store_run reserve observe s1 cs = (s2, rs2)" by force
  have rs: "rs = r # rs2" using Cons.prems st ru by simp
  have IH: "sorted_wrt (<) (counters_of k rs2)" "\<forall>n \<in> set (counters_of k rs2). current s1 k < n"
    using Cons.IH [OF ru] by auto
  from step_counter [OF st, of k] show ?case
  proof
    assume "\<exists>n. reply_counter k r = [n] \<and> current s k < n \<and> current s1 k = n"
    then show ?thesis using IH rs by force
  next
    assume "reply_counter k r = [] \<and> current s1 k = current s k"
    then show ?thesis using IH rs by simp
  qed
qed

text \<open>One store in both roles: the counter just reserved is never accepted by \<open>observe\<close>.\<close>

lemma reserve_observe_refused:
  "reserve s k = (n, s') \<Longrightarrow> \<exists>e. observe s' k n = Inl e"
  using reserve_next [of s k n s'] observe_old [of n s' k] by simp

end

subsection \<open>The in-memory store\<close>

type_synonym mem_store = "string \<Rightarrow> int option"

definition store_current :: "mem_store \<Rightarrow> string \<Rightarrow> int" where
  "store_current m k = (case m k of None \<Rightarrow> 0 | Some n \<Rightarrow> n)"

definition reserve_next :: "mem_store \<Rightarrow> string \<Rightarrow> int \<times> mem_store" where
  "reserve_next m k = (let n = store_current m k + 1 in (n, m(k \<mapsto> n)))"

definition store_observe :: "mem_store \<Rightarrow> string \<Rightarrow> int \<Rightarrow> sdk_error + mem_store" where
  "store_observe m k c =
     (let cur = store_current m k in if c \<le> cur then Inl (Replay c cur) else Inr (m(k \<mapsto> c)))"

lemma store_current_upd [simp]: "store_current (m(k \<mapsto> n)) = (store_current m)(k := n)"
  by (simp add: store_current_def fun_eq_iff)

interpretation mem: counter_store reserve_next store_observe store_current
  by unfold_locales (auto simp: reserve_next_def store_observe_def Let_def)

subsection \<open>Issue and verify over a store\<close>

definition issue_token_with_store ::
  "prims \<Rightarrow> 's reserve_fun \<Rightarrow> int \<Rightarrow> bytes \<Rightarrow> 's \<Rightarrow> string \<Rightarrow> bytes option \<Rightarrow> issue_params \<Rightarrow>
   's \<times> (sdk_error + bytes \<times> string \<times> int)" where
  "issue_token_with_store P res now_ms nonce store keyId chainSeed prm =
     (if keyId = [] then (store, Inl StoreKeyIdMissing)
      else let seed = (case chainSeed of None \<Rightarrow> slice 0 32 (i_encrypt_key prm) | Some s \<Rightarrow> s) in
        if length seed \<noteq> 32 then (store, Inl StoreSeedMissing)
        else let (counter, store') = res store keyId in
          (store', bind_r (issue_token_at P now_ms nonce prm seed counter)
                     (\<lambda>(tokenBytes, tokenHex). Inr (tokenBytes, tokenHex, counter))))"

definition verify_token_with_store ::
  "prims \<Rightarrow> 's observe_fun \<Rightarrow> int \<Rightarrow> 's \<Rightarrow> string \<Rightarrow> bytes option \<Rightarrow> bytes \<Rightarrow> bytes \<Rightarrow> token_input \<Rightarrow>
   's \<times> (sdk_error + verified)" where
  "verify_token_with_store P obs now_ms store keyId chainSeed vk key t =
     (let seed = (case chainSeed of None \<Rightarrow> slice 0 32 key | Some s \<Rightarrow> s);
          vchain = from_state seed 0 in
      case snd (verify_token P now_ms vk key vchain t) of
        Inl e \<Rightarrow> (store, Inl e)
      | Inr out \<Rightarrow>
          (case obs store keyId (v_ctr out) of
             Inl e \<Rightarrow> (store, Inl e)
           | Inr store' \<Rightarrow> (store', Inr out)))"

fun verify_store_run ::
  "prims \<Rightarrow> 's observe_fun \<Rightarrow> 's \<Rightarrow> (int \<times> string \<times> bytes option \<times> bytes \<times> bytes \<times> token_input) list \<Rightarrow>
   's \<times> (string \<times> (sdk_error + verified)) list" where
  "verify_store_run P obs s [] = (s, [])"
| "verify_store_run P obs s ((now, keyId, seed, vk, key, t) # ts) =
     (let (s1, r) = verify_token_with_store P obs now s keyId seed vk key t;
          (s2, rs) = verify_store_run P obs s1 ts in (s2, (keyId, r) # rs))"

definition accepted_for :: "string \<Rightarrow> (string \<times> (sdk_error + verified)) list \<Rightarrow> int list" where
  "accepted_for k rs = map v_ctr (accepted (map snd (filter (\<lambda>(k', r). k' = k) rs)))"

context counter_store
begin

lemma verify_with_store_cases:
  assumes "verify_token_with_store P observe now s keyId seed vk key t = (s', r)"
  shows "s' = s \<and> (\<exists>e. r = Inl e) \<or>
    (\<exists>v. r = Inr v \<and> current s keyId < v_ctr v \<and> current s' = (current s)(keyId := v_ctr v))"
proof (cases "snd (verify_token P now vk key (from_state (case seed of None \<Rightarrow> slice 0 32 key | Some x \<Rightarrow> x) 0) t)")
  case (Inl e)
  then have "s' = s" "r = Inl e" using assms by (auto simp: verify_token_with_store_def Let_def)
  then show ?thesis by blast
next
  case (Inr v)
  note out = Inr
  show ?thesis
  proof (cases "current s keyId < v_ctr v")
    case True
    with observe_new obtain s1 where "observe s keyId (v_ctr v) = Inr s1"
      "current s1 = (current s)(keyId := v_ctr v)" by blast
    then have "r = Inr v" "current s' = (current s)(keyId := v_ctr v)"
      using assms out by (auto simp: verify_token_with_store_def Let_def)
    then show ?thesis using True by blast
  next
    case False
    then have "observe s keyId (v_ctr v) = Inl (Replay (v_ctr v) (current s keyId))"
      by (simp add: observe_old)
    then have "s' = s" "r = Inl (Replay (v_ctr v) (current s keyId))"
      using assms out by (auto simp: verify_token_with_store_def Let_def)
    then show ?thesis by blast
  qed
qed

lemma verify_store_increasing:
  "verify_store_run P observe s ts = (s', rs) \<Longrightarrow>
   sorted_wrt (<) (accepted_for k rs) \<and> (\<forall>n \<in> set (accepted_for k rs). current s k < n)"
proof (induction ts arbitrary: s s' rs)
  case Nil
  then show ?case by (simp add: accepted_for_def)
next
  case (Cons a ts)
  obtain now keyId seed vk key t where a: "a = (now, keyId, seed, vk, key, t)" by (cases a) auto
  obtain s1 r where st: "verify_token_with_store P observe now s keyId seed vk key t = (s1, r)" by force
  obtain s2 rs2 where ru: "verify_store_run P observe s1 ts = (s2, rs2)" by force
  have rs: "rs = (keyId, r) # rs2" using Cons.prems st ru by (simp add: a)
  have IH: "sorted_wrt (<) (accepted_for k rs2)" "\<forall>n \<in> set (accepted_for k rs2). current s1 k < n"
    using Cons.IH [OF ru] by auto
  from verify_with_store_cases [OF st] show ?case
  proof
    assume "s1 = s \<and> (\<exists>e. r = Inl e)"
    then show ?thesis using IH rs by (auto simp: accepted_for_def)
  next
    assume "\<exists>v. r = Inr v \<and> current s keyId < v_ctr v \<and> current s1 = (current s)(keyId := v_ctr v)"
    then show ?thesis using IH rs by (force simp: accepted_for_def)
  qed
qed

end

subsection \<open>Inspect\<close>

fun hex_print :: "nat \<Rightarrow> string" where
  "hex_print n = (if n < 16 then [hex_digit n] else hex_print (n div 16) @ [hex_digit (n mod 16)])"

declare hex_print.simps [simp del]

definition pad_start :: "nat \<Rightarrow> char \<Rightarrow> string \<Rightarrow> string" where
  "pad_start n c s = replicate (n - length s) c @ s"

definition SUITE_IDS :: "(string \<times> int) list" where
  "SUITE_IDS = [(''Dilithium5'', 0x05), (''Dilithium3'', 0x02), (''Dilithium2'', 0x03),
     (''Falcon512'', 0x10), (''Falcon1024'', 0x11), (''Dual'', 0x09), (''Triple'', 0xFF)]"

definition TOKEN_TYPES :: "(string \<times> int) list" where
  "TOKEN_TYPES = [(''Access'', 0x01), (''Refresh'', 0x02), (''Service'', 0x03)]"

definition name_of :: "(string \<times> int) list \<Rightarrow> int \<Rightarrow> string" where
  "name_of tab v = (case find (\<lambda>(n, w). w = v) tab of Some (n, _) \<Rightarrow> n | None \<Rightarrow> ''unknown'')"

record inspected =
  t_magic :: string
  t_version :: string
  t_suite :: string
  t_tokenType :: string
  t_issuedAt :: string
  t_ttl :: string
  t_nonce :: string
  t_deviceFp :: string
  t_mutationCtr :: string
  t_payloadLen :: string
  t_sigLen :: string
  t_totalBytes :: nat

definition upper_char :: "char \<Rightarrow> char" where
  "upper_char c = (let k = code c in if 97 \<le> k \<and> k \<le> 122 then char_of (k - 32) else c)"

definition inspect_token :: "token_input \<Rightarrow> sdk_error + inspected" where
  "inspect_token t =
     (let data = token_data t in
      bind_r (deserialize_token data) (\<lambda>(h, encPayload, sig).
        Inr \<lparr>t_magic = ''0x'' @ map upper_char (hex_print MAGIC),
             t_version = ''0x'' @ pad_start 4 (CHR ''0'') (hex_print VERSION),
             t_suite = name_of SUITE_IDS (h_suite h) @ '' (0x'' @
               pad_start 2 (CHR ''0'') (hex_print (nat (h_suite h))) @ '')'',
             t_tokenType = name_of TOKEN_TYPES (h_type h),
             t_issuedAt = int_text (h_issued h),
             t_ttl = int_text (h_ttl h) @ ''s'',
             t_nonce = to_hex (h_nonce h),
             t_deviceFp = to_hex (h_fp h),
             t_mutationCtr = int_text (h_ctr h),
             t_payloadLen = dec_print (length encPayload) @ '' bytes (encrypted)'',
             t_sigLen = dec_print (length sig) @ '' bytes'',
             t_totalBytes = length data\<rparr>))"

subsection \<open>Properties\<close>

text \<open>C12: Whatever calls are made on an \<open>InMemoryChainStore\<close>, by issuers and verifiers in any
  interleaving, the counters handed out or accepted for a key are strictly increasing: no counter is
  issued twice, none is accepted twice, and none is issued after it was accepted.\<close>

theorem store_counters_increase:
  "sorted_wrt (<) (counters_of k (snd (store_run reserve_next store_observe m cs))) \<and>
   (\<forall>n \<in> set (counters_of k (snd (store_run reserve_next store_observe m cs))). store_current m k < n)"
  using mem.run_increasing [of m cs] by (metis prod.collapse)

lemma store_counters_increase_witness:
  "sorted_wrt (<) (counters_of ''a'' (snd (store_run reserve_next store_observe Map.empty
     [Reserve ''a'', Observe ''a'' 5, Reserve ''b'', Reserve ''a'', Observe ''a'' 6])))"
  by (rule store_counters_increase [THEN conjunct1])

text \<open>\<open>verifyTokenWithStore\<close> over an \<open>InMemoryChainStore\<close> accepts, for one key id, only strictly
  increasing counters above the stored mark, whatever tokens, keys and times it is called with: a token
  is accepted at most once per key id.\<close>

theorem store_verify_no_replay:
  "sorted_wrt (<) (accepted_for k (snd (verify_store_run P store_observe m ts))) \<and>
   (\<forall>n \<in> set (accepted_for k (snd (verify_store_run P store_observe m ts))). store_current m k < n)"
  using mem.verify_store_increasing [of P m ts] by (metis prod.collapse)

lemma store_verify_no_replay_witness:
  "sorted_wrt (<) (accepted_for ''a'' (snd (verify_store_run sample_prims store_observe Map.empty
     [(5, ''a'', None, [1], [2], TokenHex ''00''), (6, ''a'', None, [1], [2], TokenBytes [])])))"
  by (rule store_verify_no_replay [THEN conjunct1])

text \<open>With one store object in both roles every fresh token is refused: the counter that
  \<open>issueTokenWithStore\<close> reserves is already the stored mark when \<open>verifyTokenWithStore\<close> observes it.\<close>

theorem shared_store_refuses_fresh_token:
  assumes "issue_token_with_store P reserve_next now nonce m keyId cseed prm = (m', Inr (tok, hex, ctr))"
    and "snd (verify_token P now' vk key (from_state (case vseed of None \<Rightarrow> slice 0 32 key | Some x \<Rightarrow> x) 0) t) = Inr v"
    and "v_ctr v = ctr"
  shows "verify_token_with_store P store_observe now' m' keyId vseed vk key t = (m', Inl (Replay ctr ctr))"
proof -
  have "reserve_next m keyId = (ctr, m')"
    using assms(1) by (auto simp: issue_token_with_store_def Let_def bind_r_eq_Inr split: if_splits prod.splits)
  then have "store_current m' keyId = ctr" using mem.reserve_next by simp
  then show ?thesis
    using assms(2,3) by (simp add: verify_token_with_store_def Let_def store_observe_def)
qed

lemma shared_store_refuses_fresh_token_witness:
  "\<exists>m' tok hex. issue_token_with_store sample_prims reserve_next 1000 sample_nonce [''k'' \<mapsto> 4] ''k''
       (Some (replicate 32 1)) sample_params = (m', Inr (tok, hex, 5)) \<and>
     verify_token_with_store sample_prims store_observe 1000 m' ''k'' None [1, 2, 3] (replicate 32 9) (TokenBytes tok) =
       (m', Inl (Replay 5 5))"
proof -
  have wf: "wf_chain (from_state (replicate 32 1) n)" "wf_chain (from_state (replicate 32 9) n)" for n
    by (simp_all add: from_state_def new_chain_def wf_chain_def)
  have ctr: "c_counter (from_state s n) = n" for s n by (simp add: from_state_def)
  obtain chn' tok vchn' v where i:
    "issue_token sample_prims 1000 sample_nonce sample_params (from_state (replicate 32 1) 4) = (chn', Inr (tok, to_hex tok))"
    and v: "verify_token sample_prims 1000 [1, 2, 3] (replicate 32 9) (from_state (replicate 32 9) 0) (TokenBytes tok) = (vchn', Inr v)"
    "v_ctr v = 5"
    using sample_verifies [OF wf(1) wf(2), of 4 0] by (auto simp: ctr)
  have st: "issue_token_with_store sample_prims reserve_next 1000 sample_nonce [''k'' \<mapsto> 4] ''k''
       (Some (replicate 32 1)) sample_params = ([''k'' \<mapsto> 5], Inr (tok, to_hex tok, 5))"
    using i by (simp add: issue_token_with_store_def issue_token_at_def reserve_next_def store_current_def Let_def)
  have sl: "slice 0 32 (replicate 32 (9 :: byte)) = replicate 32 9" by simp
  have "verify_token_with_store sample_prims store_observe 1000 [''k'' \<mapsto> 5] ''k'' None [1, 2, 3] (replicate 32 9) (TokenBytes tok) =
       ([''k'' \<mapsto> 5], Inl (Replay 5 5))"
    by (rule shared_store_refuses_fresh_token [OF st _ v(2)]) (simp add: v(1))
  with st show ?thesis by blast
qed

end
