(* ===== verification/Chain_Log.thy ===== *)
theory Chain_Log
  imports Mutation_Chain
begin

section \<open>The chain log: format and verifier\<close>

text \<open>
  \<open>qv-server/chain-log.mjs\<close>: a file of 40-byte records, the post-advance counter (big-endian u64)
  and the post-advance state. \<open>verify_log\<close> is \<open>verifyAndLoadChainLog\<close>; the file is
  \<open>None\<close> when it does not exist. The hash (\<open>createHash('sha3-256')\<close>) is the argument \<open>h\<close>.
\<close>

datatype log_error =
    LogCorrupt nat                     \<comment> \<open>\<open>CHAIN_LOG_CORRUPT\<close>, the length\<close>
  | LogNonMonotonic nat nat nat        \<comment> \<open>record index, counter found, counter expected\<close>
  | LogTampered nat                    \<comment> \<open>record index\<close>

record loaded =
  l_counter :: nat
  l_state :: bytes
  l_records :: nat

definition chain_record_bytes :: nat where
  "chain_record_bytes = 40"

text \<open>
  \<open>deriveNext\<close>: \<open>Buffer.copy\<close> copies what fits, the counter before the advance overwrites bytes
  32 to 39. It is only called with the counter \<open>expectedCtr\<close>, which starts at 1.
\<close>

definition derive_next :: "(bytes \<Rightarrow> bytes) \<Rightarrow> bytes \<Rightarrow> nat \<Rightarrow> bytes" where
  "derive_next h prev post_ctr = h (pad32 prev @ be_enc 8 (post_ctr - 1))"

definition rec_counter :: "bytes \<Rightarrow> nat" where
  "rec_counter r = be_dec (slice 0 8 r)"

definition rec_state :: "bytes \<Rightarrow> bytes" where
  "rec_state r = slice 8 40 r"

text \<open>The loop over the records: index, previous state and expected counter are its variables.\<close>

fun log_loop :: "(bytes \<Rightarrow> bytes) \<Rightarrow> nat \<Rightarrow> bytes \<Rightarrow> nat \<Rightarrow> (nat \<times> bytes) list \<Rightarrow> log_error + bytes"
where
  "log_loop h i prev expected [] = Inr prev"
| "log_loop h i prev expected ((ctr, st) # rs) =
     (if ctr \<noteq> expected then Inl (LogNonMonotonic i ctr expected)
      else let derived = derive_next h prev ctr in
        if length derived \<noteq> length st \<or> derived \<noteq> st then Inl (LogTampered i)
        else log_loop h (Suc i) st (Suc expected) rs)"

definition records_of :: "bytes \<Rightarrow> (nat \<times> bytes) list" where
  "records_of buf = map (\<lambda>r. (rec_counter r, rec_state r)) (chunks chain_record_bytes buf)"

definition verify_records ::
    "(bytes \<Rightarrow> bytes) \<Rightarrow> bytes \<Rightarrow> (nat \<times> bytes) list \<Rightarrow> log_error + loaded" where
  "verify_records h seed rs =
     bind_r (log_loop h 0 seed 1 rs)
       (\<lambda>st. Inr \<lparr>l_counter = length rs, l_state = st, l_records = length rs\<rparr>)"

definition verify_log :: "(bytes \<Rightarrow> bytes) \<Rightarrow> bytes option \<Rightarrow> bytes \<Rightarrow> log_error + loaded" where
  "verify_log h file seed =
     (case file of
        None \<Rightarrow> Inr \<lparr>l_counter = 0, l_state = seed, l_records = 0\<rparr>
      | Some buf \<Rightarrow>
          if buf = [] then Inr \<lparr>l_counter = 0, l_state = seed, l_records = 0\<rparr>
          else if length buf mod chain_record_bytes \<noteq> 0 then Inl (LogCorrupt (length buf))
          else verify_records h seed (records_of buf))"

subsection \<open>The log of a chain\<close>

definition chain_records :: "(bytes \<Rightarrow> bytes) \<Rightarrow> bytes \<Rightarrow> nat \<Rightarrow> (nat \<times> bytes) list" where
  "chain_records h seed n = map (\<lambda>i. (Suc i, ratchet h seed (Suc i))) [0..<n]"

definition enc_record :: "nat \<times> bytes \<Rightarrow> bytes" where
  "enc_record r = be_enc 8 (fst r) @ snd r"

definition chain_log :: "(bytes \<Rightarrow> bytes) \<Rightarrow> bytes \<Rightarrow> nat \<Rightarrow> bytes" where
  "chain_log h seed n = concat (map enc_record (chain_records h seed n))"

lemma length_chain_records [simp]: "length (chain_records h seed n) = n"
  by (simp add: chain_records_def)

lemma chain_records_Suc:
  "chain_records h seed (Suc n) = chain_records h seed n @ [(Suc n, ratchet h seed (Suc n))]"
  by (simp add: chain_records_def)

lemma chain_records_0 [simp]: "chain_records h seed 0 = []"
  by (simp add: chain_records_def)

lemma chain_record_lengths:
  "sha3_len h \<Longrightarrow> r \<in> set (chain_records h seed n) \<Longrightarrow> length (snd r) = 32"
  by (auto simp: chain_records_def)

lemma chain_record_counters:
  "r \<in> set (chain_records h seed n) \<Longrightarrow> fst r \<le> n"
  by (auto simp: chain_records_def)

lemma dec_enc_record [bytes_simps]:
  "c < 2 ^ 64 \<Longrightarrow> length s = 32 \<Longrightarrow>
   rec_counter (enc_record (c, s)) = c \<and> rec_state (enc_record (c, s)) = s"
  by (simp add: rec_counter_def rec_state_def enc_record_def slice_append slice_append_right be_dec_enc)

lemma enc_dec_record [bytes_simps]:
  "length r = 40 \<Longrightarrow> enc_record (rec_counter r, rec_state r) = r"
proof -
  assume len: "length r = 40"
  then have "be_enc 8 (rec_counter r) = slice 0 8 r"
    using be_enc_dec [of "slice 0 8 r"] by (simp add: rec_counter_def)
  with len show ?thesis by (simp add: enc_record_def rec_state_def slice_def)
qed

lemma records_of_concat:
  assumes "\<forall>r \<in> set rs. fst r < 2 ^ 64 \<and> length (snd r) = 32"
  shows "records_of (concat (map enc_record rs)) = rs"
proof -
  have "\<forall>b \<in> set (map enc_record rs). length b = 40"
    using assms by (auto simp: enc_record_def)
  then have "chunks 40 (concat (map enc_record rs)) = map enc_record rs"
    by (intro chunks_concat) auto
  moreover have "map (\<lambda>r. (rec_counter r, rec_state r)) (map enc_record rs) = rs"
    using assms dec_enc_record by (induction rs) auto
  ultimately show ?thesis by (simp add: records_of_def chain_record_bytes_def)
qed

lemma concat_records_of:
  assumes "length buf mod 40 = 0"
  shows "concat (map enc_record (records_of buf)) = buf"
proof -
  have "\<forall>r \<in> set (chunks 40 buf). length r = 40"
    using chunks_lengths [of 40 buf] assms by auto
  then have "map (enc_record \<circ> (\<lambda>r. (rec_counter r, rec_state r))) (chunks 40 buf) = chunks 40 buf"
    by (induction "chunks 40 buf") (auto simp: enc_dec_record map_idI)
  then show ?thesis by (simp add: records_of_def chain_record_bytes_def concat_chunks)
qed

subsection \<open>Soundness and completeness of the verifier\<close>

lemma log_loop_chain:
  assumes "sha3_len h"
  shows "log_loop h i (ratchet h seed k) (Suc k)
           (map (\<lambda>j. (Suc j, ratchet h seed (Suc j))) [k..<k + n]) = Inr (ratchet h seed (k + n))"
proof (induction n arbitrary: i k)
  case 0
  then show ?case by simp
next
  case (Suc n)
  have "[k..<k + Suc n] = k # [Suc k..<Suc k + n]" by (simp add: upt_conv_Cons)
  with Suc [of "Suc i" "Suc k"] show ?case by (simp add: derive_next_def Let_def)
qed

lemma log_loop_sound:
  "log_loop h i (ratchet h seed k) (Suc k) rs = Inr st \<Longrightarrow>
   rs = map (\<lambda>j. (Suc j, ratchet h seed (Suc j))) [k..<k + length rs]"
proof (induction rs arbitrary: i k)
  case Nil
  then show ?case by simp
next
  case (Cons r rs)
  obtain ctr s where r: "r = (ctr, s)" by (cases r)
  with Cons.prems have s: "ctr = Suc k" "s = ratchet h seed (Suc k)"
    and rest: "log_loop h (Suc i) (ratchet h seed (Suc k)) (Suc (Suc k)) rs = Inr st"
    by (auto simp: Let_def derive_next_def split: if_splits)
  have "[k..<k + length (r # rs)] = k # [Suc k..<Suc k + length rs]"
    by (simp add: upt_conv_Cons del: upt_Suc)
  with Cons.IH [OF rest] r s show ?case by (simp del: upt_Suc)
qed

lemma verify_records_iff:
  assumes "sha3_len h"
  shows "verify_records h seed rs = Inr l \<longleftrightarrow>
    rs = chain_records h seed (length rs) \<and>
    l = \<lparr>l_counter = length rs, l_state = ratchet h seed (length rs), l_records = length rs\<rparr>"
proof
  assume "verify_records h seed rs = Inr l"
  then obtain st where st: "log_loop h 0 seed 1 rs = Inr st"
    and l: "l = \<lparr>l_counter = length rs, l_state = st, l_records = length rs\<rparr>"
    by (auto simp: verify_records_def bind_r_eq_Inr)
  have rs: "rs = chain_records h seed (length rs)"
    using log_loop_sound [of h 0 seed 0 rs st] st by (simp add: chain_records_def)
  have "log_loop h 0 seed 1 (chain_records h seed (length rs)) = Inr (ratchet h seed (length rs))"
    using log_loop_chain [OF assms, of 0 seed 0 "length rs"] by (simp add: chain_records_def)
  with rs st l show "rs = chain_records h seed (length rs) \<and>
    l = \<lparr>l_counter = length rs, l_state = ratchet h seed (length rs), l_records = length rs\<rparr>"
    by simp
next
  assume r: "rs = chain_records h seed (length rs) \<and>
    l = \<lparr>l_counter = length rs, l_state = ratchet h seed (length rs), l_records = length rs\<rparr>"
  have "log_loop h 0 seed 1 (chain_records h seed (length rs)) = Inr (ratchet h seed (length rs))"
    using log_loop_chain [OF assms, of 0 seed 0 "length rs"] by (simp add: chain_records_def)
  with r show "verify_records h seed rs = Inr l" by (simp add: verify_records_def)
qed

lemma verify_chain_records:
  "sha3_len h \<Longrightarrow> verify_records h seed (chain_records h seed n) =
     Inr \<lparr>l_counter = n, l_state = ratchet h seed n, l_records = n\<rparr>"
  by (simp add: verify_records_iff)

lemma length_chain_log [simp]: "sha3_len h \<Longrightarrow> length (chain_log h seed n) = 40 * n"
  by (induction n) (simp_all add: chain_log_def chain_records_Suc enc_record_def)

lemma records_of_chain_log:
  assumes "sha3_len h" "n < 2 ^ 64"
  shows "records_of (chain_log h seed n) = chain_records h seed n"
  unfolding chain_log_def
  using assms chain_record_lengths [OF assms(1)] chain_record_counters
  by (intro records_of_concat) (force dest: le_less_trans)

lemma verify_log_chain_log:
  assumes "sha3_len h" "n < 2 ^ 64"
  shows "verify_log h (Some (chain_log h seed n)) seed =
    Inr \<lparr>l_counter = n, l_state = ratchet h seed n, l_records = n\<rparr>"
proof (cases n)
  case 0
  then show ?thesis by (simp add: verify_log_def chain_log_def)
next
  case (Suc m)
  have "chain_log h seed n \<noteq> []"
    using length_chain_log [OF assms(1), of seed n] Suc by auto
  with assms show ?thesis
    by (simp add: verify_log_def chain_record_bytes_def records_of_chain_log verify_chain_records)
qed

lemma verify_log_sound:
  assumes h: "sha3_len h" and v: "verify_log h (Some buf) seed = Inr l"
  shows "\<exists>n < 2 ^ 64. buf = chain_log h seed n"
proof (cases "buf = []")
  case True
  then show ?thesis by (intro exI [of _ 0]) (simp add: chain_log_def)
next
  case False
  with v have m: "length buf mod 40 = 0" and r: "verify_records h seed (records_of buf) = Inr l"
    by (auto simp: verify_log_def chain_record_bytes_def split: if_splits)
  define n where "n = length (records_of buf)"
  from r h have rs: "records_of buf = chain_records h seed n"
    unfolding n_def by (simp add: verify_records_iff)
  with concat_records_of [OF m] have buf: "buf = chain_log h seed n"
    by (simp add: chain_log_def)
  have "n < 2 ^ 64"
  proof (cases n)
    case (Suc k)
    have "(n, ratchet h seed n) \<in> set (records_of buf)"
      using rs Suc by (simp add: chain_records_Suc)
    then obtain b where "n = rec_counter b"
      by (auto simp: records_of_def)
    then show ?thesis
      using be_dec_bound [of "slice 0 8 b"] power_increasing [of "length (slice 0 8 b)" 8 "256 :: nat"]
      by (simp add: rec_counter_def)
  qed simp
  with buf show ?thesis by blast
qed

lemma take_chain_log:
  assumes "sha3_len h" "n \<le> m"
  shows "take (40 * n) (chain_log h seed m) = chain_log h seed n"
proof -
  have "chain_log h seed m = chain_log h seed n @
      concat (map enc_record (map (\<lambda>i. (Suc i, ratchet h seed (Suc i))) [n..<m]))"
    using upt_add_eq_append [of 0 n "m - n"] assms(2)
    by (simp add: chain_log_def chain_records_def del: upt_Suc)
  then show ?thesis using assms(1) by simp
qed

subsection \<open>Properties\<close>

text \<open>C11: \<open>verifyAndLoadChainLog\<close> accepts exactly the logs of the chain of the seed: a missing or empty
  file, or the 40-byte records of the first \<open>n\<close> advances, in order and complete; and it returns that
  counter and that state. Any other content, of whatever length, is refused.\<close>

theorem verify_log_iff:
  assumes "sha3_len h"
  shows "verify_log h f seed = Inr l \<longleftrightarrow>
    (\<exists>n < 2 ^ 64. (case f of None \<Rightarrow> [] | Some buf \<Rightarrow> buf) = chain_log h seed n \<and>
      l = \<lparr>l_counter = n, l_state = ratchet h seed n, l_records = n\<rparr>)"
proof (cases f)
  case None
  have e: "[] = chain_log h seed n \<longleftrightarrow> n = 0" for n
  proof
    assume "[] = chain_log h seed n"
    then have "length (chain_log h seed n) = 0" by simp
    then show "n = 0" using length_chain_log [OF assms] by simp
  qed (simp add: chain_log_def)
  have "verify_log h f seed = Inr l \<longleftrightarrow> l = \<lparr>l_counter = 0, l_state = seed, l_records = 0\<rparr>"
    using None by (auto simp: verify_log_def)
  then show ?thesis using None by (simp add: e)
next
  case (Some buf)
  show ?thesis
  proof
    assume v: "verify_log h f seed = Inr l"
    then obtain n where n: "n < 2 ^ 64" "buf = chain_log h seed n"
      using verify_log_sound [OF assms] Some by blast
    with v verify_log_chain_log [OF assms n(1), of seed] Some
    show "\<exists>n < 2 ^ 64. (case f of None \<Rightarrow> [] | Some buf \<Rightarrow> buf) = chain_log h seed n \<and>
      l = \<lparr>l_counter = n, l_state = ratchet h seed n, l_records = n\<rparr>" by auto
  qed (use Some verify_log_chain_log [OF assms] in auto)
qed

lemma verify_log_iff_witness:
  "verify_log sample_hash (Some (chain_log sample_hash (replicate 32 1) 2)) (replicate 32 1) =
     Inr \<lparr>l_counter = 2, l_state = ratchet sample_hash (replicate 32 1) 2, l_records = 2\<rparr>"
  by (subst verify_log_iff [OF sample_hash_len]) (intro exI [of _ 2], simp)

text \<open>Cutting a valid log at a record boundary gives a valid log of fewer records: the verifier does
  not detect such a truncation, and returns the earlier counter and state.\<close>

theorem truncated_log_accepted:
  assumes "sha3_len h" "n \<le> m" "m < 2 ^ 64"
  shows "verify_log h (Some (take (40 * n) (chain_log h seed m))) seed =
    Inr \<lparr>l_counter = n, l_state = ratchet h seed n, l_records = n\<rparr>"
  using take_chain_log [OF assms(1,2)] verify_log_chain_log [OF assms(1), of n seed] assms(2,3) by simp

lemma truncated_log_accepted_witness:
  "verify_log sample_hash (Some (take 40 (chain_log sample_hash (replicate 32 1) 2))) (replicate 32 1) =
     Inr \<lparr>l_counter = 1, l_state = ratchet sample_hash (replicate 32 1) 1, l_records = 1\<rparr>"
  using truncated_log_accepted [of sample_hash 1 2 "replicate 32 1"] by simp

end
