(* ===== verification/Chain_Store.thy ===== *)
theory Chain_Store
  imports Chain_Log Js_Text
begin

section \<open>Chain stores: the interface, the file backend, the Postgres backend\<close>

text \<open>
  \<open>qv-server/chain-store.mjs\<close> and \<open>qv-server/chain-store-postgres.mjs\<close>. The interface the server
  uses (\<open>load\<close>, \<open>append\<close>, \<open>has\<close>) is the locale \<open>chain_store\<close>: what the comment of
  \<open>chain-store.mjs\<close> calls the contract. Its lemmas say that appending the chain after each
  advance and loading again gives the chain back, and that a skipped counter makes every later
  load fail. The file backend interprets it outright; the Postgres backend does so for any
  database that behaves as its documentation says (\<open>pg_contract\<close>).
\<close>

datatype pg_error = PgError (pg_code: string) (pg_message: string)

datatype store_error =
    SLog log_error
  | SRange                          \<comment> \<open>\<open>writeBigUInt64BE\<close> out of range\<close>
  | SConflict string int            \<comment> \<open>\<open>CHAIN_LOG_CONFLICT\<close>\<close>
  | SPgNonMonotonic int nat
  | SPgTampered int
  | SPg pg_error
  | SSyntax                         \<comment> \<open>\<open>BigInt\<close> of a malformed text\<close>
  | SByteaEscape                    \<comment> \<open>\<open>PG_BYTEA_ESCAPE_UNSUPPORTED\<close>\<close>

definition empty_loaded :: "bytes \<Rightarrow> loaded" where
  "empty_loaded seed = \<lparr>l_counter = 0, l_state = seed, l_records = 0\<rparr>"

subsection \<open>The interface\<close>

text \<open>
  \<open>recs s k\<close> are the records stored for a key, in order. \<open>append\<close> must succeed for a counter
  above all stored ones (below \<open>2 ^ 63\<close>, the range of the SQL type) and then add that record to
  that key only; \<open>load\<close> runs the linkage check of \<open>chain-log.mjs\<close> over the records.
\<close>

locale chain_store =
  fixes load :: "'s \<Rightarrow> string \<Rightarrow> bytes \<Rightarrow> store_error + loaded"
    and append :: "'s \<Rightarrow> string \<Rightarrow> int \<Rightarrow> bytes \<Rightarrow> store_error + 's"
    and has :: "'s \<Rightarrow> string \<Rightarrow> store_error + bool"
    and recs :: "'s \<Rightarrow> string \<Rightarrow> (nat \<times> bytes) list"
    and inv :: "'s \<Rightarrow> bool"
    and h :: "bytes \<Rightarrow> bytes"
  assumes load_ok: "inv s \<Longrightarrow> verify_records h seed (recs s k) = Inr l \<Longrightarrow> load s k seed = Inr l"
    and load_bad: "inv s \<Longrightarrow> verify_records h seed (recs s k) = Inl e \<Longrightarrow> \<exists>e'. load s k seed = Inl e'"
    and append_next: "inv s \<Longrightarrow> \<forall>r \<in> set (recs s k). fst r < c \<Longrightarrow> c < 2 ^ 63 \<Longrightarrow> length st = 32 \<Longrightarrow>
      \<exists>s'. append s k (int c) st = Inr s' \<and> inv s' \<and> recs s' = (recs s)(k := recs s k @ [(c, st)])"
    and has_recs: "inv s \<Longrightarrow> recs s k \<noteq> [] \<Longrightarrow> has s k = Inr True"
begin

lemma reload:
  assumes "sha3_len h" "inv s" "recs s k = chain_records h seed n"
  shows "load s k seed = Inr \<lparr>l_counter = n, l_state = ratchet h seed n, l_records = n\<rparr>"
  using assms by (simp add: load_ok verify_chain_records)

lemma append_advance:
  assumes "sha3_len h" "length seed = 32" "Suc n < 2 ^ 63"
    and "inv s" "recs s k = chain_records h seed n"
  shows "\<exists>s'. append s k (int (Suc n)) (ratchet h seed (Suc n)) = Inr s' \<and> inv s' \<and>
    recs s' = (recs s)(k := chain_records h seed (Suc n))"
proof -
  have "\<forall>r \<in> set (recs s k). fst r < Suc n"
    using assms(5) by (auto simp: chain_records_def)
  from append_next [OF assms(4) this assms(3), of "ratchet h seed (Suc n)"] assms(1,2,5)
  show ?thesis by (simp add: chain_records_Suc)
qed

text \<open>Any other counter above the stored ones is accepted, and makes the log unreadable.\<close>

lemma append_gap:
  assumes "sha3_len h" "inv s" "recs s k = chain_records h seed n"
    and "Suc n < m" "m < 2 ^ 63" "length st = 32"
  shows "\<exists>s' e. append s k (int m) st = Inr s' \<and> inv s' \<and> load s' k seed = Inl e"
proof -
  have "\<forall>r \<in> set (recs s k). fst r < m"
    using assms(3,4) by (auto simp: chain_records_def)
  from append_next [OF assms(2) this assms(5,6)] obtain s' where s': "append s k (int m) st = Inr s'"
    "inv s'" "recs s' = (recs s)(k := recs s k @ [(m, st)])" by blast
  have "verify_records h seed (recs s' k) \<noteq> Inr l" for l
  proof
    assume "verify_records h seed (recs s' k) = Inr l"
    then have "recs s' k = chain_records h seed (length (recs s' k))"
      using assms(1) by (simp add: verify_records_iff)
    with s'(3) assms(3,4) show False by (simp add: chain_records_Suc)
  qed
  then obtain e where "verify_records h seed (recs s' k) = Inl e"
    by (cases "verify_records h seed (recs s' k)") auto
  with load_bad [OF s'(2)] s' show ?thesis by blast
qed

end

subsection \<open>The file backend\<close>

text \<open>
  The directory \<open>chainDir\<close> maps a key to the content of \<open><keyId>.log\<close>. \<open>Buffer.copy\<close> puts at
  most 32 bytes of the state into the 40-byte record, zero-filled. The write is in append mode, so
  the file is created when missing; a failing write (disk full) is not modelled.
\<close>

type_synonym chain_dir = "string \<Rightarrow> bytes option"

definition file_record :: "int \<Rightarrow> bytes \<Rightarrow> store_error + bytes" where
  "file_record counter state_hash =
     (if counter < 0 \<or> 2 ^ 64 \<le> counter then Inl SRange
      else Inr (be_enc 8 (nat counter) @ pad32 state_hash))"

definition file_append :: "chain_dir \<Rightarrow> string \<Rightarrow> int \<Rightarrow> bytes \<Rightarrow> store_error + chain_dir" where
  "file_append d key counter state_hash =
     bind_r (file_record counter state_hash)
       (\<lambda>r. Inr (d(key \<mapsto> (case d key of None \<Rightarrow> [] | Some buf \<Rightarrow> buf) @ r)))"

definition file_load ::
    "(bytes \<Rightarrow> bytes) \<Rightarrow> chain_dir \<Rightarrow> string \<Rightarrow> bytes \<Rightarrow> store_error + loaded" where
  "file_load h d key seed =
     (case verify_log h (d key) seed of Inl e \<Rightarrow> Inl (SLog e) | Inr l \<Rightarrow> Inr l)"

definition file_has :: "chain_dir \<Rightarrow> string \<Rightarrow> store_error + bool" where
  "file_has d key = Inr (d key \<noteq> None)"

definition file_recs :: "chain_dir \<Rightarrow> string \<Rightarrow> (nat \<times> bytes) list" where
  "file_recs d key = (case d key of None \<Rightarrow> [] | Some buf \<Rightarrow> records_of buf)"

definition file_inv :: "chain_dir \<Rightarrow> bool" where
  "file_inv d \<longleftrightarrow> (\<forall>key buf. d key = Some buf \<longrightarrow> length buf mod 40 = 0)"

lemma records_of_append:
  assumes "length buf mod 40 = 0" "c < 2 ^ 64" "length st = 32"
  shows "records_of (buf @ be_enc 8 c @ st) = records_of buf @ [(c, st)]"
proof -
  have "chunks 40 (buf @ enc_record (c, st)) = chunks 40 buf @ [enc_record (c, st)]"
  proof -
    have "\<forall>r \<in> set (chunks 40 buf @ [enc_record (c, st)]). length r = 40"
      using assms chunks_lengths [of 40 buf] by (auto simp: enc_record_def)
    then have "chunks 40 (concat (chunks 40 buf @ [enc_record (c, st)])) =
        chunks 40 buf @ [enc_record (c, st)]"
      by (intro chunks_concat) auto
    then show ?thesis by (simp add: concat_chunks)
  qed
  then show ?thesis
    using dec_enc_record [OF assms(2,3)]
    by (simp add: records_of_def chain_record_bytes_def) (simp add: enc_record_def)
qed

lemma file_append_ok:
  assumes "file_inv d" "c < 2 ^ 64" "length st = 32"
  shows "\<exists>d'. file_append d k (int c) st = Inr d' \<and> file_inv d' \<and>
    file_recs d' = (file_recs d)(k := file_recs d k @ [(c, st)])"
proof -
  define b where "b = (case d k of None \<Rightarrow> [] | Some buf \<Rightarrow> buf)"
  have b: "length b mod 40 = 0" "records_of b = file_recs d k"
    using assms(1) by (auto simp: b_def file_inv_def file_recs_def records_of_def split: option.splits)
  have app: "file_append d k (int c) st = Inr (d(k \<mapsto> b @ be_enc 8 c @ st))"
    using assms(2,3) by (simp add: file_append_def file_record_def b_def)
  have "file_inv (d(k \<mapsto> b @ be_enc 8 c @ st))"
    using assms b(1) by (auto simp: file_inv_def mod_add_left_eq [symmetric])
  moreover have "file_recs (d(k \<mapsto> b @ be_enc 8 c @ st)) = (file_recs d)(k := file_recs d k @ [(c, st)])"
    using records_of_append [OF b(1) assms(2,3)] b(2) by (auto simp: file_recs_def fun_eq_iff)
  ultimately show ?thesis using app by blast
qed

lemma file_load_eq:
  assumes "file_inv d"
  shows "file_load h d k seed =
    (case verify_records h seed (file_recs d k) of Inl e \<Rightarrow> Inl (SLog e) | Inr l \<Rightarrow> Inr l)"
  using assms
  by (auto simp: file_load_def verify_log_def file_recs_def file_inv_def chain_record_bytes_def
      verify_records_def records_of_def split: option.splits)

interpretation file_store: chain_store "file_load h" file_append file_has file_recs file_inv h for h
proof (unfold_locales, goal_cases)
  case (1 s seed k l)
  then show ?case by (simp add: file_load_eq)
next
  case (2 s seed k e)
  then show ?case by (simp add: file_load_eq)
next
  case (3 s k c st)
  then show ?case using file_append_ok [of s c st k] by simp
next
  case (4 s k)
  then show ?case by (auto simp: file_has_def file_recs_def split: option.splits)
qed

subsection \<open>The Postgres backend\<close>

text \<open>
  \<open>exec\<close> of \<open>postgres.mjs\<close> sends every parameter as text: a Buffer as \<open>\x\<close> and its hex digits, a
  BigInt in decimal. \<open>parseBytea\<close> reads the former back.
\<close>

datatype pg_param = PNull | PBuf bytes | PBig int | PText string

definition backslash :: char where
  "backslash = char_of (92 :: nat)"

fun param_text :: "pg_param \<Rightarrow> string option" where
  "param_text PNull = None"
| "param_text (PBuf b) = Some ([backslash, CHR ''x''] @ to_hex b)"
| "param_text (PBig c) = Some (int_text c)"
| "param_text (PText s) = Some s"

definition parse_bytea :: "string \<Rightarrow> store_error + bytes" where
  "parse_bytea s =
     (if starts_with [backslash, CHR ''x''] s then Inr (from_hex (drop 2 s)) else Inl SByteaEscape)"

lemma parse_bytea_param [simp, bytes_simps]:
  "parse_bytea (the (param_text (PBuf b))) = Inr b"
  by (simp add: parse_bytea_def starts_with_def)

text \<open>
  The database is a state \<open>'db\<close> with the two statements the store prepares: \<open>ins\<close> is the INSERT
  with the texts of its three parameters, \<open>sel\<close> the SELECT of a key in counter order.
\<close>

type_synonym 'db pg_insert = "'db \<Rightarrow> string \<Rightarrow> string \<Rightarrow> string \<Rightarrow> pg_error + 'db"
type_synonym 'db pg_select = "'db \<Rightarrow> string \<Rightarrow> pg_error + (string \<times> string) list"

definition pg_append ::
    "'db pg_insert \<Rightarrow> 'db \<Rightarrow> string \<Rightarrow> int \<Rightarrow> bytes \<Rightarrow> store_error + 'db" where
  "pg_append ins db key counter state_hash =
     (case ins db key (the (param_text (PBig counter))) (the (param_text (PBuf state_hash))) of
        Inl e \<Rightarrow> if pg_code e = ''23505'' then Inl (SConflict key counter) else Inl (SPg e)
      | Inr db' \<Rightarrow> Inr db')"

fun pg_loop :: "(bytes \<Rightarrow> bytes) \<Rightarrow> bytes \<Rightarrow> nat \<Rightarrow> (string \<times> string) list \<Rightarrow> store_error + bytes"
where
  "pg_loop h prev expected [] = Inr prev"
| "pg_loop h prev expected ((ctr_str, hash_str) # rows) =
     (case big_of_text ctr_str of
        None \<Rightarrow> Inl SSyntax
      | Some ctr \<Rightarrow>
          bind_r (parse_bytea hash_str) (\<lambda>st.
            if ctr \<noteq> int expected then Inl (SPgNonMonotonic ctr expected)
            else let derived = derive_next h prev (nat ctr) in
              if length derived \<noteq> length st \<or> derived \<noteq> st then Inl (SPgTampered ctr)
              else pg_loop h st (Suc expected) rows))"

definition pg_load ::
    "'db pg_select \<Rightarrow> (bytes \<Rightarrow> bytes) \<Rightarrow> 'db \<Rightarrow> string \<Rightarrow> bytes \<Rightarrow> store_error + loaded" where
  "pg_load sel h db key seed =
     (case sel db key of
        Inl e \<Rightarrow> Inl (SPg e)
      | Inr rows \<Rightarrow> bind_r (pg_loop h seed 1 rows)
          (\<lambda>st. Inr \<lparr>l_counter = length rows, l_state = st, l_records = length rows\<rparr>))"

definition pg_has :: "'db pg_select \<Rightarrow> 'db \<Rightarrow> string \<Rightarrow> store_error + bool" where
  "pg_has sel db key = (case sel db key of Inl e \<Rightarrow> Inl (SPg e) | Inr rows \<Rightarrow> Inr (rows \<noteq> []))"

text \<open>
  What PostgreSQL documents of the table \<open>sigvault_chain\<close> (primary key on key and counter) over a
  healthy connection: \<open>tab db k\<close> are the rows of a key in counter order; a duplicate is refused
  with \<open>unique_violation\<close>, any other insertion adds exactly that row.
\<close>

definition row_text :: "nat \<times> bytes \<Rightarrow> string \<times> string" where
  "row_text r = (int_text (int (fst r)), the (param_text (PBuf (snd r))))"

definition pg_contract ::
    "('db \<Rightarrow> string \<Rightarrow> (nat \<times> bytes) list) \<Rightarrow> 'db pg_insert \<Rightarrow> 'db pg_select \<Rightarrow> bool" where
  "pg_contract tab ins sel \<longleftrightarrow>
     (\<forall>db k. sel db k = Inr (map row_text (tab db k))) \<and>
     (\<forall>db k. sorted (map fst (tab db k)) \<and> distinct (map fst (tab db k))) \<and>
     (\<forall>db k c st. c < 2 ^ 63 \<longrightarrow>
        (if c \<in> fst ` set (tab db k)
         then \<exists>m. ins db k (int_text (int c)) (the (param_text (PBuf st))) = Inl (PgError ''23505'' m)
         else \<exists>db'. ins db k (int_text (int c)) (the (param_text (PBuf st))) = Inr db' \<and>
                tab db' = (tab db)(k := insort_key fst (c, st) (tab db k))))"

lemma pg_loop_rows:
  "pg_loop h prev e (map row_text rs) = Inr st \<longleftrightarrow> log_loop h i prev e rs = Inr st"
proof (induction rs arbitrary: prev e i)
  case Nil
  then show ?case by simp
next
  case (Cons r rs)
  obtain c s where r: "r = (c, s)" by (cases r)
  have p: "parse_bytea (backslash # CHR ''x'' # to_hex s) = Inr s"
    using parse_bytea_param [of s] by simp
  show ?case
    using Cons [of s "Suc e" "Suc i"] by (simp add: r row_text_def Let_def p)
qed

lemma pg_load_eq:
  assumes "pg_contract tab ins sel"
  shows "pg_load sel h db k seed = Inr l \<longleftrightarrow> verify_records h seed (tab db k) = Inr l"
proof -
  have "sel db k = Inr (map row_text (tab db k))" using assms by (simp add: pg_contract_def)
  then show ?thesis
    using pg_loop_rows [of h seed 1 "tab db k" _ 0]
    by (auto simp: pg_load_def verify_records_def bind_r_eq_Inr)
qed

lemma insort_key_last:
  "\<forall>r \<in> set rs. fst r < c \<Longrightarrow> insort_key fst (c, st) rs = rs @ [(c, st)]" for c :: nat
  by (induction rs) auto

lemma pg_append_next:
  assumes "pg_contract tab ins sel" "\<forall>r \<in> set (tab db k). fst r < c" "c < 2 ^ 63"
  shows "\<exists>db'. pg_append ins db k (int c) st = Inr db' \<and> tab db' = (tab db)(k := tab db k @ [(c, st)])"
proof -
  have "c \<notin> fst ` set (tab db k)" using assms(2) by auto
  with assms(1,3) obtain db' where
    "ins db k (int_text (int c)) (the (param_text (PBuf st))) = Inr db'"
    "tab db' = (tab db)(k := insort_key fst (c, st) (tab db k))"
    unfolding pg_contract_def by meson
  with insort_key_last [OF assms(2)] show ?thesis by (auto simp: pg_append_def)
qed

lemma pg_append_conflict:
  assumes "pg_contract tab ins sel" "c \<in> fst ` set (tab db k)" "c < 2 ^ 63"
  shows "pg_append ins db k (int c) st = Inl (SConflict k (int c))"
proof -
  from assms obtain m where
    "ins db k (int_text (int c)) (the (param_text (PBuf st))) = Inl (PgError ''23505'' m)"
    unfolding pg_contract_def by meson
  then show ?thesis by (simp add: pg_append_def)
qed

lemma pg_chain_store:
  assumes "pg_contract tab ins sel"
  shows "chain_store (pg_load sel h) (pg_append ins) (pg_has sel) tab (\<lambda>_. True) h"
proof (unfold_locales, goal_cases)
  case (1 s seed k l)
  then show ?case using pg_load_eq [OF assms] by blast
next
  case (2 s seed k e)
  then have "pg_load sel h s k seed \<noteq> Inr l" for l using pg_load_eq [OF assms, of h s k seed l] by auto
  then show ?case by (cases "pg_load sel h s k seed") auto
next
  case (3 s k c st)
  then show ?case using pg_append_next [OF assms, of s k c st] by simp
next
  case (4 s k)
  then show ?case using assms by (simp add: pg_has_def pg_contract_def)
qed

subsection \<open>The dispatcher\<close>

datatype store_kind = FileStore | PostgresStore string

datatype dispatch_error =
    ChainDirRequired | PgUrlMissing | StoreNotAvailable string | StoreUnknown string

text \<open>
  \<open>createChainStore\<close>: the kind is \<open>opts.kind\<close>, else the environment, else \<open>file\<close>, compared in
  lower case; an empty string counts as absent.
\<close>

definition or_else :: "string option \<Rightarrow> string option \<Rightarrow> string option" where
  "or_else a b = (case a of Some s \<Rightarrow> if s \<noteq> [] then Some s else b | None \<Rightarrow> b)"

definition create_chain_store ::
    "string option \<Rightarrow> string option \<Rightarrow> string option \<Rightarrow> string option \<Rightarrow> string option \<Rightarrow>
     dispatch_error + store_kind" where
  "create_chain_store opt_kind env_kind chain_dir opt_url env_url =
     (let kind = to_lower (the (or_else (or_else opt_kind env_kind) (Some ''file''))) in
      if kind = ''file'' then
        (case or_else chain_dir None of None \<Rightarrow> Inl ChainDirRequired | Some d \<Rightarrow> Inr FileStore)
      else if kind = ''postgres'' then
        (case or_else (or_else opt_url env_url) None of
           None \<Rightarrow> Inl PgUrlMissing | Some u \<Rightarrow> Inr (PostgresStore u))
      else if kind = ''s3'' \<or> kind = ''etcd'' then Inl (StoreNotAvailable kind)
      else Inl (StoreUnknown kind))"

end
