(* ===== verification/Claims_Validate.thy ===== *)
theory Claims_Validate
  imports Sdk_Base Js_Text
begin

section \<open>The structural validator of claims\<close>

text \<open>
  \<open>qv-server/claims.mjs\<close>. The recursion of \<open>walk\<close> threads the node counter that the closure
  mutates; its value is the counter after the walk, or the error thrown. The specification beside it
  speaks of the set of all values in the tree with their depths.
\<close>

datatype claims_error =
    ClaimsNotObject | ClaimsTooManyNodes nat | ClaimsTooDeep nat | ClaimsStringTooLong nat
  | ClaimsBadNumber | ClaimsArrayTooLarge nat | ClaimsTooManyKeys nat | ClaimsKeyTooLong nat
  | ClaimsBadType string

datatype config_error = IntRange string int int

type_synonym env = "string \<Rightarrow> string option"

text \<open>\<open>intEnv\<close>: \<open>Number(raw)\<close> must be an integer within the bounds.\<close>

definition int_env :: "env \<Rightarrow> string \<Rightarrow> int \<Rightarrow> int \<Rightarrow> int \<Rightarrow> config_error + int" where
  "int_env env name def lo hi =
     (case env name of
        None \<Rightarrow> Inr def
      | Some raw \<Rightarrow>
          if raw = [] then Inr def
          else (case js_integer raw of
                  None \<Rightarrow> Inl (IntRange name lo hi)
                | Some n \<Rightarrow> if n < lo \<or> hi < n then Inl (IntRange name lo hi) else Inr n))"

record claims_cfg =
  maxDepth :: nat
  maxKeys :: nat
  maxArray :: nat
  maxString :: nat
  maxNodes :: nat

definition load_claims_config :: "env \<Rightarrow> config_error + claims_cfg" where
  "load_claims_config env =
     bind_r (int_env env ''QV_CLAIMS_MAX_DEPTH'' 8 1 64) (\<lambda>d.
     bind_r (int_env env ''QV_CLAIMS_MAX_KEYS'' 64 1 4096) (\<lambda>k.
     bind_r (int_env env ''QV_CLAIMS_MAX_ARRAY'' 128 1 65536) (\<lambda>a.
     bind_r (int_env env ''QV_CLAIMS_MAX_STRING'' 4096 1 1048576) (\<lambda>s.
     bind_r (int_env env ''QV_CLAIMS_MAX_NODES'' 1024 1 1048576) (\<lambda>n.
       Inr \<lparr>maxDepth = nat d, maxKeys = nat k, maxArray = nat a, maxString = nat s,
            maxNodes = nat n\<rparr>)))))"

fun walk :: "claims_cfg \<Rightarrow> nat \<Rightarrow> jsval \<Rightarrow> nat \<Rightarrow> claims_error + nat"
  and walk_elems :: "claims_cfg \<Rightarrow> nat \<Rightarrow> jsval list \<Rightarrow> nat \<Rightarrow> claims_error + nat"
  and walk_props :: "claims_cfg \<Rightarrow> nat \<Rightarrow> (jsstr \<times> jsval) list \<Rightarrow> nat \<Rightarrow> claims_error + nat"
where
  "walk cfg depth v nodes =
     (let nodes = nodes + 1 in
      if maxNodes cfg < nodes then Inl (ClaimsTooManyNodes (maxNodes cfg))
      else if maxDepth cfg < depth then Inl (ClaimsTooDeep (maxDepth cfg))
      else case v of
        JNull \<Rightarrow> Inr nodes
      | JStr s \<Rightarrow> if maxString cfg < length s then Inl (ClaimsStringTooLong (maxString cfg)) else Inr nodes
      | JNum NonFinite \<Rightarrow> Inl ClaimsBadNumber
      | JNum (Finite _) \<Rightarrow> Inr nodes
      | JBool _ \<Rightarrow> Inr nodes
      | JArr vs \<Rightarrow>
          if maxArray cfg < length vs then Inl (ClaimsArrayTooLarge (maxArray cfg))
          else walk_elems cfg (depth + 1) vs nodes
      | JObj kvs \<Rightarrow>
          if maxKeys cfg < length kvs then Inl (ClaimsTooManyKeys (maxKeys cfg))
          else walk_props cfg (depth + 1) kvs nodes
      | JBig _ \<Rightarrow> Inl (ClaimsBadType ''bigint'')
      | JOther t \<Rightarrow> Inl (ClaimsBadType t))"
| "walk_elems cfg depth [] nodes = Inr nodes"
| "walk_elems cfg depth (v # vs) nodes =
     bind_r (walk cfg depth v nodes) (\<lambda>nodes. walk_elems cfg depth vs nodes)"
| "walk_props cfg depth [] nodes = Inr nodes"
| "walk_props cfg depth ((k, v) # kvs) nodes =
     (if maxString cfg < length k then Inl (ClaimsKeyTooLong (maxString cfg))
      else bind_r (walk cfg depth v nodes) (\<lambda>nodes. walk_props cfg depth kvs nodes))"

declare walk.simps [simp del]

definition validate_claims :: "claims_cfg \<Rightarrow> jsval \<Rightarrow> claims_error + bool" where
  "validate_claims cfg claims =
     (case claims of
        JObj _ \<Rightarrow> bind_r (walk cfg 1 claims 0) (\<lambda>_. Inr True)
      | _ \<Rightarrow> Inl ClaimsNotObject)"

subsection \<open>The values of a tree\<close>

fun values_at :: "nat \<Rightarrow> jsval \<Rightarrow> (nat \<times> jsval) list" where
  "values_at d (JArr vs) = (d, JArr vs) # concat (map (values_at (d + 1)) vs)"
| "values_at d (JObj kvs) = (d, JObj kvs) # concat (map (\<lambda>(k, v). values_at (d + 1) v) kvs)"
| "values_at d v = [(d, v)]"

text \<open>What is required of one value, apart from its depth.\<close>

definition value_ok :: "claims_cfg \<Rightarrow> jsval \<Rightarrow> bool" where
  "value_ok cfg v = (case v of
      JNull \<Rightarrow> True | JBool _ \<Rightarrow> True | JNum n \<Rightarrow> n \<noteq> NonFinite
    | JStr s \<Rightarrow> length s \<le> maxString cfg
    | JArr vs \<Rightarrow> length vs \<le> maxArray cfg
    | JObj kvs \<Rightarrow> length kvs \<le> maxKeys cfg \<and> (\<forall>(k, _) \<in> set kvs. length k \<le> maxString cfg)
    | _ \<Rightarrow> False)"

definition tree_ok :: "claims_cfg \<Rightarrow> nat \<Rightarrow> jsval \<Rightarrow> bool" where
  "tree_ok cfg d v \<longleftrightarrow> (\<forall>(e, w) \<in> set (values_at d v). e \<le> maxDepth cfg \<and> value_ok cfg w)"

lemma values_at_nonempty [simp]: "values_at d v \<noteq> []"
  by (cases v) auto

lemma tree_ok_simps:
  "tree_ok cfg d (JArr vs) \<longleftrightarrow> d \<le> maxDepth cfg \<and> length vs \<le> maxArray cfg \<and> (\<forall>v \<in> set vs. tree_ok cfg (d + 1) v)"
  "tree_ok cfg d (JObj kvs) \<longleftrightarrow> d \<le> maxDepth cfg \<and> length kvs \<le> maxKeys cfg \<and>
     (\<forall>(k, v) \<in> set kvs. length k \<le> maxString cfg \<and> tree_ok cfg (d + 1) v)"
  by (auto simp: tree_ok_def value_ok_def)

lemma walk_iff:
  "walk cfg d v n = Inr m \<longleftrightarrow>
     tree_ok cfg d v \<and> m = n + length (values_at d v) \<and> m \<le> maxNodes cfg"
  "n \<le> maxNodes cfg \<Longrightarrow> walk_elems cfg d vs n = Inr m \<longleftrightarrow>
     (\<forall>v \<in> set vs. tree_ok cfg d v) \<and>
     m = n + length (concat (map (values_at d) vs)) \<and> m \<le> maxNodes cfg"
  "n \<le> maxNodes cfg \<Longrightarrow> walk_props cfg d kvs n = Inr m \<longleftrightarrow>
     (\<forall>(k, v) \<in> set kvs. length k \<le> maxString cfg \<and> tree_ok cfg d v) \<and>
     m = n + length (concat (map (\<lambda>(k, v). values_at d v) kvs)) \<and> m \<le> maxNodes cfg"
proof (induction cfg d v n and cfg d vs n and cfg d kvs n arbitrary: m and m and m
    rule: walk_walk_elems_walk_props.induct)
  case (1 cfg depth v nodes)
  show ?case
  proof (cases "maxNodes cfg < nodes + 1 \<or> maxDepth cfg < depth")
    case True
    then show ?thesis
      by (cases v) (auto simp: walk.simps tree_ok_def Let_def)
  next
    case False
    then have F: "nodes + 1 \<le> maxNodes cfg" "depth \<le> maxDepth cfg" by auto
    show ?thesis
    proof (cases v)
      case (JArr vs)
      then show ?thesis using F 1(1) [OF refl] by (auto simp: walk.simps tree_ok_simps Let_def)
    next
      case (JObj kvs)
      then show ?thesis using F 1(2) [OF refl] by (auto simp: walk.simps tree_ok_simps Let_def)
    next
      case (JNum n)
      then show ?thesis using F by (cases n) (auto simp: walk.simps tree_ok_def value_ok_def Let_def)
    qed (use F in \<open>auto simp: walk.simps tree_ok_def value_ok_def Let_def\<close>)
  qed
next
  case (3 cfg d v vs n)
  have "walk_elems cfg d (v # vs) n = Inr m \<longleftrightarrow>
      (\<exists>a. walk cfg d v n = Inr a \<and> walk_elems cfg d vs a = Inr m)"
    by (simp add: bind_r_eq_Inr)
  also have "\<dots> \<longleftrightarrow> (\<exists>a. walk cfg d v n = Inr a \<and> (\<forall>v \<in> set vs. tree_ok cfg d v) \<and>
      m = a + length (concat (map (values_at d) vs)) \<and> m \<le> maxNodes cfg)"
    using 3(2) by (metis (no_types, lifting) 3(1))
  also have "\<dots> \<longleftrightarrow> (\<forall>v \<in> set (v # vs). tree_ok cfg d v) \<and>
      m = n + length (concat (map (values_at d) (v # vs))) \<and> m \<le> maxNodes cfg"
    unfolding 3(1) by auto
  finally show ?case .
next
  case (5 cfg d k v kvs n)
  have "walk_props cfg d ((k, v) # kvs) n = Inr m \<longleftrightarrow> length k \<le> maxString cfg \<and>
      (\<exists>a. walk cfg d v n = Inr a \<and> walk_props cfg d kvs a = Inr m)"
    by (auto simp: bind_r_eq_Inr)
  also have "\<dots> \<longleftrightarrow> length k \<le> maxString cfg \<and> (\<exists>a. walk cfg d v n = Inr a \<and>
      (\<forall>(k, v) \<in> set kvs. length k \<le> maxString cfg \<and> tree_ok cfg d v) \<and>
      m = a + length (concat (map (\<lambda>(k, v). values_at d v) kvs)) \<and> m \<le> maxNodes cfg)"
    using 5(2) 5(1) by (metis (no_types, lifting) not_less)
  also have "\<dots> \<longleftrightarrow> (\<forall>(k, v) \<in> set ((k, v) # kvs). length k \<le> maxString cfg \<and> tree_ok cfg d v) \<and>
      m = n + length (concat (map (\<lambda>(k, v). values_at d v) ((k, v) # kvs))) \<and> m \<le> maxNodes cfg"
    by (cases "length k \<le> maxString cfg") (use 5(1) in auto)
  finally show ?case .
qed auto

lemma validate_iff:
  "validate_claims cfg v = Inr True \<longleftrightarrow>
    (\<exists>kvs. v = JObj kvs) \<and> length (values_at 1 v) \<le> maxNodes cfg \<and> tree_ok cfg 1 v"
  by (cases v) (auto simp: validate_claims_def bind_r_eq_Inr walk_iff)

lemma int_env_bounds: "int_env env name def lo hi = Inr n \<Longrightarrow> n = def \<or> lo \<le> n \<and> n \<le> hi"
  by (auto simp: int_env_def split: option.splits if_splits)

lemma int_env_nat:
  "int_env env name def lo hi = Inr n \<Longrightarrow> 1 \<le> lo \<Longrightarrow> lo \<le> def \<Longrightarrow> def \<le> hi \<Longrightarrow> 1 \<le> nat n \<and> nat n \<le> nat hi"
  by (drule int_env_bounds) auto

lemma load_claims_config_bounds:
  "load_claims_config env = Inr cfg \<Longrightarrow>
   1 \<le> maxDepth cfg \<and> maxDepth cfg \<le> 64 \<and> 1 \<le> maxKeys cfg \<and> maxKeys cfg \<le> 4096 \<and>
   1 \<le> maxArray cfg \<and> maxArray cfg \<le> 65536 \<and> 1 \<le> maxString cfg \<and> maxString cfg \<le> 1048576 \<and>
   1 \<le> maxNodes cfg \<and> maxNodes cfg \<le> 1048576"
proof -
  assume "load_claims_config env = Inr cfg"
  then obtain d k a s n where i:
    "int_env env ''QV_CLAIMS_MAX_DEPTH'' 8 1 64 = Inr d" "int_env env ''QV_CLAIMS_MAX_KEYS'' 64 1 4096 = Inr k"
    "int_env env ''QV_CLAIMS_MAX_ARRAY'' 128 1 65536 = Inr a" "int_env env ''QV_CLAIMS_MAX_STRING'' 4096 1 1048576 = Inr s"
    "int_env env ''QV_CLAIMS_MAX_NODES'' 1024 1 1048576 = Inr n"
    and cfg: "cfg = \<lparr>maxDepth = nat d, maxKeys = nat k, maxArray = nat a, maxString = nat s, maxNodes = nat n\<rparr>"
    unfolding load_claims_config_def bind_r_eq_Inr by (elim exE conjE) simp
  from i [THEN int_env_nat] show ?thesis unfolding cfg by simp
qed

definition default_claims_cfg :: claims_cfg where
  "default_claims_cfg = \<lparr>maxDepth = 8, maxKeys = 64, maxArray = 128, maxString = 4096, maxNodes = 1024\<rparr>"

lemma load_claims_config_default: "load_claims_config Map.empty = Inr default_claims_cfg"
  by (simp add: load_claims_config_def int_env_def default_claims_cfg_def)

subsection \<open>Properties\<close>

text \<open>C30: \<open>validateClaims\<close> accepts a value exactly when it is an object, its tree has at most
  \<open>maxNodes\<close> values, none deeper than \<open>maxDepth\<close>, and every value in it is within its own limit
  (string length, array length, number of keys and length of each key, finite numbers, no other
  type). Every other value is refused with an error, never with \<open>false\<close>.\<close>

theorem validate_claims_iff:
  "(validate_claims cfg v = Inr True \<longleftrightarrow>
     (\<exists>kvs. v = JObj kvs) \<and> length (values_at 1 v) \<le> maxNodes cfg \<and>
     list_all (\<lambda>(d, w). d \<le> maxDepth cfg \<and> value_ok cfg w) (values_at 1 v)) \<and>
   validate_claims cfg v \<noteq> Inr False"
proof -
  have "validate_claims cfg v \<noteq> Inr False"
    by (cases v) (auto simp: validate_claims_def bind_r_eq_Inr)
  then show ?thesis by (simp add: validate_iff tree_ok_def list_all_iff)
qed

text \<open>Within any configuration the environment can give, an accepted claims object is at most 64
  levels deep and has at most 1048576 values, however the limits are set.\<close>

theorem accepted_claims_bounded:
  assumes "load_claims_config env = Inr cfg" "validate_claims cfg v = Inr True"
  shows "length (values_at 1 v) \<le> 1048576 \<and> (\<forall>(d, w) \<in> set (values_at 1 v). d \<le> 64)"
  using load_claims_config_bounds [OF assms(1)] assms(2)
  by (auto simp: validate_iff tree_ok_def)

lemma accepted_claims_bounded_witness:
  "validate_claims default_claims_cfg (JObj [(js ''a'', JArr [JNull, JBool True])]) = Inr True \<and>
   length (values_at 1 (JObj [(js ''a'', JArr [JNull, JBool True])])) \<le> 1048576"
proof -
  have v: "validate_claims default_claims_cfg (JObj [(js ''a'', JArr [JNull, JBool True])]) = Inr True"
    by (simp add: validate_iff tree_ok_def value_ok_def default_claims_cfg_def js_def)
  then show ?thesis using accepted_claims_bounded [OF load_claims_config_default v] by blast
qed

end
