(* ===== verification/Rate_Limit.thy ===== *)
theory Rate_Limit
  imports Js_Text Sdk_Base "HOL-Library.AList"
begin

section \<open>Rate limiting\<close>

text \<open>
  \<open>qv-server/ratelimit.mjs\<close>: the configuration, the client address, the token buckets per address
  and category and per key, the sweep, and the bounded body reader. A JavaScript \<open>Map\<close> is an
  association list in insertion order; the clock is an argument, in milliseconds. Token counts are
  exact rationals where the code uses doubles. The specification is the ideal bucket \<open>avail\<close>: what
  an address has left in a category at a time, whether or not an entry is stored for it.
\<close>

datatype category = Public | Verify | Admin | AuthFail

record rl_config =
  disabled :: bool
  rpm :: "category \<Rightarrow> nat"
  issueRpm :: nat
  perKeyOverrides :: "jsstr \<Rightarrow> nat option"
  maxBodyBytes :: nat
  maxClaimsBytes :: nat
  maxIps :: nat
  idleSweepSec :: nat

datatype rl_error =
    RateEnvBad string | OverridesNotJson | OverridesNotObject | OverridesEmptyKey | OverridesBad jsstr
  | UnknownCategory string

definition DEFAULTS :: "category \<Rightarrow> nat" where
  "DEFAULTS c = (case c of Public \<Rightarrow> 600 | Verify \<Rightarrow> 120 | Admin \<Rightarrow> 60 | AuthFail \<Rightarrow> 10)"

text \<open>A variable that is set and not empty must be a finite number within the bounds; its floor counts.
  The lower bound is strict for the four rates.\<close>

definition env_number :: "(string \<Rightarrow> string option) \<Rightarrow> string \<Rightarrow> (rat \<Rightarrow> bool) \<Rightarrow> nat \<Rightarrow> rl_error + nat" where
  "env_number env name ok def =
     (case env name of
        None \<Rightarrow> Inr def
      | Some raw \<Rightarrow> if raw = [] then Inr def
          else (case js_number raw of
                  Some (Some n) \<Rightarrow> if ok n then Inr (nat \<lfloor>n\<rfloor>) else Inl (RateEnvBad name)
                | _ \<Rightarrow> Inl (RateEnvBad name)))"

definition rate_ok :: "rat \<Rightarrow> bool" where
  "rate_ok n \<longleftrightarrow> 0 < n \<and> n \<le> 1000000"

fun read_overrides :: "(jsstr \<times> jsval) list \<Rightarrow> (jsstr \<Rightarrow> nat option) \<Rightarrow> rl_error + (jsstr \<Rightarrow> nat option)" where
  "read_overrides [] m = Inr m"
| "read_overrides ((k, v) # kvs) m =
     (if k = [] then Inl OverridesEmptyKey
      else case v of
        JNum (Finite r) \<Rightarrow>
          if r < 0 \<or> 1000000 < r then Inl (OverridesBad k) else read_overrides kvs (m(k \<mapsto> nat \<lfloor>r\<rfloor>))
      | _ \<Rightarrow> Inl (OverridesBad k))"

definition load_overrides :: "(string \<Rightarrow> jsval option) \<Rightarrow> string option \<Rightarrow> rl_error + (jsstr \<Rightarrow> nat option)" where
  "load_overrides json raw =
     (case raw of
        None \<Rightarrow> Inr Map.empty
      | Some s \<Rightarrow> if s = [] then Inr Map.empty
          else (case json s of
                  None \<Rightarrow> Inl OverridesNotJson
                | Some (JObj kvs) \<Rightarrow> read_overrides kvs Map.empty
                | Some _ \<Rightarrow> Inl OverridesNotObject))"

definition load_rate_limit_config ::
  "(string \<Rightarrow> jsval option) \<Rightarrow> (string \<Rightarrow> string option) \<Rightarrow> rl_error + rl_config" where
  "load_rate_limit_config json env =
     bind_r (env_number env ''QV_RATE_PUBLIC_RPM'' rate_ok (DEFAULTS Public)) (\<lambda>pub.
     bind_r (env_number env ''QV_RATE_VERIFY_RPM'' rate_ok (DEFAULTS Verify)) (\<lambda>ver.
     bind_r (env_number env ''QV_RATE_ADMIN_RPM'' rate_ok (DEFAULTS Admin)) (\<lambda>adm.
     bind_r (env_number env ''QV_RATE_AUTHFAIL_RPM'' rate_ok (DEFAULTS AuthFail)) (\<lambda>af.
     bind_r (env_number env ''QV_MAX_BODY_BYTES'' (\<lambda>n. 128 \<le> n \<and> n \<le> 104857600) 65536) (\<lambda>body.
     bind_r (env_number env ''QV_MAX_CLAIMS_BYTES'' (\<lambda>n. 64 \<le> n \<and> n \<le> of_nat body) 16384) (\<lambda>claims.
     bind_r (env_number env ''QV_RATE_PER_KEY_ISSUE_RPM'' (\<lambda>n. 0 \<le> n \<and> n \<le> 1000000) 0) (\<lambda>issue.
     bind_r (load_overrides json (env ''QV_RATE_PER_KEY_OVERRIDES'')) (\<lambda>ov.
       Inr \<lparr>disabled = (env ''QV_RATE_LIMIT_DISABLED'' = Some ''true''),
            rpm = (\<lambda>c. case c of Public \<Rightarrow> pub | Verify \<Rightarrow> ver | Admin \<Rightarrow> adm | AuthFail \<Rightarrow> af),
            issueRpm = issue, perKeyOverrides = ov, maxBodyBytes = body, maxClaimsBytes = claims,
            maxIps = 100000, idleSweepSec = 300\<rparr>))))))))"

subsection \<open>Client address\<close>

definition extract_client_ip :: "string option \<Rightarrow> string option \<Rightarrow> string" where
  "extract_client_ip xff remote =
     (let parts = (case xff of None \<Rightarrow> [] | Some x \<Rightarrow> filter (\<lambda>p. p \<noteq> []) (map js_trim (split_on (CHR '','') x)));
          sock = (case remote of None \<Rightarrow> ''unknown'' | Some r \<Rightarrow> if r = [] then ''unknown'' else r)
      in if parts \<noteq> [] then last parts else sock)"

subsection \<open>Buckets\<close>

record bucket =
  tokens :: rat
  lastRefill :: int
  capacity :: rat

definition new_bucket :: "nat \<Rightarrow> int \<Rightarrow> bucket" where
  "new_bucket r now = \<lparr>tokens = of_nat r, lastRefill = now, capacity = of_nat r\<rparr>"

definition refill :: "bucket \<Rightarrow> nat \<Rightarrow> int \<Rightarrow> bucket" where
  "refill b r now =
     (let elapsedMs = now - lastRefill b in
      if elapsedMs \<le> 0 then b
      else let add = (of_int elapsedMs / 60000) * of_nat r in
        if 0 < add then b\<lparr>tokens := min (capacity b) (tokens b + add), lastRefill := now\<rparr> else b)"

record ip_entry =
  lastSeen :: int
  buckets :: "category \<Rightarrow> bucket"

record key_entry =
  k_bucket :: bucket
  k_lastSeen :: int
  k_rpm :: nat

record limiter =
  ips :: "(string \<times> ip_entry) list"
  keys :: "(string \<times> key_entry) list"

definition create_limiter :: limiter where
  "create_limiter = \<lparr>ips = [], keys = []\<rparr>"

text \<open>A \<open>resetSec\<close> of \<open>None\<close> is the \<open>Infinity\<close> of a division by a zero rate.\<close>

record verdict =
  allowed :: bool
  remaining :: int
  limit :: nat
  resetSec :: "int option"
  bypass :: bool
  reason :: string

definition new_entry :: "rl_config \<Rightarrow> int \<Rightarrow> ip_entry" where
  "new_entry cfg t = \<lparr>lastSeen = t, buckets = (\<lambda>c. new_bucket (rpm cfg c) t)\<rparr>"

definition ensure_entry :: "rl_config \<Rightarrow> limiter \<Rightarrow> string \<Rightarrow> int \<Rightarrow> limiter \<times> ip_entry option" where
  "ensure_entry cfg l ip t =
     (case map_of (ips l) ip of
        Some e \<Rightarrow> (l, Some e)
      | None \<Rightarrow>
          if maxIps cfg \<le> length (ips l) then (l, None)
          else (l\<lparr>ips := AList.update ip (new_entry cfg t) (ips l)\<rparr>, Some (new_entry cfg t)))"

definition category_of :: "string \<Rightarrow> category option" where
  "category_of s =
     (if s = ''public'' then Some Public else if s = ''verify'' then Some Verify
      else if s = ''admin'' then Some Admin else if s = ''authFail'' then Some AuthFail else None)"

definition ceil_sec :: "rat \<Rightarrow> nat \<Rightarrow> int option" where
  "ceil_sec x r = (if r = 0 then None else Some \<lceil>x * 60 / of_nat r\<rceil>)"

definition retry_sec :: "rat \<Rightarrow> nat \<Rightarrow> int option" where
  "retry_sec tok r = map_option (max 1) (ceil_sec (1 - tok) r)"

text \<open>\<open>check\<close> for a known category, when limiting is on.\<close>

definition take_token :: "rl_config \<Rightarrow> limiter \<Rightarrow> string \<Rightarrow> category \<Rightarrow> int \<Rightarrow> limiter \<times> verdict" where
  "take_token cfg l0 ip c t =
     (case ensure_entry cfg l0 ip t of
        (l, None) \<Rightarrow>
          (l, \<lparr>allowed = False, remaining = 0, limit = rpm cfg c, resetSec = Some 60, bypass = False, reason = ''ip_cap''\<rparr>)
      | (l, Some e) \<Rightarrow>
          let r = rpm cfg c; b = refill (buckets e c) r t in
          if 1 \<le> tokens b then
            let b' = b\<lparr>tokens := tokens b - 1\<rparr> in
            (l\<lparr>ips := AList.update ip (e\<lparr>lastSeen := t, buckets := (buckets e)(c := b')\<rparr>) (ips l)\<rparr>,
             \<lparr>allowed = True, remaining = \<lfloor>tokens b'\<rfloor>, limit = r,
              resetSec = ceil_sec (capacity b' - tokens b') r, bypass = False, reason = []\<rparr>)
          else
            (l\<lparr>ips := AList.update ip (e\<lparr>lastSeen := t, buckets := (buckets e)(c := b)\<rparr>) (ips l)\<rparr>,
             \<lparr>allowed = False, remaining = 0, limit = r, resetSec = retry_sec (tokens b) r, bypass = False,
              reason = ''rate''\<rparr>))"

definition check :: "rl_config \<Rightarrow> limiter \<Rightarrow> string \<Rightarrow> string \<Rightarrow> int \<Rightarrow> limiter \<times> (rl_error + verdict)" where
  "check cfg l ip cat t =
     (if disabled cfg then
        let r = (case category_of cat of Some c \<Rightarrow> rpm cfg c | None \<Rightarrow> 0) in
        (l, Inr \<lparr>allowed = True, remaining = int r, limit = r, resetSec = Some 0, bypass = True, reason = []\<rparr>)
      else case category_of cat of
        None \<Rightarrow> (l, Inl (UnknownCategory cat))
      | Some c \<Rightarrow> (let (l', v) = take_token cfg l ip c t in (l', Inr v)))"

text \<open>\<open>recordAuthFail\<close> takes from the \<open>authFail\<close> bucket even when limiting is off.\<close>

definition record_auth_fail :: "rl_config \<Rightarrow> limiter \<Rightarrow> string \<Rightarrow> int \<Rightarrow> limiter \<times> verdict" where
  "record_auth_fail cfg l ip t =
     (let (l', v) = take_token cfg l ip AuthFail t in
      (l', v\<lparr>resetSec := (if allowed v then Some 0 else resetSec v), reason := []\<rparr>))"

definition key_rpm :: "rl_config \<Rightarrow> string \<Rightarrow> string \<Rightarrow> nat" where
  "key_rpm cfg keyId op =
     (case perKeyOverrides cfg (js keyId) of Some r \<Rightarrow> r | None \<Rightarrow> if op = ''issue'' then issueRpm cfg else 0)"

definition key_entry_for :: "nat \<Rightarrow> int \<Rightarrow> key_entry option \<Rightarrow> key_entry" where
  "key_entry_for r t e =
     (case e of
        None \<Rightarrow> \<lparr>k_bucket = new_bucket r t, k_lastSeen = t, k_rpm = r\<rparr>
      | Some e \<Rightarrow>
          if k_rpm e \<noteq> r then
            e\<lparr>k_bucket := (k_bucket e)\<lparr>capacity := of_nat r, tokens := min (tokens (k_bucket e)) (of_nat r)\<rparr>,
              k_rpm := r\<rparr>
          else e)"

definition check_key :: "rl_config \<Rightarrow> limiter \<Rightarrow> string \<Rightarrow> string \<Rightarrow> int \<Rightarrow> limiter \<times> verdict" where
  "check_key cfg l keyId op t =
     (let r = key_rpm cfg keyId op; e0 = map_of (keys l) keyId in
      if disabled cfg \<or> r = 0 then
        (l, \<lparr>allowed = True, remaining = 0, limit = 0, resetSec = Some 0, bypass = True, reason = []\<rparr>)
      else if e0 = None \<and> maxIps cfg \<le> length (keys l) then
        (l, \<lparr>allowed = False, remaining = 0, limit = r, resetSec = Some 60, bypass = False, reason = ''key_cap''\<rparr>)
      else
        let e = key_entry_for r t e0; b = refill (k_bucket e) r t in
        if 1 \<le> tokens b then
          let b' = b\<lparr>tokens := tokens b - 1\<rparr> in
          (l\<lparr>keys := AList.update keyId (e\<lparr>k_bucket := b', k_lastSeen := t\<rparr>) (keys l)\<rparr>,
           \<lparr>allowed = True, remaining = \<lfloor>tokens b'\<rfloor>, limit = r,
            resetSec = ceil_sec (capacity b' - tokens b') r, bypass = False, reason = []\<rparr>)
        else
          (l\<lparr>keys := AList.update keyId (e\<lparr>k_bucket := b, k_lastSeen := t\<rparr>) (keys l)\<rparr>,
           \<lparr>allowed = False, remaining = 0, limit = r, resetSec = retry_sec (tokens b) r, bypass = False,
            reason = ''per_key_rate''\<rparr>))"

definition sweep :: "rl_config \<Rightarrow> limiter \<Rightarrow> int \<Rightarrow> limiter \<times> nat" where
  "sweep cfg l nowMs =
     (let cutoff = nowMs - int (idleSweepSec cfg) * 1000;
          ips' = filter (\<lambda>(ip, e). \<not> lastSeen e < cutoff) (ips l);
          keys' = filter (\<lambda>(k, e). \<not> k_lastSeen e < cutoff) (keys l)
      in (l\<lparr>ips := ips', keys := keys'\<rparr>,
          (length (ips l) - length ips') + (length (keys l) - length keys')))"

subsection \<open>The bounded body reader\<close>

datatype body_error = BodyTooLarge | InvalidJson

fun read_chunks :: "nat \<Rightarrow> nat \<Rightarrow> bytes list \<Rightarrow> bytes \<Rightarrow> body_error + bytes" where
  "read_chunks mx tot [] acc = Inr acc"
| "read_chunks mx tot (c # cs) acc =
     (let tot = tot + length c in
      if mx < tot then Inl BodyTooLarge else read_chunks mx tot cs (acc @ c))"

definition read_json_bounded :: "(bytes \<Rightarrow> jsval option) \<Rightarrow> bytes list \<Rightarrow> nat \<Rightarrow> body_error + jsval" where
  "read_json_bounded json cs mx =
     bind_r (read_chunks mx 0 cs []) (\<lambda>body.
       if body = [] then Inr (JObj [])
       else case json body of None \<Rightarrow> Inl InvalidJson | Some v \<Rightarrow> Inr v)"

record quota =
  q_configured :: bool
  q_defaultRpm :: nat
  q_overrideRpm :: "nat option"
  q_effectiveRpm :: nat
  q_tokens :: rat
  q_capacity :: rat
  q_firstSeen :: bool
  q_lastSeenAgoMs :: int

text \<open>\<open>quotaSnapshot\<close>; the fields after \<open>q_effectiveRpm\<close> are absent when not configured, and the
  whole record when limiting is off.\<close>

definition quota_snapshot :: "rl_config \<Rightarrow> limiter \<Rightarrow> string \<Rightarrow> string \<Rightarrow> int \<Rightarrow> quota option" where
  "quota_snapshot cfg l keyId op t =
     (if disabled cfg then None
      else let baseRpm = (if op = ''issue'' then issueRpm cfg else 0);
               overrideRpm = perKeyOverrides cfg (js keyId);
               r = (case overrideRpm of Some o' \<Rightarrow> o' | None \<Rightarrow> baseRpm);
               q = \<lparr>q_configured = (0 < r), q_defaultRpm = baseRpm, q_overrideRpm = overrideRpm,
                    q_effectiveRpm = r, q_tokens = 0, q_capacity = 0, q_firstSeen = False,
                    q_lastSeenAgoMs = 0\<rparr> in
        if \<not> q_configured q then Some q
        else (case map_of (keys l) keyId of
                None \<Rightarrow> Some (q\<lparr>q_tokens := of_nat r, q_capacity := of_nat r\<rparr>)
              | Some e \<Rightarrow>
                  let b = k_bucket e; elapsedMs = t - lastRefill b;
                      refilled = min (capacity b) (tokens b + (of_int elapsedMs / 60000) * of_nat r) in
                  Some (q\<lparr>q_tokens := of_int \<lfloor>refilled\<rfloor>, q_capacity := capacity b, q_firstSeen := True,
                          q_lastSeenAgoMs := t - k_lastSeen e\<rparr>)))"

subsection \<open>The ideal bucket\<close>

text \<open>
  The interface of a meter: \<open>take\<close> tries to take one token for a key at a time, \<open>touch\<close> is any
  other operation on the same state. Its laws say that \<open>avail\<close> behaves as one ideal bucket per key;
  the lemma bounds what any run of operations can take.
\<close>

datatype ('k, 'o) meter_event = Take 'k int | Touch 'o int

fun event_time :: "('k, 'o) meter_event \<Rightarrow> int" where
  "event_time (Take k t) = t"
| "event_time (Touch x t) = t"

fun meter_run ::
  "('s \<Rightarrow> 'k \<Rightarrow> int \<Rightarrow> 's \<times> bool) \<Rightarrow> ('s \<Rightarrow> 'o \<Rightarrow> int \<Rightarrow> 's) \<Rightarrow> 's \<Rightarrow> ('k, 'o) meter_event list \<Rightarrow>
   's \<times> 'k list" where
  "meter_run tk tc s [] = (s, [])"
| "meter_run tk tc s (Take k t # es) =
     (let (s1, ok) = tk s k t; (s2, ks) = meter_run tk tc s1 es in (s2, if ok then k # ks else ks))"
| "meter_run tk tc s (Touch x t # es) = meter_run tk tc (tc s x t) es"

locale meter =
  fixes take1 :: "'s \<Rightarrow> 'k \<Rightarrow> int \<Rightarrow> 's \<times> bool"
    and touch :: "'s \<Rightarrow> 'o \<Rightarrow> int \<Rightarrow> 's"
    and avail :: "'s \<Rightarrow> 'k \<Rightarrow> int \<Rightarrow> rat"
    and rate :: "'k \<Rightarrow> nat"
    and inv :: "int \<Rightarrow> 's \<Rightarrow> bool"
  assumes take_inv: "inv t0 s \<Longrightarrow> t0 \<le> t \<Longrightarrow> take1 s k t = (s', ok) \<Longrightarrow> inv t s'"
    and take_avail: "inv t0 s \<Longrightarrow> t0 \<le> t \<Longrightarrow> take1 s k t = (s', ok) \<Longrightarrow>
      avail s' k' t = (if ok \<and> k' = k then avail s k t - 1 else avail s k' t)"
    and take_ok: "inv t0 s \<Longrightarrow> t0 \<le> t \<Longrightarrow> take1 s k t = (s', True) \<Longrightarrow> 1 \<le> avail s k t"
    and touch_inv: "inv t0 s \<Longrightarrow> t0 \<le> t \<Longrightarrow> inv t (touch s x t)"
    and touch_avail: "inv t0 s \<Longrightarrow> t0 \<le> t \<Longrightarrow> avail (touch s x t) k t = avail s k t"
    and avail_range: "inv t0 s \<Longrightarrow> t0 \<le> t \<Longrightarrow> 0 \<le> avail s k t \<and> avail s k t \<le> of_nat (rate k)"
    and avail_slope: "inv t0 s \<Longrightarrow> t0 \<le> t \<Longrightarrow>
      avail s k t \<le> avail s k t0 + of_int (t - t0) / 60000 * of_nat (rate k)"
begin

lemma run_bound:
  assumes "inv t0 s" "sorted (t0 # map event_time es @ [t1])" "meter_run take1 touch s es = (s', ks)"
  shows "of_nat (count_list ks k) \<le> avail s k t0 + of_int (t1 - t0) / 60000 * of_nat (rate k)"
  using assms
proof (induction es arbitrary: t0 s s' ks)
  case Nil
  have "0 \<le> of_int (t1 - t0) / 60000 * (of_nat (rate k) :: rat)" using Nil.prems(2) by simp
  then show ?case using Nil avail_range [of t0 s t0 k] by simp
next
  case (Cons e es)
  define t where "t = event_time e"
  have t: "t0 \<le> t" and srt: "sorted (t # map event_time es @ [t1])" using Cons.prems(2) by (simp_all add: t_def)
  have slope: "avail s k t \<le> avail s k t0 + of_int (t - t0) / 60000 * of_nat (rate k)"
    by (rule avail_slope [OF Cons.prems(1) t])
  have split: "of_int (t1 - t0) / 60000 * (of_nat (rate k) :: rat) =
      of_int (t - t0) / 60000 * of_nat (rate k) + of_int (t1 - t) / 60000 * of_nat (rate k)"
    by (simp add: field_simps)
  show ?case
  proof (cases e)
    case (Take k' u)
    then have u: "u = t" by (simp add: t_def)
    obtain s1 ok where tk: "take1 s k' t = (s1, ok)" by force
    obtain s2 ks2 where ru: "meter_run take1 touch s1 es = (s2, ks2)" by force
    have ks: "ks = (if ok then k' # ks2 else ks2)" using Cons.prems(3) Take u tk ru by simp
    have "of_nat (count_list ks2 k) \<le> avail s1 k t + of_int (t1 - t) / 60000 * of_nat (rate k)"
      using Cons.IH [OF take_inv [OF Cons.prems(1) t tk] srt ru] .
    moreover have "avail s1 k t = avail s k t - (if ok \<and> k' = k then 1 else 0)"
      using take_avail [OF Cons.prems(1) t tk, of k] by simp
    moreover have "(of_nat (count_list ks k) :: rat) = of_nat (count_list ks2 k) + (if ok \<and> k' = k then 1 else 0)"
      by (simp add: ks)
    ultimately show ?thesis using slope split by linarith
  next
    case (Touch x u)
    then have u: "u = t" by (simp add: t_def)
    have "of_nat (count_list ks k) \<le> avail (touch s x t) k t + of_int (t1 - t) / 60000 * of_nat (rate k)"
      using Cons.IH [OF touch_inv [OF Cons.prems(1) t] srt] Cons.prems(3) Touch u by simp
    then show ?thesis using touch_avail [OF Cons.prems(1) t, of x k] slope split by linarith
  qed
qed

lemma run_bound_rate:
  assumes "inv t0 s" "sorted (t0 # map event_time es @ [t1])"
  shows "of_nat (count_list (snd (meter_run take1 touch s es)) k) \<le>
    of_nat (rate k) * (1 + of_int (t1 - t0) / 60000 :: rat)"
proof -
  have "of_nat (count_list (snd (meter_run take1 touch s es)) k) \<le>
      avail s k t0 + of_int (t1 - t0) / 60000 * of_nat (rate k)"
    by (rule run_bound [OF assms]) (simp add: prod_eq_iff)
  then show ?thesis using avail_range [OF assms(1), of t0 k] by (simp add: algebra_simps)
qed

end

subsection \<open>The limiter is a meter\<close>

definition bucket_ok :: "nat \<Rightarrow> int \<Rightarrow> bucket \<Rightarrow> bool" where
  "bucket_ok r t b \<longleftrightarrow> capacity b = of_nat r \<and> 0 \<le> tokens b \<and> tokens b \<le> of_nat r \<and> lastRefill b \<le> t"

definition level :: "bucket \<Rightarrow> nat \<Rightarrow> int \<Rightarrow> rat" where
  "level b r t = tokens (refill b r t)"

lemma new_bucket_ok [simp]: "bucket_ok r t (new_bucket r t)"
  by (simp add: bucket_ok_def new_bucket_def)

lemma bucket_ok_mono: "bucket_ok r t b \<Longrightarrow> t \<le> t' \<Longrightarrow> bucket_ok r t' b"
  by (simp add: bucket_ok_def)

lemma level_eq:
  assumes "bucket_ok r t b"
  shows "level b r t = min (of_nat r) (tokens b + of_int (t - lastRefill b) / 60000 * of_nat r)"
proof -
  define x where "x = of_int (t - lastRefill b) / 60000 * (of_nat r :: rat)"
  have b: "capacity b = of_nat r" "tokens b \<le> of_nat r" "lastRefill b \<le> t"
    using assms by (simp_all add: bucket_ok_def)
  have x: "0 \<le> x" unfolding x_def using b(3) by (intro mult_nonneg_nonneg) auto
  have "level b r t = (if t \<le> lastRefill b then tokens b
      else if 0 < x then min (of_nat r) (tokens b + x) else tokens b)"
    unfolding level_def refill_def Let_def x_def [symmetric] b(1) by simp
  moreover have "t \<le> lastRefill b \<Longrightarrow> x = 0" using b(3) by (simp add: x_def)
  ultimately show ?thesis
    unfolding x_def [symmetric] using b(2) x by (auto simp: min_def)
qed

lemma refill_ok:
  assumes "bucket_ok r t b"
  shows "bucket_ok r t (refill b r t)" "level (refill b r t) r t = level b r t"
proof -
  have "0 \<le> of_int (t - lastRefill b) / 60000 * (of_nat r :: rat)"
    using assms by (intro mult_nonneg_nonneg) (auto simp: bucket_ok_def)
  then show ok: "bucket_ok r t (refill b r t)"
    using assms by (auto simp: bucket_ok_def refill_def Let_def)
  show "level (refill b r t) r t = level b r t"
    by (auto simp: level_def refill_def Let_def)
qed

lemma refill_done:
  assumes "bucket_ok r t b"
  shows "of_int (t - lastRefill (refill b r t)) / 60000 * (of_nat r :: rat) = 0"
proof -
  have "t - lastRefill b \<le> 0 \<Longrightarrow> t = lastRefill b" using assms by (simp add: bucket_ok_def)
  then show ?thesis
    by (cases "t - lastRefill b \<le> 0"; cases "r = 0") (auto simp: refill_def Let_def)
qed

lemma take_ok:
  assumes "bucket_ok r t b" "1 \<le> level b r t"
  defines "b' \<equiv> (refill b r t)\<lparr>tokens := tokens (refill b r t) - 1\<rparr>"
  shows "bucket_ok r t b'" "level b' r t = level b r t - 1"
proof -
  have ok: "bucket_ok r t (refill b r t)" by (rule refill_ok(1) [OF assms(1)])
  then show b': "bucket_ok r t b'" using assms(2) by (simp add: b'_def bucket_ok_def level_def)
  have l: "lastRefill b' = lastRefill (refill b r t)" "tokens b' = level b r t - 1"
    by (simp_all add: b'_def level_def)
  have "tokens b' \<le> of_nat r" using b' by (simp add: bucket_ok_def)
  then show "level b' r t = level b r t - 1"
    unfolding level_eq [OF b'] l(1) refill_done [OF assms(1)] by (simp add: l(2))
qed

lemma level_range: "bucket_ok r t b \<Longrightarrow> 0 \<le> level b r t \<and> level b r t \<le> of_nat r"
  using refill_ok(1) [of r t b] by (simp add: level_def bucket_ok_def)

lemma level_slope:
  assumes "bucket_ok r t0 b" "t0 \<le> t"
  shows "level b r t \<le> level b r t0 + of_int (t - t0) / 60000 * of_nat r"
proof -
  have "0 \<le> of_int (t - t0) / 60000 * (of_nat r :: rat)"
    using assms(2) by (intro mult_nonneg_nonneg) auto
  moreover have "of_int (t - lastRefill b) / 60000 * (of_nat r :: rat) =
      of_int (t0 - lastRefill b) / 60000 * of_nat r + of_int (t - t0) / 60000 * of_nat r"
    by (simp add: field_simps)
  ultimately show ?thesis
    unfolding level_eq [OF assms(1)] level_eq [OF bucket_ok_mono [OF assms]] by linarith
qed

lemma level_full:
  assumes "bucket_ok r u b" "u + 60000 \<le> t"
  shows "level b r t = of_nat r"
proof -
  have "bucket_ok r t b" using assms by (intro bucket_ok_mono [OF assms(1)]) simp
  moreover have "1 \<le> of_int (t - lastRefill b) / (60000 :: rat)"
    using assms by (simp add: bucket_ok_def)
  then have "1 * of_nat r \<le> of_int (t - lastRefill b) / 60000 * (of_nat r :: rat)"
    by (intro mult_right_mono) auto
  ultimately show ?thesis using assms(1) by (simp add: level_eq bucket_ok_def)
qed

lemma level_new [simp]: "level (new_bucket r t) r t = of_nat r"
  by (simp add: level_def refill_def new_bucket_def Let_def)

lemma map_of_filter_val:
  assumes "distinct (map fst xs)"
  shows "map_of (filter (\<lambda>(k, e). Q e) xs) k =
    (case map_of xs k of None \<Rightarrow> None | Some e \<Rightarrow> if Q e then Some e else None)"
  using assms by (induction xs) (auto simp: map_of_eq_None_iff image_iff split: option.splits prod.splits)

lemma distinct_filter_fst: "distinct (map fst xs) \<Longrightarrow> distinct (map fst (filter P xs))"
  by (induction xs) auto

definition ip_inv :: "rl_config \<Rightarrow> int \<Rightarrow> limiter \<Rightarrow> bool" where
  "ip_inv cfg t l \<longleftrightarrow> 60 \<le> idleSweepSec cfg \<and> distinct (map fst (ips l)) \<and>
     (\<forall>ip e. map_of (ips l) ip = Some e \<longrightarrow>
        lastSeen e \<le> t \<and> (\<forall>c. bucket_ok (rpm cfg c) (lastSeen e) (buckets e c)))"

definition ip_avail :: "rl_config \<Rightarrow> limiter \<Rightarrow> string \<times> category \<Rightarrow> int \<Rightarrow> rat" where
  "ip_avail cfg l k t =
     (case map_of (ips l) (fst k) of
        None \<Rightarrow> of_nat (rpm cfg (snd k))
      | Some e \<Rightarrow> level (buckets e (snd k)) (rpm cfg (snd k)) t)"

definition ip_take :: "rl_config \<Rightarrow> limiter \<Rightarrow> string \<times> category \<Rightarrow> int \<Rightarrow> limiter \<times> bool" where
  "ip_take cfg l k t = (let (l', v) = take_token cfg l (fst k) (snd k) t in (l', allowed v))"

text \<open>The other operations on the same limiter: the sweep and the per-key check.\<close>

datatype limiter_op = OpSweep | OpKey string string | OpIp string category

definition ip_touch :: "rl_config \<Rightarrow> limiter \<Rightarrow> limiter_op \<Rightarrow> int \<Rightarrow> limiter" where
  "ip_touch cfg l x t = (case x of
      OpSweep \<Rightarrow> fst (sweep cfg l t)
    | OpKey k op \<Rightarrow> fst (check_key cfg l k op t)
    | OpIp ip c \<Rightarrow> l)"

lemma check_key_ips [simp]: "ips (fst (check_key cfg l k op t)) = ips l"
  by (simp add: check_key_def Let_def)

lemma take_token_keys [simp]: "keys (fst (take_token cfg l ip c t)) = keys l"
  by (auto simp: take_token_def ensure_entry_def Let_def split: option.splits)

lemma ip_inv_mono: "ip_inv cfg t l \<Longrightarrow> t \<le> t' \<Longrightarrow> ip_inv cfg t' l"
  by (fastforce simp: ip_inv_def)

lemma ip_bucket_ok:
  "ip_inv cfg t0 l \<Longrightarrow> t0 \<le> t \<Longrightarrow> map_of (ips l) ip = Some e \<Longrightarrow> bucket_ok (rpm cfg c) t (buckets e c)"
  by (fastforce simp: ip_inv_def intro: bucket_ok_mono)

lemma ensure_entry_Some:
  assumes "ensure_entry cfg l0 ip t = (l, Some e)" "ip_inv cfg t l0"
  shows "map_of (ips l) ip = Some e" "ip_inv cfg t l" "ip_avail cfg l = ip_avail cfg l0 \<or>
    (\<forall>k. ip_avail cfg l k t = ip_avail cfg l0 k t)"
proof -
  consider "map_of (ips l0) ip = Some e" "l = l0"
    | "map_of (ips l0) ip = None" "e = new_entry cfg t"
      "l = l0\<lparr>ips := AList.update ip (new_entry cfg t) (ips l0)\<rparr>"
    using assms(1) by (auto simp: ensure_entry_def split: option.splits if_splits)
  then show "map_of (ips l) ip = Some e" "ip_inv cfg t l" "ip_avail cfg l = ip_avail cfg l0 \<or>
    (\<forall>k. ip_avail cfg l k t = ip_avail cfg l0 k t)"
    using assms(2)
    by (cases; force simp: ip_inv_def update_conv' distinct_update new_entry_def ip_avail_def
        split: option.splits if_splits)+
qed

lemma ip_store:
  assumes "ip_inv cfg t l" "map_of (ips l) ip = Some e" "bucket_ok (rpm cfg c) t b"
    "\<And>c. bucket_ok (rpm cfg c) t (buckets e c)"
  defines "l' \<equiv> l\<lparr>ips := AList.update ip (e\<lparr>lastSeen := t, buckets := (buckets e)(c := b)\<rparr>) (ips l)\<rparr>"
  shows "ip_inv cfg t l'"
    "ip_avail cfg l' k t = (if k = (ip, c) then level b (rpm cfg c) t else ip_avail cfg l k t)"
  using assms by (auto simp: ip_inv_def ip_avail_def update_conv' distinct_update prod_eq_iff split: option.splits)

lemma ip_take_laws:
  assumes inv: "ip_inv cfg t0 l" "t0 \<le> t" and tk: "ip_take cfg l (ip, c) t = (l', ok)"
  shows "ip_inv cfg t l' \<and>
    (\<forall>k. ip_avail cfg l' k t = (if ok \<and> k = (ip, c) then ip_avail cfg l (ip, c) t - 1 else ip_avail cfg l k t)) \<and>
    (ok \<longrightarrow> 1 \<le> ip_avail cfg l (ip, c) t)"
proof -
  have it: "ip_inv cfg t l" by (rule ip_inv_mono [OF inv])
  obtain l1 eo where en: "ensure_entry cfg l ip t = (l1, eo)" by force
  show ?thesis
  proof (cases eo)
    case None
    then have "l1 = l" using en by (auto simp: ensure_entry_def split: option.splits if_splits)
    then have "l' = l" "\<not> ok" using tk en None by (auto simp: ip_take_def take_token_def)
    then show ?thesis using it by simp
  next
    case (Some e)
    note e1 = ensure_entry_Some [OF en [unfolded Some] it]
    have av: "ip_avail cfg l1 k t = ip_avail cfg l k t" for k using e1(3) by (cases k) auto
    have bs: "bucket_ok (rpm cfg c) t (buckets e c)" for c by (rule ip_bucket_ok [OF e1(2) order_refl e1(1)])
    have lv: "ip_avail cfg l (ip, c) t = level (buckets e c) (rpm cfg c) t"
      using av [of "(ip, c)"] e1(1) by (simp add: ip_avail_def)
    show ?thesis
    proof (cases "1 \<le> level (buckets e c) (rpm cfg c) t")
      case True
      note tok = take_ok [OF bs True]
      show ?thesis
        using tk en Some True ip_store [OF e1(2,1) tok(1) bs] av lv tok(2)
        by (auto simp: ip_take_def take_token_def Let_def level_def)
    next
      case False
      show ?thesis
        using tk en Some False ip_store [OF e1(2,1) refill_ok(1) [OF bs [of c]] bs] av lv refill_ok(2) [OF bs [of c]]
        by (auto simp: ip_take_def take_token_def Let_def level_def)
    qed
  qed
qed

lemma sweep_laws:
  assumes "ip_inv cfg t l"
  shows "ip_inv cfg t (fst (sweep cfg l t))" "ip_avail cfg (fst (sweep cfg l t)) k t = ip_avail cfg l k t"
proof -
  have d: "distinct (map fst (ips l))" "60 \<le> idleSweepSec cfg" using assms by (simp_all add: ip_inv_def)
  have m: "map_of (ips (fst (sweep cfg l t))) ip =
      (case map_of (ips l) ip of None \<Rightarrow> None
       | Some e \<Rightarrow> if \<not> lastSeen e < t - int (idleSweepSec cfg) * 1000 then Some e else None)" for ip
    by (simp add: sweep_def Let_def map_of_filter_val [OF d(1)])
  show "ip_inv cfg t (fst (sweep cfg l t))"
    using assms m distinct_filter_fst [OF d(1)]
    by (fastforce simp: ip_inv_def sweep_def Let_def split: option.splits if_splits)
  show "ip_avail cfg (fst (sweep cfg l t)) k t = ip_avail cfg l k t"
  proof (cases "map_of (ips l) (fst k)")
    case (Some e)
    have "level (buckets e (snd k)) (rpm cfg (snd k)) t = of_nat (rpm cfg (snd k))"
      if "lastSeen e < t - int (idleSweepSec cfg) * 1000"
    proof (rule level_full)
      show "bucket_ok (rpm cfg (snd k)) (lastSeen e) (buckets e (snd k))"
        using assms Some by (simp add: ip_inv_def)
      show "lastSeen e + 60000 \<le> t" using that d(2) by linarith
    qed
    then show ?thesis by (simp add: ip_avail_def m Some)
  qed (simp add: ip_avail_def m)
qed

lemma ip_touch_laws:
  assumes "ip_inv cfg t0 l" "t0 \<le> t"
  shows "ip_inv cfg t (ip_touch cfg l x t)" "ip_avail cfg (ip_touch cfg l x t) k t = ip_avail cfg l k t"
proof -
  have it: "ip_inv cfg t l" by (rule ip_inv_mono [OF assms])
  show "ip_inv cfg t (ip_touch cfg l x t)"
    using sweep_laws(1) [OF it] it by (cases x) (simp_all add: ip_touch_def ip_inv_def)
  show "ip_avail cfg (ip_touch cfg l x t) k t = ip_avail cfg l k t"
    using sweep_laws(2) [OF it] by (cases x) (simp_all add: ip_touch_def ip_avail_def)
qed

interpretation ip_meter: meter "ip_take cfg" "ip_touch cfg" "ip_avail cfg" "\<lambda>k. rpm cfg (snd k)" "ip_inv cfg"
  for cfg
proof (unfold_locales, goal_cases)
  case (1 t0 s t k s' ok)
  then show ?case using ip_take_laws [of cfg t0 s t "fst k" "snd k" s' ok] by simp
next
  case (2 t0 s t k s' ok k')
  then show ?case using ip_take_laws [of cfg t0 s t "fst k" "snd k" s' ok] by (cases k; cases k') auto
next
  case (3 t0 s t k s')
  then show ?case using ip_take_laws [of cfg t0 s t "fst k" "snd k" s' True] by simp
next
  case (4 t0 s t x)
  then show ?case by (rule ip_touch_laws(1))
next
  case (5 t0 s t x k)
  then show ?case by (rule ip_touch_laws(2))
next
  case (6 t0 s t k)
  then show ?case
    by (auto simp: ip_avail_def level_range ip_bucket_ok split: option.splits)
next
  case (7 t0 s t k)
  have "0 \<le> of_int (t - t0) / 60000 * (of_nat (rpm cfg (snd k)) :: rat)"
    using 7(2) by (intro mult_nonneg_nonneg) auto
  then show ?case
    using level_slope [OF ip_bucket_ok [OF 7(1) order_refl] 7(2)]
    by (auto simp: ip_avail_def split: option.splits)
qed

text \<open>The per-key limiter is a meter too. Only metered grants count: with a rate of 0 the check lets
  every request pass without a bucket.\<close>

definition key_inv :: "rl_config \<Rightarrow> int \<Rightarrow> limiter \<Rightarrow> bool" where
  "key_inv cfg t l \<longleftrightarrow> 60 \<le> idleSweepSec cfg \<and> distinct (map fst (keys l)) \<and>
     (\<forall>k e. map_of (keys l) k = Some e \<longrightarrow> k_lastSeen e \<le> t \<and> k_rpm e = key_rpm cfg k ''issue'' \<and>
        bucket_ok (key_rpm cfg k ''issue'') (k_lastSeen e) (k_bucket e))"

definition key_avail :: "rl_config \<Rightarrow> limiter \<Rightarrow> string \<Rightarrow> int \<Rightarrow> rat" where
  "key_avail cfg l k t =
     (case map_of (keys l) k of
        None \<Rightarrow> of_nat (key_rpm cfg k ''issue'')
      | Some e \<Rightarrow> level (k_bucket e) (key_rpm cfg k ''issue'') t)"

definition key_take :: "rl_config \<Rightarrow> limiter \<Rightarrow> string \<Rightarrow> int \<Rightarrow> limiter \<times> bool" where
  "key_take cfg l k t = (let (l', v) = check_key cfg l k ''issue'' t in (l', allowed v \<and> \<not> bypass v))"

definition key_touch :: "rl_config \<Rightarrow> limiter \<Rightarrow> limiter_op \<Rightarrow> int \<Rightarrow> limiter" where
  "key_touch cfg l x t = (case x of
      OpSweep \<Rightarrow> fst (sweep cfg l t)
    | OpIp ip c \<Rightarrow> fst (take_token cfg l ip c t)
    | OpKey k op \<Rightarrow> l)"

lemma key_inv_mono: "key_inv cfg t l \<Longrightarrow> t \<le> t' \<Longrightarrow> key_inv cfg t' l"
  by (fastforce simp: key_inv_def)

lemma key_bucket_ok:
  "key_inv cfg t0 l \<Longrightarrow> t0 \<le> t \<Longrightarrow> map_of (keys l) k = Some e \<Longrightarrow>
   bucket_ok (key_rpm cfg k ''issue'') t (k_bucket e)"
  by (fastforce simp: key_inv_def intro: bucket_ok_mono)

lemma key_store:
  assumes "key_inv cfg t l" "bucket_ok (key_rpm cfg k ''issue'') t b" "k_rpm e = key_rpm cfg k ''issue''"
  defines "l' \<equiv> l\<lparr>keys := AList.update k (e\<lparr>k_bucket := b, k_lastSeen := t\<rparr>) (keys l)\<rparr>"
  shows "key_inv cfg t l'"
    "key_avail cfg l' k' t = (if k' = k then level b (key_rpm cfg k ''issue'') t else key_avail cfg l k' t)"
  using assms by (auto simp: key_inv_def key_avail_def update_conv' distinct_update split: option.splits)

lemma key_take_laws:
  assumes inv: "key_inv cfg t0 l" "t0 \<le> t" and tk: "key_take cfg l k t = (l', ok)"
  shows "key_inv cfg t l' \<and>
    (\<forall>k'. key_avail cfg l' k' t = (if ok \<and> k' = k then key_avail cfg l k t - 1 else key_avail cfg l k' t)) \<and>
    (ok \<longrightarrow> 1 \<le> key_avail cfg l k t)"
proof -
  have it: "key_inv cfg t l" by (rule key_inv_mono [OF inv])
  define r where "r = key_rpm cfg k ''issue''"
  define e where "e = key_entry_for r t (map_of (keys l) k)"
  show ?thesis
  proof (cases "disabled cfg \<or> r = 0 \<or> (map_of (keys l) k = None \<and> maxIps cfg \<le> length (keys l))")
    case True
    then have "l' = l" "\<not> ok" using tk by (auto simp: key_take_def check_key_def Let_def r_def split: if_splits)
    then show ?thesis using it by simp
  next
    case False
    have er': "k_rpm e = r \<and> bucket_ok r t (k_bucket e) \<and> level (k_bucket e) r t = key_avail cfg l k t"
    proof (cases "map_of (keys l) k")
      case None
      then show ?thesis
        by (simp add: e_def key_entry_for_def key_avail_def r_def)
    next
      case (Some x)
      then have "k_rpm x = r" using it by (simp add: key_inv_def r_def)
      then have "e = x" by (simp add: e_def key_entry_for_def Some)
      then show ?thesis
        using key_bucket_ok [OF it order_refl Some] \<open>k_rpm x = r\<close>
        by (simp add: key_avail_def r_def Some)
    qed
    then have er: "k_rpm e = r" "bucket_ok r t (k_bucket e)" "level (k_bucket e) r t = key_avail cfg l k t"
      by simp_all
    define b where "b = refill (k_bucket e) r t"
    have F: "\<not> (disabled cfg \<or> r = 0)" "\<not> (map_of (keys l) k = None \<and> maxIps cfg \<le> length (keys l))"
      using False by auto
    have step: "key_take cfg l k t =
        (if 1 \<le> tokens b
         then (l\<lparr>keys := AList.update k (e\<lparr>k_bucket := b\<lparr>tokens := tokens b - 1\<rparr>, k_lastSeen := t\<rparr>) (keys l)\<rparr>, True)
         else (l\<lparr>keys := AList.update k (e\<lparr>k_bucket := b, k_lastSeen := t\<rparr>) (keys l)\<rparr>, False))"
      unfolding key_take_def check_key_def Let_def r_def [symmetric] e_def [symmetric] b_def [symmetric]
        if_not_P [OF F(1)] if_not_P [OF F(2)] by simp
    show ?thesis
    proof (cases "1 \<le> tokens b")
      case True
      then have ge: "1 \<le> level (k_bucket e) r t" by (simp add: level_def b_def)
      note tok = take_ok [OF er(2) ge, folded b_def]
      show ?thesis
        using tk step True key_store [OF it tok(1) [unfolded r_def] er(1) [unfolded r_def]] tok(2) er(3) ge
        by (auto simp: r_def)
    next
      case False
      show ?thesis
        using tk step False key_store [OF it refill_ok(1) [OF er(2), folded b_def, unfolded r_def] er(1) [unfolded r_def]]
          refill_ok(2) [OF er(2), folded b_def] er(3)
        by (auto simp: r_def)
    qed
  qed
qed

lemma key_sweep_laws:
  assumes "key_inv cfg t l"
  shows "key_inv cfg t (fst (sweep cfg l t))" "key_avail cfg (fst (sweep cfg l t)) k t = key_avail cfg l k t"
proof -
  have d: "distinct (map fst (keys l))" "60 \<le> idleSweepSec cfg" using assms by (simp_all add: key_inv_def)
  have m: "map_of (keys (fst (sweep cfg l t))) k =
      (case map_of (keys l) k of None \<Rightarrow> None
       | Some e \<Rightarrow> if \<not> k_lastSeen e < t - int (idleSweepSec cfg) * 1000 then Some e else None)" for k
    by (simp add: sweep_def Let_def map_of_filter_val [OF d(1)])
  show "key_inv cfg t (fst (sweep cfg l t))"
    using assms m distinct_filter_fst [OF d(1)]
    by (fastforce simp: key_inv_def sweep_def Let_def split: option.splits if_splits)
  show "key_avail cfg (fst (sweep cfg l t)) k t = key_avail cfg l k t"
  proof (cases "map_of (keys l) k")
    case (Some e)
    have e: "bucket_ok (key_rpm cfg k ''issue'') (k_lastSeen e) (k_bucket e)"
      using assms Some by (simp add: key_inv_def)
    have "level (k_bucket e) (key_rpm cfg k ''issue'') t = of_nat (key_rpm cfg k ''issue'')"
      if "k_lastSeen e < t - int (idleSweepSec cfg) * 1000"
      using that d(2) by (intro level_full [OF e]) linarith
    then show ?thesis by (simp add: key_avail_def m Some)
  qed (simp add: key_avail_def m)
qed

interpretation key_meter: meter "key_take cfg" "key_touch cfg" "key_avail cfg" "\<lambda>k. key_rpm cfg k ''issue''"
  "key_inv cfg" for cfg
proof (unfold_locales, goal_cases)
  case (1 t0 s t k s' ok)
  then show ?case using key_take_laws [of cfg t0 s t k s' ok] by simp
next
  case (2 t0 s t k s' ok k')
  then show ?case using key_take_laws [of cfg t0 s t k s' ok] by auto
next
  case (3 t0 s t k s')
  then show ?case using key_take_laws [of cfg t0 s t k s' True] by simp
next
  case (4 t0 s t x)
  have it: "key_inv cfg t s" by (rule key_inv_mono [OF 4])
  then show ?case using key_sweep_laws(1) [OF it] by (cases x) (simp_all add: key_touch_def key_inv_def)
next
  case (5 t0 s t x k)
  have it: "key_inv cfg t s" by (rule key_inv_mono [OF 5])
  then show ?case using key_sweep_laws(2) [OF it] by (cases x) (simp_all add: key_touch_def key_avail_def)
next
  case (6 t0 s t k)
  show ?case
  proof (cases "map_of (keys s) k")
    case (Some e)
    from level_range [OF key_bucket_ok [OF 6(1) _ Some]] 6 show ?thesis by (simp add: key_avail_def Some)
  qed (simp add: key_avail_def)
next
  case (7 t0 s t k)
  have "0 \<le> of_int (t - t0) / 60000 * (of_nat (key_rpm cfg k ''issue'') :: rat)"
    using 7(2) by (intro mult_nonneg_nonneg) auto
  moreover have "level (k_bucket e) (key_rpm cfg k ''issue'') t \<le> level (k_bucket e) (key_rpm cfg k ''issue'') t0 +
      of_int (t - t0) / 60000 * of_nat (key_rpm cfg k ''issue'')"
    if "map_of (keys s) k = Some e" for e
    using key_bucket_ok [OF 7(1) order_refl that] 7(2) by (rule level_slope)
  ultimately show ?case
    using 7(1) by (auto simp: key_avail_def key_inv_def split: option.splits)
qed

subsection \<open>Memory, decisions, bodies\<close>

definition size_ok :: "rl_config \<Rightarrow> limiter \<Rightarrow> bool" where
  "size_ok cfg l \<longleftrightarrow> distinct (map fst (ips l)) \<and> distinct (map fst (keys l)) \<and>
     length (ips l) \<le> maxIps cfg \<and> length (keys l) \<le> maxIps cfg"

lemma length_update:
  "distinct (map fst xs) \<Longrightarrow> length (AList.update k v xs) = (if map_of xs k = None then Suc (length xs) else length xs)"
  by (induction xs) auto

lemma take_token_size: "size_ok cfg l \<Longrightarrow> size_ok cfg (fst (take_token cfg l ip c t))"
  by (auto simp: size_ok_def take_token_def ensure_entry_def Let_def distinct_update length_update update_conv'
      split: option.splits)

lemma check_key_size: "size_ok cfg l \<Longrightarrow> size_ok cfg (fst (check_key cfg l k op t))"
  by (auto simp: size_ok_def check_key_def Let_def distinct_update length_update update_conv')

lemma sweep_size: "size_ok cfg l \<Longrightarrow> size_ok cfg (fst (sweep cfg l t))"
  by (auto simp: size_ok_def sweep_def Let_def distinct_filter_fst intro: order_trans [OF length_filter_le])

datatype limiter_call =
  CallCheck string string int | CallAuthFail string int | CallKey string string int | CallSweep int

fun limiter_step :: "rl_config \<Rightarrow> limiter \<Rightarrow> limiter_call \<Rightarrow> limiter" where
  "limiter_step cfg l (CallCheck ip cat t) = fst (check cfg l ip cat t)"
| "limiter_step cfg l (CallAuthFail ip t) = fst (record_auth_fail cfg l ip t)"
| "limiter_step cfg l (CallKey k op t) = fst (check_key cfg l k op t)"
| "limiter_step cfg l (CallSweep t) = fst (sweep cfg l t)"

lemma limiter_step_size: "size_ok cfg l \<Longrightarrow> size_ok cfg (limiter_step cfg l x)"
proof (cases x)
  case (CallCheck ip cat t)
  assume "size_ok cfg l"
  then show ?thesis
    using take_token_size [of cfg l ip _ t] CallCheck
    by (auto simp: check_def Let_def split: option.splits prod.splits) (metis fst_conv)
next
  case (CallAuthFail ip t)
  assume "size_ok cfg l"
  then show ?thesis
    using take_token_size [of cfg l ip AuthFail t] CallAuthFail
    by (auto simp: record_auth_fail_def Let_def split: prod.splits)
qed (simp_all add: check_key_size sweep_size)

lemma read_chunks_eq:
  "read_chunks mx n cs acc =
     (if cs \<noteq> [] \<and> mx < n + length (concat cs) then Inl BodyTooLarge else Inr (acc @ concat cs))"
  by (induction mx n cs acc rule: read_chunks.induct) (auto simp: Let_def)

subsection \<open>Properties\<close>

definition sample_cfg :: rl_config where
  "sample_cfg = \<lparr>disabled = False, rpm = DEFAULTS, issueRpm = 5, perKeyOverrides = Map.empty,
     maxBodyBytes = 65536, maxClaimsBytes = 16384, maxIps = 2, idleSweepSec = 300\<rparr>"

lemma inv_create [simp]:
  "60 \<le> idleSweepSec cfg \<Longrightarrow> ip_inv cfg t create_limiter"
  "60 \<le> idleSweepSec cfg \<Longrightarrow> key_inv cfg t create_limiter"
  by (simp_all add: ip_inv_def key_inv_def create_limiter_def)

text \<open>C27: In any run of rate checks, per-key checks and sweeps at non-decreasing times between \<open>t0\<close> and
  \<open>t1\<close>, the requests granted to one address in one category are at most its rate times one plus the
  elapsed minutes. In particular dropping an idle entry never grants more.\<close>

theorem ip_rate_bound:
  assumes "60 \<le> idleSweepSec cfg" "sorted (t0 # map event_time es @ [t1])"
  shows "of_nat (count_list (snd (meter_run (ip_take cfg) (ip_touch cfg) create_limiter es)) (ip, c)) \<le>
    of_nat (rpm cfg c) * (1 + of_int (t1 - t0) / 60000 :: rat)"
  using ip_meter.run_bound_rate [OF inv_create(1) [OF assms(1)] assms(2), of "(ip, c)"] by simp

lemma ip_rate_bound_witness:
  "of_nat (count_list (snd (meter_run (ip_take sample_cfg) (ip_touch sample_cfg) create_limiter
      [Take (''a'', Admin) 5, Touch OpSweep 6, Take (''a'', Admin) 7])) (''a'', Admin)) \<le>
    of_nat (rpm sample_cfg Admin) * (1 + of_int (60000 - 0) / 60000 :: rat)"
  by (rule ip_rate_bound) (simp_all add: sample_cfg_def)

text \<open>The same bound for one key id at the issue endpoint: metered grants never exceed the key's
  rate times one plus the elapsed minutes.\<close>

theorem key_rate_bound:
  assumes "60 \<le> idleSweepSec cfg" "sorted (t0 # map event_time es @ [t1])"
  shows "of_nat (count_list (snd (meter_run (key_take cfg) (key_touch cfg) create_limiter es)) k) \<le>
    of_nat (key_rpm cfg k ''issue'') * (1 + of_int (t1 - t0) / 60000 :: rat)"
  using key_meter.run_bound_rate [OF inv_create(2) [OF assms(1)] assms(2), of k] by simp

lemma key_rate_bound_witness:
  "of_nat (count_list (snd (meter_run (key_take sample_cfg) (key_touch sample_cfg) create_limiter
      [Take ''k'' 5, Touch (OpIp ''a'' Admin) 6, Take ''k'' 7])) ''k'') \<le>
    of_nat (key_rpm sample_cfg ''k'' ''issue'') * (1 + of_int (60000 - 0) / 60000 :: rat)"
  by (rule key_rate_bound) (simp_all add: sample_cfg_def)

text \<open>C28: The limiter's memory is bounded: whatever calls are made, at most \<open>maxIps\<close> addresses and at
  most \<open>maxIps\<close> keys have an entry.\<close>

theorem limiter_memory_bounded:
  "length (ips (foldl (limiter_step cfg) create_limiter calls)) \<le> maxIps cfg \<and>
   length (keys (foldl (limiter_step cfg) create_limiter calls)) \<le> maxIps cfg"
proof -
  have "size_ok cfg l \<Longrightarrow> size_ok cfg (foldl (limiter_step cfg) l calls)" for l
    by (induction calls arbitrary: l) (simp_all add: limiter_step_size)
  moreover have "size_ok cfg create_limiter" by (simp add: size_ok_def create_limiter_def)
  ultimately show ?thesis by (simp add: size_ok_def)
qed

text \<open>Failed authentications do not slow down later admin requests of the same address: after
  \<open>recordAuthFail\<close> the admin check gives the verdict it would have given without it.\<close>

theorem auth_fail_does_not_throttle:
  assumes "map_of (ips l) ip \<noteq> None"
  shows "snd (check cfg (fst (record_auth_fail cfg l ip t)) ip ''admin'' t') = snd (check cfg l ip ''admin'' t')"
proof -
  obtain e where e: "map_of (ips l) ip = Some e" using assms by blast
  have "\<exists>e'. map_of (ips (fst (record_auth_fail cfg l ip t))) ip = Some e' \<and> buckets e' Admin = buckets e Admin"
    using e by (simp add: record_auth_fail_def take_token_def ensure_entry_def Let_def update_conv')
  then obtain e' where e': "map_of (ips (fst (record_auth_fail cfg l ip t))) ip = Some e'"
    "buckets e' Admin = buckets e Admin" by blast
  then have "snd (take_token cfg (fst (record_auth_fail cfg l ip t)) ip Admin t') = snd (take_token cfg l ip Admin t')"
    using e by (simp add: take_token_def ensure_entry_def Let_def)
  then show ?thesis by (auto simp: check_def category_of_def Let_def split: prod.splits)
qed

lemma auth_fail_does_not_throttle_witness:
  "snd (check sample_cfg (fst (record_auth_fail sample_cfg \<lparr>ips = [(''a'', new_entry sample_cfg 0)], keys = []\<rparr> ''a'' 5)) ''a'' ''admin'' 6) =
   snd (check sample_cfg \<lparr>ips = [(''a'', new_entry sample_cfg 0)], keys = []\<rparr> ''a'' ''admin'' 6)"
  by (rule auth_fail_does_not_throttle) simp

text \<open>C29: \<open>readJsonBounded\<close> depends on the body only, not on how it arrives in chunks: it refuses a body
  longer than the limit before parsing it, takes the empty body for an empty object, and otherwise
  parses the whole of it.\<close>

theorem read_json_bounded_spec:
  "read_json_bounded json cs mx =
     (if mx < length (concat cs) then Inl BodyTooLarge
      else if concat cs = [] then Inr (JObj [])
      else case json (concat cs) of None \<Rightarrow> Inl InvalidJson | Some v \<Rightarrow> Inr v)"
proof (cases "mx < length (concat cs)")
  case True
  then have "cs \<noteq> []" by auto
  with True show ?thesis by (simp add: read_json_bounded_def read_chunks_eq)
qed (simp add: read_json_bounded_def read_chunks_eq)

text \<open>A configured rate between 0 and 1 is accepted and becomes 0, and then nothing is allowed.\<close>

lemma rate_below_one:
  "env_number [''X'' \<mapsto> ''0.5''] ''X'' rate_ok d = Inr 0"
proof -
  have "js_number ''0.5'' = Some (Some (1 / 2))" by code_simp
  then show ?thesis by (simp add: env_number_def rate_ok_def)
qed

lemma rate_zero_denies:
  assumes "ip_inv cfg t0 l" "t0 \<le> t" "rpm cfg c = 0"
  shows "\<not> snd (ip_take cfg l (ip, c) t)"
  using ip_meter.take_ok [OF assms(1,2), of "(ip, c)"] ip_meter.avail_range [OF assms(1,2), of "(ip, c)"] assms(3)
  by (cases "ip_take cfg l (ip, c) t") auto

end
