(* ===== verification/Cidr.thy ===== *)
theory Cidr
  imports Js_Text Rate_Limit
begin

unbundle bit_operations_syntax

section \<open>Address allow lists\<close>

text \<open>
  \<open>qv-server/cidr.mjs\<close>: parsing of IPv4 and IPv6 addresses and ranges, the match of an address
  against a list, and the configuration. Addresses are single-line text. The specification of the
  match is on bits: an address is in a range when the first \<open>mask_len\<close> bits of both agree.
\<close>

datatype cidr_error = BadCidrAddress string | BadCidrMask string

definition parse_v4 :: "string \<Rightarrow> bytes option" where
  "parse_v4 ip =
     (let parts = split_on (CHR ''.'') ip; ns = map js_integer parts in
      if length parts = 4 \<and> list_all (\<lambda>n. case n of None \<Rightarrow> False | Some k \<Rightarrow> 0 \<le> k \<and> k \<le> 255) ns
      then Some (map (\<lambda>n. word_of_int (the n)) ns) else None)"

text \<open>The text after \<open>::ffff:\<close> when the whole matches \<open>/^::ffff:(\d+\.\d+\.\d+\.\d+)$/i\<close>.\<close>

definition v4_mapped :: "string \<Rightarrow> string option" where
  "v4_mapped s =
     (let ps = split_on (CHR ''.'') (drop 7 s) in
      if to_lower (take 7 s) = ''::ffff:'' \<and> length ps = 4 \<and> list_all (\<lambda>p. p \<noteq> [] \<and> list_all is_digit p) ps
      then Some (drop 7 s) else None)"

text \<open>\<open>s.split('::')\<close>.\<close>

fun split_cc :: "string \<Rightarrow> string list" where
  "split_cc (c # d # cs) =
     (if c = CHR '':'' \<and> d = CHR '':'' then [] # split_cc cs
      else case split_cc (d # cs) of p # ps \<Rightarrow> (c # p) # ps | [] \<Rightarrow> [[c]])"
| "split_cc cs = [cs]"

definition expand_v6 :: "string \<Rightarrow> string option" where
  "expand_v6 s =
     (case split_cc s of
        head # tail # _ \<Rightarrow>
          let hp = (if head \<noteq> [] then split_on (CHR '':'') head else []);
              tp = (if tail \<noteq> [] then split_on (CHR '':'') tail else []);
              missing = 8 - int (length hp) - int (length tp) in
          if missing < 0 then None
          else Some (join_with '':'' (hp @ replicate (nat missing) ''0'' @ tp))
      | _ \<Rightarrow> Some s)"

definition hextet_bytes :: "int \<Rightarrow> bytes" where
  "hextet_bytes n = [word_of_int (n div 256), word_of_int n]"

definition parse_v6 :: "string \<Rightarrow> bytes option" where
  "parse_v6 ip =
     (case v4_mapped ip of
        Some t \<Rightarrow> (case parse_v4 t of None \<Rightarrow> None | Some v4 \<Rightarrow> Some (replicate 10 0 @ [0xFF, 0xFF] @ v4))
      | None \<Rightarrow>
          (case expand_v6 ip of
             None \<Rightarrow> None
           | Some s \<Rightarrow>
               let parts = split_on (CHR '':'') s; ns = map parse_int16 parts in
               if length parts = 8 \<and> list_all (\<lambda>n. case n of None \<Rightarrow> False | Some k \<Rightarrow> 0 \<le> k \<and> k \<le> 0xFFFF) ns
               then Some (concat (map (\<lambda>n. hextet_bytes (the n)) ns)) else None))"

text \<open>Both callers treat a missing result and missing bytes alike, so \<open>parseIp\<close> returns one option.\<close>

definition parse_ip :: "string \<Rightarrow> (nat \<times> bytes) option" where
  "parse_ip ip =
     (if ip = [] then None
      else let cleaned = takeWhile (\<lambda>c. c \<noteq> CHR ''%'') ip in
        if CHR '':'' \<in> set cleaned then map_option (Pair 6) (parse_v6 cleaned)
        else map_option (Pair 4) (parse_v4 cleaned))"

record cidr =
  family :: nat
  addr :: bytes
  mask_len :: nat

definition parse_cidr :: "string \<Rightarrow> cidr_error + cidr" where
  "parse_cidr entry =
     (let ps = split_on (CHR ''/'') entry in
      case parse_ip (hd ps) of
        None \<Rightarrow> Inl (BadCidrAddress entry)
      | Some (fam, bs) \<Rightarrow>
          let fullBits = (if fam = 4 then 32 else 128);
              m = (case tl ps of [] \<Rightarrow> Some (int fullBits) | maskRaw # _ \<Rightarrow> js_integer maskRaw) in
          (case m of
             None \<Rightarrow> Inl (BadCidrMask entry)
           | Some k \<Rightarrow>
               if k < 0 \<or> int fullBits < k then Inl (BadCidrMask entry)
               else Inr \<lparr>family = fam, addr = bs, mask_len = nat k\<rparr>))"

fun map_r :: "('a \<Rightarrow> 'e + 'b) \<Rightarrow> 'a list \<Rightarrow> 'e + 'b list" where
  "map_r f [] = Inr []"
| "map_r f (x # xs) = bind_r (f x) (\<lambda>y. bind_r (map_r f xs) (\<lambda>ys. Inr (y # ys)))"

definition load_cidr_list :: "string option \<Rightarrow> cidr_error + cidr list" where
  "load_cidr_list raw =
     (case raw of
        None \<Rightarrow> Inr []
      | Some s \<Rightarrow> if s = [] then Inr []
          else map_r parse_cidr (filter (\<lambda>p. p \<noteq> []) (map js_trim (split_on (CHR '','') s))))"

text \<open>The inner loop of \<open>matchesAny\<close>: byte \<open>i\<close>, \<open>rem\<close> mask bits left.\<close>

function mask_loop :: "bytes \<Rightarrow> bytes \<Rightarrow> nat \<Rightarrow> nat \<Rightarrow> bool" where
  "mask_loop a b i rem =
     (if rem = 0 then True
      else let tk = min 8 rem; m = push_bit (8 - tk) 0xFF AND (0xFF :: byte) in
        if a ! i AND m \<noteq> b ! i AND m then False else mask_loop a b (i + 1) (rem - tk))"
  by pat_completeness auto
termination
  by (relation "measure (\<lambda>(a, b, i, rem). rem)") auto

declare mask_loop.simps [simp del]

definition matches_any :: "string \<Rightarrow> cidr list \<Rightarrow> bool" where
  "matches_any ip lst =
     (if lst = [] then True
      else case parse_ip ip of
        None \<Rightarrow> False
      | Some (fam, bs) \<Rightarrow> list_ex (\<lambda>c. family c = fam \<and> mask_loop bs (addr c) 0 (mask_len c)) lst)"

definition load_cidr_config :: "(string \<Rightarrow> string option) \<Rightarrow> cidr_error + cidr list \<times> cidr list" where
  "load_cidr_config env =
     bind_r (load_cidr_list (env ''QV_ADMIN_ALLOW_CIDRS'')) (\<lambda>admin.
       case env ''QV_METRICS_ALLOW_CIDRS'' of
         None \<Rightarrow> Inr (admin, admin)
       | Some s \<Rightarrow> bind_r (load_cidr_list (Some s)) (\<lambda>metrics. Inr (admin, metrics)))"

subsection \<open>The match on bits\<close>

definition addr_bit :: "bytes \<Rightarrow> nat \<Rightarrow> bool" where
  "addr_bit a k = bit (a ! (k div 8)) (7 - k mod 8)"

lemma mask_byte_bits:
  assumes "0 < tk" "tk \<le> 8"
  shows "(x :: byte) AND (push_bit (8 - tk) 0xFF AND 0xFF) = y AND (push_bit (8 - tk) 0xFF AND 0xFF) \<longleftrightarrow>
    (\<forall>j < tk. bit x (7 - j) = bit y (7 - j))"
proof -
  have m: "bit (push_bit (8 - tk) 0xFF AND (0xFF :: byte)) n \<longleftrightarrow> n < 8 \<and> 8 - tk \<le> n" for n
  proof -
    have f: "(0xFF :: byte) = mask 8" by (simp add: mask_numeral numeral_3_eq_3 Bit_Operations.mask_eq_exp_minus_1)
    show ?thesis unfolding f by (auto simp: bit_simps)
  qed
  define M where "M = push_bit (8 - tk) 0xFF AND (0xFF :: byte)"
  have "x AND M = y AND M \<longleftrightarrow> (\<forall>n. n < 8 \<and> 8 - tk \<le> n \<longrightarrow> bit x n = bit y n)"
    using m unfolding M_def [symmetric] by (auto simp: bit_eq_iff bit_and_iff)
  then have "x AND (push_bit (8 - tk) 0xFF AND 0xFF) = y AND (push_bit (8 - tk) 0xFF AND 0xFF) \<longleftrightarrow>
      (\<forall>n. n < 8 \<and> 8 - tk \<le> n \<longrightarrow> bit x n = bit y n)"
    by (simp only: M_def)
  also have "\<dots> \<longleftrightarrow> (\<forall>j < tk. bit x (7 - j) = bit y (7 - j))"
  proof
    assume l: "\<forall>n. n < 8 \<and> 8 - tk \<le> n \<longrightarrow> bit x n = bit y n"
    show "\<forall>j < tk. bit x (7 - j) = bit y (7 - j)"
    proof (intro allI impI)
      fix j assume "j < tk"
      then have "7 - j < 8 \<and> 8 - tk \<le> 7 - j" using assms(2) by linarith
      then show "bit x (7 - j) = bit y (7 - j)" using l by blast
    qed
  next
    assume r: "\<forall>j < tk. bit x (7 - j) = bit y (7 - j)"
    show "\<forall>n. n < 8 \<and> 8 - tk \<le> n \<longrightarrow> bit x n = bit y n"
    proof (intro allI impI)
      fix n assume n: "n < 8 \<and> 8 - tk \<le> n"
      then have "7 - n < tk" "7 - (7 - n) = n" by auto
      then show "bit x n = bit y n" using r by metis
    qed
  qed
  finally show ?thesis .
qed

lemma mask_loop_iff:
  "mask_loop a b i rem \<longleftrightarrow> (\<forall>k < rem. addr_bit a (8 * i + k) = addr_bit b (8 * i + k))"
proof (induction a b i rem rule: mask_loop.induct)
  case (1 a b i rem)
  show ?case
  proof (cases "rem = 0")
    case True
    then show ?thesis by (simp add: mask_loop.simps)
  next
    case False
    define tk where "tk = min 8 rem"
    have tk: "0 < tk" "tk \<le> 8" "tk \<le> rem" using False by (simp_all add: tk_def)
    have ab: "addr_bit c (8 * i + j) = bit (c ! i) (7 - j)" if "j < tk" for c j
    proof -
      have "(8 * i + j) div 8 = i" "(8 * i + j) mod 8 = j" using that tk(2) by auto
      then show ?thesis by (simp add: addr_bit_def)
    qed
    have first: "a ! i AND (push_bit (8 - tk) 0xFF AND 0xFF) = b ! i AND (push_bit (8 - tk) 0xFF AND 0xFF) \<longleftrightarrow>
        (\<forall>k < tk. addr_bit a (8 * i + k) = addr_bit b (8 * i + k))"
      unfolding mask_byte_bits [OF tk(1,2)] using ab by auto
    have rest: "mask_loop a b (i + 1) (rem - tk) \<longleftrightarrow>
        (\<forall>k. tk \<le> k \<and> k < rem \<longrightarrow> addr_bit a (8 * i + k) = addr_bit b (8 * i + k))"
      if "a ! i AND (push_bit (8 - tk) 0xFF AND 0xFF) = b ! i AND (push_bit (8 - tk) 0xFF AND 0xFF)"
    proof -
      have ih: "mask_loop a b (i + 1) (rem - tk) \<longleftrightarrow>
          (\<forall>k < rem - tk. addr_bit a (8 * (i + 1) + k) = addr_bit b (8 * (i + 1) + k))"
        using 1 [OF False tk_def refl] that by simp
      show ?thesis
      proof (cases "rem \<le> 8")
        case True
        then have "tk = rem" by (simp add: tk_def)
        then show ?thesis by (auto simp: mask_loop.simps)
      next
        case False
        then have t8: "tk = 8" by (simp add: tk_def)
        have "(\<forall>k < rem - 8. P (8 * (i + 1) + k)) \<longleftrightarrow> (\<forall>k. 8 \<le> k \<and> k < rem \<longrightarrow> P (8 * i + k))" for P
        proof
          assume l: "\<forall>k < rem - 8. P (8 * (i + 1) + k)"
          show "\<forall>k. 8 \<le> k \<and> k < rem \<longrightarrow> P (8 * i + k)"
          proof (intro allI impI)
            fix k assume "8 \<le> k \<and> k < rem"
            then have "k - 8 < rem - 8" "8 * (i + 1) + (k - 8) = 8 * i + k" by auto
            then show "P (8 * i + k)" using l by metis
          qed
        next
          assume r: "\<forall>k. 8 \<le> k \<and> k < rem \<longrightarrow> P (8 * i + k)"
          show "\<forall>k < rem - 8. P (8 * (i + 1) + k)"
            using r [rule_format, of "8 + _"] by (auto simp: algebra_simps)
        qed
        from this [of "\<lambda>n. addr_bit a n = addr_bit b n"] show ?thesis using ih t8 by simp
      qed
    qed
    have "mask_loop a b i rem \<longleftrightarrow>
        a ! i AND (push_bit (8 - tk) 0xFF AND 0xFF) = b ! i AND (push_bit (8 - tk) 0xFF AND 0xFF) \<and>
        mask_loop a b (i + 1) (rem - tk)"
      by (subst mask_loop.simps) (simp add: False Let_def tk_def [symmetric])
    also have "\<dots> \<longleftrightarrow> (\<forall>k < tk. addr_bit a (8 * i + k) = addr_bit b (8 * i + k)) \<and>
        (\<forall>k. tk \<le> k \<and> k < rem \<longrightarrow> addr_bit a (8 * i + k) = addr_bit b (8 * i + k))"
      using first rest by blast
    also have "\<dots> \<longleftrightarrow> (\<forall>k < rem. addr_bit a (8 * i + k) = addr_bit b (8 * i + k))"
      using tk(3) by (meson not_le order_less_le_trans)
    finally show ?thesis .
  qed
qed

lemma parse_v4_length: "parse_v4 ip = Some bs \<Longrightarrow> length bs = 4"
  by (auto simp: parse_v4_def Let_def split: if_splits)

lemma parse_v4_dotted:
  assumes "a < 256" "b < 256" "c < 256" "d < 256"
  shows "parse_v4 (join_with ''.'' (map dec_print [a, b, c, d])) = Some (map word_of_nat [a, b, c, d])"
proof -
  have "\<forall>p \<in> set (map dec_print [a, b, c, d]). CHR ''.'' \<notin> set p"
    using dec_print_digits by (fastforce simp: is_digit_def dec_val_def code_def)
  then have "split_on (CHR ''.'') (join_with ''.'' (map dec_print [a, b, c, d])) = map dec_print [a, b, c, d]"
    by (intro split_join) simp_all
  then show ?thesis using assms by (simp add: parse_v4_def Let_def)
qed

lemma matches_any_iff:
  "matches_any ip lst \<longleftrightarrow> lst = [] \<or>
    (\<exists>fam bs. parse_ip ip = Some (fam, bs) \<and>
      (\<exists>c \<in> set lst. family c = fam \<and> (\<forall>k < mask_len c. addr_bit bs k = addr_bit (addr c) k)))"
  by (auto simp: matches_any_def list_ex_iff mask_loop_iff split: option.splits)

subsection \<open>Properties\<close>

text \<open>C32: An address passes a list exactly when the list is empty, or it parses and some range of its
  family has the same first \<open>mask_len\<close> bits.\<close>

theorem matches_any_bits:
  "matches_any ip lst \<longleftrightarrow> lst = [] \<or>
    (\<exists>fam bs. parse_ip ip = Some (fam, bs) \<and>
      list_ex (\<lambda>c. family c = fam \<and> list_all (\<lambda>k. addr_bit bs k = addr_bit (addr c) k) [0..<mask_len c]) lst)"
proof -
  have "list_all P [0..<n] \<longleftrightarrow> (\<forall>k < n. P k)" for P n by (auto simp: list_all_iff)
  then show ?thesis by (simp only: matches_any_iff list_ex_iff)
qed

text \<open>An IPv4-mapped IPv6 address, or any other text with a colon, is in the IPv6 family and passes
  no non-empty list of IPv4 ranges: the prefix is not stripped.\<close>

theorem mapped_address_misses_v4_ranges:
  assumes "CHR '':'' \<in> set (takeWhile (\<lambda>c. c \<noteq> CHR ''%'') ip)" "lst \<noteq> []" "\<forall>c \<in> set lst. family c = 4"
  shows "\<not> matches_any ip lst"
proof -
  have "fam = 6" if "parse_ip ip = Some (fam, bs)" for fam bs
    using that assms(1) by (auto simp: parse_ip_def Let_def split: if_splits)
  then show ?thesis using assms(2,3) by (auto simp: matches_any_iff)
qed

lemma mapped_address_misses_v4_ranges_witness:
  "\<not> matches_any ''::ffff:10.0.0.1'' [\<lparr>family = 4, addr = [10, 0, 0, 0], mask_len = 8\<rparr>]"
  by (rule mapped_address_misses_v4_ranges) simp_all

text \<open>Setting the metrics list to the empty string does not fall back to the admin list: the metrics
  list becomes empty, and every address passes it.\<close>

theorem empty_metrics_list_is_open:
  assumes "env ''QV_METRICS_ALLOW_CIDRS'' = Some []" "load_cidr_config env = Inr (admin, metrics)"
  shows "metrics = [] \<and> matches_any ip metrics"
  using assms by (auto simp: load_cidr_config_def load_cidr_list_def bind_r_eq_Inr matches_any_def)

lemma empty_metrics_list_is_open_witness:
  "matches_any ''203.0.113.9'' []"
proof -
  have "load_cidr_config [''QV_METRICS_ALLOW_CIDRS'' \<mapsto> []] = Inr ([], [])"
    by (simp add: load_cidr_config_def load_cidr_list_def)
  then show ?thesis using empty_metrics_list_is_open [of "[''QV_METRICS_ALLOW_CIDRS'' \<mapsto> []]"] by auto
qed

text \<open>A range with an empty mask is read as \<open>/0\<close> and admits every IPv4 address.\<close>

lemma empty_mask_admits_all:
  assumes "parse_ip ip = Some (4, bs)"
  shows "\<exists>lst. load_cidr_list (Some ''10.0.0.0/'') = Inr lst \<and> lst \<noteq> [] \<and> matches_any ip lst"
proof -
  have "load_cidr_list (Some ''10.0.0.0/'') = Inr [\<lparr>family = 4, addr = [10, 0, 0, 0], mask_len = 0\<rparr>]"
    by code_simp
  then show ?thesis using assms by (simp add: matches_any_iff)
qed

end
