(* ===== verification/Base64.thy ===== *)
theory Base64
  imports Js_Text
begin

section \<open>Base64: \<open>Buffer.from(s, 'base64')\<close> and \<open>toString('base64')\<close>\<close>

text \<open>
  The text forms in which keys, sealed keys and tokens travel. The decoder is that of Node as
  documented: both alphabets, other characters ignored, the padding ends the text. The encoder is
  given for both alphabets (\<open>base64\<close> with padding, \<open>base64url\<close> without). The decoder inverts
  either encoder.
\<close>

definition base64_val :: "char \<Rightarrow> nat option" where
  "base64_val c = (let k = code c in
     if 65 \<le> k \<and> k \<le> 90 then Some (k - 65)
     else if 97 \<le> k \<and> k \<le> 122 then Some (k - 71)
     else if 48 \<le> k \<and> k \<le> 57 then Some (k + 4)
     else if k = 43 \<or> k = 45 then Some 62
     else if k = 47 \<or> k = 95 then Some 63
     else None)"

fun sextets :: "nat list \<Rightarrow> bytes" where
  "sextets (a # b # c # d # ds) =
     word_of_nat (a * 4 + b div 16) # word_of_nat (b mod 16 * 16 + c div 4) #
     word_of_nat (c mod 4 * 64 + d) # sextets ds"
| "sextets [a, b, c] = [word_of_nat (a * 4 + b div 16), word_of_nat (b mod 16 * 16 + c div 4)]"
| "sextets [a, b] = [word_of_nat (a * 4 + b div 16)]"
| "sextets _ = []"

definition base64_decode :: "string \<Rightarrow> bytes" where
  "base64_decode s = sextets (List.map_filter base64_val (takeWhile (\<lambda>c. c \<noteq> CHR ''='') s))"

definition base64_char :: "bool \<Rightarrow> nat \<Rightarrow> char" where
  "base64_char url n =
     (if n < 26 then char_of (n + 65) else if n < 52 then char_of (n + 71)
      else if n < 62 then char_of (n - 4)
      else if n = 62 then (if url then CHR ''-'' else CHR ''+'') else (if url then CHR ''_'' else CHR ''/''))"

fun sextets_of :: "bytes \<Rightarrow> nat list" where
  "sextets_of (a # b # c # bs) =
     unat a div 4 # (unat a mod 4 * 16 + unat b div 16) # (unat b mod 16 * 4 + unat c div 64) #
     unat c mod 64 # sextets_of bs"
| "sextets_of [a, b] = [unat a div 4, unat a mod 4 * 16 + unat b div 16, unat b mod 16 * 4]"
| "sextets_of [a] = [unat a div 4, unat a mod 4 * 16]"
| "sextets_of [] = []"

definition base64_encode :: "bytes \<Rightarrow> string" where
  "base64_encode bs = map (base64_char False) (sextets_of bs) @ replicate ((3 - length bs mod 3) mod 3) (CHR ''='')"

definition base64url_encode :: "bytes \<Rightarrow> string" where
  "base64url_encode bs = map (base64_char True) (sextets_of bs)"

lemma code_char_of: "k < 256 \<Longrightarrow> code (char_of k) = k"
  by (simp add: code_def)

lemma code_symbols: "code (CHR ''-'') = 45" "code (CHR ''+'') = 43" "code (CHR ''_'') = 95"
  "code (CHR ''/'') = 47" "code (CHR ''='') = 61"
  by (simp_all add: code_def)

lemma base64_val_char: "n < 64 \<Longrightarrow> base64_val (base64_char url n) = Some n"
proof -
  assume n: "n < 64"
  then consider "n < 26" | "26 \<le> n" "n < 52" | "52 \<le> n" "n < 62" | "n = 62" | "n = 63" by linarith
  then show ?thesis
    by cases (auto simp: base64_char_def base64_val_def Let_def code_char_of code_symbols)
qed

lemma base64_char_pad: "n < 64 \<Longrightarrow> base64_char url n \<noteq> CHR ''=''"
  using base64_val_char [of n url] by (auto simp: base64_val_def code_symbols)

text \<open>The arithmetic of the four sextets of three bytes, on numbers below 256.\<close>

lemma sextet_bounds:
  fixes a b :: nat
  assumes "a < 256" "b < 256"
  shows "a div 4 < 64" "a mod 4 * 16 + b div 16 < 64" "b mod 16 * 4 + a div 64 < 64" "a mod 64 < 64"
    "a mod 4 * 16 < 64" "b mod 16 * 4 < 64"
proof -
  have "b div 16 < 16" "a div 64 < 4" "a mod 4 < 4" "b mod 16 < 16"
    using assms by (simp_all add: less_mult_imp_div_less)
  then show "a div 4 < 64" "a mod 4 * 16 + b div 16 < 64" "b mod 16 * 4 + a div 64 < 64" "a mod 64 < 64"
    "a mod 4 * 16 < 64" "b mod 16 * 4 < 64"
    using assms by (simp_all add: less_mult_imp_div_less)
qed

lemma sextet_join:
  fixes a b c :: nat
  assumes "b < 256" "c < 256"
  shows "a div 4 * 4 + (a mod 4 * 16 + b div 16) div 16 = a"
    "(a mod 4 * 16 + b div 16) mod 16 * 16 + (b mod 16 * 4 + c div 64) div 4 = b"
    "(b mod 16 * 4 + c div 64) mod 4 * 64 + c mod 64 = c"
proof -
  define p q where "p = b div 16" and "q = c div 64"
  have pq: "p < 16" "q < 4" using assms by (simp_all add: p_def q_def less_mult_imp_div_less)
  then have "(a mod 4 * 16 + p) div 16 = a mod 4" "(a mod 4 * 16 + p) mod 16 = p"
    "(b mod 16 * 4 + q) div 4 = b mod 16" "(b mod 16 * 4 + q) mod 4 = q" by simp_all
  moreover have "a div 4 * 4 + a mod 4 = a" "p * 16 + b mod 16 = b" "q * 64 + c mod 64 = c"
    by (simp_all only: p_def q_def div_mult_mod_eq)
  ultimately show "a div 4 * 4 + (a mod 4 * 16 + b div 16) div 16 = a"
    "(a mod 4 * 16 + b div 16) mod 16 * 16 + (b mod 16 * 4 + c div 64) div 4 = b"
    "(b mod 16 * 4 + c div 64) mod 4 * 64 + c mod 64 = c"
    unfolding p_def [symmetric] q_def [symmetric] by simp_all
qed

lemma sextets_of_lt: "s \<in> set (sextets_of bs) \<Longrightarrow> s < 64"
  by (induction bs rule: sextets_of.induct)
    (auto simp only: sextets_of.simps set_simps insert_iff empty_iff sextet_bounds [OF unat_byte_lt unat_byte_lt])

lemma byte_eqI: "n = unat b \<Longrightarrow> (word_of_nat n :: byte) = b"
  by simp

lemmas sextet_joins = sextet_join [OF unat_byte_lt unat_byte_lt, THEN byte_eqI]

lemma sextets_of_inverse: "sextets (sextets_of bs) = bs"
proof (induction bs rule: sextets_of.induct)
  case (1 a b c bs)
  then show ?case by (simp only: sextets_of.simps sextets.simps sextet_joins)
next
  case (2 a b)
  have "(word_of_nat ((unat a mod 4 * 16 + unat b div 16) mod 16 * 16 + unat b mod 16 * 4 div 4) :: byte) = b"
    using sextet_join(2) [of "unat b" 0 "unat a"] by (simp add: byte_eqI)
  then show ?case by (simp only: sextets_of.simps sextets.simps sextet_joins(1))
next
  case (3 a)
  have "(word_of_nat (unat a div 4 * 4 + unat a mod 4 * 16 div 16) :: byte) = a" by simp
  then show ?case by (simp only: sextets_of.simps sextets.simps)
qed simp

lemma decode_chars:
  assumes "\<forall>n \<in> set ns. n < 64"
  shows "base64_decode (map (base64_char url) ns @ replicate k (CHR ''='')) = sextets ns"
proof -
  have "takeWhile (\<lambda>c. c \<noteq> CHR ''='') (map (base64_char url) ns @ replicate k (CHR ''='')) =
      map (base64_char url) ns"
    using assms base64_char_pad by (induction ns) (auto simp: takeWhile_eq_Nil_iff)
  moreover have "List.map_filter base64_val (map (base64_char url) ns) = ns"
    using assms base64_val_char by (induction ns) (auto simp: map_filter_simps)
  ultimately show ?thesis by (simp add: base64_decode_def)
qed

lemma base64_roundtrip [simp]: "base64_decode (base64_encode bs) = bs"
  using decode_chars [of "sextets_of bs"] sextets_of_lt [of _ bs]
  by (simp add: base64_encode_def sextets_of_inverse)

lemma base64url_roundtrip [simp]: "base64_decode (base64url_encode bs) = bs"
  using decode_chars [of "sextets_of bs" True 0] sextets_of_lt [of _ bs]
  by (simp add: base64url_encode_def sextets_of_inverse)

end
