(* ===== verification/Admin_Auth.thy ===== *)
theory Admin_Auth
  imports Utf8 Base64
begin

section \<open>Admin authentication\<close>

text \<open>
  \<open>qv-server/auth.mjs\<close>: the configuration, the bearer token of a request and the check. SHA-256 of
  \<open>node:crypto\<close> is the argument \<open>h\<close>; \<open>timingSafeEqual\<close> is equality (its timing is not
  modelled). Header values are Latin-1 text.
\<close>

datatype admin_config = AnonMode | HashedMode bytes | StaticMode bytes

datatype admin_error = AnonConflict | TokenConflict | HashLength nat | TokenTooShort | NoAdminAuth

definition decode_hash_candidate :: "string \<Rightarrow> bytes" where
  "decode_hash_candidate s =
     (if length s = 64 \<and> list_all is_hex s then from_hex s else base64_decode s)"

definition env_text :: "(string \<Rightarrow> string option) \<Rightarrow> string \<Rightarrow> string" where
  "env_text env name = (case env name of None \<Rightarrow> [] | Some s \<Rightarrow> s)"

definition load_admin_config :: "(string \<Rightarrow> string option) \<Rightarrow> admin_error + admin_config" where
  "load_admin_config env =
     (let anon = (env ''QV_ALLOW_ANON'' = Some ''true'');
          rawToken = env_text env ''QV_ADMIN_TOKEN'';
          rawHashHex = env_text env ''QV_ADMIN_TOKEN_SHA256'' in
      if anon then
        (if rawToken \<noteq> [] \<or> rawHashHex \<noteq> [] then Inl AnonConflict else Inr AnonMode)
      else if rawToken \<noteq> [] \<and> rawHashHex \<noteq> [] then Inl TokenConflict
      else if rawHashHex \<noteq> [] then
        (let tokenHash = decode_hash_candidate rawHashHex in
         if length tokenHash \<noteq> 32 then Inl (HashLength (length tokenHash)) else Inr (HashedMode tokenHash))
      else if rawToken \<noteq> [] then
        (if length rawToken < 16 then Inl TokenTooShort
         else Inr (StaticMode (utf8_encode (js rawToken))))
      else Inl NoAdminAuth)"

text \<open>\<open>/^\s*Bearer\s+(\S+)\s*$/i\<close>.\<close>

definition bearer_match :: "string \<Rightarrow> string option" where
  "bearer_match h =
     (let s = dropWhile is_ws h; r = drop 6 s; body = dropWhile is_ws r;
          tok = takeWhile (\<lambda>c. \<not> is_ws c) body; rest = dropWhile (\<lambda>c. \<not> is_ws c) body in
      if to_lower (take 6 s) = ''bearer'' \<and> r \<noteq> [] \<and> is_ws (hd r) \<and> tok \<noteq> [] \<and> list_all is_ws rest
      then Some tok else None)"

definition extract_bearer :: "(string \<Rightarrow> string option) \<Rightarrow> string option" where
  "extract_bearer headers =
     (let h = (case headers ''authorization'' of
                 Some s \<Rightarrow> if s \<noteq> [] then Some s else headers ''Authorization''
               | None \<Rightarrow> headers ''Authorization'') in
      case h of None \<Rightarrow> None | Some s \<Rightarrow> if s = [] then None else bearer_match s)"

definition safe_equal :: "bytes \<Rightarrow> bytes \<Rightarrow> bool" where
  "safe_equal a b = (if length a \<noteq> length b then False else a = b)"

record auth_verdict =
  ok :: bool
  auth_reason :: string

definition check_admin ::
  "(bytes \<Rightarrow> bytes) \<Rightarrow> (string \<Rightarrow> string option) \<Rightarrow> admin_config option \<Rightarrow> auth_verdict" where
  "check_admin h headers config =
     (case config of
        None \<Rightarrow> \<lparr>ok = False, auth_reason = ''misconfigured''\<rparr>
      | Some AnonMode \<Rightarrow> \<lparr>ok = True, auth_reason = ''anon''\<rparr>
      | Some cfg \<Rightarrow>
          (case extract_bearer headers of
             None \<Rightarrow> \<lparr>ok = False, auth_reason = ''no_token''\<rparr>
           | Some presented \<Rightarrow>
               let presentedHash = h (utf8_encode (js presented));
                   target = (case cfg of HashedMode t \<Rightarrow> t | StaticMode t \<Rightarrow> h t | AnonMode \<Rightarrow> []) in
               if safe_equal presentedHash target then \<lparr>ok = True, auth_reason = ''ok''\<rparr>
               else \<lparr>ok = False, auth_reason = ''bad_token''\<rparr>))"

subsection \<open>The bearer token\<close>

lemma takeWhile_not_ws: "\<forall>c \<in> set t. \<not> is_ws c \<Longrightarrow> list_all is_ws w \<Longrightarrow>
    takeWhile (\<lambda>c. \<not> is_ws c) (t @ w) = t \<and> dropWhile (\<lambda>c. \<not> is_ws c) (t @ w) = w"
  by (induction t) (auto, (cases w, auto)+)

lemma dropWhile_ws: "list_all is_ws w \<Longrightarrow> t \<noteq> [] \<Longrightarrow> \<not> is_ws (hd t) \<Longrightarrow> dropWhile is_ws (w @ t) = t"
  by (induction w) (auto simp: neq_Nil_conv)

lemma to_lower_bearer_ws: "to_lower b = ''bearer'' \<Longrightarrow> b \<noteq> [] \<and> \<not> is_ws (hd b)"
proof -
  assume l: "to_lower b = ''bearer''"
  then obtain c cs where b: "b = c # cs" by (cases b) (auto simp: to_lower_def)
  then have "lower_char c = CHR ''b''" using l by (simp add: to_lower_def)
  then have "\<not> is_ws c"
    by (auto simp: lower_char_def is_ws_def Let_def code_def split: if_splits)
  then show ?thesis using b by simp
qed

lemma bearer_match_iff:
  "bearer_match s = Some t \<longleftrightarrow>
    (\<exists>w1 b w2 w3. s = w1 @ b @ w2 @ t @ w3 \<and> list_all is_ws w1 \<and> to_lower b = ''bearer'' \<and>
      w2 \<noteq> [] \<and> list_all is_ws w2 \<and> t \<noteq> [] \<and> (\<forall>c \<in> set t. \<not> is_ws c) \<and> list_all is_ws w3)"
proof
  assume m: "bearer_match s = Some t"
  define s1 where "s1 = dropWhile is_ws s"
  define r where "r = drop 6 s1"
  define body where "body = dropWhile is_ws r"
  from m have c: "to_lower (take 6 s1) = ''bearer''" "r \<noteq> []" "is_ws (hd r)"
    "t = takeWhile (\<lambda>c. \<not> is_ws c) body" "t \<noteq> []" "list_all is_ws (dropWhile (\<lambda>c. \<not> is_ws c) body)"
    by (auto simp: bearer_match_def Let_def s1_def r_def body_def split: if_splits)
  have "s = takeWhile is_ws s @ take 6 s1 @ takeWhile is_ws r @ t @ dropWhile (\<lambda>c. \<not> is_ws c) body"
    by (simp add: c(4) s1_def r_def body_def)
  moreover have "list_all is_ws (takeWhile is_ws x)" for x by (auto simp: list_all_iff dest: set_takeWhileD)
  moreover have "takeWhile is_ws r \<noteq> []" using c(2,3) by (cases r) auto
  moreover have "\<forall>x \<in> set t. \<not> is_ws x" by (auto simp: c(4) dest: set_takeWhileD)
  ultimately show "\<exists>w1 b w2 w3. s = w1 @ b @ w2 @ t @ w3 \<and> list_all is_ws w1 \<and> to_lower b = ''bearer'' \<and>
      w2 \<noteq> [] \<and> list_all is_ws w2 \<and> t \<noteq> [] \<and> (\<forall>c \<in> set t. \<not> is_ws c) \<and> list_all is_ws w3"
    using c(1,5,6) by blast
next
  assume "\<exists>w1 b w2 w3. s = w1 @ b @ w2 @ t @ w3 \<and> list_all is_ws w1 \<and> to_lower b = ''bearer'' \<and>
      w2 \<noteq> [] \<and> list_all is_ws w2 \<and> t \<noteq> [] \<and> (\<forall>c \<in> set t. \<not> is_ws c) \<and> list_all is_ws w3"
  then obtain w1 b w2 w3 where d: "s = w1 @ b @ w2 @ t @ w3" "list_all is_ws w1" "to_lower b = ''bearer''"
    "w2 \<noteq> []" "list_all is_ws w2" "t \<noteq> []" "\<forall>c \<in> set t. \<not> is_ws c" "list_all is_ws w3" by blast
  have b: "b \<noteq> []" "\<not> is_ws (hd b)" using to_lower_bearer_ws [OF d(3)] by auto
  have "length b = length (to_lower b)" by (simp add: to_lower_def)
  then have len: "length b = 6" using d(3) by simp
  have s1: "dropWhile is_ws s = b @ w2 @ t @ w3" using d(1,2) b by (simp add: dropWhile_ws)
  have body: "dropWhile is_ws (w2 @ t @ w3) = t @ w3" using d(5,6,7) by (simp add: dropWhile_ws)
  have "is_ws (hd (w2 @ t @ w3))" using d(4,5) by (cases w2) auto
  then show "bearer_match s = Some t"
    using d(3,4,6,8) len s1 body takeWhile_not_ws [OF d(7,8)] by (simp add: bearer_match_def Let_def)
qed

lemma is_hex_digit: "n < 16 \<Longrightarrow> is_hex (hex_digit n)"
  by (simp add: is_hex_def)

lemma to_hex_all: "list_all is_hex (to_hex bs)"
proof (induction bs)
  case (Cons b bs)
  have "unat b div 16 < 16" using unat_byte_lt [of b] by (simp add: less_mult_imp_div_less)
  with Cons show ?case by (simp add: is_hex_digit)
qed simp

lemma decode_hash_hex [simp]: "length d = 32 \<Longrightarrow> decode_hash_candidate (to_hex d) = d"
  by (simp add: decode_hash_candidate_def to_hex_all)

lemma bearer_plain:
  assumes "t \<noteq> []" "\<forall>c \<in> set t. \<not> is_ws c"
  shows "bearer_match (''Bearer '' @ t) = Some t"
proof -
  have l: "to_lower ''Bearer'' = ''bearer''" "is_ws (CHR '' '')" by code_simp+
  show ?thesis
    unfolding bearer_match_iff
    by (rule exI [of _ "[]"], rule exI [of _ "''Bearer''"], rule exI [of _ "'' ''"], rule exI [of _ "[]"])
      (use assms l in simp)
qed

lemma check_admin_iff:
  "ok (check_admin h headers config) \<longleftrightarrow> config = Some AnonMode \<or>
    (\<exists>t. extract_bearer headers = Some t \<and>
      (config = Some (HashedMode (h (utf8_encode (js t)))) \<or>
       (\<exists>s. config = Some (StaticMode s) \<and> h (utf8_encode (js t)) = h s)))"
  by (auto simp: check_admin_def safe_equal_def Let_def split: option.splits admin_config.splits)

subsection \<open>Properties\<close>

text \<open>\<open>checkAdmin\<close> lets a request pass exactly in anonymous mode, or when it carries a bearer token
  whose hash is the configured hash, or the hash of the configured token.\<close>

theorem check_admin_decides:
  "ok (check_admin h headers config) \<longleftrightarrow>
    config = Some AnonMode \<or>
    (\<exists>t. extract_bearer headers = Some t \<and>
      (config = Some (HashedMode (h (utf8_encode (js t)))) \<or>
       (\<exists>s. config = Some (StaticMode s) \<and> h (utf8_encode (js t)) = h s)))"
  by (rule check_admin_iff)

text \<open>The server never starts open by accident: a configuration is anonymous only if
  QV_ALLOW_ANON is the text "true" and no token is set, otherwise it holds a token of at least
  16 characters or a hash of 32 bytes; with nothing set there is no configuration.\<close>

theorem admin_config_safe:
  assumes "load_admin_config env = Inr cfg"
  shows "(case cfg of
      AnonMode \<Rightarrow> env ''QV_ALLOW_ANON'' = Some ''true'' \<and> env_text env ''QV_ADMIN_TOKEN'' = [] \<and>
        env_text env ''QV_ADMIN_TOKEN_SHA256'' = []
    | HashedMode d \<Rightarrow> length d = 32
    | StaticMode s \<Rightarrow> \<exists>t. env ''QV_ADMIN_TOKEN'' = Some t \<and> 16 \<le> length t \<and> s = utf8_encode (js t))"
proof -
  have e: "env_text env n \<noteq> [] \<Longrightarrow> env n = Some (env_text env n)" for n
    by (auto simp: env_text_def split: option.splits)
  show ?thesis
    using assms e [of "''QV_ADMIN_TOKEN''"]
    by (auto simp: load_admin_config_def Let_def not_less split: if_splits)
qed

lemma admin_config_safe_witness:
  "\<exists>cfg. load_admin_config [''QV_ADMIN_TOKEN'' \<mapsto> ''0123456789abcdef''] = Inr cfg \<and>
    (case cfg of StaticMode s \<Rightarrow> s = utf8_encode (js ''0123456789abcdef'') | _ \<Rightarrow> False)"
proof -
  have l: "load_admin_config [''QV_ADMIN_TOKEN'' \<mapsto> ''0123456789abcdef''] =
      Inr (StaticMode (utf8_encode (js ''0123456789abcdef'')))"
    by (simp add: load_admin_config_def env_text_def)
  show ?thesis using admin_config_safe [OF l] l by simp
qed

text \<open>The token an operator configures works, in both modes: a request with the header
  \<open>Authorization: Bearer <token>\<close> passes when the token is set in plain, and when its hash is set in
  hexadecimal.\<close>

theorem configured_token_passes:
  assumes "16 \<le> length t" "\<forall>c \<in> set t. \<not> is_ws c" "\<And>x. length (h x) = 32"
    and "env ''QV_ALLOW_ANON'' = None" "headers ''authorization'' = Some (''Bearer '' @ t)"
    and "env ''QV_ADMIN_TOKEN'' = Some t \<and> env ''QV_ADMIN_TOKEN_SHA256'' = None \<or>
         env ''QV_ADMIN_TOKEN'' = None \<and> env ''QV_ADMIN_TOKEN_SHA256'' = Some (to_hex (h (utf8_encode (js t))))"
  shows "\<exists>cfg. load_admin_config env = Inr cfg \<and> ok (check_admin h headers (Some cfg))"
proof -
  have t: "t \<noteq> []" using assms(1) by auto
  have b: "extract_bearer headers = Some t"
    using bearer_plain [OF t assms(2)] assms(5) by (simp add: extract_bearer_def)
  have ne: "to_hex (h x) \<noteq> []" for x
  proof
    assume "to_hex (h x) = []"
    then have "length (to_hex (h x)) = 0" by (simp only: list.size)
    then show False using assms(3) [of x] by (simp only: length_to_hex)
  qed
  from assms(6) show ?thesis
  proof
    assume e: "env ''QV_ADMIN_TOKEN'' = Some t \<and> env ''QV_ADMIN_TOKEN_SHA256'' = None"
    have "load_admin_config env = Inr (StaticMode (utf8_encode (js t)))"
      using e t assms(1,4) by (simp add: load_admin_config_def env_text_def)
    moreover have "ok (check_admin h headers (Some (StaticMode (utf8_encode (js t)))))"
      by (simp add: check_admin_iff b)
    ultimately show ?thesis by blast
  next
    define d where "d = h (utf8_encode (js t))"
    assume "env ''QV_ADMIN_TOKEN'' = None \<and> env ''QV_ADMIN_TOKEN_SHA256'' = Some (to_hex (h (utf8_encode (js t))))"
    then have e: "env ''QV_ADMIN_TOKEN'' = None" "env ''QV_ADMIN_TOKEN_SHA256'' = Some (to_hex d)"
      by (simp_all add: d_def)
    have d: "length d = 32" "to_hex d \<noteq> []" using assms(3) ne by (simp_all add: d_def)
    have "load_admin_config env = Inr (HashedMode d)"
      using e d assms(4) by (simp add: load_admin_config_def env_text_def)
    moreover have "ok (check_admin h headers (Some (HashedMode d)))"
      using b by (simp add: check_admin_iff d_def)
    ultimately show ?thesis by blast
  qed
qed

lemma configured_token_passes_witness:
  "\<exists>cfg. load_admin_config [''QV_ADMIN_TOKEN'' \<mapsto> ''0123456789abcdef''] = Inr cfg \<and>
    ok (check_admin (\<lambda>x. replicate 32 0) [''authorization'' \<mapsto> ''Bearer 0123456789abcdef''] (Some cfg))"
proof -
  have w: "\<forall>c \<in> set ''0123456789abcdef''. \<not> is_ws c" by code_simp
  have "length (replicate 32 (0 :: byte)) = 32" by (rule length_replicate)
  then show ?thesis by (intro configured_token_passes [OF _ w] disjI1) simp_all
qed

subsection \<open>A minted token\<close>

text \<open>\<open>mintAdminToken\<close>, from its 32 random bytes: the token and the text to configure.\<close>

definition mint_admin_token :: "(bytes \<Rightarrow> bytes) \<Rightarrow> bytes \<Rightarrow> string \<times> string" where
  "mint_admin_token h rand =
     (let raw = base64url_encode rand in (raw, to_hex (h (utf8_encode (js raw)))))"

lemma base64_val_not_ws: "base64_val c \<noteq> None \<Longrightarrow> \<not> is_ws c"
  by (auto simp: base64_val_def is_ws_def Let_def code_def split: if_splits)

lemma base64url_not_ws: "\<forall>c \<in> set (base64url_encode bs). \<not> is_ws c"
  by (auto simp: base64url_encode_def dest!: sextets_of_lt intro!: base64_val_not_ws simp: base64_val_char)

lemma base64url_nonempty: "bs \<noteq> [] \<Longrightarrow> base64url_encode bs \<noteq> []"
  by (cases bs rule: sextets_of.cases) (simp_all add: base64url_encode_def)

lemma load_minted:
  assumes "\<And>x. length (h x) = 32" "env ''QV_ALLOW_ANON'' \<noteq> Some ''true''" "env ''QV_ADMIN_TOKEN'' = None"
    and "env ''QV_ADMIN_TOKEN_SHA256'' = Some (snd (mint_admin_token h rand))"
  shows "load_admin_config env = Inr (HashedMode (h (utf8_encode (js (fst (mint_admin_token h rand))))))"
proof -
  have "to_hex (h x) \<noteq> []" for x using assms(1) [of x] by (cases "h x") auto
  then show ?thesis using assms by (simp add: load_admin_config_def env_text_def mint_admin_token_def Let_def)
qed

text \<open>C31: A minted pair works: a server configured with the digest starts in hashed mode and admits a request whose
  bearer token is the minted token, whatever the case of the scheme and the blanks around, and any request
  it admits carries a token of the same digest.\<close>

theorem minted_token_admits:
  assumes "\<And>x. length (h x) = 32" "rand \<noteq> []" "mint_admin_token h rand = (token, sha256)"
    and "env ''QV_ALLOW_ANON'' \<noteq> Some ''true''" "env ''QV_ADMIN_TOKEN'' = None" "env ''QV_ADMIN_TOKEN_SHA256'' = Some sha256"
  shows "\<exists>cfg. load_admin_config env = Inr cfg \<and>
    (\<forall>w1 b w2 w3 headers. list_all is_ws w1 \<and> to_lower b = ''bearer'' \<and> w2 \<noteq> [] \<and> list_all is_ws w2 \<and> list_all is_ws w3 \<and>
       headers ''authorization'' = Some (w1 @ b @ w2 @ token @ w3) \<longrightarrow> ok (check_admin h headers (Some cfg))) \<and>
    (\<forall>headers. ok (check_admin h headers (Some cfg)) \<longrightarrow>
       (\<exists>t. extract_bearer headers = Some t \<and> h (utf8_encode (js t)) = h (utf8_encode (js token))))"
proof -
  have t: "token = base64url_encode rand" "token = fst (mint_admin_token h rand)" "sha256 = snd (mint_admin_token h rand)"
    using assms(3) by (auto simp: mint_admin_token_def Let_def)
  have "load_admin_config env = Inr (HashedMode (h (utf8_encode (js token))))"
    using load_minted [OF assms(1,4,5)] assms(6) t(2,3) by simp
  moreover have "extract_bearer headers = Some token" if "list_all is_ws w1" "to_lower b = ''bearer''" "w2 \<noteq> []" "list_all is_ws w2"
    "list_all is_ws w3" "headers ''authorization'' = Some (w1 @ b @ w2 @ token @ w3)" for w1 b w2 w3 headers
  proof -
    have "bearer_match (w1 @ b @ w2 @ token @ w3) = Some token"
      unfolding bearer_match_iff using that(1-5) base64url_not_ws base64url_nonempty [OF assms(2)] t(1) by blast
    then show ?thesis using that(3,6) by (simp add: extract_bearer_def)
  qed
  ultimately show ?thesis by (intro exI [of _ "HashedMode (h (utf8_encode (js token)))"]) (simp add: check_admin_iff, metis)
qed

lemma minted_token_admits_witness:
  "let (token, sha256) = mint_admin_token (\<lambda>_. replicate 32 7) [1, 2, 3] in
   \<exists>cfg. load_admin_config [''QV_ADMIN_TOKEN_SHA256'' \<mapsto> sha256] = Inr cfg \<and>
     ok (check_admin (\<lambda>_. replicate 32 7) [''authorization'' \<mapsto> ''bearer  '' @ token] (Some cfg))"
proof -
  obtain token sha256 where m: "mint_admin_token (\<lambda>_. replicate 32 7) [1, 2, 3] = (token, sha256)" by force
  let ?env = "[''QV_ADMIN_TOKEN_SHA256'' \<mapsto> sha256]" and ?hd = "[''authorization'' \<mapsto> ''bearer  '' @ token]"
  have l: "to_lower ''bearer'' = ''bearer''" "is_ws (CHR '' '')" by code_simp+
  have "?hd ''authorization'' = Some ([] @ ''bearer'' @ ''  '' @ token @ [])" by simp
  moreover have "list_all is_ws ''  ''" "list_all is_ws []" "''  '' \<noteq> []" using l(2) by simp_all
  moreover obtain cfg where cfg: "load_admin_config ?env = Inr cfg"
    "\<forall>w1 b w2 w3 headers. list_all is_ws w1 \<and> to_lower b = ''bearer'' \<and> w2 \<noteq> [] \<and> list_all is_ws w2 \<and> list_all is_ws w3 \<and>
       headers ''authorization'' = Some (w1 @ b @ w2 @ token @ w3) \<longrightarrow> ok (check_admin (\<lambda>_. replicate 32 7) headers (Some cfg))"
    using minted_token_admits [of "\<lambda>_. replicate 32 7" "[1, 2, 3]" token sha256 ?env, OF _ _ m] by auto
  ultimately have "ok (check_admin (\<lambda>_. replicate 32 7) ?hd (Some cfg))"
    using l(1) by (intro cfg(2) [rule_format, of "[]" "''bearer''" "''  ''" "[]"] conjI)
  then show ?thesis unfolding m Let_def prod.case using cfg(1) by (intro exI [of _ cfg] conjI)
qed

end
