(* ===== verification/Durable.thy ===== *)
theory Durable
  imports Prelude
begin

section \<open>Crash-safe file writes\<close>

text \<open>
  \<open>qv-server/durable.mjs\<close> over a file system that can crash. A directory names inodes; a name
  change reaches the disk at some time before the directory is synced, so a crash may leave any
  version of the directory since the last sync (\<open>versions\<close>, the current one among them); the data
  of an inode survives a crash when it was synced after its last write, otherwise the crash may leave
  anything. A call that throws stops after some of its steps, a crash does the same and loses the
  unsynced state. \<open>writeSync\<close> may store only a prefix of the data, and the code does not look at the
  count it returns; opening or syncing the directory may fail, and the code goes on as if it had not.
\<close>

record fs =
  dir :: "string \<Rightarrow> nat option"
  contents :: "nat \<Rightarrow> bytes"
  synced :: "nat \<Rightarrow> bool"
  versions :: "(string \<Rightarrow> nat option) list"
  next_inode :: nat

datatype fs_op =
    OpenW string            \<comment> \<open>\<open>openSync(p, 'w')\<close>: create or truncate\<close>
  | Write string bytes      \<comment> \<open>\<open>writeSync\<close> through the descriptor of a name, the bytes it stores\<close>
  | Fsync string
  | Rename string string
  | Unlink string
  | FsyncDir

definition set_dir :: "(string \<Rightarrow> nat option) \<Rightarrow> fs \<Rightarrow> fs" where
  "set_dir d s = s\<lparr>dir := d, versions := d # versions s\<rparr>"

fun fs_do :: "fs_op \<Rightarrow> fs \<Rightarrow> fs" where
  "fs_do (OpenW p) s =
     (case dir s p of
        Some i \<Rightarrow> s\<lparr>contents := (contents s)(i := []), synced := (synced s)(i := False)\<rparr>
      | None \<Rightarrow> let i = next_inode s in
          set_dir ((dir s)(p \<mapsto> i))
            (s\<lparr>contents := (contents s)(i := []), synced := (synced s)(i := False), next_inode := i + 1\<rparr>))"
| "fs_do (Write p bs) s =
     (case dir s p of
        Some i \<Rightarrow> s\<lparr>contents := (contents s)(i := contents s i @ bs), synced := (synced s)(i := False)\<rparr>
      | None \<Rightarrow> s)"
| "fs_do (Fsync p) s =
     (case dir s p of Some i \<Rightarrow> s\<lparr>synced := (synced s)(i := True)\<rparr> | None \<Rightarrow> s)"
| "fs_do (Rename p q) s =
     (case dir s p of Some i \<Rightarrow> set_dir ((dir s)(p := None, q \<mapsto> i)) s | None \<Rightarrow> s)"
| "fs_do (Unlink p) s =
     (case dir s p of Some i \<Rightarrow> set_dir ((dir s)(p := None)) s | None \<Rightarrow> s)"
| "fs_do FsyncDir s = s\<lparr>versions := [dir s]\<rparr>"

definition fs_run :: "fs_op list \<Rightarrow> fs \<Rightarrow> fs" where
  "fs_run ops s = fold fs_do ops s"

definition tmp_of :: "string \<Rightarrow> string" where
  "tmp_of path = path @ ''.tmp''"

text \<open>The steps of a call \<open>writeFileDurable(path, data)\<close> that returns, whose \<open>writeSync\<close> stored \<open>n\<close>
  bytes; the directory is synced unless the option says otherwise, the platform is win32, or opening
  or syncing it fails (\<open>dir_syncs\<close> is false), which is caught.\<close>

definition write_file_durable :: "string \<Rightarrow> bytes \<Rightarrow> nat \<Rightarrow> bool \<Rightarrow> bool \<Rightarrow> bool \<Rightarrow> fs_op list" where
  "write_file_durable path d n fsyncDir is_win dir_syncs =
     [OpenW (tmp_of path), Write (tmp_of path) (take n d), Fsync (tmp_of path), Rename (tmp_of path) path] @
     (if fsyncDir \<and> \<not> is_win \<and> dir_syncs then [FsyncDir] else [])"

definition cleanup_stale_tmp :: "string \<Rightarrow> fs \<Rightarrow> fs_op list" where
  "cleanup_stale_tmp path s = (if dir s (tmp_of path) \<noteq> None then [Unlink (tmp_of path)] else [])"

text \<open>What a reader sees, and what may be on the disk after a crash.\<close>

definition view :: "fs \<Rightarrow> string \<Rightarrow> bytes option" where
  "view s p = map_option (contents s) (dir s p)"

definition after_crash :: "fs \<Rightarrow> fs \<Rightarrow> bool" where
  "after_crash s t \<longleftrightarrow> dir t \<in> set (versions s) \<and> versions t = [dir t] \<and> next_inode t = next_inode s \<and>
     (\<forall>i. synced s i \<longrightarrow> contents t i = contents s i \<and> synced t i)"

text \<open>A state reached by whole durable writes: inodes are below the next one, every name but the
  temporary ones is synced in every version, and no file is named by two names.\<close>

definition fs_ok :: "fs \<Rightarrow> bool" where
  "fs_ok s \<longleftrightarrow> dir s \<in> set (versions s) \<and>
     (\<forall>d \<in> set (versions s). \<forall>p i. d p = Some i \<longrightarrow> i < next_inode s)"

text \<open>\<open>path\<close> is stable: after any crash now it has one of the given contents.\<close>

definition holds :: "fs \<Rightarrow> string \<Rightarrow> bytes option set \<Rightarrow> bool" where
  "holds s p cs \<longleftrightarrow> (\<forall>d \<in> set (versions s). case d p of
      None \<Rightarrow> None \<in> cs
    | Some i \<Rightarrow> synced s i \<and> Some (contents s i) \<in> cs \<and> dir s (tmp_of p) \<noteq> Some i)"

lemma holdsD:
  assumes "holds s p cs" "d \<in> set (versions s)"
  shows "d p = Some i \<Longrightarrow> synced s i \<and> Some (contents s i) \<in> cs \<and> dir s (tmp_of p) \<noteq> Some i"
    and "d p = None \<Longrightarrow> None \<in> cs"
  using assms unfolding holds_def by (auto dest!: bspec split: option.splits)

lemma holds_crash:
  assumes "holds s p cs" "after_crash s t"
  shows "view t p \<in> cs"
proof -
  have d: "dir t \<in> set (versions s)" using assms(2) by (simp add: after_crash_def)
  show ?thesis
  proof (cases "dir t p")
    case None
    then show ?thesis using holdsD(2) [OF assms(1) d] by (simp add: view_def)
  next
    case (Some i)
    then have "synced s i" "Some (contents s i) \<in> cs" using holdsD(1) [OF assms(1) d] by auto
    then show ?thesis using assms(2) Some by (simp add: view_def after_crash_def)
  qed
qed

lemma holds_view:
  assumes "fs_ok s" "holds s p cs"
  shows "view s p \<in> cs"
proof -
  have d: "dir s \<in> set (versions s)" using assms(1) by (simp add: fs_ok_def)
  show ?thesis
    using holdsD [OF assms(2) d] by (cases "dir s p") (simp_all add: view_def)
qed

lemma holdsI:
  assumes "\<And>d. d \<in> set (versions s) \<Longrightarrow> d p = None \<Longrightarrow> None \<in> cs"
    and "\<And>d i. d \<in> set (versions s) \<Longrightarrow> d p = Some i \<Longrightarrow>
      synced s i \<and> Some (contents s i) \<in> cs \<and> dir s (tmp_of p) \<noteq> Some i"
  shows "holds s p cs"
  using assms unfolding holds_def by (auto split: option.splits)

lemma holds_mono: "holds s p cs \<Longrightarrow> cs \<subseteq> cs' \<Longrightarrow> holds s p cs'"
  using holdsD by (intro holdsI) blast+

lemma tmp_ne [simp]: "tmp_of p \<noteq> p" "p \<noteq> tmp_of p"
  by (simp_all add: tmp_of_def)

subsection \<open>One step at a time\<close>

lemma step_ok: "fs_ok s \<Longrightarrow> fs_ok (fs_do x s)"
  by (cases x) (force simp: fs_ok_def set_dir_def Let_def split: option.splits if_splits)+

lemma open_holds:
  assumes "fs_ok s" "holds s p cs"
  shows "holds (fs_do (OpenW (tmp_of p)) s) p cs"
proof (cases "dir s (tmp_of p)")
  case (Some j)
  show ?thesis
  proof (rule holdsI)
    fix d i assume "d \<in> set (versions (fs_do (OpenW (tmp_of p)) s))" "d p = Some i"
    then have d: "d \<in> set (versions s)" "d p = Some i" using Some by simp_all
    then show "synced (fs_do (OpenW (tmp_of p)) s) i \<and> Some (contents (fs_do (OpenW (tmp_of p)) s) i) \<in> cs \<and>
        dir (fs_do (OpenW (tmp_of p)) s) (tmp_of p) \<noteq> Some i"
      using holdsD(1) [OF assms(2) d] Some by simp
  qed (use Some holdsD(2) [OF assms(2)] in simp)
next
  case None
  define n where "n = next_inode s"
  have old: "d \<in> set (versions s) \<Longrightarrow> d q = Some j \<Longrightarrow> j \<noteq> n" for d q j
    using assms(1) unfolding fs_ok_def n_def by blast
  have ds: "dir s \<in> set (versions s)" using assms(1) by (simp add: fs_ok_def)
  let ?t = "fs_do (OpenW (tmp_of p)) s"
  have t: "versions ?t = (dir s)(tmp_of p \<mapsto> n) # versions s" "dir ?t = (dir s)(tmp_of p \<mapsto> n)"
    "contents ?t = (contents s)(n := [])" "synced ?t = (synced s)(n := False)"
    using None by (simp_all add: set_dir_def Let_def n_def)
  show ?thesis
  proof (rule holdsI)
    fix d assume "d \<in> set (versions ?t)" "d p = None"
    then show "None \<in> cs"
      using holdsD(2) [OF assms(2)] ds t by auto
  next
    fix d i assume "d \<in> set (versions ?t)" "d p = Some i"
    then obtain e where e: "e \<in> set (versions s)" "e p = Some i" using ds t by auto
    then show "synced ?t i \<and> Some (contents ?t i) \<in> cs \<and> dir ?t (tmp_of p) \<noteq> Some i"
      using holdsD(1) [OF assms(2) e] old [OF e] t by simp
  qed
qed

lemma write_holds:
  assumes "holds s p cs"
  shows "holds (fs_do (Write (tmp_of p) bs) s) p cs"
proof (cases "dir s (tmp_of p)")
  case (Some j)
  show ?thesis
  proof (rule holdsI)
    fix d i assume "d \<in> set (versions (fs_do (Write (tmp_of p) bs) s))" "d p = Some i"
    then have d: "d \<in> set (versions s)" "d p = Some i" using Some by simp_all
    then show "synced (fs_do (Write (tmp_of p) bs) s) i \<and>
        Some (contents (fs_do (Write (tmp_of p) bs) s) i) \<in> cs \<and>
        dir (fs_do (Write (tmp_of p) bs) s) (tmp_of p) \<noteq> Some i"
      using holdsD(1) [OF assms d] Some by simp
  qed (use Some holdsD(2) [OF assms] in simp)
qed (use assms in simp)

lemma fsync_holds:
  assumes "holds s p cs"
  shows "holds (fs_do (Fsync (tmp_of p)) s) p cs"
proof (cases "dir s (tmp_of p)")
  case (Some j)
  show ?thesis
    by (rule holdsI) (use Some holdsD [OF assms] in auto)
qed (use assms in simp)

lemma rename_holds:
  assumes "holds s p cs" "dir s (tmp_of p) = Some j" "synced s j"
  shows "holds (fs_do (Rename (tmp_of p) p) s) p (insert (Some (contents s j)) cs)"
proof (rule holdsI)
  let ?t = "fs_do (Rename (tmp_of p) p) s"
  have t: "versions ?t = (dir s)(tmp_of p := None, p \<mapsto> j) # versions s" "dir ?t = (dir s)(tmp_of p := None, p \<mapsto> j)"
    "contents ?t = contents s" "synced ?t = synced s"
    using assms(2) by (simp_all add: set_dir_def)
  fix d
  show "d \<in> set (versions ?t) \<Longrightarrow> d p = None \<Longrightarrow> None \<in> insert (Some (contents s j)) cs"
    using holdsD(2) [OF assms(1)] t by auto
  show "synced ?t i \<and> Some (contents ?t i) \<in> insert (Some (contents s j)) cs \<and> dir ?t (tmp_of p) \<noteq> Some i"
    if "d \<in> set (versions ?t)" "d p = Some i" for i
    using that holdsD(1) [OF assms(1)] t assms(3) by auto
qed

lemma sync_dir_holds:
  assumes "fs_ok s" "holds s p cs"
  shows "holds (fs_do FsyncDir s) p {view s p}"
proof -
  have d: "dir s \<in> set (versions s)" using assms(1) by (simp add: fs_ok_def)
  show ?thesis
    by (rule holdsI) (use holdsD [OF assms(2) d] in \<open>auto simp: view_def\<close>)
qed

subsection \<open>The whole write\<close>

lemma fs_run_simps [simp]: "fs_run [] s = s" "fs_run (x # xs) s = fs_run xs (fs_do x s)"
  by (simp_all add: fs_run_def)

lemma open_tmp: "\<exists>j. dir (fs_do (OpenW q) s) q = Some j \<and> contents (fs_do (OpenW q) s) j = []"
  by (cases "dir s q") (simp_all add: set_dir_def Let_def)

lemma durable_prefix:
  assumes "fs_ok s" "holds s p cs"
  shows "holds (fs_run (take k (write_file_durable p d n fd win ok)) s) p (insert (Some (take n d)) cs) \<and>
    fs_ok (fs_run (take k (write_file_durable p d n fd win ok)) s)"
    and "view (fs_run (write_file_durable p d n fd win ok) s) p = Some (take n d)"
    and "fd \<Longrightarrow> \<not> win \<Longrightarrow> ok \<Longrightarrow> holds (fs_run (write_file_durable p d n fd win ok) s) p {Some (take n d)}"
proof -
  let ?q = "tmp_of p"
  let ?cs = "insert (Some (take n d)) cs"
  define s1 where "s1 = fs_do (OpenW ?q) s"
  define s2 where "s2 = fs_do (Write ?q (take n d)) s1"
  define s3 where "s3 = fs_do (Fsync ?q) s2"
  define s4 where "s4 = fs_do (Rename ?q p) s3"
  define s5 where "s5 = fs_do FsyncDir s4"
  obtain j where j: "dir s1 ?q = Some j" "contents s1 j = []" using open_tmp s1_def by metis
  have j2: "dir s2 ?q = Some j" "contents s2 j = take n d" using j by (simp_all add: s2_def)
  have j3: "dir s3 ?q = Some j" "contents s3 j = take n d" "synced s3 j" using j2 by (simp_all add: s3_def)
  have v4: "view s4 p = Some (take n d)" using j3 by (simp add: s4_def set_dir_def view_def)
  have oks: "fs_ok s1" "fs_ok s2" "fs_ok s3" "fs_ok s4" "fs_ok s5"
    unfolding s5_def s4_def s3_def s2_def s1_def by (intro step_ok assms(1))+
  have h1: "holds s1 p cs" unfolding s1_def by (rule open_holds [OF assms])
  have h2: "holds s2 p cs" unfolding s2_def by (rule write_holds [OF h1])
  have h3: "holds s3 p cs" unfolding s3_def by (rule fsync_holds [OF h2])
  have h4: "holds s4 p ?cs"
    using rename_holds [OF h3 j3(1,3)] j3(2) unfolding s4_def by simp
  have h5: "holds s5 p {Some (take n d)}" using sync_dir_holds [OF oks(4) h4] v4 unfolding s5_def by simp
  have v5: "view s5 p = Some (take n d)" using v4 by (simp add: s5_def view_def)
  have mono: "holds t p cs \<Longrightarrow> holds t p ?cs" for t by (rule holds_mono) auto
  have h5': "holds s5 p ?cs" using h5 by (rule holds_mono) auto
  have runs: "fs_run (write_file_durable p d n fd win ok) s = (if fd \<and> \<not> win \<and> ok then s5 else s4)"
    by (simp add: write_file_durable_def s1_def s2_def s3_def s4_def s5_def del: fs_do.simps)
  show "view (fs_run (write_file_durable p d n fd win ok) s) p = Some (take n d)" using runs v4 v5 by simp
  show "fd \<Longrightarrow> \<not> win \<Longrightarrow> ok \<Longrightarrow> holds (fs_run (write_file_durable p d n fd win ok) s) p {Some (take n d)}"
    using runs h5 by simp
  have pre: "fs_run (take m [OpenW ?q, Write ?q (take n d), Fsync ?q, Rename ?q p, FsyncDir]) s \<in> {s, s1, s2, s3, s4, s5}" for m
  proof -
    consider "m = 0" | "m = 1" | "m = 2" | "m = 3" | "m = 4" | "5 \<le> m" by linarith
    then show ?thesis
      by cases (simp_all add: s1_def s2_def s3_def s4_def s5_def del: fs_do.simps)
  qed
  have "write_file_durable p d n fd win ok =
      take (if fd \<and> \<not> win \<and> ok then 5 else 4) [OpenW ?q, Write ?q (take n d), Fsync ?q, Rename ?q p, FsyncDir]"
    by (simp add: write_file_durable_def)
  then have "fs_run (take k (write_file_durable p d n fd win ok)) s \<in> {s, s1, s2, s3, s4, s5}"
    using pre [of "min k (if fd \<and> \<not> win \<and> ok then 5 else 4)"] by (simp only: take_take)
  then show "holds (fs_run (take k (write_file_durable p d n fd win ok)) s) p ?cs \<and>
      fs_ok (fs_run (take k (write_file_durable p d n fd win ok)) s)"
    using assms oks h4 h5' mono [OF assms(2)] mono [OF h1] mono [OF h2] mono [OF h3] by auto
qed

text \<open>Without the sync of the directory, the name may still be the old file after a crash.\<close>

lemma unsynced_write_may_be_lost:
  assumes "fs_ok s" "holds s p cs" "\<not> (fd \<and> \<not> win \<and> ok)"
  shows "\<exists>t. after_crash (fs_run (write_file_durable p d n fd win ok) s) t \<and> view t p = view s p"
proof -
  let ?q = "tmp_of p"
  define r where "r = fs_run (write_file_durable p d n fd win ok) s"
  define j where "j = (case dir s ?q of Some i \<Rightarrow> i | None \<Rightarrow> next_inode s)"
  define s1 where "s1 = fs_do (OpenW ?q) s"
  have s1: "set (versions s) \<subseteq> set (versions s1)" "dir s1 ?q = Some j" "\<forall>i. i \<noteq> j \<longrightarrow> contents s1 i = contents s i"
    by (auto simp: s1_def j_def set_dir_def Let_def split: option.split)
  have "write_file_durable p d n fd win ok = [OpenW ?q, Write ?q (take n d), Fsync ?q, Rename ?q p]"
    using assms(3) by (simp add: write_file_durable_def)
  then have "r = fs_do (Rename ?q p) (fs_do (Fsync ?q) (fs_do (Write ?q (take n d)) s1))"
    by (simp add: r_def s1_def del: fs_do.simps)
  then have v: "set (versions s1) \<subseteq> set (versions r)" and c: "\<forall>i. i \<noteq> j \<longrightarrow> contents r i = contents s1 i"
    using s1(2) by (simp_all add: set_dir_def subset_insertI)
  have run: "set (versions s) \<subseteq> set (versions r)" "\<forall>i. i \<noteq> j \<longrightarrow> contents r i = contents s i"
    using order_trans [OF s1(1) v] c s1(3) by simp_all
  let ?t = "r\<lparr>dir := dir s, versions := [dir s]\<rparr>"
  have d: "dir s \<in> set (versions s)" using assms(1) by (simp add: fs_ok_def)
  have "after_crash r ?t" using run(1) d by (simp add: after_crash_def subset_iff)
  moreover have "dir s p = Some i \<Longrightarrow> i \<noteq> j" for i
  proof (cases "dir s ?q")
    case None
    assume "dir s p = Some i"
    then have "i < next_inode s" using assms(1) d unfolding fs_ok_def by blast
    then show ?thesis using None by (simp add: j_def)
  next
    case (Some k)
    assume "dir s p = Some i"
    then show ?thesis using holdsD(1) [OF assms(2) d] Some by (auto simp: j_def)
  qed
  then have "view ?t p = view s p" using run by (cases "dir s p") (simp_all add: view_def)
  ultimately show ?thesis unfolding r_def by blast
qed

subsection \<open>Properties\<close>

text \<open>C16: \<open>writeFileDurable\<close> is atomic: if the target surely had one of the contents \<open>cs\<close>, then
  wherever the call is cut short, by a crash or an error, a reader afterwards finds one of them or
  exactly the bytes that \<open>writeSync\<close> stored, never a mixture. Once it returns, a reader finds the stored
  bytes, which are the data when none were left out. If the directory was synced, so does every later
  crash; if it was not, because of the option, the platform or a failure that is caught, the call
  returns all the same and some crash still brings the old file back.\<close>

theorem durable_write_atomic:
  assumes "fs_ok s" "holds s p cs" "ops = write_file_durable p d n fd win dir_syncs"
  shows "(\<forall>k t. after_crash (fs_run (take k ops) s) t \<longrightarrow> view t p \<in> insert (Some (take n d)) cs) \<and>
    (\<forall>k. view (fs_run (take k ops) s) p \<in> insert (Some (take n d)) cs) \<and>
    view (fs_run ops s) p = Some (take n d) \<and>
    (length d \<le> n \<longrightarrow> view (fs_run ops s) p = Some d) \<and>
    (if fd \<and> \<not> win \<and> dir_syncs
     then \<forall>t. after_crash (fs_run ops s) t \<longrightarrow> view t p = Some (take n d)
     else \<exists>t. after_crash (fs_run ops s) t \<and> view t p = view s p)"
proof -
  have cut: "holds (fs_run (take k ops) s) p (insert (Some (take n d)) cs)" "fs_ok (fs_run (take k ops) s)" for k
    unfolding assms(3) using durable_prefix(1) [OF assms(1,2)] by blast+
  have ret: "view (fs_run ops s) p = Some (take n d)"
    unfolding assms(3) by (rule durable_prefix(2) [OF assms(1,2)])
  have "\<forall>t. after_crash (fs_run ops s) t \<longrightarrow> view t p = Some (take n d)" if "fd \<and> \<not> win \<and> dir_syncs"
    using that holds_crash [OF durable_prefix(3) [OF assms(1,2)]] unfolding assms(3) by blast
  moreover have "\<exists>t. after_crash (fs_run ops s) t \<and> view t p = view s p" if "\<not> (fd \<and> \<not> win \<and> dir_syncs)"
    unfolding assms(3) by (rule unsynced_write_may_be_lost [OF assms(1,2) that])
  ultimately show ?thesis using holds_crash [OF cut(1)] holds_view [OF cut(2,1)] ret by simp
qed

definition sample_fs :: fs where
  "sample_fs = \<lparr>dir = [''k'' \<mapsto> 0], contents = (\<lambda>_. [1, 2]), synced = (\<lambda>i. i = 0),
     versions = [[''k'' \<mapsto> 0]], next_inode = 1\<rparr>"

lemma sample_fs_ok: "fs_ok sample_fs" "holds sample_fs ''k'' {Some [1, 2]}"
  by (auto simp: fs_ok_def holds_def sample_fs_def tmp_of_def split: if_splits)

lemma durable_write_atomic_witness:
  "view (fs_run (take 2 (write_file_durable ''k'' [9, 8] 2 True False True)) sample_fs) ''k'' \<in> {Some [9, 8], Some [1, 2]} \<and>
   view (fs_run (write_file_durable ''k'' [9, 8] 2 True False True) sample_fs) ''k'' = Some [9, 8] \<and>
   (\<exists>t. after_crash (fs_run (write_file_durable ''k'' [9, 8] 2 True False True) sample_fs) t \<and> view t ''k'' = Some [9, 8])"
proof -
  let ?ops = "write_file_durable ''k'' [9, 8] 2 True False True"
  let ?s = "fs_run ?ops sample_fs"
  note w = durable_write_atomic [OF sample_fs_ok refl, of "[9, 8]" 2 True False True]
  have "after_crash ?s (?s\<lparr>versions := [dir ?s]\<rparr>)"
    by (simp add: after_crash_def write_file_durable_def)
  then show ?thesis using w by (auto intro!: exI [of _ "?s\<lparr>versions := [dir ?s]\<rparr>"])
qed

text \<open>The same call when only one byte is stored and the directory cannot be synced: it returns, the
  file is torn for a reader, and a crash may bring the old file back.\<close>

lemma short_unsynced_write:
  "view (fs_run (write_file_durable ''k'' [9, 8] 1 True False False) sample_fs) ''k'' = Some [9] \<and>
   (\<exists>t. after_crash (fs_run (write_file_durable ''k'' [9, 8] 1 True False False) sample_fs) t \<and> view t ''k'' = Some [1, 2])"
proof -
  have "view sample_fs ''k'' = Some [1, 2]" by (simp add: view_def sample_fs_def)
  then show ?thesis
    using durable_prefix(2) [OF sample_fs_ok, of "[9, 8]" 1 True False False]
      unsynced_write_may_be_lost [OF sample_fs_ok, of True False False "[9, 8]" 1] by simp
qed

end
