(* ===== verification/Writer_Lock.thy ===== *)
theory Writer_Lock
  imports Js_Text
begin

section \<open>The writer lock\<close>

text \<open>
  \<open>qv-server/writer-lock.mjs\<close>: one lease file per data directory, read and replaced by durable
  writes. The content of the file is the lease a JSON object denotes (its expiry already through
  \<open>Date.parse\<close>), or text that does not parse. A lock handle is the closure state of
  \<open>acquireWriterLock\<close>: its fence, its random holder id, whether it was released. The clock, the
  identity of the process and \<open>process.kill(pid, 0)\<close> are arguments. Each call is one atomic step.
\<close>

record lease =
  w_fence :: "string option"
  w_holder :: "string option"
  w_pid :: "int option"            \<comment> \<open>\<open>None\<close> when not an integer\<close>
  w_host :: "string option"
  w_expires :: "int option"        \<comment> \<open>\<open>None\<close> when \<open>Date.parse\<close> gives NaN\<close>

datatype lock_text = Unparsable | Lease lease

datatype lock_error =
    LockHeld | LockStale | LockLost | LockReleased | LockUnreadable | LockSyntax

record handle =
  h_fence :: int
  h_id :: string
  h_released :: bool

record me =
  my_id :: string
  my_pid :: int
  my_host :: string

definition pid_alive :: "(int \<Rightarrow> bool) \<Rightarrow> int option \<Rightarrow> bool" where
  "pid_alive kill pid = (case pid of None \<Rightarrow> False | Some p \<Rightarrow> if p \<le> 0 then False else kill p)"

definition lease_live :: "(int \<Rightarrow> bool) \<Rightarrow> int \<Rightarrow> string \<Rightarrow> lease \<Rightarrow> bool" where
  "lease_live kill now host cur \<longleftrightarrow>
     (case w_expires cur of None \<Rightarrow> False | Some e \<Rightarrow> now < e) \<and>
     w_host cur = Some host \<and> pid_alive kill (w_pid cur)"

definition fence_of :: "lease \<Rightarrow> int option" where
  "fence_of cur = big_of_text (case w_fence cur of None \<Rightarrow> ''0'' | Some f \<Rightarrow> f)"

definition write_lease :: "me \<Rightarrow> int \<Rightarrow> int \<Rightarrow> int \<Rightarrow> lock_text" where
  "write_lease me fence now ttl =
     Lease \<lparr>w_fence = Some (int_text fence), w_holder = Some (my_id me), w_pid = Some (my_pid me),
            w_host = Some (my_host me), w_expires = Some (now + ttl)\<rparr>"

definition acquire_writer_lock ::
  "(int \<Rightarrow> bool) \<Rightarrow> int \<Rightarrow> me \<Rightarrow> int \<Rightarrow> bool \<Rightarrow> lock_text option \<Rightarrow> lock_error + (handle \<times> lock_text)" where
  "acquire_writer_lock kill now me ttl allowSteal file =
     (let prior = (case file of
            None \<Rightarrow> Inr 0
          | Some Unparsable \<Rightarrow> Inr 0
          | Some (Lease cur) \<Rightarrow>
              if lease_live kill now (my_host me) cur then Inl LockHeld
              else if \<not> allowSteal then Inl LockStale
              else Inr (case fence_of cur of Some f \<Rightarrow> f | None \<Rightarrow> 0)) in
      bind_r prior (\<lambda>priorFence.
        let fence = priorFence + 1 in
        Inr (\<lparr>h_fence = fence, h_id = my_id me, h_released = False\<rparr>, write_lease me fence now ttl)))"

text \<open>\<open>checkFence\<close>; a fence that is not a number makes \<open>BigInt\<close> throw.\<close>

definition check_fence :: "handle \<Rightarrow> lock_text option \<Rightarrow> lock_error + int" where
  "check_fence h file =
     (if h_released h then Inl LockLost
      else case file of
        None \<Rightarrow> Inl LockLost
      | Some Unparsable \<Rightarrow> Inl LockLost
      | Some (Lease cur) \<Rightarrow>
          (case fence_of cur of
             None \<Rightarrow> Inl LockSyntax
           | Some curFence \<Rightarrow>
               if curFence \<noteq> h_fence h \<or> w_holder cur \<noteq> Some (h_id h) then Inl LockLost
               else Inr (h_fence h)))"

definition renew :: "int \<Rightarrow> int \<Rightarrow> me \<Rightarrow> handle \<Rightarrow> lock_text option \<Rightarrow> lock_error + (int \<times> lock_text)" where
  "renew now ttl me h file =
     (if h_released h then Inl LockReleased
      else case file of
        None \<Rightarrow> Inl LockUnreadable
      | Some Unparsable \<Rightarrow> Inl LockUnreadable
      | Some (Lease cur) \<Rightarrow>
          (case fence_of cur of
             None \<Rightarrow> Inl LockSyntax
           | Some curFence \<Rightarrow>
               if curFence \<noteq> h_fence h \<or> w_holder cur \<noteq> Some (h_id h) then Inl LockLost
               else Inr (h_fence h, write_lease me (h_fence h) now ttl)))"

definition release :: "handle \<Rightarrow> lock_text option \<Rightarrow> handle \<times> lock_text option" where
  "release h file =
     (if h_released h then (h, file)
      else (h\<lparr>h_released := True\<rparr>,
        case file of
          Some (Lease cur) \<Rightarrow> if w_holder cur = Some (h_id h) then None else file
        | _ \<Rightarrow> file))"

subsection \<open>Several processes\<close>

text \<open>
  The lock file and the handles of all processes that ever acquired it, by holder id. A process
  acquires under an id that no handle has (\<open>randomUUID\<close>).
\<close>

record lock_sys =
  lock_file :: "lock_text option"
  handles :: "string \<Rightarrow> (handle \<times> me) option"

datatype lock_event =
    EvAcquire me "int \<Rightarrow> bool" int int bool
  | EvRenew string int int
  | EvCheck string
  | EvRelease string

inductive lock_step :: "lock_sys \<Rightarrow> lock_event \<Rightarrow> lock_sys \<Rightarrow> bool" where
  acquired: "handles s (my_id me) = None \<Longrightarrow>
    acquire_writer_lock kill now me ttl steal (lock_file s) = Inr (h, f) \<Longrightarrow>
    lock_step s (EvAcquire me kill now ttl steal)
      (s\<lparr>lock_file := Some f, handles := (handles s)(my_id me \<mapsto> (h, me))\<rparr>)"
| refused: "acquire_writer_lock kill now me ttl steal (lock_file s) = Inl e \<Longrightarrow>
    lock_step s (EvAcquire me kill now ttl steal) s"
| renewed: "handles s i = Some (h, me) \<Longrightarrow> renew now ttl me h (lock_file s) = Inr (n, f) \<Longrightarrow>
    lock_step s (EvRenew i now ttl) (s\<lparr>lock_file := Some f\<rparr>)"
| renew_failed: "handles s i = Some (h, me) \<Longrightarrow> renew now ttl me h (lock_file s) = Inl e \<Longrightarrow>
    lock_step s (EvRenew i now ttl) s"
| checked: "handles s i = Some (h, me) \<Longrightarrow> lock_step s (EvCheck i) s"
| released: "handles s i = Some (h, me) \<Longrightarrow> release h (lock_file s) = (h', f') \<Longrightarrow>
    lock_step s (EvRelease i) (s\<lparr>lock_file := f', handles := (handles s)(i \<mapsto> (h', me))\<rparr>)"

inductive_cases lock_stepE: "lock_step s e s'"

inductive lock_steps :: "lock_sys \<Rightarrow> lock_sys \<Rightarrow> bool" where
  refl: "lock_steps s s"
| step: "lock_step s e s1 \<Longrightarrow> lock_steps s1 s2 \<Longrightarrow> lock_steps s s2"

definition handle_passes :: "lock_sys \<Rightarrow> string \<Rightarrow> bool" where
  "handle_passes s i = (case handles s i of
     None \<Rightarrow> False | Some (h, _) \<Rightarrow> (case check_fence h (lock_file s) of Inl _ \<Rightarrow> False | Inr _ \<Rightarrow> True))"

text \<open>Handles carry their own id and identity.\<close>

definition lock_ok :: "lock_sys \<Rightarrow> bool" where
  "lock_ok s \<longleftrightarrow> (\<forall>i h me. handles s i = Some (h, me) \<longrightarrow> h_id h = i \<and> my_id me = i)"

definition file_holder :: "lock_sys \<Rightarrow> string option" where
  "file_holder s = (case lock_file s of Some (Lease cur) \<Rightarrow> w_holder cur | _ \<Rightarrow> None)"

lemma acquire_Inr [step_simps]:
  assumes "acquire_writer_lock kill now me ttl steal file = Inr (h, f)"
  shows "h = \<lparr>h_fence = h_fence h, h_id = my_id me, h_released = False\<rparr>" "f = write_lease me (h_fence h) now ttl"
  using assms by (auto simp: acquire_writer_lock_def Let_def bind_r_eq_Inr)

lemma lock_ok_step: "lock_step s e s' \<Longrightarrow> lock_ok s \<Longrightarrow> lock_ok s'"
proof (induction rule: lock_step.induct)
  case (acquired s me kill now ttl steal h f)
  have "h_id h = my_id me" using acquire_Inr(1) [OF acquired(2)] by (metis handle.select_convs(2))
  then show ?case using acquired by (simp add: lock_ok_def)
next
  case (released s i h me h' f')
  then have "h_id h' = h_id h" by (auto simp: release_def split: if_splits)
  then show ?case using released by (auto simp: lock_ok_def)
qed (auto simp: lock_ok_def)

lemma passes_holder: "lock_ok s \<Longrightarrow> handle_passes s i \<Longrightarrow> file_holder s = Some i"
  by (auto simp: handle_passes_def lock_ok_def check_fence_def file_holder_def
      split: option.splits sum.splits if_splits lock_text.splits)

lemma holder_step:
  assumes "lock_step s e s'" "lock_ok s" "handles s i \<noteq> None" "file_holder s \<noteq> Some i"
  shows "file_holder s' \<noteq> Some i \<and> handles s' i \<noteq> None"
  using assms
proof (induction rule: lock_step.induct)
  case (acquired s me kill now ttl steal h f)
  then show ?case
    using acquire_Inr(2) [OF acquired(2)] by (auto simp: file_holder_def write_lease_def)
next
  case (renewed s j h me now ttl n f)
  then have "f = write_lease me (h_fence h) now ttl" "file_holder s = Some (h_id h)" "my_id me = h_id h"
    by (auto simp: renew_def file_holder_def lock_ok_def split: option.splits lock_text.splits if_splits)
  with renewed show ?case by (auto simp: file_holder_def write_lease_def)
next
  case (released s j h me h' f')
  then show ?case
    by (auto simp: release_def file_holder_def split: option.splits lock_text.splits if_splits)
qed auto

lemma holder_steps:
  assumes "lock_steps s s'" "lock_ok s" "handles s i \<noteq> None" "file_holder s \<noteq> Some i"
  shows "file_holder s' \<noteq> Some i \<and> lock_ok s'"
  using assms
proof (induction rule: lock_steps.induct)
  case (step s e s1 s2)
  then show ?case using holder_step [OF step(1) step(4-6)] lock_ok_step [OF step(1,4)] by simp
qed simp

lemma lock_ok_steps: "lock_steps s s' \<Longrightarrow> lock_ok s \<Longrightarrow> lock_ok s'"
  by (induction rule: lock_steps.induct) (auto dest: lock_ok_step)

lemma fence_of_write [simp]: "0 \<le> n \<Longrightarrow> (case write_lease me n now ttl of Lease l \<Rightarrow> fence_of l | Unparsable \<Rightarrow> None) = Some n"
  by (simp add: write_lease_def fence_of_def)

definition fresh_sys :: "lock_text option \<Rightarrow> lock_sys" where
  "fresh_sys f = \<lparr>lock_file = f, handles = Map.empty\<rparr>"

lemma fresh_ok [simp]: "lock_ok (fresh_sys f)"
  by (simp add: lock_ok_def fresh_sys_def)

lemma acquire_passes:
  assumes "acquire_writer_lock kill now me ttl steal file = Inr (h, f)" "0 \<le> h_fence h"
  shows "check_fence h (Some f) = Inr (h_fence h)"
proof -
  have "h_released h = False" "h_id h = my_id me" "f = write_lease me (h_fence h) now ttl"
    using acquire_Inr [OF assms(1)] by (metis handle.select_convs)+
  then show ?thesis
    using assms(2) by (simp add: check_fence_def write_lease_def fence_of_def)
qed

subsection \<open>Properties\<close>

text \<open>C14: At any moment at most one process passes \<open>checkFence\<close>, however processes acquire, renew,
  steal and release the lock, and whatever the file held at first.\<close>

theorem single_writer:
  assumes "lock_steps (fresh_sys f) s" "handle_passes s i" "handle_passes s j"
  shows "i = j"
proof -
  have "lock_ok s" by (rule lock_ok_steps [OF assms(1) fresh_ok])
  then have "file_holder s = Some i" "file_holder s = Some j" using passes_holder assms(2,3) by blast+
  then show ?thesis by simp
qed

definition sample_me :: "string \<Rightarrow> me" where
  "sample_me i = \<lparr>my_id = i, my_pid = 7, my_host = ''h''\<rparr>"

lemma sample_acquire:
  "acquire_writer_lock (\<lambda>_. False) 0 (sample_me i) 30000 True None =
     Inr (\<lparr>h_fence = 1, h_id = i, h_released = False\<rparr>, write_lease (sample_me i) 1 0 30000)"
  by (simp add: acquire_writer_lock_def sample_me_def)

definition sample_sys :: lock_sys where
  "sample_sys = \<lparr>lock_file = Some (write_lease (sample_me ''a'') 1 0 30000),
     handles = [''a'' \<mapsto> (\<lparr>h_fence = 1, h_id = ''a'', h_released = False\<rparr>, sample_me ''a'')]\<rparr>"

lemma sample_sys_steps: "lock_steps (fresh_sys None) sample_sys"
proof -
  have "lock_step (fresh_sys None) (EvAcquire (sample_me ''a'') (\<lambda>_. False) 0 30000 True) sample_sys"
  proof -
    have "acquire_writer_lock (\<lambda>_. False) 0 (sample_me ''a'') 30000 True (lock_file (fresh_sys None)) =
        Inr (\<lparr>h_fence = 1, h_id = ''a'', h_released = False\<rparr>, write_lease (sample_me ''a'') 1 0 30000)"
      using sample_acquire by (simp add: fresh_sys_def)
    from lock_step.acquired [OF _ this] show ?thesis
      by (simp add: fresh_sys_def sample_sys_def sample_me_def)
  qed
  then show ?thesis by (rule lock_steps.step [OF _ lock_steps.refl])
qed

text \<open>A writer that lost its lease stays out: when the file names another holder, or none, its
  \<open>checkFence\<close> fails from then on, whatever the processes do.\<close>

theorem lost_writer_stays_out:
  assumes "lock_steps (fresh_sys f) s" "handles s i \<noteq> None" "file_holder s \<noteq> Some i" "lock_steps s s'"
  shows "\<not> handle_passes s' i"
  using holder_steps [OF assms(4) lock_ok_steps [OF assms(1) fresh_ok] assms(2,3)] passes_holder by blast

definition stolen_sys :: lock_sys where
  "stolen_sys = sample_sys
     \<lparr>lock_file := Some (write_lease (sample_me ''b'') 2 90000 30000),
      handles := (handles sample_sys)(''b'' \<mapsto> (\<lparr>h_fence = 2, h_id = ''b'', h_released = False\<rparr>, sample_me ''b''))\<rparr>"

lemma stolen_sys_steps: "lock_steps (fresh_sys None) stolen_sys"
proof -
  have "acquire_writer_lock (\<lambda>_. True) 90000 (sample_me ''b'') 30000 True (lock_file sample_sys) =
      Inr (\<lparr>h_fence = 2, h_id = ''b'', h_released = False\<rparr>, write_lease (sample_me ''b'') 2 90000 30000)"
    by (simp add: acquire_writer_lock_def sample_sys_def write_lease_def lease_live_def fence_of_def sample_me_def)
  moreover have "handles sample_sys (my_id (sample_me ''b'')) = None"
    by (simp add: sample_sys_def sample_me_def)
  ultimately have "lock_step sample_sys (EvAcquire (sample_me ''b'') (\<lambda>_. True) 90000 30000 True)
      (sample_sys\<lparr>lock_file := Some (write_lease (sample_me ''b'') 2 90000 30000),
        handles := (handles sample_sys)(my_id (sample_me ''b'') \<mapsto>
          (\<lparr>h_fence = 2, h_id = ''b'', h_released = False\<rparr>, sample_me ''b''))\<rparr>)"
    by (rule lock_step.acquired [rotated])
  then have "lock_step sample_sys (EvAcquire (sample_me ''b'') (\<lambda>_. True) 90000 30000 True) stolen_sys"
    by (simp add: stolen_sys_def sample_me_def)
  moreover have "lock_steps s1 s2 \<Longrightarrow> lock_step s2 e s3 \<Longrightarrow> lock_steps s1 s3" for s1 s2 e s3
    by (induction rule: lock_steps.induct) (auto intro: lock_steps.intros)
  ultimately show ?thesis using sample_sys_steps by blast
qed

lemma single_writer_witness: "handle_passes stolen_sys ''b'' \<and> \<not> handle_passes stolen_sys ''a''"
proof -
  have "handle_passes stolen_sys ''b''"
    by (simp add: handle_passes_def stolen_sys_def sample_sys_def check_fence_def write_lease_def
        fence_of_def sample_me_def)
  then show ?thesis using single_writer [OF stolen_sys_steps, of "''b''" "''a''"] by auto
qed

lemma lost_writer_stays_out_witness: "\<not> handle_passes stolen_sys ''a''"
  by (rule lost_writer_stays_out [OF stolen_sys_steps _ _ lock_steps.refl])
    (simp_all add: stolen_sys_def sample_sys_def file_holder_def write_lease_def sample_me_def)

text \<open>A second process on the same host is refused exactly while a lease is there that has not
  expired, names this host and a process that is alive; otherwise, if it may steal, it takes over with
  a fence one above the file's, and its own check passes.\<close>

theorem acquire_decides:
  assumes "\<And>f. fence_of cur = Some f \<Longrightarrow> 0 \<le> f"
  shows "(acquire_writer_lock kill now me ttl True (Some (Lease cur)) = Inl LockHeld \<longleftrightarrow>
      lease_live kill now (my_host me) cur) \<and>
    (\<not> lease_live kill now (my_host me) cur \<longrightarrow>
      (\<exists>h f. acquire_writer_lock kill now me ttl True (Some (Lease cur)) = Inr (h, f) \<and>
        h_fence h = (case fence_of cur of Some n \<Rightarrow> n | None \<Rightarrow> 0) + 1 \<and>
        check_fence h (Some f) = Inr (h_fence h)))"
proof (cases "lease_live kill now (my_host me) cur")
  case True
  then show ?thesis by (simp add: acquire_writer_lock_def)
next
  case False
  then obtain h f where a: "acquire_writer_lock kill now me ttl True (Some (Lease cur)) = Inr (h, f)"
    "h_fence h = (case fence_of cur of Some n \<Rightarrow> n | None \<Rightarrow> 0) + 1"
    by (simp add: acquire_writer_lock_def Let_def)
  have "0 \<le> h_fence h" using a(2) assms by (fastforce split: option.splits)
  then show ?thesis using False a acquire_passes [OF a(1)] by auto
qed

lemma acquire_decides_witness:
  "acquire_writer_lock (\<lambda>_. True) 10 (sample_me ''b'') 30000 True (Some (write_lease (sample_me ''a'') 1 0 30000)) = Inl LockHeld"
proof -
  define cur where "cur = \<lparr>w_fence = Some (int_text 1), w_holder = Some ''a'', w_pid = Some 7,
    w_host = Some ''h'', w_expires = Some (30000 :: int)\<rparr>"
  have "fence_of cur = Some f \<Longrightarrow> 0 \<le> f" for f by (simp add: cur_def fence_of_def)
  from acquire_decides [of cur, OF this, of "\<lambda>_. True" 10 "sample_me ''b''" 30000]
  show ?thesis by (simp add: cur_def write_lease_def sample_me_def lease_live_def pid_alive_def)
qed

text \<open>The fence is not monotonic over the life of a directory: a release removes the file, and the next
  acquisition starts again at 1.\<close>

lemma fence_restarts:
  assumes "0 < n"
  shows "\<exists>h'. release \<lparr>h_fence = n, h_id = ''a'', h_released = False\<rparr>
      (Some (write_lease (sample_me ''a'') n 0 30000)) = (h', None) \<and>
    (\<exists>h f. acquire_writer_lock kill now me ttl True None = Inr (h, f) \<and> h_fence h = 1)"
  by (simp add: release_def write_lease_def sample_me_def acquire_writer_lock_def)

end
