(* ===== verification/Master_Key.thy ===== *)
theory Master_Key
  imports Js_Text
begin

section \<open>The master key providers\<close>

text \<open>
  \<open>qv-server/master-key.mjs\<close>. The key file is its content or absent; writing it is one durable
  write. The random bytes and the operator's command (\<open>spawnSync\<close>) are arguments; stdout is text.
\<close>

datatype mk_source = EnvSource | FileSource | ExecSource

datatype mk_error =
    MkShort nat | MkNoRun | MkBadLength nat
  | MkEnvMissing | MkFileLength nat | MkFileMissing
  | MkExecEmpty | MkExecFailed | MkExecStatus "int option" | MkUnknown string

record master_key =
  mk_key :: bytes
  mk_source :: mk_source
  mk_generated :: bool

definition KEY_BYTES :: nat where "KEY_BYTES = 32"

text \<open>The leftmost run that \<open>HEX_RE\<close> matches.\<close>

fun first_hex_run :: "string \<Rightarrow> string option" where
  "first_hex_run [] = None"
| "first_hex_run (c # cs) =
     (if 64 \<le> length (c # cs) \<and> list_all is_hex (take 64 (c # cs)) then Some (take 64 (c # cs))
      else first_hex_run cs)"

definition decode_hex :: "string \<Rightarrow> mk_error + bytes" where
  "decode_hex hex =
     (let trimmed = js_trim hex in
      if length trimmed < 64 then Inl (MkShort (length trimmed))
      else case first_hex_run trimmed of
        None \<Rightarrow> Inl MkNoRun
      | Some m \<Rightarrow> let buf = from_hex m in
          if length buf \<noteq> KEY_BYTES then Inl (MkBadLength (length buf)) else Inr buf)"

definition env_set :: "(string \<Rightarrow> string option) \<Rightarrow> string \<Rightarrow> string option" where
  "env_set env name = (case env name of Some s \<Rightarrow> if s = [] then None else Some s | None \<Rightarrow> None)"

definition env_provider :: "(string \<Rightarrow> string option) \<Rightarrow> mk_error + master_key" where
  "env_provider env =
     (case env_set env ''QV_MASTER_KEY_HEX'' of
        None \<Rightarrow> Inl MkEnvMissing
      | Some raw \<Rightarrow> bind_r (decode_hex raw)
          (\<lambda>k. Inr \<lparr>mk_key = k, mk_source = EnvSource, mk_generated = False\<rparr>))"

text \<open>\<open>fileProvider\<close> returns the file as it leaves it.\<close>

definition file_provider :: "bytes option \<Rightarrow> bool \<Rightarrow> bytes \<Rightarrow> bytes option \<times> (mk_error + master_key)" where
  "file_provider file allowGenerate rand =
     (case file of
        Some buf \<Rightarrow>
          (file, if length buf \<noteq> KEY_BYTES then Inl (MkFileLength (length buf))
                 else Inr \<lparr>mk_key = buf, mk_source = FileSource, mk_generated = False\<rparr>)
      | None \<Rightarrow>
          if \<not> allowGenerate then (file, Inl MkFileMissing)
          else (Some rand, Inr \<lparr>mk_key = rand, mk_source = FileSource, mk_generated = True\<rparr>))"

datatype spawn_result = SpawnError | SpawnDone "int option" string

definition exec_provider :: "(string \<Rightarrow> spawn_result) \<Rightarrow> string option \<Rightarrow> mk_error + master_key" where
  "exec_provider spawn command =
     (case command of
        None \<Rightarrow> Inl MkExecEmpty
      | Some cmd \<Rightarrow>
          if cmd = [] then Inl MkExecEmpty
          else (case spawn cmd of
                  SpawnError \<Rightarrow> Inl MkExecFailed
                | SpawnDone status stdout \<Rightarrow>
                    if status \<noteq> Some 0 then Inl (MkExecStatus status)
                    else bind_r (decode_hex stdout)
                      (\<lambda>k. Inr \<lparr>mk_key = k, mk_source = ExecSource, mk_generated = False\<rparr>)))"

definition load_master_key ::
  "(string \<Rightarrow> spawn_result) \<Rightarrow> (string \<Rightarrow> string option) \<Rightarrow> bytes option \<Rightarrow> bool \<Rightarrow> bytes \<Rightarrow>
   bytes option \<times> (mk_error + master_key)" where
  "load_master_key spawn env file allowGen rand =
     (let explicit = to_lower (js_trim (case env ''QV_MASTER_KEY_PROVIDER'' of None \<Rightarrow> [] | Some s \<Rightarrow> s)) in
      if explicit = ''env'' then (file, env_provider env)
      else if explicit = ''file'' then file_provider file allowGen rand
      else if explicit = ''exec'' then (file, exec_provider spawn (env ''QV_MASTER_KEY_EXEC''))
      else if explicit \<noteq> [] \<and> explicit \<noteq> ''auto'' then (file, Inl (MkUnknown explicit))
      else if env_set env ''QV_MASTER_KEY_HEX'' \<noteq> None then (file, env_provider env)
      else if env_set env ''QV_MASTER_KEY_EXEC'' \<noteq> None then
        (file, exec_provider spawn (env ''QV_MASTER_KEY_EXEC''))
      else file_provider file allowGen rand)"

subsection \<open>What the providers return\<close>

lemma first_hex_run_Some:
  "first_hex_run s = Some m \<Longrightarrow> length m = 64 \<and> list_all is_hex m \<and> (\<exists>a b. s = a @ m @ b)"
proof (induction s)
  case (Cons c cs)
  show ?case
  proof (cases "64 \<le> length (c # cs) \<and> list_all is_hex (take 64 (c # cs))")
    case True
    then have "m = take 64 (c # cs)" using Cons.prems by simp
    moreover have "c # cs = [] @ take 64 (c # cs) @ drop 64 (c # cs)" by simp
    ultimately show ?thesis using True by (metis length_take min.absorb2)
  next
    case False
    then have "first_hex_run cs = Some m" using Cons.prems by (simp split: if_splits)
    then obtain a b where "length m = 64 \<and> list_all is_hex m" "cs = a @ m @ b" using Cons.IH by blast
    then show ?thesis by (metis append_Cons)
  qed
qed simp

lemma length_from_hex: "list_all is_hex s \<Longrightarrow> length (from_hex s) = length s div 2"
  by (induction s rule: from_hex.induct) (auto simp: is_hex_def split: option.splits)

lemma decode_hex_length: "decode_hex s = Inr k \<Longrightarrow> length k = 32"
  by (auto simp: decode_hex_def KEY_BYTES_def Let_def split: if_splits option.splits)

text \<open>The choice of the provider depends on the environment only.\<close>

lemma load_choice:
  "(\<forall>file a r. load_master_key spawn env file a r = file_provider file a r) \<or>
   (\<exists>y. (\<forall>file a r. load_master_key spawn env file a r = (file, y)) \<and>
     (y = env_provider env \<or> (\<exists>c. y = exec_provider spawn c) \<or> (\<exists>e. y = Inl e)))"
  (is "?file \<or> ?other")
proof -
  define e where "e = to_lower (js_trim (case env ''QV_MASTER_KEY_PROVIDER'' of None \<Rightarrow> [] | Some s \<Rightarrow> s))"
  have other: "?other" if "\<forall>file a r. load_master_key spawn env file a r = (file, y)"
    "y = env_provider env \<or> (\<exists>c. y = exec_provider spawn c) \<or> (\<exists>e. y = Inl e)" for y
    using that by blast
  have load: "load_master_key spawn env f a r =
      (if e = ''env'' then (f, env_provider env)
       else if e = ''file'' then file_provider f a r
       else if e = ''exec'' then (f, exec_provider spawn (env ''QV_MASTER_KEY_EXEC''))
       else if e \<noteq> [] \<and> e \<noteq> ''auto'' then (f, Inl (MkUnknown e))
       else if env_set env ''QV_MASTER_KEY_HEX'' \<noteq> None then (f, env_provider env)
       else if env_set env ''QV_MASTER_KEY_EXEC'' \<noteq> None then (f, exec_provider spawn (env ''QV_MASTER_KEY_EXEC''))
       else file_provider f a r)" for f a r
    unfolding load_master_key_def Let_def e_def [symmetric] by (rule refl)
  let ?S = "{file_provider, \<lambda>f a r. (f, env_provider env), \<lambda>f a r. (f, exec_provider spawn (env ''QV_MASTER_KEY_EXEC'')),
    \<lambda>f a r. (f, Inl (MkUnknown e))}"
  have in_if: "x \<in> T \<Longrightarrow> y \<in> T \<Longrightarrow> (if c then x else y) \<in> T" for x y c and T :: "'z set" by simp
  have apply_if: "(if c then F else G) f a r = (if c then F f a r else G f a r)"
    for c f a r and F G :: "bytes option \<Rightarrow> bool \<Rightarrow> bytes \<Rightarrow> bytes option \<times> (mk_error + master_key)" by simp
  have "load_master_key spawn env = (if e = ''env'' then (\<lambda>file a r. (file, env_provider env))
       else if e = ''file'' then file_provider
       else if e = ''exec'' then (\<lambda>file a r. (file, exec_provider spawn (env ''QV_MASTER_KEY_EXEC'')))
       else if e \<noteq> [] \<and> e \<noteq> ''auto'' then (\<lambda>file a r. (file, Inl (MkUnknown e)))
       else if env_set env ''QV_MASTER_KEY_HEX'' \<noteq> None then (\<lambda>file a r. (file, env_provider env))
       else if env_set env ''QV_MASTER_KEY_EXEC'' \<noteq> None then (\<lambda>file a r. (file, exec_provider spawn (env ''QV_MASTER_KEY_EXEC'')))
       else file_provider)"
    by (intro ext) (simp only: load apply_if)
  then have "load_master_key spawn env \<in> ?S" by (simp only:) (intro in_if insertI1 insertI2)
  then show ?thesis by (elim insertE emptyE) auto
qed

lemma load_length:
  assumes "load_master_key spawn env file allowGen rand = (file', Inr mk)" "length rand = 32"
  shows "length (mk_key mk) = 32"
proof -
  have e: "env_provider env = Inr mk \<Longrightarrow> length (mk_key mk) = 32"
    by (auto simp: env_provider_def bind_r_eq_Inr dest: decode_hex_length split: option.splits)
  have x: "exec_provider spawn c = Inr mk \<Longrightarrow> length (mk_key mk) = 32" for c
    by (auto simp: exec_provider_def bind_r_eq_Inr dest: decode_hex_length split: if_splits option.splits spawn_result.splits)
  have f: "file_provider file allowGen rand = (file', Inr mk) \<Longrightarrow> length (mk_key mk) = 32"
    using assms(2) by (auto simp: file_provider_def KEY_BYTES_def split: if_splits option.splits)
  from load_choice [of spawn env] show ?thesis
  proof (elim disjE exE)
    assume "\<forall>file a r. load_master_key spawn env file a r = file_provider file a r"
    with assms(1) f show ?thesis by simp
  next
    fix y assume "(\<forall>file a r. load_master_key spawn env file a r = (file, y)) \<and>
       (y = env_provider env \<or> (\<exists>c. y = exec_provider spawn c) \<or> (\<exists>e. y = Inl e))"
    with assms(1) e x show ?thesis by auto
  qed
qed

lemma load_stable:
  assumes "load_master_key spawn env file allowGen rand = (file', Inr mk)" "length rand = 32"
  shows "\<exists>mk'. load_master_key spawn env file' allowGen' rand' = (file', Inr mk') \<and> mk_key mk' = mk_key mk"
proof -
  have f: "file_provider file allowGen rand = (file', Inr mk) \<Longrightarrow>
      \<exists>mk'. file_provider file' allowGen' rand' = (file', Inr mk') \<and> mk_key mk' = mk_key mk"
    using assms(2) by (auto simp: file_provider_def KEY_BYTES_def split: if_splits option.splits)
  from load_choice [of spawn env] show ?thesis
  proof (elim disjE exE)
    assume "\<forall>file a r. load_master_key spawn env file a r = file_provider file a r"
    with assms(1) f show ?thesis by simp
  next
    fix y assume "(\<forall>file a r. load_master_key spawn env file a r = (file, y)) \<and>
       (y = env_provider env \<or> (\<exists>c. y = exec_provider spawn c) \<or> (\<exists>e. y = Inl e))"
    with assms(1) show ?thesis by auto
  qed
qed

lemma decode_hex_to_hex:
  assumes "length k = 32" "list_all is_hex (to_hex k)"
  shows "decode_hex (to_hex k) = Inr k"
proof -
  have len: "length (to_hex k) = 64" using assms(1) by simp
  have "\<not> is_ws c" if "is_hex c" for c
    using that by (auto simp: is_hex_def is_ws_def hex_val_def code_def Let_def split: if_splits)
  then have "js_trim (to_hex k) = to_hex k"
    using assms(2) len by (intro js_trim_id) (auto simp: list_all_iff)
  moreover have "first_hex_run (to_hex k) = Some (to_hex k)"
    using len assms(2) by (cases "to_hex k") auto
  ultimately show ?thesis using assms(1) len by (simp add: decode_hex_def KEY_BYTES_def)
qed

subsection \<open>Properties\<close>

text \<open>Every provider that succeeds yields a key of exactly 32 bytes, and loading again yields the
  same key: from the same environment and the file the first load left behind, whatever random bytes
  the second load would draw and whether or not it may generate.\<close>

theorem master_key_stable:
  assumes "load_master_key spawn env file allowGen rand = (file', Inr mk)" "length rand = 32"
  shows "length (mk_key mk) = 32 \<and>
    (\<exists>mk'. load_master_key spawn env file' allowGen' rand' = (file', Inr mk') \<and> mk_key mk' = mk_key mk)"
  using load_length [OF assms] load_stable [OF assms] by blast

lemma master_key_stable_witness:
  "\<exists>mk'. load_master_key (\<lambda>_. SpawnError) Map.empty (Some (replicate 32 5)) False (replicate 32 6) =
     (Some (replicate 32 5), Inr mk') \<and> mk_key mk' = replicate 32 5"
proof -
  have "load_master_key (\<lambda>_. SpawnError) Map.empty None True (replicate 32 5) =
      (Some (replicate 32 5), Inr \<lparr>mk_key = replicate 32 5, mk_source = FileSource, mk_generated = True\<rparr>)"
    by (simp add: load_master_key_def env_set_def file_provider_def js_trim_def to_lower_def)
  from master_key_stable [OF this, of False "replicate 32 6"] show ?thesis by simp
qed

end
