(* ===== verification/Js_Value.thy ===== *)
theory Js_Value
  imports Js_Text Utf8
begin

section \<open>JSON values as the handlers use them\<close>

text \<open>
  What the language does with a parsed JSON value: reading a property, truthiness, conversion to a
  number (with \<open>ToUint32\<close>), use as a property name, and \<open>JSON.stringify\<close>. Texts outside Latin-1
  count as NaN when converted to a number.
\<close>

definition str :: "string \<Rightarrow> jsval" where "str s = JStr (js s)"
definition num :: "int \<Rightarrow> jsval" where "num i = JNum (Finite (of_int i))"
definition obj :: "(string \<times> jsval) list \<Rightarrow> jsval" where "obj kvs = JObj (map (\<lambda>(k, v). (js k, v)) kvs)"
definition undef :: jsval where "undef = JOther ''undefined''"

definition of_js :: "jsstr \<Rightarrow> string" where
  "of_js s = map (\<lambda>u. char_of (unat u)) s"

lemma of_js_js [simp]: "of_js (js s) = s"
proof -
  have "char_of (unat (word_of_nat (of_char c) :: 16 word)) = c" for c :: char
  proof -
    have "of_char c < (256 :: nat)" by (metis of_char_mod_256 mod_less_divisor zero_less_numeral)
    from less_trans [OF this, of 65536] have "of_char c mod 65536 = (of_char c :: nat)"
      by (intro mod_less) simp
    then show ?thesis by (simp add: unat_of_nat)
  qed
  then show ?thesis by (simp add: of_js_def js_def comp_def)
qed

text \<open>The characters a base64 decoder may use.\<close>

definition latin :: "jsstr \<Rightarrow> string" where
  "latin s = of_js (filter (\<lambda>u. unat u < 256) s)"

lemma latin_js [simp]: "latin (js s) = s"
proof -
  have "of_char c < (256 :: nat)" for c by (metis of_char_mod_256 mod_less_divisor zero_less_numeral)
  then have "of_char c mod 65536 < (256 :: nat)" for c by (metis mod_less_eq_dividend order_le_less_trans)
  then have "filter (\<lambda>u. unat u < 256) (js s) = js s" by (simp add: js_def filter_id_conv unat_of_nat)
  then show ?thesis by (simp add: latin_def)
qed

lemma js_inj [simp]: "js s = js t \<longleftrightarrow> s = t"
  by (metis of_js_js)

lemma str_inj [simp]: "str s = str t \<longleftrightarrow> s = t"
  by (simp add: str_def)

text \<open>\<open>v[k]\<close>: on an object its own property (a parsed object has each name once), else \<open>undefined\<close>;
  reading a property of \<open>null\<close> or \<open>undefined\<close> throws, which the caller has to check.\<close>

definition jget :: "jsval \<Rightarrow> string \<Rightarrow> jsval" where
  "jget v k = (case v of
     JObj kvs \<Rightarrow> (case map_of kvs (js k) of Some w \<Rightarrow> w | None \<Rightarrow> undef)
   | _ \<Rightarrow> undef)"

definition nullish :: "jsval \<Rightarrow> bool" where
  "nullish v \<longleftrightarrow> v = JNull \<or> v = undef"

definition or_default :: "jsval \<Rightarrow> jsval \<Rightarrow> jsval" where
  "or_default v d = (if v = undef then d else v)"

definition coalesce :: "jsval \<Rightarrow> jsval \<Rightarrow> jsval" where
  "coalesce v d = (if nullish v then d else v)"

text \<open>A number that is not finite is an infinity here, as from JSON: NaN would be falsy.\<close>

definition truthy :: "jsval \<Rightarrow> bool" where
  "truthy v = (case v of
     JNull \<Rightarrow> False | JBool b \<Rightarrow> b | JNum n \<Rightarrow> n \<noteq> Finite 0 | JBig i \<Rightarrow> i \<noteq> 0 | JStr s \<Rightarrow> s \<noteq> []
   | JArr _ \<Rightarrow> True | JObj _ \<Rightarrow> True | JOther t \<Rightarrow> t \<noteq> ''undefined'')"

text \<open>\<open>v || w\<close>.\<close>

definition val_or :: "jsval \<Rightarrow> jsval \<Rightarrow> jsval" where
  "val_or v w = (if truthy v then v else w)"

lemma truthy_simps [simp]:
  "\<not> truthy JNull" "truthy (JBool b) = b" "truthy (JStr s) = (s \<noteq> [])" "truthy (JObj kvs)" "truthy (JArr vs)"
  "\<not> truthy undef" "truthy (str t) = (t \<noteq> [])"
  by (simp_all add: truthy_def undef_def str_def js_def)

lemma jget_Cons: "jget (JObj ((js k, v) # kvs)) k' = (if k' = k then v else jget (JObj kvs) k')"
  by (simp add: jget_def)

lemma jget_obj [simp]:
  "jget (obj []) k' = undef"
  "jget (obj ((k, v) # kvs)) k' = (if k' = k then v else jget (obj kvs) k')"
  by (simp_all add: jget_def obj_def)

subsection \<open>Conversions\<close>

definition text_number :: "jsstr \<Rightarrow> rat option" where
  "text_number s =
     (if list_all (\<lambda>u. unat u < 256) s
      then (case js_number (of_js s) of Some (Some r) \<Rightarrow> Some r | _ \<Rightarrow> None) else None)"

text \<open>\<open>Number(v)\<close> when it is finite. An array goes through its text: one element counts as that
  element's text, several give NaN.\<close>

fun to_number :: "jsval \<Rightarrow> rat option" where
  "to_number JNull = Some 0"
| "to_number (JBool b) = Some (if b then 1 else 0)"
| "to_number (JNum (Finite r)) = Some r"
| "to_number (JNum NonFinite) = None"
| "to_number (JBig i) = Some (of_int i)"
| "to_number (JStr s) = text_number s"
| "to_number (JArr []) = Some 0"
| "to_number (JArr [v]) = (case v of JBool _ \<Rightarrow> None | JOther _ \<Rightarrow> Some 0 | _ \<Rightarrow> to_number v)"
| "to_number (JArr (v # w # vs)) = None"
| "to_number (JObj _) = None"
| "to_number (JOther _) = None"

definition trunc_rat :: "rat \<Rightarrow> int" where
  "trunc_rat r = (if r < 0 then - \<lfloor>- r\<rfloor> else \<lfloor>r\<rfloor>)"

definition to_uint32 :: "jsval \<Rightarrow> int" where
  "to_uint32 v = (case to_number v of None \<Rightarrow> 0 | Some r \<Rightarrow> trunc_rat r mod 2 ^ 32)"

text \<open>\<open>String(v)\<close>, as far as it can be the name of a property of the tables below.\<close>

fun prop_name :: "(jsnum \<Rightarrow> jsstr) \<Rightarrow> jsval \<Rightarrow> jsstr" where
  "prop_name numstr (JStr s) = s"
| "prop_name numstr JNull = js ''null''"
| "prop_name numstr (JBool b) = js (if b then ''true'' else ''false'')"
| "prop_name numstr (JNum n) = numstr n"
| "prop_name numstr (JBig i) = js (int_text i)"
| "prop_name numstr (JArr []) = []"
| "prop_name numstr (JArr [v]) = (if nullish v then [] else prop_name numstr v)"
| "prop_name numstr (JArr (v # w # vs)) =
     (if nullish v then [] else prop_name numstr v) @ js '','' @ prop_name numstr (JArr (w # vs))"
| "prop_name numstr (JObj _) = js ''[object Object]''"
| "prop_name numstr (JOther t) = js t"

subsection \<open>\<open>JSON.stringify\<close>\<close>

definition hex4 :: "nat \<Rightarrow> string" where
  "hex4 n = map (\<lambda>d. hex_digit (n div d mod 16)) [4096, 256, 16, 1]"

definition escape_unit :: "16 word \<Rightarrow> jsstr" where
  "escape_unit u =
     (let n = unat u in
      if n = 34 \<or> n = 92 then [92, u]
      else if n = 8 then [92, 98] else if n = 9 then [92, 116] else if n = 10 then [92, 110]
      else if n = 12 then [92, 102] else if n = 13 then [92, 114]
      else if n < 32 \<or> is_high u \<or> is_low u then [92, 117] @ js (hex4 n)
      else [u])"

fun escape_units :: "jsstr \<Rightarrow> jsstr" where
  "escape_units [] = []"
| "escape_units [u] = escape_unit u"
| "escape_units (u # v # us) =
     (if is_high u \<and> is_low v then u # v # escape_units us else escape_unit u @ escape_units (v # us))"

definition quote_text :: "jsstr \<Rightarrow> jsstr" where
  "quote_text s = [34] @ escape_units s @ [34]"

text \<open>\<open>None\<close> is the throw on a BigInt, \<open>Some None\<close> the value \<open>undefined\<close>.\<close>

fun json_text :: "(jsnum \<Rightarrow> jsstr) \<Rightarrow> jsval \<Rightarrow> jsstr option option"
  and json_elems :: "(jsnum \<Rightarrow> jsstr) \<Rightarrow> jsval list \<Rightarrow> jsstr list option"
  and json_props :: "(jsnum \<Rightarrow> jsstr) \<Rightarrow> (jsstr \<times> jsval) list \<Rightarrow> jsstr list option" where
  "json_text ns JNull = Some (Some (js ''null''))"
| "json_text ns (JBool b) = Some (Some (js (if b then ''true'' else ''false'')))"
| "json_text ns (JNum n) = Some (Some (case n of NonFinite \<Rightarrow> js ''null'' | Finite _ \<Rightarrow> ns n))"
| "json_text ns (JBig i) = None"
| "json_text ns (JStr s) = Some (Some (quote_text s))"
| "json_text ns (JArr vs) =
     (case json_elems ns vs of None \<Rightarrow> None
      | Some ts \<Rightarrow> Some (Some ([91] @ (case ts of [] \<Rightarrow> [] | t # ts' \<Rightarrow> t @ concat (map (\<lambda>t. 44 # t) ts')) @ [93])))"
| "json_text ns (JObj kvs) =
     (case json_props ns kvs of None \<Rightarrow> None
      | Some ts \<Rightarrow> Some (Some ([123] @ (case ts of [] \<Rightarrow> [] | t # ts' \<Rightarrow> t @ concat (map (\<lambda>t. 44 # t) ts')) @ [125])))"
| "json_text ns (JOther t) = Some None"
| "json_elems ns [] = Some []"
| "json_elems ns (v # vs) =
     (case json_text ns v of None \<Rightarrow> None
      | Some t \<Rightarrow> map_option (\<lambda>ts. (case t of None \<Rightarrow> js ''null'' | Some x \<Rightarrow> x) # ts) (json_elems ns vs))"
| "json_props ns [] = Some []"
| "json_props ns ((k, v) # kvs) =
     (case json_text ns v of None \<Rightarrow> None
      | Some None \<Rightarrow> json_props ns kvs
      | Some (Some t) \<Rightarrow> map_option (\<lambda>ts. (quote_text k @ [58] @ t) # ts) (json_props ns kvs))"

text \<open>\<open>Buffer.byteLength(JSON.stringify(v), 'utf8')\<close>; \<open>None\<close> is a throw.\<close>

definition json_bytes :: "(jsnum \<Rightarrow> jsstr) \<Rightarrow> jsval \<Rightarrow> nat option" where
  "json_bytes ns v = (case json_text ns v of Some (Some t) \<Rightarrow> Some (length (utf8_encode t)) | _ \<Rightarrow> None)"

lemma json_text_example:
  "json_text (\<lambda>_. js ''1'') (obj [(''a'', JArr [JBool True, str ''x'', num 1]), (''b'', undef)]) =
     Some (Some (js (''{'' @ [CHR 34] @ ''a'' @ [CHR 34] @ '':[true,'' @ [CHR 34] @ ''x'' @ [CHR 34] @ '',1]}'')))"
  by (simp add: obj_def str_def num_def undef_def quote_text_def js_def escape_unit_def Let_def is_high_def is_low_def)

end
