(* ===== verification/Metrics.thy ===== *)
theory Metrics
  imports Js_Value "HOL-Library.AList" "HOL-Library.List_Lexorder" "HOL-Library.Char_ord" "HOL-Library.Log_Nat"
begin

section \<open>Metrics\<close>

text \<open>
  \<open>qv-server/metrics.mjs\<close>: counters, gauges and histograms, each a map from names to maps from
  label keys to slots, and the text exposition. Maps are association lists in insertion order. A value
  is a finite double, held as the rational it stands for, and every addition rounds as the language
  does; the values stay below the largest double. Counts of observations are natural numbers. The text
  of a number is the argument \<open>ns\<close>. Labels are an object with distinct ASCII names.
\<close>

subsection \<open>Addition of doubles\<close>

text \<open>Rounding to 53 significant bits and to a multiple of the smallest positive double, half to even.\<close>

definition log2_floor :: "rat \<Rightarrow> int" where
  "log2_floor x =
     (let (n, d) = quotient_of x; k = bitlen n - bitlen d in if 2 powi k \<le> x then k else k - 1)"

definition round_even :: "rat \<Rightarrow> int" where
  "round_even y =
     (let f = \<lfloor>y\<rfloor>; r = y - of_int f in if r < 1 / 2 \<or> r = 1 / 2 \<and> even f then f else f + 1)"

definition double_of :: "rat \<Rightarrow> rat" where
  "double_of x =
     (if x = 0 then 0
      else let e = max (- 1074) (log2_floor \<bar>x\<bar> - 52) in of_int (round_even (x / 2 powi e)) * 2 powi e)"

definition add_double :: "rat \<Rightarrow> rat \<Rightarrow> rat" where
  "add_double x y = double_of (x + y)"

lemma log2_floor_int: "0 < i \<Longrightarrow> log2_floor (of_int i) = bitlen i - 1"
proof -
  assume i: "0 < i"
  have "bitlen i \<noteq> 0" using i by (simp add: bitlen_eq_zero_iff)
  then have k: "0 \<le> bitlen i - 1" using bitlen_nonneg [of i] by linarith
  have one: "bitlen 1 = 1" using bitlen_pow2 [of 1 0] by (simp add: compute_bitlen [of 1])
  have "(2 powi (bitlen i - 1) :: rat) = of_int (2 ^ nat (bitlen i - 1))" using k by (simp add: power_int_def)
  also have "\<dots> \<le> of_int i" using bitlen_bounds [OF i] by (simp only: of_int_le_iff)
  finally have "(2 powi (bitlen i - 1) :: rat) \<le> of_int i" .
  then show ?thesis by (simp add: log2_floor_def one)
qed

lemma double_of_int: "\<bar>i\<bar> < 2 ^ 53 \<Longrightarrow> double_of (of_int i) = of_int i"
proof (cases "i = 0")
  case False
  assume "\<bar>i\<bar> < 2 ^ 53"
  have pos: "0 < \<bar>i\<bar>" using False by simp
  have "2 ^ nat (bitlen \<bar>i\<bar> - 1) < (2 ^ 53 :: int)"
    using bitlen_bounds [OF pos] \<open>\<bar>i\<bar> < 2 ^ 53\<close> by linarith
  then have b: "bitlen \<bar>i\<bar> \<le> 53" using power_less_imp_less_exp [of "2::int" "nat (bitlen \<bar>i\<bar> - 1)" 53] by simp
  define m where "m = nat (53 - bitlen \<bar>i\<bar>)"
  have "max (- 1074) (log2_floor \<bar>of_int i\<bar> - 52) = - int m"
    using b bitlen_nonneg [of "\<bar>i\<bar>"] log2_floor_int [OF pos] by (simp add: m_def)
  then have d: "double_of (of_int i) = of_int (round_even (of_int i / 2 powi (- int m))) * 2 powi (- int m)"
    using False by (simp add: double_of_def Let_def)
  have "(of_int i / 2 powi (- int m) :: rat) = of_int (i * 2 ^ m)"
    by (simp add: power_int_minus divide_inverse)
  moreover have "round_even (of_int z) = z" for z by (simp add: round_even_def Let_def)
  ultimately have "double_of (of_int i) = of_int (i * 2 ^ m) * 2 powi (- int m)" using d by (simp only:)
  then show ?thesis by (simp add: power_int_minus)
qed (simp add: double_of_def)

text \<open>The running sum of a counter: exact as long as it counts in whole numbers below \<open>2 ^ 53\<close>.\<close>

definition double_sum :: "rat list \<Rightarrow> rat" where
  "double_sum xs = foldl add_double 0 xs"

lemma double_sum_snoc [simp]: "double_sum (xs @ [x]) = add_double (double_sum xs) x" "double_sum [] = 0"
  by (simp_all add: double_sum_def)

lemma double_sum_whole: "sum_list ks < 2 ^ 53 \<Longrightarrow> double_sum (map of_nat ks) = of_nat (sum_list ks)"
proof (induction ks rule: rev_induct)
  case (snoc k ks)
  have "\<bar>int (sum_list (ks @ [k]))\<bar> < 2 ^ 53" using snoc.prems by (simp only: abs_of_nat) (simp flip: of_nat_add)
  from double_of_int [OF this] show ?case using snoc by (simp add: add_double_def)
qed simp

subsection \<open>Labels\<close>

type_synonym labels = "(string \<times> jsval) list"

definition label_names :: "labels \<Rightarrow> string list" where
  "label_names ls = sort (map fst ls)"

definition label_value :: "labels \<Rightarrow> string \<Rightarrow> jsval" where
  "label_value ls k = (case map_of ls k of Some v \<Rightarrow> v | None \<Rightarrow> undef)"

definition escape_label :: "(jsnum \<Rightarrow> jsstr) \<Rightarrow> jsval \<Rightarrow> jsstr" where
  "escape_label ns v =
     concat (map (\<lambda>u. if u = 92 then [92, 92] else if u = 34 then [92, 34] else if u = 10 then [92, 110] else [u])
       (take 128 (if nullish v then [] else prop_name ns v)))"

fun join_js :: "jsstr \<Rightarrow> jsstr list \<Rightarrow> jsstr" where
  "join_js sep [] = []"
| "join_js sep [p] = p"
| "join_js sep (p # q # ps) = p @ sep @ join_js sep (q # ps)"

definition label_key :: "(jsnum \<Rightarrow> jsstr) \<Rightarrow> labels \<Rightarrow> jsstr" where
  "label_key ns ls = join_js [31] (map (\<lambda>k. js k @ [61] @ prop_name ns (label_value ls k)) (label_names ls))"

definition format_labels :: "(jsnum \<Rightarrow> jsstr) \<Rightarrow> labels \<Rightarrow> jsstr" where
  "format_labels ns ls =
     (if ls = [] then []
      else [123] @ join_js [44] (map (\<lambda>k. js k @ [61, 34] @ escape_label ns (label_value ls k) @ [34]) (label_names ls))
        @ [125])"

subsection \<open>The registry\<close>

record slot =
  sl_labels :: labels
  sl_value :: rat

record hist =
  hs_labels :: labels
  hs_sum :: rat
  hs_count :: nat
  hs_buckets :: "(rat \<times> nat) list"

record registry =
  counters :: "(string \<times> (jsstr \<times> slot) list) list"
  gauges :: "(string \<times> (jsstr \<times> slot) list) list"
  histograms :: "(string \<times> (jsstr \<times> hist) list) list"
  counter_help :: "string \<Rightarrow> string"
  gauge_help :: "string \<Rightarrow> string"
  hist_help :: "string \<Rightarrow> string"

definition HTTP_BUCKETS :: "rat list" where
  "HTTP_BUCKETS = [1/1000, 5/1000, 1/100, 25/1000, 5/100, 1/10, 25/100, 5/10, 1, 25/10, 5, 10]"

definition create_metrics :: registry where
  "create_metrics = \<lparr>counters = [], gauges = [], histograms = [], counter_help = (\<lambda>_. []),
     gauge_help = (\<lambda>_. []), hist_help = (\<lambda>_. [])\<rparr>"

text \<open>\<open>_counterSlot\<close>, \<open>_gaugeSlot\<close> and \<open>_histSlot\<close> share their shape: the family of a name and the slot
  of a label key, either made when it is missing; \<open>f\<close> is what the caller does to the slot.\<close>

definition at_slot :: "string \<Rightarrow> jsstr \<Rightarrow> 'a \<Rightarrow> ('a \<Rightarrow> 'a) \<Rightarrow> (string \<times> (jsstr \<times> 'a) list) list \<Rightarrow>
    (string \<times> (jsstr \<times> 'a) list) list" where
  "at_slot name k fresh f m =
     (let fam = (case map_of m name of Some g \<Rightarrow> g | None \<Rightarrow> []);
          sl = (case map_of fam k of Some x \<Rightarrow> x | None \<Rightarrow> fresh)
      in AList.update name (AList.update k (f sl) fam) m)"

definition get_slot :: "string \<Rightarrow> jsstr \<Rightarrow> (string \<times> (jsstr \<times> 'a) list) list \<Rightarrow> 'a option" where
  "get_slot name k m = (case map_of m name of None \<Rightarrow> None | Some fam \<Rightarrow> map_of fam k)"

definition declare_counter :: "string \<Rightarrow> string \<Rightarrow> registry \<Rightarrow> registry" where
  "declare_counter name help r = r\<lparr>counter_help := (counter_help r)(name := help)\<rparr>"

definition declare_gauge :: "string \<Rightarrow> string \<Rightarrow> registry \<Rightarrow> registry" where
  "declare_gauge name help r = r\<lparr>gauge_help := (gauge_help r)(name := help)\<rparr>"

definition declare_histogram :: "string \<Rightarrow> string \<Rightarrow> registry \<Rightarrow> registry" where
  "declare_histogram name help r = r\<lparr>hist_help := (hist_help r)(name := help)\<rparr>"

definition counter_inc :: "(jsnum \<Rightarrow> jsstr) \<Rightarrow> string \<Rightarrow> labels \<Rightarrow> rat \<Rightarrow> registry \<Rightarrow> registry" where
  "counter_inc ns name ls by_amount r =
     r\<lparr>counters := at_slot name (label_key ns ls) \<lparr>sl_labels = ls, sl_value = 0\<rparr>
         (\<lambda>s. s\<lparr>sl_value := add_double (sl_value s) by_amount\<rparr>) (counters r)\<rparr>"

definition gauge_set :: "(jsnum \<Rightarrow> jsstr) \<Rightarrow> string \<Rightarrow> labels \<Rightarrow> rat \<Rightarrow> registry \<Rightarrow> registry" where
  "gauge_set ns name ls val r =
     r\<lparr>gauges := at_slot name (label_key ns ls) \<lparr>sl_labels = ls, sl_value = 0\<rparr>
         (\<lambda>s. s\<lparr>sl_value := val\<rparr>) (gauges r)\<rparr>"

definition gauge_add :: "(jsnum \<Rightarrow> jsstr) \<Rightarrow> string \<Rightarrow> labels \<Rightarrow> rat \<Rightarrow> registry \<Rightarrow> registry" where
  "gauge_add ns name ls by_amount r =
     r\<lparr>gauges := at_slot name (label_key ns ls) \<lparr>sl_labels = ls, sl_value = 0\<rparr>
         (\<lambda>s. s\<lparr>sl_value := add_double (sl_value s) by_amount\<rparr>) (gauges r)\<rparr>"

text \<open>\<open>dec\<close> subtracts: it adds the negated amount, which rounds alike.\<close>

definition gauge_dec :: "(jsnum \<Rightarrow> jsstr) \<Rightarrow> string \<Rightarrow> labels \<Rightarrow> rat \<Rightarrow> registry \<Rightarrow> registry" where
  "gauge_dec ns name ls by_amount r = gauge_add ns name ls (- by_amount) r"

definition observe_slot :: "rat \<Rightarrow> hist \<Rightarrow> hist" where
  "observe_slot v s = s\<lparr>hs_sum := add_double (hs_sum s) v, hs_count := hs_count s + 1,
     hs_buckets := map (\<lambda>(le, n). (le, if v \<le> le then n + 1 else n)) (hs_buckets s)\<rparr>"

definition observe :: "(jsnum \<Rightarrow> jsstr) \<Rightarrow> rat list \<Rightarrow> string \<Rightarrow> labels \<Rightarrow> rat \<Rightarrow> registry \<Rightarrow> registry" where
  "observe ns bks name ls v r =
     r\<lparr>histograms := at_slot name (label_key ns ls)
         \<lparr>hs_labels = ls, hs_sum = 0, hs_count = 0, hs_buckets = map (\<lambda>le. (le, 0)) bks\<rparr>
         (observe_slot v) (histograms r)\<rparr>"

subsection \<open>The text exposition\<close>

definition head_lines :: "string \<Rightarrow> string \<Rightarrow> string \<Rightarrow> jsstr list" where
  "head_lines name help kind =
     (if help \<noteq> [] then [js (''# HELP '' @ name @ '' '' @ help)] else []) @ [js (''# TYPE '' @ name @ '' '' @ kind)]"

definition slot_line :: "(jsnum \<Rightarrow> jsstr) \<Rightarrow> string \<Rightarrow> slot \<Rightarrow> jsstr" where
  "slot_line ns name s = js name @ format_labels ns (sl_labels s) @ [32] @ ns (Finite (sl_value s))"

definition hist_lines :: "(jsnum \<Rightarrow> jsstr) \<Rightarrow> string \<Rightarrow> hist \<Rightarrow> jsstr list" where
  "hist_lines ns name s =
     map (\<lambda>(le, n). js (name @ ''_bucket'') @ format_labels ns (AList.update ''le'' (JNum (Finite le)) (hs_labels s)) @
       [32] @ ns (Finite (of_nat n))) (hs_buckets s) @
     [js (name @ ''_bucket'') @ format_labels ns (AList.update ''le'' (str ''+Inf'') (hs_labels s)) @ [32] @ ns (Finite (of_nat (hs_count s))),
      js (name @ ''_sum'') @ format_labels ns (hs_labels s) @ [32] @ ns (Finite (hs_sum s)),
      js (name @ ''_count'') @ format_labels ns (hs_labels s) @ [32] @ ns (Finite (of_nat (hs_count s)))]"

definition render_lines :: "(jsnum \<Rightarrow> jsstr) \<Rightarrow> registry \<Rightarrow> jsstr list" where
  "render_lines ns r =
     concat (map (\<lambda>(name, fam). head_lines name (counter_help r name) ''counter'' @ map (\<lambda>(_, s). slot_line ns name s) fam) (counters r)) @
     concat (map (\<lambda>(name, fam). head_lines name (gauge_help r name) ''gauge'' @ map (\<lambda>(_, s). slot_line ns name s) fam) (gauges r)) @
     concat (map (\<lambda>(name, fam). head_lines name (hist_help r name) ''histogram'' @ concat (map (\<lambda>(_, s). hist_lines ns name s) fam)) (histograms r))"

definition render :: "(jsnum \<Rightarrow> jsstr) \<Rightarrow> registry \<Rightarrow> jsstr" where
  "render ns r = join_js [10] (render_lines ns r) @ [10]"

definition load_metrics_config :: "(string \<Rightarrow> string option) \<Rightarrow> bool \<times> bool" where
  "load_metrics_config env =
     (env ''QV_METRICS_DISABLED'' \<noteq> Some ''true'', env ''QV_METRICS_PUBLIC'' = Some ''true'')"

subsection \<open>What the slots count\<close>

lemma get_at_slot [simp]:
  "get_slot n k' (at_slot name k fresh f m) =
     (if n = name \<and> k' = k then Some (f (case get_slot name k m of Some x \<Rightarrow> x | None \<Rightarrow> fresh)) else get_slot n k' m)"
  by (auto simp: get_slot_def at_slot_def Let_def update_conv' split: option.splits)

lemma update_set: "x \<in> set (AList.update k v al) \<Longrightarrow> x = (k, v) \<or> x \<in> set al"
  by (induction al) (auto split: if_splits)

subsection \<open>When two label objects are the same\<close>

text \<open>Label objects are the same when they have the same names with the same texts. A label is clean when
  its name has no equals sign, and neither its name nor its text has the separator \<open>\x1f\<close>.\<close>

definition label_pairs :: "(jsnum \<Rightarrow> jsstr) \<Rightarrow> labels \<Rightarrow> (string \<times> jsstr) set" where
  "label_pairs ns ls = set (map (\<lambda>(k, v). (k, prop_name ns v)) ls)"

definition same_labels :: "(jsnum \<Rightarrow> jsstr) \<Rightarrow> labels \<Rightarrow> labels \<Rightarrow> bool" where
  "same_labels ns ls ls' \<longleftrightarrow> label_pairs ns ls = label_pairs ns ls'"

definition clean_labels :: "(jsnum \<Rightarrow> jsstr) \<Rightarrow> labels \<Rightarrow> bool" where
  "clean_labels ns ls \<longleftrightarrow> distinct (map fst ls) \<and>
     (\<forall>(k, v) \<in> set ls. 61 \<notin> set (js k) \<and> 31 \<notin> set (js k) \<and> 31 \<notin> set (prop_name ns v))"

lemma split_at_first:
  assumes "a @ [x] @ b = a' @ [x] @ b'" "x \<notin> set a" "x \<notin> set a'"
  shows "a = a' \<and> b = b'"
  using assms
proof (induction a arbitrary: a')
  case Nil
  then show ?case by (cases a') auto
next
  case (Cons y a)
  then show ?case by (cases a') auto
qed

lemma join_js_Cons: "join_js s (p # ps) = p @ (if ps = [] then [] else s @ join_js s ps)"
  by (cases ps) simp_all

lemma join_js_inj:
  "join_js [x] ps = join_js [x] qs \<Longrightarrow> \<forall>p \<in> set ps \<union> set qs. p \<noteq> [] \<and> x \<notin> set p \<Longrightarrow> ps = qs"
proof (induction ps arbitrary: qs)
  case Nil
  then show ?case by (cases qs) (auto simp: join_js_Cons split: if_splits)
next
  case (Cons p ps)
  have "qs \<noteq> []" using Cons.prems by (auto simp: join_js_Cons split: if_splits)
  then obtain q rs where q: "qs = q # rs" by (cases qs) auto
  have x: "x \<notin> set p" "x \<notin> set q" using Cons.prems(2) q by auto
  have e: "p @ (if ps = [] then [] else [x] @ join_js [x] ps) = q @ (if rs = [] then [] else [x] @ join_js [x] rs)"
    using Cons.prems(1) q by (simp only: join_js_Cons)
  consider "ps = []" "rs = []" | "ps = []" "rs \<noteq> []" | "ps \<noteq> []" "rs = []" | "ps \<noteq> []" "rs \<noteq> []" by blast
  then show ?case
  proof cases
    case 1
    then show ?thesis using e q by simp
  next
    case 2
    then have "p = q @ [x] @ join_js [x] rs" using e by simp
    then have "x \<in> set p" by simp
    then show ?thesis using x by simp
  next
    case 3
    then have "q = p @ [x] @ join_js [x] ps" using e by simp
    then have "x \<in> set q" by simp
    then show ?thesis using x by simp
  next
    case 4
    then have "p = q \<and> join_js [x] ps = join_js [x] rs" using e x by (intro split_at_first) simp_all
    then show ?thesis using Cons.IH [of rs] Cons.prems(2) q by simp
  qed
qed

lemma label_value_pair: "distinct (map fst ls) \<Longrightarrow> (k, v) \<in> set ls \<Longrightarrow> label_value ls k = v"
  by (simp add: label_value_def)

lemma label_pairs_value:
  "distinct (map fst ls) \<Longrightarrow>
   label_pairs ns ls = (\<lambda>k. (k, prop_name ns (label_value ls k))) ` set (label_names ls)"
  unfolding label_pairs_def label_names_def set_sort set_map image_image
  by (rule image_cong [OF refl]) (auto simp: label_value_pair)

definition label_part :: "(jsnum \<Rightarrow> jsstr) \<Rightarrow> labels \<Rightarrow> string \<Rightarrow> jsstr" where
  "label_part ns ls k = js k @ [61] @ prop_name ns (label_value ls k)"

lemma label_key_parts: "label_key ns ls = join_js [31] (map (label_part ns ls) (label_names ls))"
  by (simp add: label_key_def label_part_def [abs_def])

lemma clean_part:
  assumes "clean_labels ns ls" "k \<in> set (label_names ls)"
  shows "label_part ns ls k \<noteq> [] \<and> 31 \<notin> set (label_part ns ls k) \<and> 61 \<notin> set (js k)"
proof -
  have d: "distinct (map fst ls)" and c: "\<And>k v. (k, v) \<in> set ls \<Longrightarrow>
      61 \<notin> set (js k) \<and> 31 \<notin> set (js k) \<and> 31 \<notin> set (prop_name ns v)"
    using assms(1) unfolding clean_labels_def by auto
  obtain v where v: "(k, v) \<in> set ls" using assms(2) by (auto simp: label_names_def)
  show ?thesis using c [OF v] label_value_pair [OF d v] by (auto simp: label_part_def)
qed

lemma label_key_same:
  assumes "clean_labels ns ls" "clean_labels ns ls'"
  shows "label_key ns ls = label_key ns ls' \<longleftrightarrow> same_labels ns ls ls'"
proof
  assume "label_key ns ls = label_key ns ls'"
  then have parts: "map (label_part ns ls) (label_names ls) = map (label_part ns ls') (label_names ls')"
    unfolding label_key_parts by (rule join_js_inj) (use clean_part assms in auto)
  have eq: "k = k' \<and> prop_name ns (label_value ls k) = prop_name ns (label_value ls' k')"
    if "label_part ns ls k = label_part ns ls' k'" "k \<in> set (label_names ls)" "k' \<in> set (label_names ls')" for k k'
    using split_at_first [of "js k" 61 _ "js k'"] that clean_part [OF assms(1) that(2)] clean_part [OF assms(2) that(3)]
    unfolding label_part_def js_inj by blast
  have "list_all2 (=) (map (label_part ns ls) (label_names ls)) (map (label_part ns ls') (label_names ls'))"
    unfolding parts by (simp add: list_all2_refl)
  then have "list_all2 (\<lambda>k k'. label_part ns ls k = label_part ns ls' k') (label_names ls) (label_names ls')"
    by (simp only: list_all2_map1 list_all2_map2)
  then have "list_all2 (\<lambda>k k'. k = k' \<and> prop_name ns (label_value ls k) = prop_name ns (label_value ls' k'))
      (label_names ls) (label_names ls')"
    by (rule list.rel_mono_strong) (use eq in simp)
  then have "(\<lambda>k. (k, prop_name ns (label_value ls k))) ` set (label_names ls) =
      (\<lambda>k. (k, prop_name ns (label_value ls' k))) ` set (label_names ls')"
    by (induction rule: list_all2_induct) auto
  then show "same_labels ns ls ls'"
    using assms by (simp add: same_labels_def label_pairs_value clean_labels_def)
next
  assume same: "same_labels ns ls ls'"
  have d: "distinct (map fst ls)" "distinct (map fst ls')" using assms by (simp_all add: clean_labels_def)
  have pairs: "label_pairs ns ls = label_pairs ns ls'" using same by (simp add: same_labels_def)
  have "fst ` label_pairs ns ls = set (map fst ls)" for ls by (force simp: label_pairs_def)
  then have "set (map fst ls) = set (map fst ls')" using pairs by metis
  then have names: "label_names ls = label_names ls'"
    unfolding label_names_def using d by (metis sorted_list_of_set_sort_remdups distinct_remdups_id)
  have "prop_name ns (label_value ls k) = prop_name ns (label_value ls' k)" if "k \<in> set (label_names ls)" for k
    using pairs that names unfolding label_pairs_value [OF d(1)] label_pairs_value [OF d(2)] by auto
  then show "label_key ns ls = label_key ns ls'"
    unfolding label_key_def names by (metis (mono_tags, lifting) map_cong names)
qed

text \<open>A label text never breaks a line or closes its quotes: every quote it contains comes after a
  backslash that is not itself escaped.\<close>

fun quote_safe :: "jsstr \<Rightarrow> bool" where
  "quote_safe [] = True"
| "quote_safe [u] = (u \<noteq> 34 \<and> u \<noteq> 92 \<and> u \<noteq> 10)"
| "quote_safe (u # v # us) =
     (if u = 92 then v \<noteq> 10 \<and> quote_safe us else u \<noteq> 34 \<and> u \<noteq> 10 \<and> quote_safe (v # us))"

lemma escape_safe: "quote_safe (escape_label ns v)"
proof -
  have "quote_safe (concat (map (\<lambda>u. if u = 92 then [92, 92] else if u = 34 then [92, 34] else if u = 10 then [92, 110] else [u]) us))"
    for us :: jsstr
  proof (induction us)
    case (Cons u us)
    have plain: "quote_safe (u # r)" if "u \<noteq> 92" "u \<noteq> 34" "u \<noteq> 10" "quote_safe r" for r
      using that by (cases r) auto
    then show ?case using Cons by auto
  qed simp
  then show ?thesis by (simp add: escape_label_def)
qed


subsection \<open>What the registry shows of a label object\<close>

text \<open>The slots that the exposition prints under a name for labels that are the same, in its order.\<close>

definition shown_slots :: "(jsnum \<Rightarrow> jsstr) \<Rightarrow> ('a \<Rightarrow> labels) \<Rightarrow> string \<Rightarrow> labels \<Rightarrow>
    (string \<times> (jsstr \<times> 'a) list) list \<Rightarrow> 'a list" where
  "shown_slots ns sel name ls m =
     concat (map (\<lambda>(n, fam). if n = name then filter (\<lambda>s. same_labels ns (sel s) ls) (map snd fam) else []) m)"

definition keyed_family :: "(jsnum \<Rightarrow> jsstr) \<Rightarrow> ('a \<Rightarrow> labels) \<Rightarrow> (jsstr \<times> 'a) list \<Rightarrow> bool" where
  "keyed_family ns sel fam \<longleftrightarrow> distinct (map fst fam) \<and>
     (\<forall>x \<in> set fam. clean_labels ns (sel (snd x)) \<and> fst x = label_key ns (sel (snd x)))"

definition keyed :: "(jsnum \<Rightarrow> jsstr) \<Rightarrow> ('a \<Rightarrow> labels) \<Rightarrow> (string \<times> (jsstr \<times> 'a) list) list \<Rightarrow> bool" where
  "keyed ns sel m \<longleftrightarrow> distinct (map fst m) \<and> (\<forall>x \<in> set m. keyed_family ns sel (snd x))"

lemma concat_family:
  "distinct (map fst m) \<Longrightarrow>
   concat (map (\<lambda>(n, fam). if n = name then f fam else []) m) = (case map_of m name of Some fam \<Rightarrow> f fam | None \<Rightarrow> [])"
proof (induction m)
  case (Cons x m)
  have none: "name \<notin> fst ` set m \<Longrightarrow> concat (map (\<lambda>(n, fam). if n = name then f fam else []) m) = []"
    by (force simp: concat_eq_Nil_conv)
  show ?case
  proof (cases "fst x = name")
    case True
    then show ?thesis using Cons.prems none by (cases x) (auto simp: image_iff)
  qed (use Cons in \<open>cases x; simp\<close>)
qed simp

lemma filter_family:
  "distinct (map fst fam) \<Longrightarrow> \<forall>(k, s) \<in> set fam. P s \<longleftrightarrow> k = k0 \<Longrightarrow>
   filter P (map snd fam) = (case map_of fam k0 of Some s \<Rightarrow> [s] | None \<Rightarrow> [])"
proof (induction fam)
  case (Cons x fam)
  obtain k s where x: "x = (k, s)" by force
  show ?case
  proof (cases "k = k0")
    case True
    then have "map_of fam k0 = None" using Cons.prems(1) by (auto simp: x map_of_eq_None_iff)
    then show ?thesis using Cons True by (auto simp: x)
  qed (use Cons in \<open>auto simp: x\<close>)
qed simp

lemma shown_slots_get:
  assumes "keyed ns sel m" "clean_labels ns ls"
  shows "shown_slots ns sel name ls m = (case get_slot name (label_key ns ls) m of Some s \<Rightarrow> [s] | None \<Rightarrow> [])"
proof -
  have "distinct (map fst m)" using assms(1) by (simp add: keyed_def)
  then have shown: "shown_slots ns sel name ls m =
      (case map_of m name of Some fam \<Rightarrow> filter (\<lambda>s. same_labels ns (sel s) ls) (map snd fam) | None \<Rightarrow> [])"
    unfolding shown_slots_def by (rule concat_family)
  show ?thesis
  proof (cases "map_of m name")
    case (Some fam)
    from map_of_SomeD [OF this] have fam: "keyed_family ns sel fam"
      using assms(1) unfolding keyed_def by (metis snd_conv)
    then have d: "distinct (map fst fam)" by (simp add: keyed_family_def)
    have "same_labels ns (sel s) ls \<longleftrightarrow> k = label_key ns ls" if "(k, s) \<in> set fam" for k s
      using fam that label_key_same [OF _ assms(2), of "sel s"] unfolding keyed_family_def by (metis fst_conv snd_conv)
    then have "\<forall>(k, s) \<in> set fam. same_labels ns (sel s) ls \<longleftrightarrow> k = label_key ns ls" by blast
    from filter_family [OF d this] show ?thesis unfolding shown using Some by (simp add: get_slot_def)
  qed (simp add: get_slot_def shown)
qed

lemma keyed_at_slot:
  assumes "keyed ns sel m" "clean_labels ns ls" "sel fresh = ls" "\<And>s. sel (f s) = sel s"
  shows "keyed ns sel (at_slot name (label_key ns ls) fresh f m)"
proof -
  define fam where "fam = (case map_of m name of Some g \<Rightarrow> g | None \<Rightarrow> [])"
  define sl where "sl = (case map_of fam (label_key ns ls) of Some x \<Rightarrow> x | None \<Rightarrow> fresh)"
  have fam: "keyed_family ns sel fam"
  proof (cases "map_of m name")
    case (Some g)
    from map_of_SomeD [OF this] show ?thesis using assms(1) Some unfolding keyed_def fam_def by (metis option.simps(5) snd_conv)
  qed (simp add: fam_def keyed_family_def)
  have sl: "clean_labels ns (sel sl) \<and> label_key ns ls = label_key ns (sel sl)"
  proof (cases "map_of fam (label_key ns ls)")
    case (Some g)
    from map_of_SomeD [OF this] show ?thesis
      using fam Some unfolding sl_def keyed_family_def by (metis fst_conv option.simps(5) snd_conv)
  qed (use assms(2,3) in \<open>simp add: sl_def\<close>)
  have "keyed_family ns sel (AList.update (label_key ns ls) (f sl) fam)"
    using fam sl assms(4) update_set [of _ "label_key ns ls" "f sl" fam]
    unfolding keyed_family_def by (metis distinct_update fst_conv snd_conv)
  then have "keyed ns sel (AList.update name (AList.update (label_key ns ls) (f sl) fam) m)"
    using assms(1) update_set [of _ name "AList.update (label_key ns ls) (f sl) fam" m]
    unfolding keyed_def by (metis distinct_update snd_conv)
  then show ?thesis by (simp add: at_slot_def Let_def fam_def sl_def)
qed

subsection \<open>Runs\<close>

datatype metric_op =
  OpInc string labels rat | OpSet string labels rat | OpAdd string labels rat | OpDec string labels rat | OpObserve string labels rat

fun metric_step :: "(jsnum \<Rightarrow> jsstr) \<Rightarrow> rat list \<Rightarrow> registry \<Rightarrow> metric_op \<Rightarrow> registry" where
  "metric_step ns bks r (OpInc n ls a) = counter_inc ns n ls a r"
| "metric_step ns bks r (OpSet n ls v) = gauge_set ns n ls v r"
| "metric_step ns bks r (OpAdd n ls a) = gauge_add ns n ls a r"
| "metric_step ns bks r (OpDec n ls a) = gauge_dec ns n ls a r"
| "metric_step ns bks r (OpObserve n ls v) = observe ns bks n ls v r"

definition metric_run :: "(jsnum \<Rightarrow> jsstr) \<Rightarrow> rat list \<Rightarrow> metric_op list \<Rightarrow> registry" where
  "metric_run ns bks ops = foldl (metric_step ns bks) create_metrics ops"

fun op_labels :: "metric_op \<Rightarrow> labels" where
  "op_labels (OpInc n ls a) = ls"
| "op_labels (OpSet n ls v) = ls"
| "op_labels (OpAdd n ls a) = ls"
| "op_labels (OpDec n ls a) = ls"
| "op_labels (OpObserve n ls v) = ls"

text \<open>What the updates say of a name and labels: the increments of a counter, in order; the last value
  of a gauge; the observations of a histogram.\<close>

definition increments :: "(jsnum \<Rightarrow> jsstr) \<Rightarrow> string \<Rightarrow> labels \<Rightarrow> metric_op list \<Rightarrow> rat list" where
  "increments ns n ls ops = concat (map (\<lambda>op. case op of
     OpInc n' ls' a \<Rightarrow> if n' = n \<and> same_labels ns ls' ls then [a] else [] | _ \<Rightarrow> []) ops)"

definition observations :: "(jsnum \<Rightarrow> jsstr) \<Rightarrow> string \<Rightarrow> labels \<Rightarrow> metric_op list \<Rightarrow> rat list" where
  "observations ns n ls ops = concat (map (\<lambda>op. case op of
     OpObserve n' ls' v \<Rightarrow> if n' = n \<and> same_labels ns ls' ls then [v] else [] | _ \<Rightarrow> []) ops)"

definition adjust :: "rat \<Rightarrow> rat option \<Rightarrow> rat" where
  "adjust a g = add_double (case g of Some x \<Rightarrow> x | None \<Rightarrow> 0) a"

definition gauge_level :: "(jsnum \<Rightarrow> jsstr) \<Rightarrow> string \<Rightarrow> labels \<Rightarrow> metric_op list \<Rightarrow> rat option" where
  "gauge_level ns n ls ops = foldl (\<lambda>g op. case op of
       OpSet n' ls' v \<Rightarrow> if n' = n \<and> same_labels ns ls' ls then Some v else g
     | OpAdd n' ls' a \<Rightarrow> if n' = n \<and> same_labels ns ls' ls then Some (adjust a g) else g
     | OpDec n' ls' a \<Rightarrow> if n' = n \<and> same_labels ns ls' ls then Some (adjust (- a) g) else g
     | _ \<Rightarrow> g) None ops"

definition count_le :: "rat list \<Rightarrow> rat \<Rightarrow> nat" where
  "count_le vs le = length (filter (\<lambda>v. v \<le> le) vs)"

definition tallied :: "rat list \<Rightarrow> rat list \<Rightarrow> hist \<Rightarrow> bool" where
  "tallied bks vs s \<longleftrightarrow> hs_count s = length vs \<and> hs_sum s = double_sum vs \<and>
     hs_buckets s = map (\<lambda>le. (le, count_le vs le)) bks"

lemma tallied_observe: "tallied bks vs s \<Longrightarrow> tallied bks (vs @ [v]) (observe_slot v s)"
  by (auto simp: tallied_def observe_slot_def count_le_def)

lemma run_snoc: "metric_run ns bks (ops @ [x]) = metric_step ns bks (metric_run ns bks ops) x"
  by (simp add: metric_run_def)

lemma spec_snoc:
  "increments ns n ls (ops @ [x]) = increments ns n ls ops @ increments ns n ls [x]"
  "observations ns n ls (ops @ [x]) = observations ns n ls ops @ observations ns n ls [x]"
  by (simp_all add: increments_def observations_def)

lemma keyed_run:
  "\<forall>op \<in> set ops. clean_labels ns (op_labels op) \<Longrightarrow>
   keyed ns sl_labels (counters (metric_run ns bks ops)) \<and> keyed ns sl_labels (gauges (metric_run ns bks ops)) \<and>
   keyed ns hs_labels (histograms (metric_run ns bks ops))"
proof (induction ops rule: rev_induct)
  case (snoc x ops)
  then show ?case
    by (cases x) (simp_all add: run_snoc counter_inc_def gauge_set_def gauge_add_def gauge_dec_def observe_def
        observe_slot_def keyed_at_slot)
qed (simp add: metric_run_def create_metrics_def keyed_def)

lemma label_key_clean:
  assumes "clean_labels ns ls'" "clean_labels ns ls"
  shows "label_key ns ls = label_key ns ls' \<longleftrightarrow> same_labels ns ls' ls"
  using label_key_same [OF assms] by metis

lemma increments_one [simp]:
  "increments ns n ls [] = []"
  "increments ns n ls [OpInc n' ls' a] = (if n' = n \<and> same_labels ns ls' ls then [a] else [])"
  "increments ns n ls [OpSet n' ls' a] = []" "increments ns n ls [OpAdd n' ls' a] = []"
  "increments ns n ls [OpDec n' ls' a] = []" "increments ns n ls [OpObserve n' ls' a] = []"
  by (simp_all add: increments_def)

lemma observations_one [simp]:
  "observations ns n ls [] = []"
  "observations ns n ls [OpObserve n' ls' a] = (if n' = n \<and> same_labels ns ls' ls then [a] else [])"
  "observations ns n ls [OpSet n' ls' a] = []" "observations ns n ls [OpAdd n' ls' a] = []"
  "observations ns n ls [OpDec n' ls' a] = []" "observations ns n ls [OpInc n' ls' a] = []"
  by (simp_all add: observations_def)

lemma step_parts [simp]:
  "counters (gauge_set ns n ls v r) = counters r" "counters (gauge_add ns n ls v r) = counters r"
  "counters (gauge_dec ns n ls v r) = counters r" "counters (observe ns bks n ls v r) = counters r"
  "gauges (counter_inc ns n ls v r) = gauges r" "gauges (observe ns bks n ls v r) = gauges r"
  "histograms (counter_inc ns n ls v r) = histograms r" "histograms (gauge_set ns n ls v r) = histograms r"
  "histograms (gauge_add ns n ls v r) = histograms r" "histograms (gauge_dec ns n ls v r) = histograms r"
  by (simp_all add: counter_inc_def gauge_set_def gauge_add_def gauge_dec_def observe_def)

lemma counter_run:
  assumes "clean_labels ns ls" "\<forall>op \<in> set ops. clean_labels ns (op_labels op)"
  shows "map_option sl_value (get_slot n (label_key ns ls) (counters (metric_run ns bks ops))) =
    (if increments ns n ls ops = [] then None else Some (double_sum (increments ns n ls ops)))"
  using assms(2)
proof (induction ops rule: rev_induct)
  case (snoc x ops)
  let ?g = "get_slot n (label_key ns ls) (counters (metric_run ns bks ops))"
  have IH: "map_option sl_value ?g = (if increments ns n ls ops = [] then None else Some (double_sum (increments ns n ls ops)))"
    using snoc by simp
  show ?case
  proof (cases x)
    case (OpInc n' ls' a)
    have "clean_labels ns ls'" using snoc.prems OpInc by simp
    from label_key_clean [OF this assms(1)]
    have "get_slot n (label_key ns ls) (counters (metric_run ns bks (ops @ [x]))) =
        (if n' = n \<and> same_labels ns ls' ls
         then Some ((case ?g of Some s \<Rightarrow> s | None \<Rightarrow> \<lparr>sl_labels = ls', sl_value = 0\<rparr>)
                \<lparr>sl_value := add_double (sl_value (case ?g of Some s \<Rightarrow> s | None \<Rightarrow> \<lparr>sl_labels = ls', sl_value = 0\<rparr>)) a\<rparr>)
         else ?g)"
      by (auto simp: OpInc run_snoc counter_inc_def)
    then show ?thesis using IH by (cases ?g) (auto simp: OpInc spec_snoc split: if_splits)
  qed (use IH in \<open>simp_all add: run_snoc spec_snoc\<close>)
qed (simp add: metric_run_def create_metrics_def get_slot_def)

lemma gauge_run:
  assumes "clean_labels ns ls" "\<forall>op \<in> set ops. clean_labels ns (op_labels op)"
  shows "map_option sl_value (get_slot n (label_key ns ls) (gauges (metric_run ns bks ops))) = gauge_level ns n ls ops"
  using assms(2)
proof (induction ops rule: rev_induct)
  case (snoc x ops)
  let ?g = "get_slot n (label_key ns ls) (gauges (metric_run ns bks ops))"
  have IH: "gauge_level ns n ls ops = map_option sl_value ?g" using snoc by simp
  have key: "label_key ns ls = label_key ns (op_labels x) \<longleftrightarrow> same_labels ns (op_labels x) ls"
    using label_key_clean [OF _ assms(1)] snoc.prems by simp
  show ?case
    using key IH
    by (cases x; cases ?g) (auto simp: run_snoc gauge_level_def adjust_def gauge_set_def gauge_add_def gauge_dec_def)
qed (simp add: metric_run_def create_metrics_def get_slot_def gauge_level_def)

lemma hist_run:
  assumes "clean_labels ns ls" "\<forall>op \<in> set ops. clean_labels ns (op_labels op)"
  shows "case get_slot n (label_key ns ls) (histograms (metric_run ns bks ops)) of
      None \<Rightarrow> observations ns n ls ops = []
    | Some s \<Rightarrow> observations ns n ls ops \<noteq> [] \<and> tallied bks (observations ns n ls ops) s"
  using assms(2)
proof (induction ops rule: rev_induct)
  case (snoc x ops)
  let ?g = "get_slot n (label_key ns ls) (histograms (metric_run ns bks ops))"
  have IH: "case ?g of None \<Rightarrow> observations ns n ls ops = []
    | Some s \<Rightarrow> observations ns n ls ops \<noteq> [] \<and> tallied bks (observations ns n ls ops) s"
    using snoc by simp
  show ?case
  proof (cases x)
    case (OpObserve n' ls' v)
    let ?new = "\<lparr>hs_labels = ls', hs_sum = 0, hs_count = 0, hs_buckets = map (\<lambda>le. (le, 0)) bks\<rparr>"
    have "clean_labels ns ls'" using snoc.prems OpObserve by simp
    from label_key_clean [OF this assms(1)]
    have g: "get_slot n (label_key ns ls) (histograms (metric_run ns bks (ops @ [x]))) =
        (if n' = n \<and> same_labels ns ls' ls then Some (observe_slot v (case ?g of Some s \<Rightarrow> s | None \<Rightarrow> ?new)) else ?g)"
      by (auto simp: OpObserve run_snoc observe_def)
    have "tallied bks [] ?new" by (simp add: tallied_def count_le_def)
    then have "tallied bks (observations ns n ls ops) (case ?g of Some s \<Rightarrow> s | None \<Rightarrow> ?new)"
      using IH by (cases ?g) simp_all
    note new = tallied_observe [OF this, of v]
    have o: "observations ns n ls (ops @ [x]) =
        observations ns n ls ops @ (if n' = n \<and> same_labels ns ls' ls then [v] else [])"
      by (simp add: OpObserve spec_snoc)
    show ?thesis
    proof (cases "n' = n \<and> same_labels ns ls' ls")
      case True
      show ?thesis unfolding g o if_P [OF True] using new by simp
    next
      case False
      show ?thesis unfolding g o if_not_P [OF False] append_Nil2 using IH .
    qed
  qed (use IH in \<open>simp_all only: run_snoc spec_snoc metric_step.simps step_parts observations_one append_Nil2\<close>)
qed (simp add: metric_run_def create_metrics_def get_slot_def)

subsection \<open>Properties\<close>

text \<open>C37: The registry reports what happened: after any sequence of updates with clean labels, the
  exposition has, for a name and labels, no counter when nothing was counted under that name and the
  same labels, and otherwise exactly one, whose value is the sum of the increments added in their order
  in doubles, which is exact while it counts in whole numbers below \<open>2 ^ 53\<close>; at most one gauge, at the
  level the updates leave; and no histogram or exactly one, with the count and sum of the values
  observed and, for each bound, the number of values up to it.\<close>

theorem metrics_report_updates:
  assumes "clean_labels ns ls" "\<forall>op \<in> set ops. clean_labels ns (op_labels op)"
  shows "map sl_value (shown_slots ns sl_labels n ls (counters (metric_run ns bks ops))) =
      (if increments ns n ls ops = [] then [] else [double_sum (increments ns n ls ops)]) \<and>
    (\<forall>ks. increments ns n ls ops = map of_nat ks \<and> sum_list ks < 2 ^ 53 \<longrightarrow>
      double_sum (increments ns n ls ops) = of_nat (sum_list ks)) \<and>
    map sl_value (shown_slots ns sl_labels n ls (gauges (metric_run ns bks ops))) =
      (case gauge_level ns n ls ops of None \<Rightarrow> [] | Some x \<Rightarrow> [x]) \<and>
    map (\<lambda>s. (hs_count s, hs_sum s, hs_buckets s)) (shown_slots ns hs_labels n ls (histograms (metric_run ns bks ops))) =
      (let vs = observations ns n ls ops in
       if vs = [] then []
       else [(length vs, double_sum vs, map (\<lambda>le. (le, length (filter (\<lambda>v. v \<le> le) vs))) bks)])"
proof -
  note keyed = keyed_run [OF assms(2), of bks]
  have "map sl_value (shown_slots ns sl_labels n ls (counters (metric_run ns bks ops))) =
      (if increments ns n ls ops = [] then [] else [double_sum (increments ns n ls ops)])"
    using counter_run [OF assms, of n bks] shown_slots_get [OF conjunct1 [OF keyed] assms(1), of n]
    by (auto split: option.splits if_splits)
  moreover have "map sl_value (shown_slots ns sl_labels n ls (gauges (metric_run ns bks ops))) =
      (case gauge_level ns n ls ops of None \<Rightarrow> [] | Some x \<Rightarrow> [x])"
    unfolding gauge_run [OF assms, of n bks, symmetric] shown_slots_get [OF conjunct1 [OF conjunct2 [OF keyed]] assms(1), of n]
    by (simp split: option.split)
  moreover have "map (\<lambda>s. (hs_count s, hs_sum s, hs_buckets s)) (shown_slots ns hs_labels n ls (histograms (metric_run ns bks ops))) =
      (let vs = observations ns n ls ops in
       if vs = [] then []
       else [(length vs, double_sum vs, map (\<lambda>le. (le, length (filter (\<lambda>v. v \<le> le) vs))) bks)])"
    using hist_run [OF assms, of n bks] shown_slots_get [OF conjunct2 [OF conjunct2 [OF keyed]] assms(1), of n]
    by (auto simp: tallied_def count_le_def Let_def split: option.splits)
  ultimately show ?thesis using double_sum_whole by simp
qed

definition ex_labels :: "string \<Rightarrow> labels" where
  "ex_labels status = [(''method'', str ''GET''), (''status'', str status)]"

lemma ex_labels_clean:
  "clean_labels (\<lambda>_. []) (ex_labels ''200'')" "clean_labels (\<lambda>_. []) (ex_labels ''404'')"
  by (simp_all add: clean_labels_def ex_labels_def js_def str_def)

lemma metrics_report_updates_witness:
  "map sl_value (shown_slots (\<lambda>_. []) sl_labels ''hits'' (ex_labels ''200'')
     (counters (metric_run (\<lambda>_. []) [1] [OpInc ''hits'' (ex_labels ''200'') 1, OpInc ''hits'' (ex_labels ''404'') 1,
        OpInc ''hits'' (rev (ex_labels ''200'')) 2]))) = [3]"
proof -
  let ?ops = "[OpInc ''hits'' (ex_labels ''200'') 1, OpInc ''hits'' (ex_labels ''404'') 1,
        OpInc ''hits'' (rev (ex_labels ''200'')) 2]"
  have "clean_labels (\<lambda>_. []) (rev (ex_labels ''200''))"
    using ex_labels_clean(1) by (simp add: clean_labels_def rev_map [symmetric])
  then have c: "\<forall>op \<in> set ?ops. clean_labels (\<lambda>_. []) (op_labels op)" using ex_labels_clean by simp
  have "js ''404'' \<noteq> js ''200''" by simp
  then have i: "increments (\<lambda>_. []) ''hits'' (ex_labels ''200'') ?ops = map of_nat [1, 2]"
    by (auto simp: increments_def same_labels_def label_pairs_def ex_labels_def str_def doubleton_eq_iff)
  note t = metrics_report_updates [OF ex_labels_clean(1) c, of "''hits''" "[1]"]
  have "double_sum (map of_nat [1, 2]) = of_nat (sum_list [1, 2])" by (rule double_sum_whole) simp
  then show ?thesis using t unfolding i by simp
qed

text \<open>With the separator in a text, different labels share a slot.\<close>

lemma separator_merges_labels:
  "label_key ns [(''a'', JStr (js ''x'' @ [31] @ js ''b=y''))] = label_key ns [(''a'', str ''x''), (''b'', str ''y'')]"
  by (simp add: label_key_def label_names_def label_value_def str_def js_def)

end
