(* ===== verification/Http_Edge.thy ===== *)
theory Http_Edge
  imports Js_Text "HOL-Library.AList"
begin

section \<open>What every response carries: security headers, CORS, trace context, request id\<close>

text \<open>
  \<open>qv-server/security.mjs\<close>, \<open>qv-server/trace.mjs\<close> and the request id of \<open>qv-server/audit.mjs\<close>. The
  headers of a response are an association list that \<open>setHeader\<close> updates; those of a request are a
  partial function (Node lower-cases the names). Random ids are arguments.
\<close>

type_synonym headers = "(string \<times> string) list"

definition set_header :: "string \<Rightarrow> string \<Rightarrow> headers \<Rightarrow> headers" where
  "set_header n v hs = AList.update n v hs"

definition remove_header :: "string \<Rightarrow> headers \<Rightarrow> headers" where
  "remove_header n hs = AList.delete n hs"

subsection \<open>Security headers\<close>

record sec_config =
  hstsEnabled :: bool
  hstsMaxAge :: "rat option"            \<comment> \<open>\<open>None\<close> when it is not a finite number\<close>
  hstsIncludeSubDomains :: bool
  hstsPreload :: bool

definition load_security_config :: "(string \<Rightarrow> string option) \<Rightarrow> sec_config option" where
  "load_security_config env =
     (let on = (env ''QV_HSTS_ENABLED'' \<noteq> Some ''false'');
          age = (case js_number (case env ''QV_HSTS_MAX_AGE'' of Some s \<Rightarrow> s | None \<Rightarrow> ''31536000'') of
                   Some (Some r) \<Rightarrow> Some r | _ \<Rightarrow> None) in
      if on \<and> (case age of None \<Rightarrow> True | Some r \<Rightarrow> r < 0 \<or> 63072000 < r) then None
      else Some \<lparr>hstsEnabled = on, hstsMaxAge = age,
             hstsIncludeSubDomains = (env ''QV_HSTS_INCLUDE_SUBDOMAINS'' \<noteq> Some ''false''),
             hstsPreload = (env ''QV_HSTS_PRELOAD'' = Some ''true'')\<rparr>)"

definition fixed_headers :: headers where
  "fixed_headers =
     [(''x-content-type-options'', ''nosniff''), (''x-frame-options'', ''DENY''), (''referrer-policy'', ''no-referrer''),
      (''content-security-policy'', ''default-src '' @ [CHR 39] @ ''none'' @ [CHR 39] @ ''; frame-ancestors '' @ [CHR 39] @
         ''none'' @ [CHR 39] @ ''; base-uri '' @ [CHR 39] @ ''none'' @ [CHR 39]),
      (''cross-origin-resource-policy'', ''same-origin''), (''cross-origin-opener-policy'', ''same-origin''),
      (''x-permitted-cross-domain-policies'', ''none'')]"

definition apply_security_headers :: "(rat \<Rightarrow> string) \<Rightarrow> sec_config \<Rightarrow> headers \<Rightarrow> headers" where
  "apply_security_headers show_num cfg hs0 =
     (let hs = foldl (\<lambda>hs (n, v). set_header n v hs) hs0 fixed_headers;
          hs = (if hstsEnabled cfg then
                  set_header ''strict-transport-security''
                    (join_with ''; '' ([''max-age='' @ (case hstsMaxAge cfg of Some r \<Rightarrow> show_num r | None \<Rightarrow> ''NaN'')] @
                       (if hstsIncludeSubDomains cfg then [''includeSubDomains''] else []) @
                       (if hstsPreload cfg then [''preload''] else []))) hs
                else hs) in
      remove_header ''x-powered-by'' (remove_header ''server'' hs))"

subsection \<open>CORS\<close>

datatype cors_mode = CorsOff | CorsWildcard | CorsList "string list"

record cors_config =
  cors_mode :: cors_mode
  allowCreds :: bool

datatype cors_error = WildcardWithCredentials | BadOrigin string

definition origin_ok :: "string \<Rightarrow> bool" where
  "origin_ok s =
     (let rest = (if starts_with ''http://'' s then Some (drop 7 s)
                  else if starts_with ''https://'' s then Some (drop 8 s) else None) in
      case rest of None \<Rightarrow> False
      | Some r \<Rightarrow> r \<noteq> [] \<and> list_all (\<lambda>c. \<not> is_ws c \<and> c \<noteq> CHR '','' \<and> c \<noteq> CHR ''*'') r)"

definition first_set :: "string option \<Rightarrow> string option \<Rightarrow> string" where
  "first_set a b = (case a of Some (c # cs) \<Rightarrow> c # cs | _ \<Rightarrow> (case b of Some s \<Rightarrow> s | None \<Rightarrow> []))"

definition load_cors_config :: "(string \<Rightarrow> string option) \<Rightarrow> cors_error + cors_config" where
  "load_cors_config env =
     (let raw = js_trim (first_set (env ''QV_CORS_ORIGINS'') (env ''QV_CORS_ORIGIN''));
          creds = (env ''QV_CORS_ALLOW_CREDENTIALS'' = Some ''true'') in
      if raw = [] then Inr \<lparr>cors_mode = CorsOff, allowCreds = creds\<rparr>
      else if raw = ''*'' then
        (if creds then Inl WildcardWithCredentials else Inr \<lparr>cors_mode = CorsWildcard, allowCreds = False\<rparr>)
      else
        (let origins = filter (\<lambda>o'. o' \<noteq> []) (map js_trim (split_on (CHR '','') raw)) in
         case find (\<lambda>o'. \<not> origin_ok o') origins of
           Some o' \<Rightarrow> Inl (BadOrigin o')
         | None \<Rightarrow> Inr \<lparr>cors_mode = CorsList origins, allowCreds = creds\<rparr>))"

definition ALLOWED_METHODS :: string where "ALLOWED_METHODS = ''GET, POST, DELETE, OPTIONS''"
definition ALLOWED_HEADERS :: string where "ALLOWED_HEADERS = ''content-type, authorization, x-request-id''"

text \<open>The boolean says that the preflight was answered.\<close>

definition apply_cors :: "string \<Rightarrow> string option \<Rightarrow> cors_config \<Rightarrow> headers \<Rightarrow> headers \<times> bool" where
  "apply_cors meth req_origin cfg hs =
     (let (allow, hs1) =
            (case cors_mode cfg of
               CorsOff \<Rightarrow> (None, hs)
             | CorsWildcard \<Rightarrow> (Some ''*'', hs)
             | CorsList os \<Rightarrow>
                 (case req_origin of
                    None \<Rightarrow> (None, hs)
                  | Some o' \<Rightarrow> if o' \<noteq> [] \<and> o' \<in> set os then (Some o', set_header ''vary'' ''origin'' hs) else (None, hs))) in
      case allow of
        None \<Rightarrow> (hs1, False)
      | Some o' \<Rightarrow>
          let hs2 = set_header ''access-control-max-age'' ''600''
                     (set_header ''access-control-allow-headers'' ALLOWED_HEADERS
                      (set_header ''access-control-allow-methods'' ALLOWED_METHODS
                       (set_header ''access-control-allow-origin'' o' hs1)));
              hs3 = (if allowCreds cfg then set_header ''access-control-allow-credentials'' ''true'' hs2 else hs2)
          in (hs3, meth = ''OPTIONS''))"

subsection \<open>Trace context\<close>

record trace_ctx =
  traceId :: string
  parentSpanId :: "string option"
  spanId :: string
  sampled :: bool
  tracestate :: "string option"
  inherited :: bool

definition is_lower_hex :: "char \<Rightarrow> bool" where
  "is_lower_hex c \<longleftrightarrow> hex_val c \<noteq> None \<and> to_lower [c] = [c]"

definition parse_traceparent :: "string option \<Rightarrow> (string \<times> string \<times> bool) option" where
  "parse_traceparent raw =
     (case raw of
        None \<Rightarrow> None
      | Some r \<Rightarrow>
          (case split_on (CHR ''-'') (js_trim r) of
             [version, tid, parent, flags] \<Rightarrow>
               if length version = 2 \<and> length tid = 32 \<and> length parent = 16 \<and> length flags = 2 \<and>
                  list_all is_lower_hex (version @ tid @ parent @ flags)
               then
                 (if version \<noteq> ''00'' \<or> tid = replicate 32 (CHR ''0'') \<or> parent = replicate 16 (CHR ''0'') then None
                  else Some (tid, parent, digits_val 16 hex_val flags mod 2 = 1))
               else None
           | _ \<Rightarrow> None))"

definition sanitize_tracestate :: "string option \<Rightarrow> string option" where
  "sanitize_tracestate raw =
     (case raw of
        None \<Rightarrow> None
      | Some r \<Rightarrow>
          let t = js_trim r in
          if t = [] \<or> 512 < length t \<or> \<not> list_all (\<lambda>c. 32 \<le> code c \<and> code c \<le> 126) t then None else Some t)"

definition derive_trace_context :: "string option \<Rightarrow> string option \<Rightarrow> bytes \<Rightarrow> bytes \<Rightarrow> trace_ctx" where
  "derive_trace_context tp ts rand16 rand8 =
     (case parse_traceparent tp of
        Some (tid, parent, s) \<Rightarrow>
          \<lparr>traceId = tid, parentSpanId = Some parent, spanId = to_hex rand8, sampled = s,
           tracestate = sanitize_tracestate ts, inherited = True\<rparr>
      | None \<Rightarrow>
          \<lparr>traceId = to_hex rand16, parentSpanId = None, spanId = to_hex rand8, sampled = False,
           tracestate = None, inherited = False\<rparr>)"

definition format_traceparent :: "trace_ctx \<Rightarrow> string" where
  "format_traceparent ctx =
     ''00-'' @ traceId ctx @ ''-'' @ spanId ctx @ ''-'' @ (if sampled ctx then ''01'' else ''00'')"

definition apply_trace :: "string option \<Rightarrow> string option \<Rightarrow> bytes \<Rightarrow> bytes \<Rightarrow> headers \<Rightarrow> headers \<times> trace_ctx" where
  "apply_trace tp ts rand16 rand8 hs =
     (let ctx = derive_trace_context tp ts rand16 rand8;
          hs1 = set_header ''traceparent'' (format_traceparent ctx) hs in
      ((case tracestate ctx of None \<Rightarrow> hs1 | Some t \<Rightarrow> set_header ''tracestate'' t hs1), ctx))"

subsection \<open>Request id\<close>

definition id_char :: "char \<Rightarrow> bool" where
  "id_char c \<longleftrightarrow> (let k = code c in (65 \<le> k \<and> k \<le> 90) \<or> (97 \<le> k \<and> k \<le> 122) \<or> (48 \<le> k \<and> k \<le> 57) \<or> k \<in> {46, 95, 45})"

definition extract_or_mint_request_id :: "string option \<Rightarrow> string \<Rightarrow> string" where
  "extract_or_mint_request_id hdr uuid =
     (case hdr of
        Some s \<Rightarrow> if s \<noteq> [] \<and> length s \<le> 64 \<and> list_all id_char s then s else uuid
      | None \<Rightarrow> uuid)"

subsection \<open>Laws\<close>

lemma map_of_set_header [simp]: "map_of (set_header n v hs) k = (if k = n then Some v else map_of hs k)"
  by (simp add: set_header_def update_conv')

lemma lower_hex_trim:
  assumes "s \<noteq> []" "\<not> is_ws (hd s)" "\<not> is_ws (last s)"
  shows "js_trim s = s"
proof -
  have "dropWhile is_ws s = s" using assms(1,2) by (cases s) auto
  moreover have "dropWhile is_ws (rev s) = rev s" using assms(1,3) by (cases s rule: rev_cases) auto
  ultimately show ?thesis by (simp add: js_trim_def)
qed

lemma lower_hex_digits: "n < 16 \<Longrightarrow> is_lower_hex (hex_digit n)"
proof -
  assume n: "n < 16"
  then consider "n < 10" | "10 \<le> n" "n < 16" by linarith
  then show ?thesis
    by cases (auto simp: is_lower_hex_def hex_digit_def hex_val_def to_lower_def lower_char_def code_def Let_def)
qed

lemma to_hex_lower: "list_all is_lower_hex (to_hex bs)"
proof (induction bs)
  case (Cons b bs)
  have "unat b div 16 < 16" using unat_byte_lt [of b] by (simp add: less_mult_imp_div_less)
  with Cons show ?case by (simp add: lower_hex_digits)
qed simp

lemma no_dash: "list_all is_lower_hex s \<Longrightarrow> CHR ''-'' \<notin> set s"
  by (auto simp: list_all_iff is_lower_hex_def hex_val_def)

lemma split_traceparent:
  assumes "list_all is_lower_hex t" "list_all is_lower_hex p" "list_all is_lower_hex f"
  shows "split_on (CHR ''-'') (''00-'' @ t @ ''-'' @ p @ ''-'' @ f) = [''00'', t, p, f]"
  using split_on_Cons_sep [of "CHR ''-''" t "p @ CHR ''-'' # f"] split_on_Cons_sep [of "CHR ''-''" p f]
    split_on_no_sep [of "CHR ''-''" f] assms [THEN no_dash] by simp

lemma parse_formatted:
  assumes "list_all is_lower_hex t" "list_all is_lower_hex p" "length t = 32" "length p = 16"
    and "t \<noteq> replicate 32 (CHR ''0'')" "p \<noteq> replicate 16 (CHR ''0'')"
  shows "parse_traceparent (Some (''00-'' @ t @ ''-'' @ p @ ''-'' @ (if b then ''01'' else ''00''))) = Some (t, p, b)"
proof -
  have f: "list_all is_lower_hex (if b then ''01'' else ''00'')" "list_all is_lower_hex ''00''"
  proof -
    have "is_lower_hex (CHR ''0'')" "is_lower_hex (CHR ''1'')" by (code_simp, code_simp)
    then show "list_all is_lower_hex (if b then ''01'' else ''00'')" "list_all is_lower_hex ''00''" by simp_all
  qed
  have "digits_val 16 hex_val ''01'' = 1" "digits_val 16 hex_val ''00'' = 0"
    by (simp_all add: digits_val_def hex_val_def Let_def)
  then have "digits_val 16 hex_val (if b then ''01'' else ''00'') mod 2 = 1 \<longleftrightarrow> b" by (cases b) simp_all
  moreover have "js_trim (''00-'' @ t @ ''-'' @ p @ ''-'' @ (if b then ''01'' else ''00'')) =
      ''00-'' @ t @ ''-'' @ p @ ''-'' @ (if b then ''01'' else ''00'')"
  proof (rule lower_hex_trim)
    have w: "\<not> is_ws (CHR ''0'')" "\<not> is_ws (CHR ''1'')" by code_simp+
    show "\<not> is_ws (hd (''00-'' @ t @ ''-'' @ p @ ''-'' @ (if b then ''01'' else ''00'')))"
      "\<not> is_ws (last (''00-'' @ t @ ''-'' @ p @ ''-'' @ (if b then ''01'' else ''00'')))"
      using w by (cases b; simp)+
  qed simp
  ultimately show ?thesis
    using split_traceparent [OF assms(1,2) f(1)] assms f
    by (simp add: parse_traceparent_def)
qed

text \<open>The trace context this server sends is one that the next server accepts and continues: it reads
  back the trace id and this server's span id as its parent, with the sampled flag, for ids that are
  not all zero; and an inherited trace id is the caller's.\<close>

theorem traceparent_continues:
  fixes tp ts :: "string option"
  assumes "length rand16 = 16" "length rand8 = 8" "rand16 \<noteq> replicate 16 0" "rand8 \<noteq> replicate 8 0"
  defines "ctx \<equiv> derive_trace_context tp ts rand16 rand8"
  shows "parse_traceparent (Some (format_traceparent ctx)) = Some (traceId ctx, spanId ctx, sampled ctx) \<and>
    (case parse_traceparent tp of
       Some (tid, parent, s) \<Rightarrow> traceId ctx = tid \<and> parentSpanId ctx = Some parent \<and> sampled ctx = s
     | None \<Rightarrow> \<not> inherited ctx \<and> traceId ctx = to_hex rand16)"
proof -
  have z: "to_hex (replicate n 0) = replicate (2 * n) (CHR ''0'')" for n
  proof (induction n)
    case (Suc n)
    moreover have "hex_digit 0 = CHR ''0''" by code_simp
    ultimately show ?case by simp
  qed simp
  have nz: "to_hex rand16 \<noteq> replicate 32 (CHR ''0'')" "to_hex rand8 \<noteq> replicate 16 (CHR ''0'')"
    using to_hex_inj [of rand16 "replicate 16 0"] to_hex_inj [of rand8 "replicate 8 0"] assms(3,4) z [of 16] z [of 8]
    by auto
  have s: "spanId ctx = to_hex rand8" by (simp add: ctx_def derive_trace_context_def split: option.splits prod.splits)
  have "list_all is_lower_hex (traceId ctx) \<and> length (traceId ctx) = 32 \<and> traceId ctx \<noteq> replicate 32 (CHR ''0'')"
    using nz(1) assms(1) to_hex_lower [of rand16]
    by (auto simp: ctx_def derive_trace_context_def parse_traceparent_def split: option.splits list.splits if_splits)
  then have "parse_traceparent (Some (format_traceparent ctx)) = Some (traceId ctx, spanId ctx, sampled ctx)"
    unfolding format_traceparent_def s using parse_formatted to_hex_lower nz(2) assms(2) by simp
  then show ?thesis by (auto simp: ctx_def derive_trace_context_def split: option.splits)
qed

lemma traceparent_continues_witness:
  "parse_traceparent (Some (format_traceparent (derive_trace_context None None (replicate 16 17) (replicate 8 34)))) =
     Some (to_hex (replicate 16 17), to_hex (replicate 8 34), False)"
  using traceparent_continues [of "replicate 16 17" "replicate 8 34" None None]
  by (simp add: derive_trace_context_def parse_traceparent_def)

text \<open>CORS never opens more than configured: with a configuration from the environment, a response
  that allows an origin allows either every origin, without credentials and only when the wildcard
  was configured, or exactly the origin of the request, which is one of the listed http(s) origins.\<close>

theorem cors_allows_configured:
  assumes "load_cors_config env = Inr cfg" "map_of hs ''access-control-allow-origin'' = None"
    "map_of hs ''access-control-allow-credentials'' = None"
    and "apply_cors meth orig cfg hs = (hs', stop)" "map_of hs' ''access-control-allow-origin'' = Some a"
  shows "(a = ''*'' \<and> cors_mode cfg = CorsWildcard \<and> map_of hs' ''access-control-allow-credentials'' = None) \<or>
    (\<exists>os. cors_mode cfg = CorsList os \<and> orig = Some a \<and> a \<in> set os \<and> list_all origin_ok os)"
proof (cases "cors_mode cfg")
  case CorsOff
  then show ?thesis using assms by (simp add: apply_cors_def)
next
  case CorsWildcard
  then have "\<not> allowCreds cfg"
    using assms(1) by (auto simp: load_cors_config_def Let_def split: if_splits option.splits)
  then show ?thesis using CorsWildcard assms(3-5) by (auto simp: apply_cors_def Let_def)
next
  case (CorsList os)
  then have "find (\<lambda>o'. \<not> origin_ok o') os = None"
    using assms(1) by (auto simp: load_cors_config_def Let_def split: if_splits option.splits)
  then have "list_all origin_ok os" by (auto simp: find_None_iff list_all_iff)
  then show ?thesis using CorsList assms(2,4,5)
    by (auto simp: apply_cors_def Let_def split: option.splits if_splits)
qed

lemma cors_allows_configured_witness:
  "\<exists>cfg. load_cors_config [''QV_CORS_ORIGIN'' \<mapsto> ''https://a.example''] = Inr cfg \<and>
     cors_mode cfg = CorsList [''https://a.example''] \<and>
     map_of (fst (apply_cors ''GET'' (Some ''https://a.example'') cfg [])) ''access-control-allow-origin'' = Some ''https://a.example''"
proof -
  have l: "load_cors_config [''QV_CORS_ORIGIN'' \<mapsto> ''https://a.example''] =
      Inr \<lparr>cors_mode = CorsList [''https://a.example''], allowCreds = False\<rparr>" by code_simp
  obtain hs' stop where a: "apply_cors ''GET'' (Some ''https://a.example'')
      \<lparr>cors_mode = CorsList [''https://a.example''], allowCreds = False\<rparr> [] = (hs', stop)"
    "map_of hs' ''access-control-allow-origin'' = Some ''https://a.example''"
    by (rule that [OF surjective_pairing]) (simp add: apply_cors_def)
  from cors_allows_configured [OF l _ _ a] show ?thesis using l a by auto
qed

end
