(* ===== verification/Server_State.thy ===== *)
theory Server_State
  imports Js_Value Base64 Counter_Store Chain_Store Claims_Validate Rate_Limit Cidr Admin_Auth Writer_Lock
    Http_Edge
begin

section \<open>The state of the sovereign server and its persistence\<close>

text \<open>
  \<open>qv-server/server-sovereign.mjs\<close>, lines 244 to 425: the keystore, the chains, the revocation set,
  the sealing of keys at rest, and the two JSON documents that survive a restart. What the process
  reads once at start (configuration, primitives of \<open>node:crypto\<close>, the operations of the chain
  store) is the record \<open>server_env\<close>. The maps of the process are association lists in insertion
  order. A document of the data directory is the JSON value it denotes: \<open>JSON.parse\<close> of a text
  \<open>JSON.stringify\<close> made gives the value back. Key ids are ASCII (\<open>randomUUID\<close>).
\<close>

record 's server_env =
  cfg_prims :: prims
  cfg_rate :: rl_config
  cfg_claims :: claims_cfg
  cfg_admin :: admin_config
  cfg_admin_list :: "cidr list"
  cfg_sha256 :: "bytes \<Rightarrow> bytes"
  cfg_gcm_enc :: "bytes \<Rightarrow> bytes \<Rightarrow> bytes \<Rightarrow> bytes \<Rightarrow> bytes \<times> bytes"
  cfg_gcm_dec :: "bytes \<Rightarrow> bytes \<Rightarrow> bytes \<Rightarrow> bytes \<Rightarrow> bytes \<Rightarrow> bytes option"
  cfg_master :: bytes
  cfg_parse :: "bytes \<Rightarrow> jsval option"
  cfg_buffer :: "jsval \<Rightarrow> bytes option"
  cfg_cors :: cors_config
  cfg_metrics_enabled :: bool
  cfg_metrics_public :: bool
  cfg_iso :: "int \<Rightarrow> string"
  cfg_load :: "'s \<Rightarrow> string \<Rightarrow> bytes \<Rightarrow> store_error + loaded"
  cfg_append :: "'s \<Rightarrow> string \<Rightarrow> int \<Rightarrow> bytes \<Rightarrow> store_error + 's"

text \<open>
  \<open>cfg_gcm_enc key iv aad text\<close> is the ciphertext and the 16-byte tag of AES-256-GCM;
  \<open>cfg_gcm_dec key iv aad ciphertext tag\<close> is \<open>None\<close> where the package throws. \<open>cfg_buffer\<close> is
  \<open>Buffer.from\<close> of a value that is not a text, \<open>cfg_iso\<close> is \<open>toISOString\<close>.
\<close>

datatype doc = NoFile | BadText | Doc jsval

record skey =
  signing :: bytes
  verifying :: bytes
  encrypting :: bytes
  label :: jsval
  created :: jsval

text \<open>What a handler leaves behind besides the state: audit events and metric updates, in order.\<close>

datatype effect =
    Audit string string "(string \<times> jsval) list"   \<comment> \<open>event, level, fields\<close>
  | Inc string "(string \<times> jsval) list"
  | IncBy string nat
  | SetGauge string nat
  | Observe string "(string \<times> jsval) list" rat

record 's server =
  keystore :: "(string \<times> skey) list"
  chains :: "string \<Rightarrow> chain option"
  fp_index :: "string \<Rightarrow> string option"
  revoked :: "jsval list"
  lim :: limiter
  rejects_seen :: nat
  lock :: "handle option"
  disk_ks :: doc
  disk_rev :: doc
  store :: 's
  trace :: "effect list"

definition log_effect :: "effect \<Rightarrow> 's server \<Rightarrow> 's server" where
  "log_effect x s = s\<lparr>trace := trace s @ [x]\<rparr>"

subsection \<open>Sets and maps\<close>

text \<open>\<open>Set.has\<close> and \<open>Set.add\<close>: objects and arrays are compared by identity, so one that was just
  parsed is never in the set.\<close>

definition set_has :: "jsval list \<Rightarrow> jsval \<Rightarrow> bool" where
  "set_has vs v = (case v of JArr _ \<Rightarrow> False | JObj _ \<Rightarrow> False | _ \<Rightarrow> List.member vs v)"

definition set_add :: "jsval list \<Rightarrow> jsval \<Rightarrow> jsval list" where
  "set_add vs v = (if set_has vs v then vs else vs @ [v])"

definition ks_find :: "(string \<times> skey) list \<Rightarrow> jsval \<Rightarrow> (string \<times> skey) option" where
  "ks_find ks v = find (\<lambda>(k, e). v = str k) ks"

definition is_revoked :: "'s server \<Rightarrow> string \<Rightarrow> bool" where
  "is_revoked s k = set_has (revoked s) (str k)"

lemma set_has_str [simp]: "set_has vs (str k) \<longleftrightarrow> str k \<in> set vs"
  by (simp add: set_has_def str_def)

lemma set_add_mono: "v \<in> set vs \<Longrightarrow> v \<in> set (set_add vs w)"
  by (simp add: set_add_def)

lemma set_add_in: "str k \<in> set (set_add vs (str k))"
  by (simp add: set_add_def)

lemma ks_find_Some: "ks_find ks v = Some (k, e) \<Longrightarrow> v = str k \<and> (k, e) \<in> set ks"
  by (auto simp: ks_find_def find_Some_iff) (metis nth_mem)

lemma ks_find_str: "ks_find ks (str k) = map_option (\<lambda>e. (k, e)) (map_of ks k)"
  by (induction ks) (auto simp: ks_find_def)

subsection \<open>Keys at rest\<close>

definition from_b64 :: "'s server_env \<Rightarrow> jsval \<Rightarrow> bytes option" where
  "from_b64 E v = (case v of JStr s \<Rightarrow> Some (base64_decode (latin s)) | _ \<Rightarrow> cfg_buffer E v)"

definition seal_key :: "'s server_env \<Rightarrow> bytes \<Rightarrow> string \<Rightarrow> bytes \<Rightarrow> string" where
  "seal_key E iv keyId plaintext =
     (let (ct, tag) = cfg_gcm_enc E (cfg_master E) iv (utf8_encode (js keyId)) plaintext
      in base64_encode (iv @ tag @ ct))"

definition open_key :: "'s server_env \<Rightarrow> string \<Rightarrow> jsval \<Rightarrow> bytes option" where
  "open_key E keyId sealedB64 =
     (case from_b64 E sealedB64 of
        None \<Rightarrow> None
      | Some buf \<Rightarrow> cfg_gcm_dec E (cfg_master E) (slice 0 12 buf) (utf8_encode (js keyId)) (drop 28 buf) (slice 12 28 buf))"

definition fingerprint_vk :: "'s server_env \<Rightarrow> bytes \<Rightarrow> string" where
  "fingerprint_vk E vk = to_hex (slice 0 16 (p_sha3 (cfg_prims E) vk))"

definition gcm_correct :: "'s server_env \<Rightarrow> bool" where
  "gcm_correct E \<longleftrightarrow> (\<forall>k iv aad pt ct tag. cfg_gcm_enc E k iv aad pt = (ct, tag) \<longrightarrow>
     length tag = 16 \<and> cfg_gcm_dec E k iv aad ct tag = Some pt)"

lemma open_seal:
  assumes "gcm_correct E" "length iv = 12"
  shows "open_key E k (str (seal_key E iv k pt)) = Some pt"
proof -
  obtain ct tag where c: "cfg_gcm_enc E (cfg_master E) iv (utf8_encode (js k)) pt = (ct, tag)" by force
  then have "length tag = 16" "cfg_gcm_dec E (cfg_master E) iv (utf8_encode (js k)) ct tag = Some pt"
    using assms(1) unfolding gcm_correct_def by blast+
  then show ?thesis using c assms(2) by (simp add: seal_key_def open_key_def from_b64_def str_def slice_def)
qed

subsection \<open>Documents\<close>

definition write_doc :: "bool \<Rightarrow> jsval \<Rightarrow> doc \<Rightarrow> doc" where
  "write_doc can v d = (if can then Doc v else d)"

definition save_revoked :: "bool \<Rightarrow> 's server \<Rightarrow> 's server" where
  "save_revoked can s = s\<lparr>disk_rev := write_doc can (JArr (revoked s)) (disk_rev s)\<rparr>"

text \<open>The code points of a text, each as a text: what \<open>for .. of\<close> yields on a string.\<close>

fun code_points :: "jsstr \<Rightarrow> jsval list" where
  "code_points [] = []"
| "code_points [u] = [JStr [u]]"
| "code_points (u # v # us) =
     (if is_high u \<and> is_low v then JStr [u, v] # code_points us else JStr [u] # code_points (v # us))"

datatype boot_error = BootThrow | BootChain store_error

definition load_revoked :: "'s server \<Rightarrow> boot_error + 's server" where
  "load_revoked s =
     (case disk_rev s of
        NoFile \<Rightarrow> Inr s
      | BadText \<Rightarrow> Inl BootThrow
      | Doc (JArr vs) \<Rightarrow> Inr (s\<lparr>revoked := foldl set_add (revoked s) vs\<rparr>)
      | Doc (JStr t) \<Rightarrow> Inr (s\<lparr>revoked := foldl set_add (revoked s) (code_points t)\<rparr>)
      | Doc _ \<Rightarrow> Inl BootThrow)"

definition sealed_entry :: "'s server_env \<Rightarrow> (nat \<Rightarrow> bytes) \<Rightarrow> nat \<Rightarrow> string \<times> skey \<Rightarrow> jsstr \<times> jsval" where
  "sealed_entry E ivs i = (\<lambda>(keyId, v). (js keyId, obj
     [(''sealed'', JBool True),
      (''sk_sealed'', str (seal_key E (ivs (2 * i)) (keyId @ '':sk'') (signing v))),
      (''ek_sealed'', str (seal_key E (ivs (2 * i + 1)) (keyId @ '':ek'') (encrypting v))),
      (''vk'', str (base64_encode (verifying v))),
      (''label'', label v),
      (''createdAt'', created v)]))"

fun sealed_entries :: "'s server_env \<Rightarrow> (nat \<Rightarrow> bytes) \<Rightarrow> nat \<Rightarrow> (string \<times> skey) list \<Rightarrow> (jsstr \<times> jsval) list" where
  "sealed_entries E ivs i [] = []"
| "sealed_entries E ivs i (kv # kvs) = sealed_entry E ivs i kv # sealed_entries E ivs (i + 1) kvs"

definition save_keystore :: "'s server_env \<Rightarrow> (nat \<Rightarrow> bytes) \<Rightarrow> bool \<Rightarrow> 's server \<Rightarrow> 's server" where
  "save_keystore E ivs can s =
     s\<lparr>disk_ks := write_doc can (JObj (sealed_entries E ivs 0 (keystore s))) (disk_ks s)\<rparr>"

subsection \<open>Loading\<close>

text \<open>One entry of \<open>keystore.json\<close>: \<open>Inr None\<close> is the \<open>continue\<close> of a key that does not unseal; the
  boolean says that it was in the legacy format.\<close>

definition read_entry :: "'s server_env \<Rightarrow> string \<Rightarrow> jsval \<Rightarrow> boot_error + (skey \<times> bool) option" where
  "read_entry E keyId v =
     (if nullish v then Inl BootThrow
      else let fin = (\<lambda>sk ek legacy. case from_b64 E (jget v ''vk'') of
                 None \<Rightarrow> Inl BootThrow
               | Some vk \<Rightarrow> Inr (Some (\<lparr>signing = sk, verifying = vk, encrypting = ek,
                                  label = jget v ''label'', created = jget v ''createdAt''\<rparr>, legacy))) in
      if truthy (jget v ''sealed'') then
        (case (open_key E (keyId @ '':sk'') (jget v ''sk_sealed''), open_key E (keyId @ '':ek'') (jget v ''ek_sealed'')) of
           (Some sk, Some ek) \<Rightarrow> fin sk ek False
         | _ \<Rightarrow> Inr None)
      else
        (case (from_b64 E (jget v ''sk''), from_b64 E (jget v ''ek'')) of
           (Some sk, Some ek) \<Rightarrow> fin sk ek True
         | _ \<Rightarrow> Inl BootThrow))"

definition chain_seed :: "skey \<Rightarrow> bytes" where
  "chain_seed e = slice 0 32 (encrypting e)"

definition put_key :: "'s server_env \<Rightarrow> string \<Rightarrow> skey \<Rightarrow> chain \<Rightarrow> 's server \<Rightarrow> 's server" where
  "put_key E keyId e c s =
     s\<lparr>keystore := AList.update keyId e (keystore s),
       fp_index := (fp_index s)(fingerprint_vk E (verifying e) \<mapsto> keyId),
       chains := (chains s)(keyId \<mapsto> c)\<rparr>"

fun load_entries :: "'s server_env \<Rightarrow> (jsstr \<times> jsval) list \<Rightarrow> nat \<Rightarrow> 's server \<Rightarrow> boot_error + 's server \<times> nat" where
  "load_entries E [] migrated s = Inr (s, migrated)"
| "load_entries E ((k, v) # kvs) migrated s =
     (let keyId = of_js k in
      bind_r (read_entry E keyId v) (\<lambda>r. case r of
        None \<Rightarrow> load_entries E kvs migrated s
      | Some (e, legacy) \<Rightarrow>
          (case cfg_load E (store s) keyId (chain_seed e) of
             Inl x \<Rightarrow> Inl (BootChain x)
           | Inr l \<Rightarrow> load_entries E kvs (if legacy then migrated + 1 else migrated)
               (put_key E keyId e (from_state (l_state l) (int (l_counter l))) s))))"

text \<open>\<open>Object.entries\<close>: of an array or a text, its elements or code units under their indices.\<close>

definition object_entries :: "jsval \<Rightarrow> (jsstr \<times> jsval) list" where
  "object_entries v =
     (let indexed = (\<lambda>ws. map (\<lambda>(i, w). (js (dec_print i), w)) (enumerate 0 ws)) in
      case v of JObj kvs \<Rightarrow> kvs | JArr ws \<Rightarrow> indexed ws | JStr t \<Rightarrow> indexed (map (\<lambda>u. JStr [u]) t) | _ \<Rightarrow> [])"

definition load_keystore :: "'s server_env \<Rightarrow> (nat \<Rightarrow> bytes) \<Rightarrow> bool \<Rightarrow> 's server \<Rightarrow> boot_error + 's server" where
  "load_keystore E ivs can s =
     (case disk_ks s of
        NoFile \<Rightarrow> Inr s
      | BadText \<Rightarrow> Inl BootThrow
      | Doc raw \<Rightarrow>
          if nullish raw then Inl BootThrow
          else bind_r (load_entries E (object_entries raw) 0 s) (\<lambda>(s', migrated).
            if 0 < migrated then
              (if can then Inr (save_keystore E ivs can s') else Inl BootThrow)
            else Inr s'))"

text \<open>A start of the process: empty maps, a fresh limiter, the disk as it was found, the lock just
  acquired (or none). \<open>Inl\<close> is the \<open>process.exit(1)\<close> of a fatal error.\<close>

definition boot :: "'s server_env \<Rightarrow> (nat \<Rightarrow> bytes) \<Rightarrow> bool \<Rightarrow> handle option \<Rightarrow> 's server \<Rightarrow> boot_error + 's server" where
  "boot E ivs can hnd s =
     bind_r (load_keystore E ivs can
       \<lparr>keystore = [], chains = Map.empty, fp_index = Map.empty, revoked = [], lim = create_limiter, rejects_seen = 0,
        lock = hnd, disk_ks = disk_ks s, disk_rev = disk_rev s, store = store s, trace = []\<rparr>) load_revoked"

text \<open>\<open>appendChain\<close>: the fence is checked first, against the lease file as it is then.\<close>

definition append_chain ::
  "'s server_env \<Rightarrow> lock_text option \<Rightarrow> string \<Rightarrow> int \<Rightarrow> bytes \<Rightarrow> 's server \<Rightarrow> 's server option" where
  "append_chain E lease keyId counter st s =
     (case (case lock s of None \<Rightarrow> Inr 0 | Some h \<Rightarrow> check_fence h lease) of
        Inl _ \<Rightarrow> None
      | Inr _ \<Rightarrow> (case cfg_append E (store s) keyId counter st of
          Inl _ \<Rightarrow> None
        | Inr d \<Rightarrow> Some (s\<lparr>store := d\<rparr>)))"

end
