(* ===== verification/Falcon_Bridge.thy ===== *)
theory Falcon_Bridge
  imports Js_Value Base64
begin

section \<open>The Falcon bridge\<close>

text \<open>
  \<open>qv-server/falcon-bridge.mjs\<close>: the search for the command-line tool, the child process with its
  output cap and time limit, signing and verifying through it. What the child does is a list of
  events in the order they reach the process; the timer that \<open>runChild\<close> arms is the end of that
  list, so a child that neither closes nor fails ends in a timeout. The first settlement of the
  promise counts, later ones are ignored.
\<close>

datatype bridge_error =
    BridgeUnavailable | BridgeTimeout | BridgeOutputTooLarge | BridgeSpawn string
  | BadN | SignFailed int | SignBadOutput | VerifyFailed int

datatype child_event = OutData bytes | ErrData bytes | ChildError string | ChildClose int

record child_state =
  out_chunks :: bytes
  out_len :: nat
  err_chunks :: bytes
  err_len :: nat

definition max_output :: nat where "max_output = 16 * 1024 * 1024"

subsection \<open>Finding the tool\<close>

text \<open>\<open>findQvCli\<close>: the override, the two build directories, then the search path. \<open>exists\<close> is
  \<open>existsSync\<close>, \<open>on_path\<close> whether \<open>qv --version\<close> exits with 0 (outside Windows).\<close>

definition find_qv_cli :: "(string \<Rightarrow> bool) \<Rightarrow> bool \<Rightarrow> string option \<Rightarrow> string \<Rightarrow> string option" where
  "find_qv_cli exists on_path override repo =
     (let candidates = (case override of None \<Rightarrow> [] | Some b \<Rightarrow> if b = [] then [] else [b])
            @ [repo @ ''/target/release/qv'', repo @ ''/target/debug/qv''] in
      case find exists candidates of
        Some c \<Rightarrow> Some c
      | None \<Rightarrow> if on_path then Some ''qv'' else None)"

fun contains :: "string \<Rightarrow> string \<Rightarrow> bool" where
  "contains p [] = (p = [])"
| "contains p (c # cs) = (starts_with p (c # cs) \<or> contains p cs)"

text \<open>\<open>probeFalconCli\<close>, given the exit status and the output of \<open>falcon-keygen --help\<close>.\<close>

definition probe_falcon_cli :: "string option \<Rightarrow> (string \<Rightarrow> int option \<times> string) \<Rightarrow> bool" where
  "probe_falcon_cli bin help =
     (case bin of
        None \<Rightarrow> False
      | Some b \<Rightarrow> (case help b of (status, out) \<Rightarrow> status = Some 0 \<or> contains ''falcon'' out))"

subsection \<open>The child process\<close>

fun run_child :: "nat \<Rightarrow> child_event list \<Rightarrow> child_state \<Rightarrow> bridge_error + int \<times> bytes \<times> bytes" where
  "run_child mx [] st = Inl BridgeTimeout"
| "run_child mx (OutData b # es) st =
     (let n = out_len st + length b in
      if mx < n then Inl BridgeOutputTooLarge
      else run_child mx es (st\<lparr>out_len := n, out_chunks := out_chunks st @ b\<rparr>))"
| "run_child mx (ErrData b # es) st =
     (let n = err_len st + length b in
      run_child mx es (st\<lparr>err_len := n, err_chunks := (if n \<le> mx then err_chunks st @ b else err_chunks st)\<rparr>))"
| "run_child mx (ChildError c # es) st = Inl (BridgeSpawn c)"
| "run_child mx (ChildClose rc # es) st = Inr (rc, out_chunks st, err_chunks st)"

definition fresh_child :: child_state where
  "fresh_child = \<lparr>out_chunks = [], out_len = 0, err_chunks = [], err_len = 0\<rparr>"

definition hex_output :: "bytes \<Rightarrow> string" where
  "hex_output out = js_trim (of_js (utf8_decode out))"

definition falcon_sign :: "bool \<Rightarrow> child_event list \<Rightarrow> int \<Rightarrow> bridge_error + bytes" where
  "falcon_sign available es n =
     (if n \<noteq> 512 \<and> n \<noteq> 1024 then Inl BadN
      else if \<not> available then Inl BridgeUnavailable
      else bind_r (run_child max_output es fresh_child) (\<lambda>(rc, out, _).
        if rc \<noteq> 0 then Inl (SignFailed rc)
        else let hex = hex_output out in
          if hex = [] \<or> \<not> list_all is_hex hex \<or> length hex mod 2 \<noteq> 0 then Inl SignBadOutput
          else Inr (from_hex hex)))"

definition falcon_verify :: "bool \<Rightarrow> child_event list \<Rightarrow> int \<Rightarrow> bridge_error + bool" where
  "falcon_verify available es n =
     (if n \<noteq> 512 \<and> n \<noteq> 1024 then Inl BadN
      else if \<not> available then Inl BridgeUnavailable
      else bind_r (run_child max_output es fresh_child) (\<lambda>(rc, _).
        if rc = 0 then Inr True else if rc = 2 then Inr False else Inl (VerifyFailed rc)))"

definition bridge_code :: "bridge_error \<Rightarrow> string \<Rightarrow> string" where
  "bridge_code e fallback = (case e of
     BridgeUnavailable \<Rightarrow> ''FALCON_BRIDGE_UNAVAILABLE'' | BridgeTimeout \<Rightarrow> ''FALCON_BRIDGE_TIMEOUT''
   | BridgeOutputTooLarge \<Rightarrow> ''FALCON_BRIDGE_OUTPUT_TOO_LARGE'' | BridgeSpawn c \<Rightarrow> if c = [] then fallback else c
   | BadN \<Rightarrow> ''FALCON_BAD_N'' | SignFailed _ \<Rightarrow> ''FALCON_SIGN_FAILED''
   | SignBadOutput \<Rightarrow> ''FALCON_SIGN_BAD_OUTPUT'' | VerifyFailed _ \<Rightarrow> ''FALCON_VERIFY_FAILED'')"

subsection \<open>The byte fields of the two routes\<close>

text \<open>\<open>decodeBytesField\<close> of \<open>server-sovereign.mjs\<close>: \<open>None\<close> is its \<open>MISSING_\<close> error.\<close>

definition decode_bytes_field :: "jsval \<Rightarrow> bytes option" where
  "decode_bytes_field v =
     (case v of
        JStr s \<Rightarrow>
          if s = [] then None
          else if list_all (\<lambda>u. unat u < 256 \<and> is_hex (char_of (unat u))) s \<and> length s mod 2 = 0
          then Some (from_hex (of_js s))
          else Some (base64_decode (of_js (filter (\<lambda>u. unat u < 256) s)))
      | _ \<Rightarrow> None)"

subsection \<open>Bounds and results\<close>

text \<open>Whatever the child writes, no more than the cap is kept of either stream, and the result is
  settled.\<close>

lemma run_child_bounded:
  assumes "run_child mx es st = Inr (rc, out, er)"
    and "length (out_chunks st) = out_len st" "out_len st \<le> mx"
    and "length (err_chunks st) \<le> err_len st" "length (err_chunks st) \<le> mx"
  shows "length out \<le> mx \<and> length er \<le> mx"
  using assms
proof (induction mx es st rule: run_child.induct)
  case (3 mx b es st)
  then show ?case by (auto simp: Let_def split: if_splits)
qed (auto simp: Let_def split: if_splits)

lemma falcon_verify_total:
  "falcon_verify a es n = Inr b \<Longrightarrow>
   a \<and> (n = 512 \<or> n = 1024) \<and> (\<exists>out er. run_child max_output es fresh_child = Inr (if b then 0 else 2, out, er))"
  by (auto simp: falcon_verify_def bind_r_eq_Inr split: if_splits)

end
