(* ===== verification/Server_Routes.thy ===== *)
theory Server_Routes
  imports Server_State Falcon_Bridge
begin

section \<open>The handlers of the sovereign server\<close>

text \<open>
  The routes of \<open>qv-server/server-sovereign.mjs\<close> that create keys, issue, verify, list and revoke.
  A handler maps a request and the state to the state it leaves and its reply; \<open>None\<close> is an
  exception that escapes the handler (the dispatcher answers 500). The record \<open>request\<close> also holds
  what the handler reads from outside while it runs: the clock, random bytes, a fresh key pair, the
  lease file, whether the disk takes a write, the load of the verify pool. Message texts are left
  out of error replies, their codes are kept.
\<close>

record request =
  rq_method :: string
  rq_path :: "string option"                    \<comment> \<open>\<open>None\<close>: the URL does not parse\<close>
  rq_headers :: "string \<Rightarrow> string option"
  rq_remote :: "string option"
  rq_chunks :: "bytes list"
  rq_id :: string
  rq_now :: int
  rq_uuid :: string
  rq_keys :: "bytes \<times> bytes \<times> bytes"
  rq_ivs :: "nat \<Rightarrow> bytes"
  rq_nonce :: bytes
  rq_lease :: "lock_text option"
  rq_can_write :: bool
  rq_pool :: "(nat \<times> nat \<times> nat) option"    \<comment> \<open>queueMax, queueDepth, size\<close>
  rq_rejects :: nat                                  \<comment> \<open>the pool's count of refusals\<close>
  rq_job :: "nat \<Rightarrow> string option"                    \<comment> \<open>the pool refuses the job\<close>
  rq_falcon :: bool                                  \<comment> \<open>the tool was found at start\<close>
  rq_child :: "child_event list"
  rq_draining :: bool
  rq_in_flight :: nat
  rq_uptime :: nat
  rq_duration :: rat

datatype batch_item = ItemOk nat string verified | ItemBad nat string | ItemInvalid nat sdk_error

datatype reply =
    Json int jsval
  | Fail int jsval
  | IssueFailed "sdk_error option"
  | Verified "string option" verified
  | Unverified sdk_error
  | NoKeyMatched "sdk_error option"
  | Batch "batch_item list" nat nat      \<comment> \<open>results, valid, workers\<close>
  | Inspected inspected
  | InspectFailed sdk_error
  | VkBytes bytes
  | Preflight
  | MetricsText "effect list"
  | Quota string bool "quota option"

definition status_of :: "reply \<Rightarrow> int" where
  "status_of r = (case r of Json n _ \<Rightarrow> n | Fail n _ \<Rightarrow> n | IssueFailed _ \<Rightarrow> 500 | Unverified _ \<Rightarrow> 401
     | NoKeyMatched _ \<Rightarrow> 401 | Preflight \<Rightarrow> 204 | InspectFailed _ \<Rightarrow> 400 | _ \<Rightarrow> 200)"

definition fail :: "int \<Rightarrow> string \<Rightarrow> reply option" where
  "fail n c = Some (Fail n (str c))"

definition client_ip :: "request \<Rightarrow> string" where
  "client_ip rq = extract_client_ip (rq_headers rq ''x-forwarded-for'') (rq_remote rq)"

subsection \<open>Bodies\<close>

definition body_error_value :: "body_error \<Rightarrow> jsval" where
  "body_error_value e = (case e of
     BodyTooLarge \<Rightarrow> obj [(''_err'', str ''BODY_TOO_LARGE''), (''_status'', num 413)]
   | InvalidJson \<Rightarrow> obj [(''_err'', str ''INVALID_JSON''), (''_status'', num 400)])"

definition read_body :: "'s server_env \<Rightarrow> request \<Rightarrow> jsval option" where
  "read_body E rq = (case read_json_bounded (cfg_parse E) (rq_chunks rq) (maxBodyBytes (cfg_rate E)) of
     Inl _ \<Rightarrow> None | Inr v \<Rightarrow> Some v)"

definition read_body_caught :: "'s server_env \<Rightarrow> request \<Rightarrow> jsval" where
  "read_body_caught E rq = (case read_json_bounded (cfg_parse E) (rq_chunks rq) (maxBodyBytes (cfg_rate E)) of
     Inl e \<Rightarrow> body_error_value e | Inr v \<Rightarrow> v)"

text \<open>\<open>if (body._err) return err(res, body._status, body._err, ...)\<close>; \<open>writeHead\<close> converts the
  status to an integer and throws outside 100 to 999. A body that sends these properties itself is
  treated the same.\<close>

definition with_body :: "jsval \<Rightarrow> 's server \<Rightarrow> 's server \<times> reply option \<Rightarrow> 's server \<times> reply option" where
  "with_body body s k =
     (if nullish body then (s, None)
      else if truthy (jget body ''_err'') then
        (let n = to_uint32 (jget body ''_status'') in
         (s, if 100 \<le> n \<and> n \<le> 999 then Some (Fail n (jget body ''_err'')) else None))
      else k)"

text \<open>\<open>/^[0-9a-f]+$/i.test(token) ? hex2u8(token) : b64ud(token)\<close>.\<close>

definition token_bytes :: "'s server_env \<Rightarrow> jsval \<Rightarrow> bytes option" where
  "token_bytes E v = (case v of
     JStr s \<Rightarrow> Some (if s \<noteq> [] \<and> list_all (\<lambda>u. unat u < 256 \<and> is_hex (char_of (unat u))) s
                     then from_hex (of_js s) else base64_decode (latin s))
   | _ \<Rightarrow> cfg_buffer E v)"

subsection \<open>Key generation\<close>

definition new_skey :: "request \<Rightarrow> jsval \<Rightarrow> skey" where
  "new_skey rq body = (case rq_keys rq of (sk, vk, ek) \<Rightarrow>
     \<lparr>signing = sk, verifying = vk, encrypting = ek,
      label = coalesce (jget body ''label'') (str (rq_uuid rq)), created = num (rq_now rq)\<rparr>)"

definition keygen_route :: "'s server_env \<Rightarrow> request \<Rightarrow> 's server \<Rightarrow> 's server \<times> reply option" where
  "keygen_route E rq s =
     (let body = read_body_caught E rq in
      with_body body s
       (let keyId = rq_uuid rq; e = new_skey rq body;
            s1 = put_key E keyId e (new_chain (chain_seed e)) s in
        if \<not> rq_can_write rq then (s1, None)
        else
          (log_effect (Audit ''keygen'' ''info'' [(''requestId'', str (rq_id rq)), (''ip'', str (client_ip rq)),
             (''keyId'', str keyId), (''label'', label e), (''algorithm'', str ''ML-DSA-87'')])
             (save_keystore E (rq_ivs rq) True s1),
           Some (Json 201 (obj [(''keyId'', str keyId), (''label'', label e),
             (''verifyingKeyB64'', str (base64url_encode (verifying e))),
             (''encryptKeyB64'', str (base64url_encode (encrypting e))),
             (''signingKeyLen'', num (int (length (signing e)))),
             (''verifyingKeyLen'', num (int (length (verifying e)))),
             (''algorithm'', str ''ML-DSA-87''), (''createdAt'', str (cfg_iso E (rq_now rq)))])))))"

subsection \<open>Issue\<close>

definition claims_code :: "claims_error \<Rightarrow> string" where
  "claims_code e = (case e of
     ClaimsNotObject \<Rightarrow> ''CLAIMS_NOT_OBJECT'' | ClaimsTooManyNodes _ \<Rightarrow> ''CLAIMS_TOO_MANY_NODES''
   | ClaimsTooDeep _ \<Rightarrow> ''CLAIMS_TOO_DEEP'' | ClaimsStringTooLong _ \<Rightarrow> ''CLAIMS_STRING_TOO_LONG''
   | ClaimsBadNumber \<Rightarrow> ''CLAIMS_BAD_NUMBER'' | ClaimsArrayTooLarge _ \<Rightarrow> ''CLAIMS_ARRAY_TOO_LARGE''
   | ClaimsTooManyKeys _ \<Rightarrow> ''CLAIMS_TOO_MANY_KEYS'' | ClaimsKeyTooLong _ \<Rightarrow> ''CLAIMS_KEY_TOO_LONG''
   | ClaimsBadType _ \<Rightarrow> ''CLAIMS_BAD_TYPE'')"

text \<open>
  \<open>{ dilithium5: .. }[suite]\<close> looks \<open>suite\<close> up in an object literal, which inherits from
  \<open>Object.prototype\<close>: an inherited name gives a function or object, which is not \<open>undefined\<close> and
  becomes 0 when it is stored into a byte of the header.
\<close>

definition inherited_names :: "string list" where
  "inherited_names = [''constructor'', ''__defineGetter__'', ''__defineSetter__'', ''hasOwnProperty'',
     ''__lookupGetter__'', ''__lookupSetter__'', ''isPrototypeOf'', ''propertyIsEnumerable'',
     ''toString'', ''valueOf'', ''__proto__'', ''toLocaleString'']"

definition table_get :: "(string \<times> int) list \<Rightarrow> jsstr \<Rightarrow> int option" where
  "table_get tab name =
     (case find (\<lambda>(k, v). js k = name) tab of
        Some (_, v) \<Rightarrow> Some v
      | None \<Rightarrow> if name \<in> set (map js inherited_names) then Some 0 else None)"

definition suite_id :: "'s server_env \<Rightarrow> jsval \<Rightarrow> int option" where
  "suite_id E v = table_get [(''dilithium5'', 5)] (prop_name (p_numstr (cfg_prims E)) v)"

definition type_id :: "'s server_env \<Rightarrow> jsval \<Rightarrow> int option" where
  "type_id E v = table_get [(''access'', 1), (''refresh'', 2), (''service'', 3)] (prop_name (p_numstr (cfg_prims E)) v)"

definition issue_prm :: "skey \<Rightarrow> (jsstr \<times> jsval) list \<Rightarrow> jsval \<Rightarrow> int \<Rightarrow> int \<Rightarrow> issue_params" where
  "issue_prm e kvs ttl suiteId typeId =
     \<lparr>i_signing_key_seed = Some (signing e), i_signing_key = None, i_encrypt_key = encrypting e,
      i_claims = kvs, i_ttl = to_uint32 ttl, i_suite = suiteId, i_token_type = typeId,
      i_device_fp = None, i_compress = CompressAuto\<rparr>"

definition issue_fields :: "request \<Rightarrow> string \<Rightarrow> jsval \<Rightarrow> jsval \<Rightarrow> (string \<times> jsval) list" where
  "issue_fields rq k suite tokenType =
     [(''requestId'', str (rq_id rq)), (''ip'', str (client_ip rq)), (''keyId'', str k),
      (''suite'', suite), (''tokenType'', tokenType)]"

definition issue_failed ::
  "request \<Rightarrow> string \<Rightarrow> jsval \<Rightarrow> jsval \<Rightarrow> sdk_error option \<Rightarrow> 's server \<Rightarrow> 's server \<times> reply option" where
  "issue_failed rq k suite tokenType x s =
     (log_effect (Inc ''qv_token_issue_total'' [(''suite'', suite), (''tokenType'', tokenType), (''result'', str ''error'')])
       (log_effect (Audit ''token.issue'' ''error'' (issue_fields rq k suite tokenType)) s),
      Some (IssueFailed x))"

text \<open>The \<open>try\<close> block: issue on the live chain, then append to the log.\<close>

definition issue_signed ::
  "'s server_env \<Rightarrow> request \<Rightarrow> string \<Rightarrow> skey \<Rightarrow> (jsstr \<times> jsval) list \<Rightarrow> jsval \<Rightarrow> jsval \<Rightarrow> int \<Rightarrow> jsval \<Rightarrow> int \<Rightarrow>
   's server \<Rightarrow> 's server \<times> reply option" where
  "issue_signed E rq k e kvs ttl suite suiteId tokenType typeId s =
     (case chains s k of
        None \<Rightarrow> issue_failed rq k suite tokenType (Some TypeErr) s
      | Some c \<Rightarrow>
          (case issue_token (cfg_prims E) (rq_now rq) (rq_nonce rq) (issue_prm e kvs ttl suiteId typeId) c of
             (c', r) \<Rightarrow>
               let s1 = s\<lparr>chains := (chains s)(k \<mapsto> c')\<rparr> in
               (case r of
                  Inl x \<Rightarrow> issue_failed rq k suite tokenType (Some x) s1
                | Inr (tok, hex) \<Rightarrow>
                    (case append_chain E (rq_lease rq) k (c_counter c') (c_state c') s1 of
                       None \<Rightarrow> issue_failed rq k suite tokenType None s1
                     | Some s2 \<Rightarrow>
                         (log_effect (Inc ''qv_token_issue_total'' [(''suite'', suite), (''tokenType'', tokenType), (''result'', str ''ok'')])
                           (log_effect (Audit ''token.issue'' ''info'' (issue_fields rq k suite tokenType @
                              [(''ttlSecs'', ttl), (''sizeBytes'', num (int (length tok))), (''mutationCtr'', num (c_counter c'))])) s2),
                          Some (Json 200 (obj [(''tokenHex'', str hex), (''tokenB64'', str (base64url_encode tok)),
                            (''sizeBytes'', num (int (length tok))), (''issuedAt'', str (cfg_iso E (rq_now rq))),
                            (''ttlSecs'', ttl), (''mutationCtr'', num (c_counter c')), (''suite'', suite),
                            (''tokenType'', tokenType)])))))))"

definition issue_limited ::
  "'s server_env \<Rightarrow> request \<Rightarrow> string \<Rightarrow> skey \<Rightarrow> (jsstr \<times> jsval) list \<Rightarrow> jsval \<Rightarrow> jsval \<Rightarrow> jsval \<Rightarrow>
   's server \<Rightarrow> 's server \<times> reply option" where
  "issue_limited E rq k e kvs ttl suite tokenType s =
     (case check_key (cfg_rate E) (lim s) k ''issue'' (rq_now rq) of
        (l, v) \<Rightarrow>
          let s1 = s\<lparr>lim := l\<rparr> in
          if \<not> allowed v then
            (log_effect (Audit ''ratelimit.deny'' ''warn'' [(''requestId'', str (rq_id rq)), (''ip'', str (client_ip rq)),
               (''keyId'', str k), (''category'', str ''per_key''), (''limit'', num (int (limit v))),
               (''retryAfter'', case resetSec v of Some n \<Rightarrow> num n | None \<Rightarrow> JNum NonFinite), (''reason'', str (reason v))])
              (log_effect (Inc ''qv_rate_limit_denies_total'' [(''category'', str ''per_key'')]) s1),
             fail 429 ''RATE_LIMITED_PER_KEY'')
          else
            (case suite_id E suite of
               None \<Rightarrow> (s1, fail 400 ''INVALID_SUITE'')
             | Some suiteId \<Rightarrow>
                 (case type_id E tokenType of
                    None \<Rightarrow> (s1, fail 400 ''INVALID_TYPE'')
                  | Some typeId \<Rightarrow> issue_signed E rq k e kvs ttl suite suiteId tokenType typeId s1)))"

text \<open>What is checked of the body before the key is looked up; \<open>Inr\<close> are the claims.\<close>

definition check_claims :: "'s server_env \<Rightarrow> jsval \<Rightarrow> reply option + (jsstr \<times> jsval) list" where
  "check_claims E claims =
     (case json_bytes (p_numstr (cfg_prims E)) claims of
        None \<Rightarrow> Inl (fail 400 ''INVALID_CLAIMS'')
      | Some n \<Rightarrow>
          if maxClaimsBytes (cfg_rate E) < n then Inl (fail 413 ''CLAIMS_TOO_LARGE'')
          else (case validate_claims (cfg_claims E) claims of
                  Inl x \<Rightarrow> Inl (fail 400 (claims_code x))
                | Inr _ \<Rightarrow> Inr (case claims of JObj kvs \<Rightarrow> kvs | _ \<Rightarrow> [])))"

definition issue_route :: "'s server_env \<Rightarrow> request \<Rightarrow> 's server \<Rightarrow> 's server \<times> reply option" where
  "issue_route E rq s =
     (let body = read_body_caught E rq; keyId = jget body ''keyId''; claims = jget body ''claims'' in
      with_body body s
       (if \<not> truthy keyId then (s, fail 400 ''MISSING_KEY_ID'')
        else if \<not> truthy claims then (s, fail 400 ''MISSING_CLAIMS'')
        else (case check_claims E claims of
                Inl r \<Rightarrow> (s, r)
              | Inr kvs \<Rightarrow>
                  if set_has (revoked s) keyId then (s, fail 410 ''KEY_REVOKED'')
                  else (case ks_find (keystore s) keyId of
                          None \<Rightarrow> (s, fail 404 ''KEY_NOT_FOUND'')
                        | Some (k, e) \<Rightarrow>
                            issue_limited E rq k e kvs (or_default (jget body ''ttl'') (num 3600))
                              (or_default (jget body ''suite'') (str ''dilithium5''))
                              (or_default (jget body ''tokenType'') (str ''access'')) s))))"

end
