(* ===== verification/Server_Verify.thy ===== *)
theory Server_Verify
  imports Server_Routes
begin

section \<open>Verification and key management routes\<close>

text \<open>
  The remaining routes of \<open>qv-server/server-sovereign.mjs\<close>: single, automatic and batch
  verification, inspection, key discovery, revocation. \<open>worker_verify\<close> is the job of
  \<open>verify-worker.mjs\<close>. Every verification runs on a fresh chain at counter 0.
\<close>

definition verify_with :: "'s server_env \<Rightarrow> request \<Rightarrow> skey \<Rightarrow> bytes \<Rightarrow> sdk_error + verified" where
  "verify_with E rq e tok =
     snd (verify_token (cfg_prims E) (rq_now rq) (verifying e) (encrypting e)
       (from_state (chain_seed e) 0) (TokenBytes tok))"

definition count_verify :: "string \<Rightarrow> 's server \<Rightarrow> 's server" where
  "count_verify r s = log_effect (Inc ''qv_token_verify_total'' [(''result'', str r)]) s"

definition verify_route :: "'s server_env \<Rightarrow> request \<Rightarrow> 's server \<Rightarrow> 's server \<times> reply option" where
  "verify_route E rq s =
     (let body = read_body_caught E rq; keyId = jget body ''keyId''; token = jget body ''token'' in
      with_body body s
       (if \<not> truthy keyId then (s, fail 400 ''MISSING_KEY_ID'')
        else if \<not> truthy token then (s, fail 400 ''MISSING_TOKEN'')
        else if set_has (revoked s) keyId then (s, fail 410 ''KEY_REVOKED'')
        else (case ks_find (keystore s) keyId of
                None \<Rightarrow> (s, fail 404 ''KEY_NOT_FOUND'')
              | Some (k, e) \<Rightarrow>
                  (case token_bytes E token of
                     None \<Rightarrow> (s, fail 400 ''INVALID_TOKEN'')
                   | Some tok \<Rightarrow>
                       (case verify_with E rq e tok of
                          Inl x \<Rightarrow> (count_verify ''invalid'' s, Some (Unverified x))
                        | Inr out \<Rightarrow> (count_verify ''ok'' s, Some (Verified None out)))))))"

text \<open>\<open>verify-auto\<close>: the body reader is not caught, so an unreadable body escapes as an exception.\<close>

fun try_keys :: "'s server_env \<Rightarrow> request \<Rightarrow> jsval list \<Rightarrow> bytes \<Rightarrow> (string \<times> skey) list \<Rightarrow> sdk_error option \<Rightarrow>
    sdk_error option + string \<times> verified" where
  "try_keys E rq rvk tok [] lastError = Inl lastError"
| "try_keys E rq rvk tok ((keyId, e) # ks) lastError =
     (if set_has rvk (str keyId) then try_keys E rq rvk tok ks lastError
      else (case verify_with E rq e tok of
              Inr out \<Rightarrow> Inr (keyId, out)
            | Inl x \<Rightarrow> try_keys E rq rvk tok ks (Some x)))"

definition verify_auto_route :: "'s server_env \<Rightarrow> request \<Rightarrow> 's server \<Rightarrow> 's server \<times> reply option" where
  "verify_auto_route E rq s =
     (case read_body E rq of
        None \<Rightarrow> (s, None)
      | Some body \<Rightarrow>
          with_body body s
            (let token = jget body ''token'' in
             if \<not> truthy token then (s, fail 400 ''MISSING_TOKEN'')
             else (case token_bytes E token of
                     None \<Rightarrow> (s, fail 400 ''INVALID_TOKEN'')
                   | Some tok \<Rightarrow>
                       (case try_keys E rq (revoked s) tok (keystore s) None of
                          Inl x \<Rightarrow> (count_verify ''invalid'' s, Some (NoKeyMatched x))
                        | Inr (keyId, out) \<Rightarrow> (count_verify ''ok'' s, Some (Verified (Some keyId) out))))))"

subsection \<open>Batches\<close>

definition worker_verify ::
  "prims \<Rightarrow> int \<Rightarrow> bytes \<Rightarrow> bytes \<Rightarrow> bytes \<Rightarrow> bytes \<Rightarrow> int \<Rightarrow> sdk_error + verified" where
  "worker_verify P now tokenBytes verifyingKey encryptKey chainSeed chainCtr =
     snd (verify_token P now verifyingKey encryptKey (from_state chainSeed chainCtr) (TokenBytes tokenBytes))"

definition verify_item :: "'s server_env \<Rightarrow> request \<Rightarrow> 's server \<Rightarrow> nat \<Rightarrow> jsval \<Rightarrow> batch_item" where
  "verify_item E rq s index it =
     (case it of
        JObj _ \<Rightarrow>
          (let keyId = jget it ''keyId''; token = jget it ''token'' in
           if \<not> truthy keyId \<or> \<not> truthy token then ItemBad index ''MISSING_FIELDS''
           else if set_has (revoked s) keyId then ItemBad index ''KEY_REVOKED''
           else (case ks_find (keystore s) keyId of
                   None \<Rightarrow> ItemBad index ''KEY_NOT_FOUND''
                 | Some (k, e) \<Rightarrow>
                     (case token_bytes E token of
                        None \<Rightarrow> ItemBad index ''INVALID_TOKEN''
                      | Some tok \<Rightarrow>
                          (case (if rq_pool rq \<noteq> None then rq_job rq index else None) of
                             Some msg \<Rightarrow> ItemBad index msg
                           | None \<Rightarrow>
                               (case (if rq_pool rq \<noteq> None
                                      then worker_verify (cfg_prims E) (rq_now rq) tok (verifying e) (encrypting e) (chain_seed e) 0
                                      else verify_with E rq e tok) of
                                  Inl x \<Rightarrow> ItemInvalid index x
                                | Inr out \<Rightarrow> ItemOk index k out)))))
      | JArr _ \<Rightarrow> ItemBad index ''MISSING_FIELDS''
      | _ \<Rightarrow> ItemBad index ''BAD_ITEM'')"

definition item_valid :: "batch_item \<Rightarrow> bool" where
  "item_valid r = (case r of ItemOk _ _ _ \<Rightarrow> True | _ \<Rightarrow> False)"

definition pool_overloaded :: "request \<Rightarrow> nat \<Rightarrow> bool" where
  "pool_overloaded rq n =
     (case rq_pool rq of
        None \<Rightarrow> False
      | Some (queueMax, queueDepth, sz) \<Rightarrow> int n > int queueMax - int queueDepth + int sz)"

definition batch_route :: "'s server_env \<Rightarrow> request \<Rightarrow> 's server \<Rightarrow> 's server \<times> reply option" where
  "batch_route E rq s =
     (let body = read_body_caught E rq in
      with_body body s
       (case jget body ''items'' of
          JArr items \<Rightarrow>
            if items = [] then (s, fail 400 ''EMPTY_BATCH'')
            else if 256 < length items then (s, fail 400 ''BATCH_TOO_LARGE'')
            else if pool_overloaded rq (length items) then (s, fail 503 ''POOL_OVERLOADED'')
            else (let results = map (\<lambda>(i, it). verify_item E rq s i it) (enumerate 0 items) in
                  (s, Some (Batch results (length (filter item_valid results))
                        (case rq_pool rq of None \<Rightarrow> 0 | Some (_, _, sz) \<Rightarrow> sz))))
        | _ \<Rightarrow> (s, fail 400 ''MISSING_ITEMS'')))"

definition inspect_route :: "'s server_env \<Rightarrow> request \<Rightarrow> 's server \<Rightarrow> 's server \<times> reply option" where
  "inspect_route E rq s =
     (let body = read_body_caught E rq; token = jget body ''token'' in
      with_body body s
       (if \<not> truthy token then (s, fail 400 ''MISSING_TOKEN'')
        else (case token_bytes E token of
                None \<Rightarrow> (s, Some (InspectFailed TypeErr))
              | Some tok \<Rightarrow>
                  (case inspect_token (TokenBytes tok) of
                     Inl x \<Rightarrow> (s, Some (InspectFailed x))
                   | Inr r \<Rightarrow> (s, Some (Inspected r))))))"

subsection \<open>Discovery\<close>

definition wanted_fingerprint :: "'s server_env \<Rightarrow> jsval \<Rightarrow> reply option + string" where
  "wanted_fingerprint E body =
     (case jget body ''fingerprint'' of
        JStr f \<Rightarrow>
          if length f = 32 \<and> list_all (\<lambda>u. unat u < 256 \<and> is_hex (char_of (unat u))) f
          then Inr (to_lower (of_js f)) else Inl (fail 400 ''INVALID_FINGERPRINT'')
      | _ \<Rightarrow> (case jget body ''vkB64u'' of
                JStr v \<Rightarrow> Inr (fingerprint_vk E (base64_decode (latin v)))
              | _ \<Rightarrow> Inl (fail 400 ''INVALID_REQUEST'')))"

definition identify_route :: "'s server_env \<Rightarrow> request \<Rightarrow> 's server \<Rightarrow> 's server \<times> reply option" where
  "identify_route E rq s =
     (case read_body E rq of
        None \<Rightarrow> (s, None)
      | Some body \<Rightarrow>
          with_body body s
            (case wanted_fingerprint E body of
               Inl r \<Rightarrow> (s, r)
             | Inr fp \<Rightarrow>
                 (case fp_index s fp of
                    None \<Rightarrow> (s, fail 404 ''KEY_NOT_FOUND'')
                  | Some keyId \<Rightarrow>
                      if keyId = [] then (s, fail 404 ''KEY_NOT_FOUND'')
                      else (s, Some (Json 200 (obj [(''keyId'', str keyId), (''fingerprint'', str fp),
                             (''revoked'', JBool (is_revoked s keyId))]))))))"

definition key_fields :: "'s server \<Rightarrow> string \<Rightarrow> skey \<Rightarrow> (string \<times> jsval) list" where
  "key_fields s keyId v =
     [(''keyId'', str keyId), (''label'', label v), (''createdAt'', created v),
      (''algorithm'', str ''ML-DSA-87''), (''revoked'', JBool (is_revoked s keyId)),
      (''verifyingKeyB64'', str (base64url_encode (verifying v)))]"

definition list_keys_route :: "'s server \<Rightarrow> 's server \<times> reply option" where
  "list_keys_route s =
     (let lst = map (\<lambda>(keyId, v). obj (key_fields s keyId v)) (keystore s) in
      (s, Some (Json 200 (obj [(''keys'', JArr lst), (''count'', num (int (length lst)))]))))"

definition discovery_route :: "'s server_env \<Rightarrow> 's server \<Rightarrow> 's server \<times> reply option" where
  "discovery_route E s =
     (let lst = map (\<lambda>(keyId, v). obj
            [(''keyId'', str keyId), (''fingerprint'', str (fingerprint_vk E (verifying v))),
             (''vkB64u'', str (base64url_encode (verifying v))), (''algorithm'', str ''ML-DSA-87''),
             (''suite'', str ''dilithium5''), (''createdAt'', created v)])
           (filter (\<lambda>(keyId, _). \<not> is_revoked s keyId) (keystore s)) in
      (s, Some (Json 200 (obj [(''keys'', JArr lst), (''count'', num (int (length lst)))]))))"

definition get_key_route :: "jsval \<Rightarrow> 's server \<Rightarrow> 's server \<times> reply option" where
  "get_key_route keyId s =
     (case ks_find (keystore s) keyId of
        None \<Rightarrow> (s, fail 404 ''KEY_NOT_FOUND'')
      | Some (k, v) \<Rightarrow>
          (s, Some (Json 200 (obj (key_fields s k v @
             [(''verifyingKeyHex'', str (to_hex (verifying v))),
              (''verifyingKeyLen'', num (int (length (verifying v))))])))))"

definition vk_bin_route :: "jsval \<Rightarrow> 's server \<Rightarrow> 's server \<times> reply option" where
  "vk_bin_route keyId s =
     (case ks_find (keystore s) keyId of
        None \<Rightarrow> (s, fail 404 ''KEY_NOT_FOUND'')
      | Some (k, v) \<Rightarrow> (s, Some (VkBytes (verifying v))))"

definition quota_route :: "'s server_env \<Rightarrow> request \<Rightarrow> jsval \<Rightarrow> 's server \<Rightarrow> 's server \<times> reply option" where
  "quota_route E rq keyId s =
     (case ks_find (keystore s) keyId of
        None \<Rightarrow> (s, fail 404 ''KEY_NOT_FOUND'')
      | Some (k, v) \<Rightarrow>
          (s, Some (Quota k (is_revoked s k) (quota_snapshot (cfg_rate E) (lim s) k ''issue'' (rq_now rq)))))"

subsection \<open>Revocation\<close>

text \<open>The set is updated in memory first; a failed write escapes as an exception.\<close>

definition revoke_route :: "'s server_env \<Rightarrow> request \<Rightarrow> jsval \<Rightarrow> 's server \<Rightarrow> 's server \<times> reply option" where
  "revoke_route E rq keyId s =
     (case ks_find (keystore s) keyId of
        None \<Rightarrow> (s, fail 404 ''KEY_NOT_FOUND'')
      | Some (k, _) \<Rightarrow>
          if set_has (revoked s) keyId then (s, fail 409 ''ALREADY_REVOKED'')
          else
            (let s1 = s\<lparr>revoked := set_add (revoked s) keyId\<rparr> in
             if \<not> rq_can_write rq then (s1, None)
             else
               (log_effect (SetGauge ''qv_revoked_total'' (length (revoked s1)))
                 (log_effect (Audit ''token.revoke'' ''warn'' [(''requestId'', str (rq_id rq)),
                    (''ip'', str (client_ip rq)), (''keyId'', str k)])
                   (save_revoked True s1)),
                Some (Json 200 (obj [(''keyId'', str k), (''revoked'', JBool True),
                  (''revokedAt'', str (cfg_iso E (rq_now rq)))])))))"

definition list_revoked_route :: "'s server \<Rightarrow> 's server \<times> reply option" where
  "list_revoked_route s =
     (s, Some (Json 200 (obj [(''revoked'', JArr (revoked s)), (''count'', num (int (length (revoked s))))])))"

subsection \<open>What verification decides\<close>

lemma worker_verify_with: "worker_verify (cfg_prims E) (rq_now rq) tok (verifying e) (encrypting e) (chain_seed e) 0 =
    verify_with E rq e tok"
  by (simp add: worker_verify_def verify_with_def)

lemma try_keys_Inr:
  "try_keys E rq rvk tok ks x = Inr (k, out) \<Longrightarrow>
   str k \<notin> set rvk \<and> (\<exists>e. (k, e) \<in> set ks \<and> verify_with E rq e tok = Inr out)"
  by (induction E rq rvk tok ks x rule: try_keys.induct) (auto split: if_splits sum.splits)

lemma try_keys_None:
  "(\<exists>y. try_keys E rq rvk tok ks x = Inl y) \<longleftrightarrow>
   (\<forall>(k, e) \<in> set ks. str k \<notin> set rvk \<longrightarrow> (\<exists>y. verify_with E rq e tok = Inl y))"
  by (induction E rq rvk tok ks x rule: try_keys.induct) (auto split: sum.splits)

lemma verify_item_ok:
  "verify_item E rq s i it = ItemOk j k out \<Longrightarrow>
   j = i \<and> str k \<notin> set (revoked s) \<and> (\<exists>e tok. (k, e) \<in> set (keystore s) \<and> verify_with E rq e tok = Inr out)"
  by (auto simp: verify_item_def Let_def worker_verify_with dest!: ks_find_Some
      split: jsval.splits if_splits option.splits sum.splits prod.splits)

lemma with_body_eq:
  "with_body body s k = (s', r) \<Longrightarrow>
   (s' = s \<and> (r = None \<or> (\<exists>n c. r = Some (Fail n c)))) \<or> k = (s', r)"
  by (auto simp: with_body_def Let_def split: if_splits)

end
