(* ===== verification/Server.thy ===== *)
theory Server
  imports Server_Verify
begin

section \<open>The dispatcher of the sovereign server\<close>

text \<open>
  The middleware chain and the dispatcher of \<open>qv-server/server-sovereign.mjs\<close>: the route table, the
  rate limit, the address list and the bearer check in front of a handler, and what happens to an
  exception. An exception inside a handler is answered with 500; the URL is parsed before that
  guard, in an \<open>async\<close> listener nobody awaits, so a URL that does not parse ends the process
  (\<open>Crashed\<close>: an unhandled rejection, Node's default).
\<close>

subsection \<open>The remaining handlers\<close>

text \<open>Requests are served after the boot only, so \<open>bootReady\<close> holds. The process id, the Node version and
  the name of the chain store are left out of the answers.\<close>

definition live_route :: "request \<Rightarrow> 's server \<Rightarrow> 's server \<times> reply option" where
  "live_route rq s = (s, Some (Json 200 (obj [(''status'', str ''alive''), (''uptimeSecs'', num (int (rq_uptime rq)))])))"

definition ready_route :: "request \<Rightarrow> 's server \<Rightarrow> 's server \<times> reply option" where
  "ready_route rq s =
     (let ok' = \<not> rq_draining rq in
      (s, Some (Json (if ok' then 200 else 503)
        (obj [(''ok'', JBool ok'), (''status'', str (if ok' then ''ready'' else ''draining'')),
              (''version'', str ''4.0.0-alpha''), (''algorithm'', str ''ML-DSA-87 (NIST FIPS 204)''),
              (''sovereign'', JBool True), (''dependencies'', str ''zero-npm''),
              (''keysLoaded'', num (int (length (keystore s)))), (''inFlight'', num (int (rq_in_flight rq))),
              (''draining'', JBool (rq_draining rq))]))))"

text \<open>\<open>verifyPool.queueDepth\<close> is a getter: when its value is not 0 it is then called, which throws.\<close>

definition health_route :: "request \<Rightarrow> 's server \<Rightarrow> 's server \<times> reply option" where
  "health_route rq s =
     (if (case rq_pool rq of Some (_, depth, _) \<Rightarrow> depth \<noteq> 0 | None \<Rightarrow> False) then (s, None)
      else (s, Some (Json 200
        (obj [(''ok'', JBool (\<not> rq_draining rq)), (''status'', str (if rq_draining rq then ''draining'' else ''ready'')),
              (''version'', str ''4.0.0-alpha''), (''algorithm'', str ''ML-DSA-87 (NIST FIPS 204)''),
              (''sovereign'', JBool True), (''dependencies'', str ''zero-npm''),
              (''keysLoaded'', num (int (length (keystore s)))), (''keysRevoked'', num (int (length (revoked s)))),
              (''inFlight'', num (int (rq_in_flight rq))), (''draining'', JBool (rq_draining rq)),
              (''writerLock'', (case lock s of None \<Rightarrow> obj [(''held'', JBool False)]
                 | Some h \<Rightarrow> obj [(''held'', JBool True), (''fence'', str (int_text (Writer_Lock.h_fence h)))])),
              (''verifyQueue'', obj [(''depth'', num 0), (''max'', JNull)]),
              (''uptimeSeconds'', num (int (rq_uptime rq)))]))))"

definition spec_route :: "'s server \<Rightarrow> 's server \<times> reply option" where
  "spec_route s = (s, Some (Json 200
     (obj [(''name'', str ''Sigvault''), (''version'', str ''4.0.0-alpha''),
           (''signature'', str ''ML-DSA-87 (FIPS 204)''), (''kem'', str ''ML-KEM-1024 (FIPS 203)''),
           (''symmetric'', str ''XChaCha20-Poly1305''), (''hash'', str ''SHA3-256 (FIPS 202)''),
           (''tokenMagic'', str ''0x51564C54''), (''suites'', obj [(''0x05'', str ''Dilithium5'')]),
           (''tokenTypes'', obj [(''0x01'', str ''Access''), (''0x02'', str ''Refresh''), (''0x03'', str ''Service'')]),
           (''sovereign'', obj [(''npmDeps'', num 0), (''runtime'', str ''Node.js stdlib only''), (''persistent'', JBool True)])])))"

definition falcon_n :: "jsval \<Rightarrow> int option" where
  "falcon_n v = (if v = num 512 then Some 512 else if v = num 1024 then Some 1024 else None)"

definition falcon_sign_route :: "'s server_env \<Rightarrow> request \<Rightarrow> 's server \<Rightarrow> 's server \<times> reply option" where
  "falcon_sign_route E rq s =
     (if \<not> rq_falcon rq then (s, fail 503 ''FALCON_BRIDGE_UNAVAILABLE'')
      else case read_body E rq of
        None \<Rightarrow> (s, None)
      | Some body \<Rightarrow> with_body body s
          (case falcon_n (jget body ''n'') of
             None \<Rightarrow> (s, fail 400 ''FALCON_BAD_N'')
           | Some n \<Rightarrow>
             (case decode_bytes_field (jget body ''signingKey'') of
                None \<Rightarrow> (s, fail 400 ''MISSING_SIGNINGKEY'')
              | Some sk \<Rightarrow>
                (case decode_bytes_field (jget body ''message'') of
                   None \<Rightarrow> (s, fail 400 ''MISSING_MESSAGE'')
                 | Some msg \<Rightarrow>
                   (let base = [(''requestId'', str (rq_id rq)), (''ip'', str (client_ip rq)), (''n'', num n),
                                (''msgBytes'', num (int (length msg)))] in
                    case falcon_sign (rq_falcon rq) (rq_child rq) n of
                      Inr sig \<Rightarrow>
                        (log_effect (Audit ''falcon.sign'' ''info'' (base @ [(''sigBytes'', num (int (length sig)))])) s,
                         Some (Json 200 (obj [(''sigHex'', str (to_hex sig)), (''sigBytes'', num (int (length sig))), (''n'', num n)])))
                    | Inl e \<Rightarrow>
                        (log_effect (Audit ''falcon.sign'' ''error'' (base @ [(''error'', str (bridge_code e ''FALCON_SIGN_FAILED''))])) s,
                         fail 500 (bridge_code e ''FALCON_SIGN_FAILED'')))))))"

definition falcon_verify_route :: "'s server_env \<Rightarrow> request \<Rightarrow> 's server \<Rightarrow> 's server \<times> reply option" where
  "falcon_verify_route E rq s =
     (if \<not> rq_falcon rq then (s, fail 503 ''FALCON_BRIDGE_UNAVAILABLE'')
      else case read_body E rq of
        None \<Rightarrow> (s, None)
      | Some body \<Rightarrow> with_body body s
          (case falcon_n (jget body ''n'') of
             None \<Rightarrow> (s, fail 400 ''FALCON_BAD_N'')
           | Some n \<Rightarrow>
             (case decode_bytes_field (jget body ''verifyingKey'') of
                None \<Rightarrow> (s, fail 400 ''MISSING_VERIFYINGKEY'')
              | Some vk \<Rightarrow>
                (case decode_bytes_field (jget body ''message'') of
                   None \<Rightarrow> (s, fail 400 ''MISSING_MESSAGE'')
                 | Some msg \<Rightarrow>
                   (case decode_bytes_field (jget body ''signature'') of
                      None \<Rightarrow> (s, fail 400 ''MISSING_SIGNATURE'')
                    | Some sig \<Rightarrow>
                      (case falcon_verify (rq_falcon rq) (rq_child rq) n of
                         Inr valid \<Rightarrow> (s, Some (Json 200 (obj [(''valid'', JBool valid), (''n'', num n)])))
                       | Inl e \<Rightarrow> (s, fail 500 (bridge_code e ''FALCON_VERIFY_FAILED''))))))))"

definition metrics_route :: "'s server_env \<Rightarrow> request \<Rightarrow> 's server \<Rightarrow> 's server \<times> reply option" where
  "metrics_route E rq s =
     (if \<not> cfg_metrics_enabled E then (s, fail 404 ''NOT_FOUND'')
      else
        (let s1 = log_effect (SetGauge ''qv_process_uptime_seconds'' (rq_uptime rq))
               (log_effect (SetGauge ''qv_inflight_requests'' (rq_in_flight rq))
                (log_effect (SetGauge ''qv_revoked_total'' (length (revoked s)))
                 (log_effect (SetGauge ''qv_keys_total'' (length (keystore s))) s)));
             s2 = (case rq_pool rq of
                     None \<Rightarrow> s1
                   | Some (_, depth, _) \<Rightarrow>
                       (log_effect (IncBy ''qv_verify_queue_rejects_total'' (rq_rejects rq - rejects_seen s))
                         (log_effect (SetGauge ''qv_verify_queue_depth'' depth) s1))\<lparr>rejects_seen := rq_rejects rq\<rparr>)
         in (s2, Some (MetricsText (trace s2)))))"

subsection \<open>Middleware\<close>

text \<open>\<open>rateLimit\<close> inside \<open>metered\<close>: every reply with status 429 is counted, also one of the handler.\<close>

definition rate_gate ::
  "'s server_env \<Rightarrow> string \<Rightarrow> request \<Rightarrow> ('s server \<Rightarrow> 's server \<times> reply option) \<Rightarrow> 's server \<Rightarrow> 's server \<times> reply option" where
  "rate_gate E category rq handler s =
     (case check (cfg_rate E) (lim s) (client_ip rq) category (rq_now rq) of
        (l, Inl _) \<Rightarrow> (s\<lparr>lim := l\<rparr>, None)
      | (l, Inr v) \<Rightarrow>
          (case (if allowed v then handler (s\<lparr>lim := l\<rparr>) else (s\<lparr>lim := l\<rparr>, fail 429 ''RATE_LIMITED'')) of
             (s', r) \<Rightarrow>
               (if (case r of Some p \<Rightarrow> status_of p = 429 | None \<Rightarrow> False)
                then log_effect (Inc ''qv_rate_limit_denies_total'' [(''category'', str category)]) s' else s', r)))"

definition cidr_gate ::
  "cidr list \<Rightarrow> request \<Rightarrow> ('s server \<Rightarrow> 's server \<times> reply option) \<Rightarrow> 's server \<Rightarrow> 's server \<times> reply option" where
  "cidr_gate lst rq handler s =
     (if lst = [] then handler s
      else if \<not> matches_any (client_ip rq) lst then
        (log_effect (Inc ''qv_auth_denies_total'' [(''reason'', str ''cidr_denied'')])
          (log_effect (Audit ''auth.deny'' ''info'' [(''requestId'', str (rq_id rq)), (''reason'', str ''cidr_denied''),
             (''ip'', str (client_ip rq))]) s),
         fail 403 ''IP_NOT_ALLOWED'')
      else handler s)"

definition on_auth_event :: "'s server_env \<Rightarrow> request \<Rightarrow> auth_verdict \<Rightarrow> 's server \<Rightarrow> 's server" where
  "on_auth_event E rq v s =
     (if auth_reason v = ''ok'' \<or> auth_reason v = ''anon'' then s
      else
        (case record_auth_fail (cfg_rate E) (lim s) (client_ip rq) (rq_now rq) of
           (l, af) \<Rightarrow>
             log_effect (Inc ''qv_auth_denies_total'' [(''reason'', str (auth_reason v))])
               (log_effect (Audit ''auth.deny'' ''warn'' [(''requestId'', str (rq_id rq)), (''ip'', str (client_ip rq)),
                  (''method'', str (rq_method rq)), (''reason'', str (auth_reason v)),
                  (''authFailRemaining'', num (remaining af))]) (s\<lparr>lim := l\<rparr>))))"

definition require_admin ::
  "'s server_env \<Rightarrow> request \<Rightarrow> ('s server \<Rightarrow> 's server \<times> reply option) \<Rightarrow> 's server \<Rightarrow> 's server \<times> reply option" where
  "require_admin E rq handler s =
     (let v = check_admin (cfg_sha256 E) (rq_headers rq) (Some (cfg_admin E)); s1 = on_auth_event E rq v s in
      if \<not> ok v then (s1, fail 401 ''UNAUTHORIZED'') else handler s1)"

definition admin_gate where
  "admin_gate E rq handler = rate_gate E ''admin'' rq (cidr_gate (cfg_admin_list E) rq (require_admin E rq handler))"

subsection \<open>Routes\<close>

datatype route =
    RLive | RReady | RHealth | RSpec | RKeygen | RIssue | RVerify | RVerifyAuto | RBatch | RInspect
  | RFalconSign | RFalconVerify | RIdentify | RKeys | RDiscovery | RKey string | RVkBin string
  | RQuota string | RRevoke string | RRevoked | RMetrics

definition static_routes :: "(string \<times> string \<times> route) list" where
  "static_routes =
     [(''GET'', ''/v3/live'', RLive), (''GET'', ''/v3/ready'', RReady), (''GET'', ''/v3/health'', RHealth),
      (''GET'', ''/v3/spec'', RSpec), (''POST'', ''/v3/keygen'', RKeygen), (''POST'', ''/v3/token/issue'', RIssue),
      (''POST'', ''/v3/token/verify'', RVerify), (''POST'', ''/v3/token/verify-auto'', RVerifyAuto),
      (''POST'', ''/v3/token/batch-verify'', RBatch), (''POST'', ''/v3/token/inspect'', RInspect),
      (''POST'', ''/v3/admin/falcon/sign'', RFalconSign), (''POST'', ''/v3/falcon/verify'', RFalconVerify),
      (''POST'', ''/v3/keys/identify'', RIdentify), (''GET'', ''/v3/keys'', RKeys),
      (''GET'', ''/.well-known/sigvault-keys.json'', RDiscovery), (''GET'', ''/v3/revoked'', RRevoked),
      (''GET'', ''/v3/metrics'', RMetrics)]"

text \<open>The four patterns with \<open>([^/]+)\<close> match no path of the static routes of their method.\<close>

definition pattern_route :: "string \<Rightarrow> string \<Rightarrow> route option" where
  "pattern_route meth path =
     (case split_on (CHR ''/'') path of
        [e, a, b, seg] \<Rightarrow>
          if e = [] \<and> a = ''v3'' \<and> b = ''keys'' \<and> seg \<noteq> [] then
            (if meth = ''GET'' then Some (RKey seg) else if meth = ''DELETE'' then Some (RRevoke seg) else None)
          else None
      | [e, a, b, seg, t] \<Rightarrow>
          if e = [] \<and> a = ''v3'' \<and> b = ''keys'' \<and> seg \<noteq> [] \<and> meth = ''GET'' then
            (if t = ''vk.bin'' then Some (RVkBin seg) else if t = ''quota'' then Some (RQuota seg) else None)
          else None
      | _ \<Rightarrow> None)"

definition route_of :: "string \<Rightarrow> string \<Rightarrow> route option" where
  "route_of meth path =
     (case find (\<lambda>(m, p, _). m = meth \<and> p = path) static_routes of
        Some (_, _, r) \<Rightarrow> Some r
      | None \<Rightarrow> pattern_route meth path)"

text \<open>\<open>decodeURIComponent\<close>: percent escapes are bytes of well-formed UTF-8, or it throws.\<close>

fun pct_bytes :: "string \<Rightarrow> bytes option" where
  "pct_bytes [] = Some []"
| "pct_bytes (c # cs) =
     (if c = CHR ''%'' then
        (case cs of
           h # l # rest \<Rightarrow>
             (case (hex_val h, hex_val l) of
                (Some a, Some b) \<Rightarrow> map_option ((#) (word_of_nat (16 * a + b))) (pct_bytes rest)
              | _ \<Rightarrow> None)
         | _ \<Rightarrow> None)
      else map_option ((#) (word_of_nat (of_char c))) (pct_bytes cs))"

definition decode_uri :: "string \<Rightarrow> jsval option" where
  "decode_uri s =
     (case pct_bytes s of
        None \<Rightarrow> None
      | Some bs \<Rightarrow>
          let t = concat (map units_of (utf8_run 0 0 0x80 0xBF bs)) in
          if utf8_encode t = bs then Some (JStr t) else None)"

definition with_key :: "string \<Rightarrow> 's server \<Rightarrow> (jsval \<Rightarrow> 's server \<times> reply option) \<Rightarrow> 's server \<times> reply option" where
  "with_key seg s k = (case decode_uri seg of None \<Rightarrow> (s, None) | Some keyId \<Rightarrow> k keyId)"

definition is_admin_route :: "'s server_env \<Rightarrow> route \<Rightarrow> bool" where
  "is_admin_route E r = (case r of RKeygen \<Rightarrow> True | RIssue \<Rightarrow> True | RFalconSign \<Rightarrow> True | RRevoke _ \<Rightarrow> True
     | RMetrics \<Rightarrow> \<not> cfg_metrics_public E | _ \<Rightarrow> False)"

definition run_route :: "'s server_env \<Rightarrow> request \<Rightarrow> route \<Rightarrow> 's server \<Rightarrow> 's server \<times> reply option" where
  "run_route E rq r s = (case r of
     RLive \<Rightarrow> live_route rq s | RReady \<Rightarrow> ready_route rq s | RHealth \<Rightarrow> health_route rq s | RSpec \<Rightarrow> spec_route s
   | RKeygen \<Rightarrow> keygen_route E rq s | RIssue \<Rightarrow> issue_route E rq s
   | RVerify \<Rightarrow> verify_route E rq s | RVerifyAuto \<Rightarrow> verify_auto_route E rq s | RBatch \<Rightarrow> batch_route E rq s
   | RInspect \<Rightarrow> inspect_route E rq s
   | RFalconSign \<Rightarrow> falcon_sign_route E rq s | RFalconVerify \<Rightarrow> falcon_verify_route E rq s
   | RIdentify \<Rightarrow> identify_route E rq s | RKeys \<Rightarrow> list_keys_route s | RDiscovery \<Rightarrow> discovery_route E s
   | RKey seg \<Rightarrow> with_key seg s (\<lambda>k. get_key_route k s) | RVkBin seg \<Rightarrow> with_key seg s (\<lambda>k. vk_bin_route k s)
   | RQuota seg \<Rightarrow> with_key seg s (\<lambda>k. quota_route E rq k s)
   | RRevoke seg \<Rightarrow> with_key seg s (\<lambda>k. revoke_route E rq k s)
   | RRevoked \<Rightarrow> list_revoked_route s | RMetrics \<Rightarrow> metrics_route E rq s)"

definition is_verify_route :: "route \<Rightarrow> bool" where
  "is_verify_route r \<longleftrightarrow> r \<in> {RVerify, RVerifyAuto, RBatch, RInspect, RFalconVerify}"

definition handle_route :: "'s server_env \<Rightarrow> request \<Rightarrow> route \<Rightarrow> 's server \<Rightarrow> 's server \<times> reply option" where
  "handle_route E rq r =
     (if is_admin_route E r then admin_gate E rq (run_route E rq r)
      else rate_gate E (if is_verify_route r then ''verify'' else ''public'') rq (run_route E rq r))"

definition template_of :: "route \<Rightarrow> string \<Rightarrow> string" where
  "template_of r path = (case r of
     RKey _ \<Rightarrow> ''/v3/keys/:id'' | RRevoke _ \<Rightarrow> ''/v3/keys/:id'' | RQuota _ \<Rightarrow> ''/v3/keys/:id/quota''
   | RVkBin _ \<Rightarrow> ''/v3/keys/:id/vk'' @ [backslash] @ ''.bin'' | _ \<Rightarrow> path)"

subsection \<open>The listener\<close>

datatype outcome = Replied reply | Crashed

text \<open>The \<open>finish\<close> listener of the response.\<close>

definition finish :: "request \<Rightarrow> string \<Rightarrow> reply \<Rightarrow> 's server \<Rightarrow> 's server" where
  "finish rq template r s =
     (let st = status_of r in
      log_effect (Observe ''qv_http_request_duration_seconds'' [(''method'', str (rq_method rq)), (''path'', str template)] (rq_duration rq))
       (log_effect (Inc ''qv_http_requests_total'' [(''method'', str (rq_method rq)), (''path'', str template), (''status'', num st)])
         (log_effect (Audit ''http.request'' (if 500 \<le> st then ''error'' else if 400 \<le> st then ''warn'' else ''info'')
            [(''requestId'', str (rq_id rq)), (''ip'', str (client_ip rq)), (''method'', str (rq_method rq)),
             (''template'', str template), (''status'', num st)]) s)))"

definition dispatch :: "'s server_env \<Rightarrow> request \<Rightarrow> 's server \<Rightarrow> 's server \<times> outcome" where
  "dispatch E rq s =
     (if snd (apply_cors (rq_method rq) (rq_headers rq ''origin'') (cfg_cors E) []) \<or> rq_method rq = ''OPTIONS''
      then (finish rq ''unmatched'' Preflight s, Replied Preflight)
      else case rq_path rq of
        None \<Rightarrow> (s, Crashed)
      | Some path \<Rightarrow>
          (case route_of (rq_method rq) path of
             None \<Rightarrow> (let r = Fail 404 (str ''NOT_FOUND'') in (finish rq ''unmatched'' r s, Replied r))
           | Some rt \<Rightarrow>
               (case handle_route E rq rt s of
                  (s', r) \<Rightarrow>
                    let p = (case r of Some p \<Rightarrow> p | None \<Rightarrow> Fail 500 (str ''INTERNAL'')) in
                    (finish rq (template_of rt path) p s', Replied p))))"

end
