(* ===== verification/Server_Frame.thy ===== *)
theory Server_Frame
  imports Server
begin

section \<open>What a request can change\<close>

text \<open>
  Frame lemmas for the handlers: the core of a state is everything but the limiter, the trace of
  effects and the metrics bookkeeping. Only key generation, issue and revocation change it, and only
  behind the admin checks (\<open>dispatch_cases\<close>).
\<close>

definition core :: "'s server \<Rightarrow> 's server" where
  "core s = s\<lparr>lim := create_limiter, trace := [], rejects_seen := 0\<rparr>"

named_theorems core_simps \<open>the core of the state after an update\<close>

lemma core_updates [simp, core_simps]:
  "core (log_effect x s) = core s" "core (s\<lparr>lim := l\<rparr>) = core s" "core (s\<lparr>trace := t\<rparr>) = core s"
  "core (s\<lparr>rejects_seen := n\<rparr>) = core s" "core (count_verify r s) = core s"
  by (simp_all add: core_def log_effect_def count_verify_def)

lemma core_fields:
  assumes "core s = core s'"
  shows "keystore s = keystore s'" "chains s = chains s'" "fp_index s = fp_index s'" "revoked s = revoked s'"
    "disk_ks s = disk_ks s'" "disk_rev s = disk_rev s'" "store s = store s'" "lock s = lock s'"
proof -
  have "keystore (core s) = keystore (core s')" "chains (core s) = chains (core s')"
    "fp_index (core s) = fp_index (core s')" "revoked (core s) = revoked (core s')"
    "disk_ks (core s) = disk_ks (core s')" "disk_rev (core s) = disk_rev (core s')"
    "store (core s) = store (core s')" "lock (core s) = lock (core s')"
    using assms by simp_all
  then show "keystore s = keystore s'" "chains s = chains s'" "fp_index s = fp_index s'" "revoked s = revoked s'"
    "disk_ks s = disk_ks s'" "disk_rev s = disk_rev s'" "store s = store s'" "lock s = lock s'"
    by (simp_all add: core_def)
qed

subsection \<open>Handlers that leave the core alone\<close>

lemma core_with_body:
  "core (fst k) = core s \<Longrightarrow> core (fst (with_body body s k)) = core s"
  by (simp add: with_body_def Let_def)

lemma core_verify [simp]: "core (fst (verify_route E rq s)) = core s"
  unfolding verify_route_def Let_def
  by (rule core_with_body) (auto split: option.splits sum.splits)

lemma core_verify_auto [simp]: "core (fst (verify_auto_route E rq s)) = core s"
  unfolding verify_auto_route_def Let_def
  by (auto intro!: core_with_body split: option.splits sum.splits)

lemma core_batch [simp]: "core (fst (batch_route E rq s)) = core s"
  unfolding batch_route_def Let_def
  by (auto intro!: core_with_body split: jsval.splits)

lemma core_inspect [simp]: "core (fst (inspect_route E rq s)) = core s"
  unfolding inspect_route_def Let_def
  by (auto intro!: core_with_body split: option.splits sum.splits)

lemma core_identify [simp]: "core (fst (identify_route E rq s)) = core s"
  unfolding identify_route_def
  by (auto intro!: core_with_body split: option.splits sum.splits)

lemma core_falcon_sign [simp]: "core (fst (falcon_sign_route E rq s)) = core s"
  unfolding falcon_sign_route_def
  by (auto intro!: core_with_body simp: Let_def split: option.splits sum.splits)

lemma core_falcon_verify [simp]: "core (fst (falcon_verify_route E rq s)) = core s"
  unfolding falcon_verify_route_def
  by (auto intro!: core_with_body split: option.splits sum.splits)

lemma core_metrics [simp]: "core (fst (metrics_route E rq s)) = core s"
  by (auto simp: metrics_route_def Let_def split: option.splits)

lemma core_readers [simp]:
  "core (fst (live_route rq s)) = core s" "core (fst (ready_route rq s)) = core s"
  "core (fst (health_route rq s)) = core s" "core (fst (spec_route s)) = core s"
  "core (fst (list_keys_route s)) = core s" "core (fst (discovery_route E s)) = core s"
  "core (fst (list_revoked_route s)) = core s" "core (fst (get_key_route k s)) = core s"
  "core (fst (vk_bin_route k s)) = core s" "core (fst (quota_route E rq k s)) = core s"
  by (auto simp: live_route_def ready_route_def health_route_def spec_route_def list_keys_route_def Let_def
      discovery_route_def list_revoked_route_def get_key_route_def vk_bin_route_def quota_route_def split: option.splits)

definition writes_state :: "route \<Rightarrow> bool" where
  "writes_state r = (case r of RKeygen \<Rightarrow> True | RIssue \<Rightarrow> True | RRevoke _ \<Rightarrow> True | _ \<Rightarrow> False)"

lemma core_run_route: "\<not> writes_state r \<Longrightarrow> core (fst (run_route E rq r s)) = core s"
  by (cases r) (auto simp: run_route_def writes_state_def with_key_def split: option.splits)

lemma writes_admin: "writes_state r \<Longrightarrow> is_admin_route E r"
  by (cases r) (auto simp: writes_state_def is_admin_route_def)

subsection \<open>The middleware\<close>

definition admitted :: "'s server_env \<Rightarrow> request \<Rightarrow> bool" where
  "admitted E rq \<longleftrightarrow> ok (check_admin (cfg_sha256 E) (rq_headers rq) (Some (cfg_admin E))) \<and>
     matches_any (client_ip rq) (cfg_admin_list E)"

lemma rate_gate_cases:
  assumes "rate_gate E c rq h s = (s', r)"
  obtains "core s' = core s" "r = None \<or> r = fail 429 ''RATE_LIMITED''"
  | s1 s2 where "core s1 = core s" "h s1 = (s2, r)" "core s' = core s2"
proof -
  obtain l x where c: "check (cfg_rate E) (lim s) (client_ip rq) c (rq_now rq) = (l, x)" by force
  show thesis
  proof (cases x)
    case (Inl e)
    show thesis by (rule that(1)) (use assms c Inl in \<open>auto simp: rate_gate_def\<close>)
  next
    case (Inr v)
    show thesis
    proof (cases "allowed v")
      case True
      obtain s2 r2 where h: "h (s\<lparr>lim := l\<rparr>) = (s2, r2)" by force
      show thesis
        by (rule that(2) [of "s\<lparr>lim := l\<rparr>" s2])
          (use assms c Inr True h in \<open>auto simp: rate_gate_def split: if_splits\<close>)
    next
      case False
      show thesis
        by (rule that(1)) (use assms c Inr False in \<open>auto simp: rate_gate_def split: if_splits\<close>)
    qed
  qed
qed

lemma cidr_gate_cases:
  assumes "cidr_gate lst rq h s = (s', r)"
  obtains "core s' = core s" "r = fail 403 ''IP_NOT_ALLOWED''" | "matches_any (client_ip rq) lst" "h s = (s', r)"
  using assms by (auto simp: cidr_gate_def matches_any_def split: if_splits)

lemma core_on_auth [simp]: "core (on_auth_event E rq v s) = core s"
  by (simp add: on_auth_event_def split: prod.splits)

lemma require_admin_cases:
  assumes "require_admin E rq h s = (s', r)"
  obtains "core s' = core s" "r = fail 401 ''UNAUTHORIZED''"
  | s1 where "ok (check_admin (cfg_sha256 E) (rq_headers rq) (Some (cfg_admin E)))" "core s1 = core s" "h s1 = (s', r)"
proof (cases "ok (check_admin (cfg_sha256 E) (rq_headers rq) (Some (cfg_admin E)))")
  case True
  show thesis by (rule that(2) [OF True core_on_auth]) (use assms True in \<open>auto simp: require_admin_def Let_def\<close>)
next
  case False
  show thesis by (rule that(1)) (use assms False in \<open>auto simp: require_admin_def Let_def\<close>)
qed

definition refused :: "reply option \<Rightarrow> bool" where
  "refused r \<longleftrightarrow> r \<in> {None, fail 429 ''RATE_LIMITED'', fail 403 ''IP_NOT_ALLOWED'', fail 401 ''UNAUTHORIZED''}"

lemma handle_route_cases:
  assumes "handle_route E rq rt s = (s', r)"
  obtains (stopped) "core s' = core s" "refused r"
  | (ran) s1 s2 where "core s1 = core s" "run_route E rq rt s1 = (s2, r)" "core s' = core s2"
      "is_admin_route E rt \<longrightarrow> admitted E rq"
proof (cases "is_admin_route E rt")
  case False
  then have "rate_gate E (if is_verify_route rt then ''verify'' else ''public'') rq (run_route E rq rt) s = (s', r)"
    using assms by (simp add: handle_route_def)
  then show thesis
    by (rule rate_gate_cases) (use False in \<open>auto intro: stopped ran simp: refused_def\<close>)
next
  case True
  then have "rate_gate E ''admin'' rq (cidr_gate (cfg_admin_list E) rq (require_admin E rq (run_route E rq rt))) s = (s', r)"
    using assms by (simp add: handle_route_def admin_gate_def)
  then show thesis
  proof (rule rate_gate_cases)
    fix s1 s2 assume 1: "core s1 = core s" "core s' = core s2"
      and "cidr_gate (cfg_admin_list E) rq (require_admin E rq (run_route E rq rt)) s1 = (s2, r)"
    from this(3) show thesis
    proof (rule cidr_gate_cases)
      assume m: "matches_any (client_ip rq) (cfg_admin_list E)"
        and "require_admin E rq (run_route E rq rt) s1 = (s2, r)"
      from this(2) show thesis
        by (rule require_admin_cases) (use 1 m in \<open>auto intro: stopped ran simp: refused_def admitted_def\<close>)
    qed (use 1 in \<open>auto intro: stopped simp: refused_def\<close>)
  qed (auto intro: stopped simp: refused_def)
qed

definition reply_of :: "reply option \<Rightarrow> reply" where
  "reply_of r = (case r of Some p \<Rightarrow> p | None \<Rightarrow> Fail 500 (str ''INTERNAL''))"

lemma core_finish [simp]: "core (finish rq t r s) = core s"
  by (simp add: finish_def Let_def)

lemma dispatch_cases:
  assumes "dispatch E rq s = (s', out)"
  obtains (refused) "core s' = core s" "out = Crashed \<or> out = Replied Preflight \<or> (\<exists>n c. out = Replied (Fail n c))"
  | (ran) rt path s1 s2 r where "rq_path rq = Some path" "route_of (rq_method rq) path = Some rt"
      "core s1 = core s" "run_route E rq rt s1 = (s2, r)" "core s' = core s2" "out = Replied (reply_of r)"
      "is_admin_route E rt \<longrightarrow> admitted E rq"
proof -
  consider (pre) "out = Replied Preflight" "core s' = core s" | (crash) "out = Crashed" "s' = s"
    | (none) "out = Replied (Fail 404 (str ''NOT_FOUND''))" "core s' = core s"
    | (route) path rt s1 r where "rq_path rq = Some path" "route_of (rq_method rq) path = Some rt"
        "handle_route E rq rt s = (s1, r)" "out = Replied (reply_of r)" "core s' = core s1"
    using assms
    by (auto simp: dispatch_def Let_def reply_of_def split: if_splits option.splits prod.splits)
  then show thesis
  proof cases
    case (route path rt s1 r)
    from route(3) show thesis
    proof (cases rule: handle_route_cases)
      case stopped
      then have "\<exists>n c. out = Replied (Fail n c)" using route(4) by (auto simp: refused_def fail_def reply_of_def)
      then show thesis using stopped route(5) by (intro refused) simp_all
    next
      case (ran t1 t2)
      then show thesis using route by (intro that(2)) simp_all
    qed
  qed (auto intro: refused)
qed

end
