(* ===== verification/Server_Revocation.thy ===== *)
theory Server_Revocation
  imports Server_Frame
begin

section \<open>Authorisation and revocation\<close>

text \<open>
  Runs of the server: requests in any order and number, from any clients, and restarts of the
  process on the same data directory. A restart that fails leaves the disk as it was (the rewrite of
  a legacy keystore just before a bad revocation document is not kept).
\<close>

datatype srv_event = EvRequest request | EvRestart "nat \<Rightarrow> bytes" bool "handle option"

fun srv_step :: "'s server_env \<Rightarrow> 's server \<Rightarrow> srv_event \<Rightarrow> 's server" where
  "srv_step E s (EvRequest rq) = fst (dispatch E rq s)"
| "srv_step E s (EvRestart ivs can hnd) = (case boot E ivs can hnd s of Inr s' \<Rightarrow> s' | Inl _ \<Rightarrow> s)"

subsection \<open>The parts each writing handler changes\<close>

definition same_keys :: "'s server \<Rightarrow> 's server \<Rightarrow> bool" where
  "same_keys s s' \<longleftrightarrow> keystore s' = keystore s \<and> fp_index s' = fp_index s \<and> revoked s' = revoked s \<and>
     disk_ks s' = disk_ks s \<and> disk_rev s' = disk_rev s \<and> lock s' = lock s"

lemma same_keys_core [simp]: "same_keys s (log_effect x s') = same_keys s s'" "same_keys s (s'\<lparr>lim := l\<rparr>) = same_keys s s'"
    "same_keys s (s'\<lparr>chains := c\<rparr>) = same_keys s s'" "same_keys s (s'\<lparr>store := d\<rparr>) = same_keys s s'" "same_keys s s"
  by (simp_all add: same_keys_def log_effect_def)

lemma same_keys_with_body: "same_keys s (fst k) \<Longrightarrow> same_keys s (fst (with_body body s k))"
  by (simp add: with_body_def Let_def)

lemma append_chain_Some: "append_chain E lease k c st s = Some s' \<Longrightarrow>
    \<exists>d. cfg_append E (store s) k c st = Inr d \<and> s' = s\<lparr>store := d\<rparr>"
  by (auto simp: append_chain_def split: sum.splits)

lemma issue_signed_same:
  "same_keys s0 s \<Longrightarrow> same_keys s0 (fst (issue_signed E rq k e kvs ttl su si ty ti s))"
  by (auto simp: issue_signed_def issue_failed_def Let_def dest!: append_chain_Some
      split: option.splits prod.splits sum.splits)

lemma issue_limited_same: "same_keys s (fst (issue_limited E rq k e kvs ttl su ty s))"
  by (auto simp: issue_limited_def Let_def intro!: issue_signed_same split: prod.splits option.splits)

lemma issue_same: "same_keys s (fst (issue_route E rq s))"
  unfolding issue_route_def Let_def
  by (rule same_keys_with_body) (auto simp: issue_limited_same split: sum.splits option.splits)

lemma keygen_revoked:
  "revoked (fst (keygen_route E rq s)) = revoked s" "disk_rev (fst (keygen_route E rq s)) = disk_rev s"
  by (simp_all add: keygen_route_def with_body_def Let_def put_key_def save_keystore_def log_effect_def)

lemma revoke_cases:
  assumes "revoke_route E rq v s = (s', r)"
  obtains (no) "s' = s" "\<exists>n c. r = Some (Fail n c)"
  | (lost) k where "v = str k" "\<not> is_revoked s k" "k \<in> fst ` set (keystore s)" "r = None" "\<not> rq_can_write rq"
      "s' = s\<lparr>revoked := revoked s @ [str k]\<rparr>"
  | (stored) k b where "v = str k" "\<not> is_revoked s k" "k \<in> fst ` set (keystore s)" "r = Some (Json 200 b)"
      "revoked s' = revoked s @ [str k]" "disk_rev s' = Doc (JArr (revoked s @ [str k]))"
      "keystore s' = keystore s" "chains s' = chains s" "store s' = store s" "disk_ks s' = disk_ks s"
      "fp_index s' = fp_index s"
proof (cases "ks_find (keystore s) v")
  case None
  then show thesis using assms by (intro no) (auto simp: revoke_route_def fail_def)
next
  case (Some a)
  then obtain k e where k: "ks_find (keystore s) v = Some (k, e)" by (cases a) simp
  then have v: "v = str k" and mem: "k \<in> fst ` set (keystore s)" by (auto dest!: ks_find_Some intro: rev_image_eqI)
  show thesis
  proof (cases "is_revoked s k")
    case True
    then show thesis using assms k v by (intro no) (auto simp: revoke_route_def fail_def is_revoked_def)
  next
    case False
    then show thesis
      using assms k v lost [OF v False mem] stored [OF v False mem]
      by (auto simp: revoke_route_def is_revoked_def set_add_def save_revoked_def write_doc_def log_effect_def Let_def
          split: if_splits)
  qed
qed

subsection \<open>Restart\<close>

lemma load_entries_same:
  "load_entries E kvs n s = Inr (s', m) \<Longrightarrow> revoked s' = revoked s \<and> disk_rev s' = disk_rev s \<and> disk_ks s' = disk_ks s \<and>
     store s' = store s \<and> lock s' = lock s"
proof (induction kvs arbitrary: n s)
  case (Cons kv kvs)
  obtain k v where kv: "kv = (k, v)" by force
  from Cons.prems obtain r where r: "read_entry E (of_js k) v = Inr r" by (auto simp: kv bind_r_eq_Inr Let_def)
  show ?case
  proof (cases r)
    case None
    then show ?thesis using Cons r by (simp add: kv Let_def)
  next
    case (Some a)
    obtain e b where a: "a = (e, b)" by force
    from Cons.prems obtain l where "cfg_load E (store s) (of_js k) (chain_seed e) = Inr l"
      "load_entries E kvs (if b then n + 1 else n)
         (put_key E (of_js k) e (from_state (l_state l) (int (l_counter l))) s) = Inr (s', m)"
      using r by (auto simp: kv Some a Let_def split: sum.splits)
    from Cons.IH [OF this(2)] show ?thesis by (simp add: put_key_def)
  qed
qed simp

lemma load_keystore_same:
  assumes "load_keystore E ivs can s = Inr s'"
  shows "revoked s' = revoked s \<and> disk_rev s' = disk_rev s \<and> store s' = store s"
proof (cases "disk_ks s")
  case (Doc raw)
  then obtain s1 m where l: "load_entries E (object_entries raw) 0 s = Inr (s1, m)"
    "(if 0 < m then (if can then Inr (save_keystore E ivs can s1) else Inl BootThrow) else Inr s1) = Inr s'"
    using assms by (auto simp: load_keystore_def bind_r_eq_Inr)
  have "s' = s1 \<or> s' = save_keystore E ivs can s1" using l(2) by (auto split: if_splits)
  then show ?thesis using load_entries_same [OF l(1)] by (auto simp: save_keystore_def)
qed (use assms in \<open>simp_all add: load_keystore_def\<close>)

lemma foldl_set_add: "v \<in> set vs \<Longrightarrow> v \<in> set (foldl set_add vs ws)"
  by (induction ws arbitrary: vs) (auto simp: set_add_mono)

lemma foldl_set_add_str: "str k \<in> set ws \<Longrightarrow> str k \<in> set (foldl set_add vs ws)"
  by (induction ws arbitrary: vs) (auto simp: set_add_in foldl_set_add)

definition durably_revoked :: "'s server \<Rightarrow> string \<Rightarrow> bool" where
  "durably_revoked s k \<longleftrightarrow> is_revoked s k \<and> (\<exists>vs. disk_rev s = Doc (JArr vs) \<and> str k \<in> set vs)"

lemma boot_revoked:
  assumes "durably_revoked s k" "boot E ivs can hnd s = Inr s'"
  shows "durably_revoked s' k"
proof -
  obtain vs where d: "disk_rev s = Doc (JArr vs)" "str k \<in> set vs" using assms(1) by (auto simp: durably_revoked_def)
  obtain s1 where l: "load_keystore E ivs can \<lparr>keystore = [], chains = Map.empty, fp_index = Map.empty, revoked = [],
      lim = create_limiter, rejects_seen = 0, lock = hnd, disk_ks = disk_ks s, disk_rev = disk_rev s, store = store s,
      trace = []\<rparr> = Inr s1" "load_revoked s1 = Inr s'" using assms(2) by (auto simp: boot_def bind_r_eq_Inr)
  from load_keystore_same [OF l(1)] have "disk_rev s1 = Doc (JArr vs)" using d by simp
  then have "s' = s1\<lparr>revoked := foldl set_add (revoked s1) vs\<rparr>" "disk_rev s' = Doc (JArr vs)"
    using l(2) by (auto simp: load_revoked_def)
  then show ?thesis using d(2) by (auto simp: durably_revoked_def is_revoked_def foldl_set_add_str)
qed

lemma durably_revoked_core:
  assumes "core s = core s'"
  shows "durably_revoked s k = durably_revoked s' k"
  by (simp add: durably_revoked_def is_revoked_def core_fields(4,6) [OF assms])

lemma dispatch_revoked:
  assumes "durably_revoked s k"
  shows "durably_revoked (fst (dispatch E rq s)) k"
proof -
  obtain s' out where d: "dispatch E rq s = (s', out)" by force
  then show ?thesis
  proof (cases rule: dispatch_cases)
    case refused
    then show ?thesis using assms d by (simp add: durably_revoked_core [of s' s])
  next
    case (ran rt path s1 s2 r)
    have 1: "durably_revoked s1 k" using assms durably_revoked_core [OF ran(3)] by simp
    have "durably_revoked s2 k"
    proof (cases "writes_state rt")
      case False
      then have "core s2 = core s1" using core_run_route [of rt E rq s1] ran(4) by simp
      then show ?thesis using 1 durably_revoked_core by blast
    next
      case True
      consider "rt = RKeygen" | "rt = RIssue" | seg where "rt = RRevoke seg" using True by (cases rt) (auto simp: writes_state_def)
      then show ?thesis
      proof cases
        case 1
        then show ?thesis using keygen_revoked [of E rq s1] ran(4) \<open>durably_revoked s1 k\<close>
          by (simp add: run_route_def durably_revoked_def is_revoked_def)
      next
        case 2
        then show ?thesis using issue_same [of s1 E rq] ran(4) \<open>durably_revoked s1 k\<close>
          by (simp add: run_route_def durably_revoked_def is_revoked_def same_keys_def)
      next
        case 3
        then have "s2 = s1 \<or> (\<exists>v. revoke_route E rq v s1 = (s2, r))"
          using ran(4) by (auto simp: run_route_def with_key_def split: option.splits)
        then show ?thesis
        proof (elim disjE exE)
          fix v assume "revoke_route E rq v s1 = (s2, r)"
          then show ?thesis by (cases rule: revoke_cases) (use \<open>durably_revoked s1 k\<close> in \<open>auto simp: durably_revoked_def is_revoked_def\<close>)
        qed (use \<open>durably_revoked s1 k\<close> in simp)
      qed
    qed
    then show ?thesis using d by (simp add: durably_revoked_core [OF ran(5)])
  qed
qed

lemma srv_run_revoked:
  "durably_revoked s k \<Longrightarrow> durably_revoked (foldl (srv_step E) s evs) k"
proof (induction evs arbitrary: s)
  case (Cons ev evs)
  have "durably_revoked (srv_step E s ev) k"
    using Cons.prems dispatch_revoked boot_revoked by (cases ev) (auto split: sum.splits)
  with Cons show ?case by simp
qed simp

subsection \<open>A revoked key is not used\<close>

text \<open>The reply uses a key: a token issued or accepted under it.\<close>

definition uses_key :: "'s server_env \<Rightarrow> request \<Rightarrow> string \<Rightarrow> reply \<Rightarrow> bool" where
  "uses_key E rq k p =
     (let named = (jget (read_body_caught E rq) ''keyId'' = str k);
          rt = (case rq_path rq of None \<Rightarrow> None | Some path \<Rightarrow> route_of (rq_method rq) path) in
      case p of
        Verified (Some k') _ \<Rightarrow> k' = k
      | Verified None _ \<Rightarrow> named
      | Batch items _ _ \<Rightarrow> list_ex (\<lambda>it. case it of ItemOk _ k' _ \<Rightarrow> k' = k | _ \<Rightarrow> False) items
      | Json n _ \<Rightarrow> rt = Some RIssue \<and> n = 200 \<and> named
      | _ \<Rightarrow> False)"

lemma verify_uses:
  "verify_route E rq s = (s', Some (Verified ko v)) \<Longrightarrow> ko = None \<and>
    (\<exists>k e tok. jget (read_body_caught E rq) ''keyId'' = str k \<and> str k \<notin> set (revoked s) \<and> (k, e) \<in> set (keystore s) \<and>
      token_bytes E (jget (read_body_caught E rq) ''token'') = Some tok \<and> verify_with E rq e tok = Inr v)"
  by (auto simp: verify_route_def with_body_def Let_def fail_def dest!: ks_find_Some
      split: if_splits option.splits sum.splits)

lemma verify_auto_uses:
  "verify_auto_route E rq s = (s', Some (Verified ko v)) \<Longrightarrow> \<exists>k. ko = Some k \<and> str k \<notin> set (revoked s)"
  by (auto simp: verify_auto_route_def with_body_def Let_def fail_def dest!: try_keys_Inr
      split: if_splits option.splits sum.splits)

lemma batch_uses:
  "batch_route E rq s = (s', Some (Batch items n w)) \<Longrightarrow> ItemOk j k v \<in> set items \<Longrightarrow> str k \<notin> set (revoked s)"
  by (auto simp: batch_route_def with_body_def Let_def fail_def dest!: sym [of "ItemOk _ _ _"] verify_item_ok
      split: if_splits jsval.splits)

lemma issue_uses:
  "issue_route E rq s = (s', Some (Json n b)) \<Longrightarrow> jget (read_body_caught E rq) ''keyId'' = str k \<Longrightarrow> str k \<notin> set (revoked s)"
  by (auto simp: issue_route_def check_claims_def with_body_def Let_def fail_def split: if_splits option.splits sum.splits)

text \<open>Only the three verification routes answer with a verified token.\<close>

definition plain :: "reply option \<Rightarrow> bool" where
  "plain r = (case r of Some (Verified _ _) \<Rightarrow> False | Some (Batch _ _ _) \<Rightarrow> False | _ \<Rightarrow> True)"

lemma plain_simps [simp]: "plain None" "plain (fail n c)" "plain (Some (Json n b))" "plain (Some (Fail n x))"
    "plain (Some (IssueFailed y))" "plain (Some (InspectFailed z))" "plain (Some (Inspected i))"
    "plain (Some (VkBytes vk))" "plain (Some (Quota kk rv q))" "plain (Some (MetricsText t))"
  by (simp_all add: plain_def fail_def)

lemma plain_with_body: "plain (snd k) \<Longrightarrow> plain (snd (with_body body s k))"
  by (simp add: with_body_def Let_def)

lemma plain_issue: "plain (snd (issue_route E rq s))"
proof -
  have "plain (snd (issue_signed E rq k e kvs ttl su si ty ti s))" for k e kvs ttl su si ty ti s
    by (auto simp: issue_signed_def issue_failed_def Let_def split: option.splits prod.splits sum.splits)
  then have "plain (snd (issue_limited E rq k e kvs ttl su ty s))" for k e kvs ttl su ty s
    by (auto simp: issue_limited_def Let_def split: option.splits prod.splits)
  moreover have "check_claims E c = Inl r \<Longrightarrow> plain r" for c r
    by (auto simp: check_claims_def split: option.splits sum.splits if_splits)
  ultimately show ?thesis
    unfolding issue_route_def Let_def
    by (auto intro!: plain_with_body split: sum.splits option.splits)
qed

lemma plain_others:
  "plain (snd (keygen_route E rq s))" "plain (snd (inspect_route E rq s))" "plain (snd (identify_route E rq s))"
  "plain (snd (falcon_sign_route E rq s))" "plain (snd (falcon_verify_route E rq s))"
  "plain (snd (metrics_route E rq s))" "plain (snd (revoke_route E rq v s))"
proof -
  show "plain (snd (keygen_route E rq s))"
    unfolding keygen_route_def Let_def by (rule plain_with_body) simp
  show "plain (snd (inspect_route E rq s))"
    unfolding inspect_route_def Let_def by (rule plain_with_body) (auto split: option.splits sum.splits)
  have "wanted_fingerprint E body = Inl r \<Longrightarrow> plain r" for body r
    by (auto simp: wanted_fingerprint_def split: jsval.splits if_splits)
  then show "plain (snd (identify_route E rq s))"
    unfolding identify_route_def by (auto intro!: plain_with_body split: option.splits sum.splits)
  show "plain (snd (falcon_sign_route E rq s))"
    unfolding falcon_sign_route_def by (auto intro!: plain_with_body simp: Let_def split: option.splits sum.splits)
  show "plain (snd (falcon_verify_route E rq s))"
    unfolding falcon_verify_route_def by (auto intro!: plain_with_body split: option.splits sum.splits)
  show "plain (snd (metrics_route E rq s))"
    by (auto simp: metrics_route_def Let_def split: option.splits)
  show "plain (snd (revoke_route E rq v s))"
    by (auto simp: revoke_route_def Let_def split: option.splits)
qed

lemma plain_readers:
  "plain (snd (live_route rq s))" "plain (snd (ready_route rq s))" "plain (snd (health_route rq s))"
  "plain (snd (spec_route s))" "plain (snd (list_keys_route s))" "plain (snd (discovery_route E s))"
  "plain (snd (list_revoked_route s))" "plain (snd (get_key_route v s))" "plain (snd (vk_bin_route v s))"
  "plain (snd (quota_route E rq v s))"
  by (auto simp: live_route_def ready_route_def health_route_def spec_route_def list_keys_route_def Let_def
      discovery_route_def list_revoked_route_def get_key_route_def vk_bin_route_def quota_route_def split: option.splits)

lemma plain_run_route: "rt \<notin> {RVerify, RVerifyAuto, RBatch} \<Longrightarrow> plain (snd (run_route E rq rt s))"
  by (cases rt) (auto simp: run_route_def with_key_def plain_issue plain_others plain_readers split: option.splits)

lemma verified_route:
  assumes "run_route E rq rt s = (s', Some (Verified ko v))"
  shows "rt = RVerify \<and> ko = None \<or> rt = RVerifyAuto \<and> ko \<noteq> None"
proof -
  have rt: "rt \<in> {RVerify, RVerifyAuto, RBatch}" using plain_run_route [of rt E rq s] assms by (auto simp: plain_def)
  have "rt \<noteq> RBatch"
    using assms by (auto simp: run_route_def batch_route_def with_body_def Let_def fail_def split: if_splits jsval.splits)
  then show ?thesis
    using rt assms verify_uses [of E rq s s' ko v] verify_auto_uses [of E rq s s' ko v] by (auto simp: run_route_def)
qed

lemma batch_only:
  assumes "run_route E rq rt s = (s', Some (Batch items n w))"
  shows "rt = RBatch"
proof -
  have rt: "rt \<in> {RVerify, RVerifyAuto, RBatch}" using plain_run_route [of rt E rq s] assms by (auto simp: plain_def)
  have "rt \<noteq> RVerify"
    using assms by (auto simp: run_route_def verify_route_def with_body_def Let_def fail_def split: if_splits option.splits sum.splits)
  moreover have "rt \<noteq> RVerifyAuto"
    using assms by (auto simp: run_route_def verify_auto_route_def with_body_def Let_def fail_def split: if_splits option.splits sum.splits)
  ultimately show ?thesis using rt by simp
qed

lemma run_route_uses:
  assumes "run_route E rq rt s = (s', r)" "is_revoked s k" "rq_path rq = Some path" "route_of (rq_method rq) path = Some rt"
  shows "\<not> uses_key E rq k (reply_of r)"
proof -
  have rev: "str k \<in> set (revoked s)" using assms(2) by (simp add: is_revoked_def)
  show ?thesis
  proof (cases r)
    case None
    then show ?thesis by (simp add: uses_key_def reply_of_def)
  next
    case (Some p)
    have "\<not> uses_key E rq k p"
    proof (cases p)
      case (Json n b)
      show ?thesis
      proof (cases "rt = RIssue \<and> jget (read_body_caught E rq) ''keyId'' = str k")
        case True
        then have "issue_route E rq s = (s', Some (Json n b))" using assms(1) Some Json by (simp add: run_route_def)
        from issue_uses [OF this] rev True show ?thesis by blast
      next
        case False
        then show ?thesis using assms(3,4) Json by (simp add: uses_key_def Let_def)
      qed
    next
      case (Verified ko v)
      then consider "rt = RVerify" "ko = None" | "rt = RVerifyAuto" "ko \<noteq> None"
        using verified_route assms(1) Some by blast
      then show ?thesis
      proof cases
        case 1
        then have "verify_route E rq s = (s', Some (Verified ko v))"
          using assms(1) Some Verified by (simp add: run_route_def)
        from verify_uses [OF this] have "jget (read_body_caught E rq) ''keyId'' = str k \<Longrightarrow> str k \<notin> set (revoked s)"
          by (auto simp: str_def)
        then show ?thesis using Verified 1 rev by (auto simp: uses_key_def Let_def)
      next
        case 2
        then have "verify_auto_route E rq s = (s', Some (Verified ko v))"
          using assms(1) Some Verified by (simp add: run_route_def)
        from verify_auto_uses [OF this] show ?thesis using Verified rev by (auto simp: uses_key_def Let_def)
      qed
    next
      case (Batch items n w)
      then have "batch_route E rq s = (s', Some (Batch items n w))"
        using batch_only assms(1) Some by (fastforce simp: run_route_def)
      from batch_uses [OF this] show ?thesis
        using Batch rev by (auto simp: uses_key_def Let_def list_ex_iff split: batch_item.split_asm)
    qed (simp_all add: uses_key_def)
    then show ?thesis using Some by (simp add: reply_of_def)
  qed
qed

subsection \<open>Properties\<close>

text \<open>C9: Without admission nothing changes: a request that fails the bearer check, or whose address the
  admin list does not contain, leaves the keys, the chains, the revocations, the chain log and both
  documents of the data directory as they were, whatever its route.\<close>

theorem unadmitted_request_changes_nothing:
  assumes "\<not> admitted E rq" "dispatch E rq s = (s', out)"
  shows "keystore s' = keystore s \<and> chains s' = chains s \<and> revoked s' = revoked s \<and> store s' = store s \<and>
    disk_ks s' = disk_ks s \<and> disk_rev s' = disk_rev s \<and> fp_index s' = fp_index s"
proof -
  from assms(2) have "core s' = core s"
  proof (cases rule: dispatch_cases)
    case (ran rt path s1 s2 r)
    then have "\<not> is_admin_route E rt" using assms(1) by blast
    then have "\<not> writes_state rt" using writes_admin by blast
    then show ?thesis using core_run_route [of rt E rq s1] ran by simp
  qed
  from core_fields [OF this] show ?thesis by blast
qed

text \<open>A small server for the witnesses: limiting off, the sample primitives, one key, the file store.\<close>

definition sample_env :: "admin_config \<Rightarrow> (bytes \<Rightarrow> jsval option) \<Rightarrow> chain_dir server_env" where
  "sample_env adm parse =
     \<lparr>cfg_prims = sample_prims,
      cfg_rate = \<lparr>disabled = True, rpm = DEFAULTS, issueRpm = 0, perKeyOverrides = Map.empty, maxBodyBytes = 65536,
        maxClaimsBytes = 16384, maxIps = 2, idleSweepSec = 300\<rparr>,
      cfg_claims = default_claims_cfg, cfg_admin = adm, cfg_admin_list = [], cfg_sha256 = sample_hash,
      cfg_gcm_enc = (\<lambda>k iv aad pt. (pt, replicate 16 0)), cfg_gcm_dec = (\<lambda>k iv aad ct tag. Some ct),
      cfg_master = replicate 32 0, cfg_parse = parse, cfg_buffer = (\<lambda>_. None),
      cfg_cors = \<lparr>cors_mode = CorsOff, allowCreds = False\<rparr>, cfg_metrics_enabled = True, cfg_metrics_public = False,
      cfg_iso = int_text, cfg_load = file_load sample_hash, cfg_append = file_append\<rparr>"

definition sample_rq :: "string \<Rightarrow> string \<Rightarrow> bytes \<Rightarrow> request" where
  "sample_rq meth path body =
     \<lparr>rq_method = meth, rq_path = Some path, rq_headers = Map.empty, rq_remote = Some ''10.0.0.1'', rq_chunks = [body],
      rq_id = ''r'', rq_now = 1000, rq_uuid = ''k2'', rq_keys = ([1], [1], replicate 32 3), rq_ivs = (\<lambda>_. replicate 12 0),
      rq_nonce = sample_nonce, rq_lease = None, rq_can_write = True, rq_pool = None, rq_rejects = 0, rq_job = (\<lambda>_. None),
      rq_falcon = False, rq_child = [], rq_draining = False, rq_in_flight = 0, rq_uptime = 1, rq_duration = 0\<rparr>"

definition sample_skey :: skey where
  "sample_skey = \<lparr>signing = [1], verifying = [1], encrypting = replicate 32 9, label = JNull, created = num 0\<rparr>"

definition sample_server :: "chain_dir server" where
  "sample_server =
     \<lparr>keystore = [(''k'', sample_skey)], chains = [''k'' \<mapsto> new_chain (replicate 32 9)], fp_index = Map.empty, revoked = [],
      lim = create_limiter, rejects_seen = 0, lock = None, disk_ks = NoFile, disk_rev = NoFile, store = Map.empty, trace = []\<rparr>"

lemmas dispatch_eval = dispatch_def handle_route_def admin_gate_def rate_gate_def cidr_gate_def require_admin_def
  check_admin_def on_auth_event_def check_def sample_env_def sample_rq_def sample_server_def route_of_def static_routes_def
  is_admin_route_def is_verify_route_def run_route_def with_key_def apply_cors_def extract_bearer_def

lemma unadmitted_request_changes_nothing_witness:
  "keystore (fst (dispatch (sample_env (HashedMode [7]) (\<lambda>_. None)) (sample_rq ''POST'' ''/v3/keygen'' []) sample_server)) =
     keystore sample_server"
  using unadmitted_request_changes_nothing [of "sample_env (HashedMode [7]) (\<lambda>_. None)" "sample_rq ''POST'' ''/v3/keygen'' []"
      sample_server, OF _ surjective_pairing]
  by (simp add: admitted_def check_admin_def sample_env_def sample_rq_def extract_bearer_def)

text \<open>C5: A revocation that was answered with 200 is final: after any further requests and restarts, no
  token is issued under the key, and no verification route accepts a token for it.\<close>

theorem revocation_is_final:
  assumes "dispatch E rq0 s = (s1, Replied (Json 200 b))"
    and "rq_path rq0 = Some path" "route_of (rq_method rq0) path = Some (RRevoke seg)" "decode_uri seg = Some (str k)"
    and "dispatch E rq (foldl (srv_step E) s1 evs) = (s2, Replied p)"
  shows "\<not> uses_key E rq k p"
proof -
  have "durably_revoked s1 k"
    using assms(1)
  proof (cases rule: dispatch_cases)
    case (ran rt path' t1 t2 r)
    then have r: "r = Some (Json 200 b)" using assms by (cases r) (auto simp: reply_of_def)
    have "revoke_route E rq0 (str k) t1 = (t2, Some (Json 200 b))"
      using ran(1,2,4) r assms(2-4) by (simp add: run_route_def with_key_def)
    then have "durably_revoked t2 k"
      by (cases rule: revoke_cases) (auto simp: durably_revoked_def is_revoked_def)
    then show ?thesis by (simp add: durably_revoked_core [OF ran(5)])
  qed simp
  from srv_run_revoked [OF this] have rv: "is_revoked (foldl (srv_step E) s1 evs) k" by (simp add: durably_revoked_def)
  from assms(5) show ?thesis
  proof (cases rule: dispatch_cases)
    case refused
    then show ?thesis by (auto simp: uses_key_def)
  next
    case (ran rt path' t1 t2 r)
    have "is_revoked t1 k" using rv by (simp add: is_revoked_def core_fields(4) [OF ran(3)])
    from run_route_uses [OF ran(4) this ran(1,2)] show ?thesis using ran(6) by simp
  qed
qed

lemma utf8_encode_ascii:
  assumes "ascii s"
  shows "utf8_encode (js s) = map (\<lambda>c. word_of_nat (of_char c)) s"
proof -
  have "scalars (js s) = map of_char s"
    using assms
  proof (induction s)
    case (Cons c s)
    then show ?case
      using ascii_unit [of c] by (cases s) (simp_all add: js_def ascii_def unat_js_char)
  qed (simp add: js_def)
  moreover have "concat (map enc_scalar (map of_char s)) = map (\<lambda>c. word_of_nat (of_char c)) s"
    using assms by (induction s) (simp_all add: ascii_def enc_scalar_def)
  ultimately show ?thesis by (simp add: utf8_encode_def)
qed

lemma decode_uri_ascii:
  assumes "ascii s" "CHR ''%'' \<notin> set s"
  shows "decode_uri s = Some (str s)"
proof -
  have "pct_bytes s = Some (utf8_encode (js s))"
    unfolding utf8_encode_ascii [OF assms(1)] using assms(2) by (induction s) (simp_all add: eq_commute)
  moreover have "concat (map units_of (utf8_run 0 0 0x80 0xBF (utf8_encode (js s)))) = js s"
    using utf8_run_scalars [of "scalars (js s)"] scalars_valid units_scalars clean_ascii [OF assms(1)]
    by (simp add: utf8_encode_def clean_text_def)
  ultimately show ?thesis by (simp add: decode_uri_def str_def)
qed
lemma revoke_path: "route_of ''DELETE'' ''/v3/keys/k'' = Some (RRevoke ''k'')" "decode_uri ''k'' = Some (str ''k'')"
  by (simp add: route_of_def static_routes_def pattern_route_def) (rule decode_uri_ascii; simp add: ascii_def)

lemma sample_revoke:
  "\<exists>s1 b. dispatch (sample_env AnonMode (\<lambda>_. None)) (sample_rq ''DELETE'' ''/v3/keys/k'' []) sample_server =
     (s1, Replied (Json 200 b))"
proof -
  note revoke_path
  then show ?thesis
    by (simp add: dispatch_def handle_route_def admin_gate_def rate_gate_def cidr_gate_def require_admin_def check_admin_def
        on_auth_event_def check_def sample_env_def sample_rq_def sample_server_def is_admin_route_def run_route_def
        with_key_def apply_cors_def revoke_route_def ks_find_str set_add_def Let_def)
qed

lemma revocation_is_final_witness:
  "\<exists>s1 b. dispatch (sample_env AnonMode (\<lambda>_. None)) (sample_rq ''DELETE'' ''/v3/keys/k'' []) sample_server =
       (s1, Replied (Json 200 b)) \<and>
     (case snd (dispatch (sample_env AnonMode (\<lambda>_. None)) (sample_rq ''POST'' ''/v3/token/verify-auto'' [1])
        (foldl (srv_step (sample_env AnonMode (\<lambda>_. None))) s1 [EvRestart (\<lambda>_. []) True None])) of
        Replied p \<Rightarrow> \<not> uses_key (sample_env AnonMode (\<lambda>_. None)) (sample_rq ''POST'' ''/v3/token/verify-auto'' [1]) ''k'' p
      | Crashed \<Rightarrow> True)"
proof -
  obtain s1 b where d: "dispatch (sample_env AnonMode (\<lambda>_. None)) (sample_rq ''DELETE'' ''/v3/keys/k'' []) sample_server =
     (s1, Replied (Json 200 b))" using sample_revoke by blast
  note revoke_path
  then have r: "rq_path (sample_rq ''DELETE'' ''/v3/keys/k'' []) = Some ''/v3/keys/k''"
    "route_of (rq_method (sample_rq ''DELETE'' ''/v3/keys/k'' [])) ''/v3/keys/k'' = Some (RRevoke ''k'')"
    "decode_uri ''k'' = Some (str ''k'')" by (simp_all add: sample_rq_def)
  obtain s2 x where x: "dispatch (sample_env AnonMode (\<lambda>_. None)) (sample_rq ''POST'' ''/v3/token/verify-auto'' [1])
        (foldl (srv_step (sample_env AnonMode (\<lambda>_. None))) s1 [EvRestart (\<lambda>_. []) True None]) = (s2, x)" by force
  show ?thesis
    using d x revocation_is_final [OF d r, of _ "[EvRestart (\<lambda>_. []) True None]"] by (cases x) auto
qed

end
