(* ===== verification/Server_Restart.thy ===== *)
theory Server_Restart
  imports Server_Revocation
begin

section \<open>What survives a restart\<close>

text \<open>
  The contract of the persistent state, for the file store: every key of the memory is sealed in
  \<open>keystore.json\<close>, every chain is the ratchet of its seed with its whole log on disk, the revoked ids are
  those of \<open>revoked.json\<close>. Requests keep it as long as none is answered with 500, and then a
  start of the process gives the memory back. After a 500 it may be broken: three lemmas at the end
  say how (a burned counter makes every later start fail, a revocation can be lost, a key that does not unseal
  is dropped from the document).
\<close>

definition file_env :: "chain_dir server_env \<Rightarrow> bool" where
  "file_env E \<longleftrightarrow> cfg_load E = file_load (p_sha3 (cfg_prims E)) \<and> cfg_append E = file_append \<and>
     sha3_len (p_sha3 (cfg_prims E)) \<and> gcm_correct E"

definition chain_logged :: "chain_dir server_env \<Rightarrow> chain_dir server \<Rightarrow> string \<times> skey \<Rightarrow> bool" where
  "chain_logged E s = (\<lambda>(k, e). length (encrypting e) = 32 \<and>
     (\<exists>n. chains s k = Some (chain_at (p_sha3 (cfg_prims E)) (encrypting e) n) \<and>
          file_recs (store s) k = chain_records (p_sha3 (cfg_prims E)) (encrypting e) n))"

definition keys_saved :: "chain_dir server_env \<Rightarrow> chain_dir server \<Rightarrow> bool" where
  "keys_saved E s \<longleftrightarrow> (keystore s = [] \<and> disk_ks s = NoFile) \<or>
     (\<exists>ivs. (\<forall>i. length (ivs i) = 12) \<and> disk_ks s = Doc (JObj (sealed_entries E ivs 0 (keystore s))))"

definition revocations_saved :: "chain_dir server \<Rightarrow> bool" where
  "revocations_saved s \<longleftrightarrow> (\<exists>ks. distinct ks \<and> revoked s = map str ks) \<and>
     ((revoked s = [] \<and> disk_rev s = NoFile) \<or> disk_rev s = Doc (JArr (revoked s)))"

definition index_key :: "chain_dir server_env \<Rightarrow> (string \<Rightarrow> string option) \<Rightarrow> string \<times> skey \<Rightarrow> string \<Rightarrow> string option" where
  "index_key E m ke = m(fingerprint_vk E (verifying (snd ke)) \<mapsto> fst ke)"

definition index_of :: "chain_dir server_env \<Rightarrow> (string \<times> skey) list \<Rightarrow> string \<Rightarrow> string option" where
  "index_of E ks = foldl (index_key E) Map.empty ks"

definition settled :: "chain_dir server_env \<Rightarrow> chain_dir server \<Rightarrow> bool" where
  "settled E s \<longleftrightarrow> file_inv (store s) \<and> distinct (map fst (keystore s)) \<and>
     (\<forall>ke \<in> set (keystore s). chain_logged E s ke) \<and> (\<forall>k. k \<notin> fst ` set (keystore s) \<longrightarrow> chains s k = None \<and> file_recs (store s) k = []) \<and>
     fp_index s = index_of E (keystore s) \<and> keys_saved E s \<and> revocations_saved s"

lemma settled_core:
  assumes "core s = core s'"
  shows "settled E s = settled E s'"
  by (simp add: settled_def chain_logged_def [abs_def] keys_saved_def revocations_saved_def core_fields [OF assms])

subsection \<open>The start of the process\<close>

lemma read_sealed:
  assumes "gcm_correct E" "\<And>i. length (ivs i) = 12"
  shows "read_entry E (of_js (fst (sealed_entry E ivs i (k, e)))) (snd (sealed_entry E ivs i (k, e))) = Inr (Some (e, False))"
proof -
  have "nullish (obj kvs) = False" for kvs by (simp add: nullish_def obj_def undef_def)
  moreover have "truthy (JBool True)" by simp
  ultimately show ?thesis
    using open_seal [OF assms(1)] assms(2) by (simp add: sealed_entry_def read_entry_def from_b64_def Let_def base64_roundtrip)
      (simp add: str_def base64_roundtrip)
qed

lemma update_new: "k \<notin> fst ` set kvs \<Longrightarrow> AList.update k v kvs = kvs @ [(k, v)]"
  by (induction kvs) auto

lemma load_sealed:
  assumes E: "file_env E" "\<And>i. length (ivs i) = 12"
    and "file_inv (store s)" "distinct (map fst (keystore s @ kvs))"
    and "\<forall>ke \<in> set kvs. \<exists>n. length (encrypting (snd ke)) = 32 \<and>
      ch (fst ke) = Some (chain_at (p_sha3 (cfg_prims E)) (encrypting (snd ke)) n) \<and>
      file_recs (store s) (fst ke) = chain_records (p_sha3 (cfg_prims E)) (encrypting (snd ke)) n"
  shows "\<exists>s'. load_entries E (sealed_entries E ivs i kvs) m s = Inr (s', m) \<and>
    s' = s\<lparr>keystore := keystore s @ kvs, chains := \<lambda>k. if k \<in> fst ` set kvs then ch k else chains s k,
           fp_index := foldl (index_key E) (fp_index s) kvs\<rparr>"
  using assms(3-5)
proof (induction kvs arbitrary: i s)
  case Nil
  then show ?case by simp
next
  case (Cons ke kvs)
  let ?h = "p_sha3 (cfg_prims E)"
  obtain k e where ke: "ke = (k, e)" by force
  from Cons.prems(3) obtain n where n: "length (encrypting e) = 32" "ch k = Some (chain_at ?h (encrypting e) n)"
    "file_recs (store s) k = chain_records ?h (encrypting e) n" by (auto simp: ke)
  have seed: "chain_seed e = encrypting e" using n(1) by (simp add: chain_seed_def)
  have new: "k \<notin> fst ` set (keystore s)" "k \<notin> fst ` set kvs" using Cons.prems(2) by (auto simp: ke)
  have "cfg_load E (store s) k (chain_seed e) = Inr \<lparr>l_counter = n, l_state = ratchet ?h (encrypting e) n, l_records = n\<rparr>"
    using E(1) n(3) Cons.prems(1) file_store.reload [of ?h "store s" k "encrypting e" n] by (simp add: seed file_env_def)
  moreover have "gcm_correct E" using E(1) by (simp add: file_env_def)
  from read_sealed [OF this E(2), where i = i and k = k and e = e] have "read_entry E k (snd (sealed_entry E ivs i (k, e))) = Inr (Some (e, False))"
    by (simp add: sealed_entry_def)
  moreover obtain v where v: "sealed_entry E ivs i (k, e) = (js k, v)" by (simp add: sealed_entry_def)
  ultimately have l: "load_entries E (sealed_entries E ivs i (ke # kvs)) m s =
      load_entries E (sealed_entries E ivs (i + 1) kvs) m (put_key E k e (chain_at ?h (encrypting e) n) s)"
    by (simp add: ke from_state_at v Let_def)
  let ?t = "put_key E k e (chain_at ?h (encrypting e) n) s"
  have t: "keystore ?t = keystore s @ [(k, e)]" "chains ?t = (chains s)(k \<mapsto> chain_at ?h (encrypting e) n)"
    "fp_index ?t = (fp_index s)(fingerprint_vk E (verifying e) \<mapsto> k)" "store ?t = store s"
    using update_new [OF new(1)] by (simp_all add: put_key_def)
  have "\<exists>s'. load_entries E (sealed_entries E ivs (i + 1) kvs) m ?t = Inr (s', m) \<and>
    s' = ?t\<lparr>keystore := keystore ?t @ kvs, chains := \<lambda>k. if k \<in> fst ` set kvs then ch k else chains ?t k,
           fp_index := foldl (index_key E) (fp_index ?t) kvs\<rparr>"
    using Cons.prems by (intro Cons.IH) (simp_all add: t ke)
  moreover have "?t\<lparr>keystore := keystore ?t @ kvs, chains := \<lambda>k. if k \<in> fst ` set kvs then ch k else chains ?t k,
           fp_index := foldl (index_key E) (fp_index ?t) kvs\<rparr> =
    s\<lparr>keystore := keystore s @ ke # kvs, chains := \<lambda>k. if k \<in> fst ` set (ke # kvs) then ch k else chains s k,
           fp_index := foldl (index_key E) (fp_index s) (ke # kvs)\<rparr>"
    using new n(2) update_new [OF new(1)] by (auto simp: put_key_def ke index_key_def fun_eq_iff)
  ultimately show ?case unfolding l by (simp only: ex_simps)
qed

lemma load_revocations:
  assumes "revocations_saved t" "revoked s = []" "disk_rev s = disk_rev t"
  shows "load_revoked s = Inr (s\<lparr>revoked := revoked t\<rparr>)"
proof -
  obtain ks where ks: "distinct ks" "revoked t = map str ks" using assms(1) by (auto simp: revocations_saved_def)
  have "foldl set_add acc (map str ks) = acc @ map str ks" if "set (map str ks) \<inter> set acc = {}" for acc
    using ks(1) that
  proof (induction ks arbitrary: acc)
    case (Cons k ks)
    then have "set_add acc (str k) = acc @ [str k]" by (simp add: set_add_def)
    moreover have "str k \<notin> set (map str ks)" using Cons.prems(1) by (auto dest: str_inj [THEN iffD1])
    ultimately show ?case using Cons.IH [of "acc @ [str k]"] Cons.prems by auto
  qed simp
  from this [of "[]"] have "foldl set_add [] (revoked t) = revoked t" by (simp add: ks(2))
  then show ?thesis using assms by (auto simp: revocations_saved_def load_revoked_def)
qed

lemma boot_settled:
  assumes E: "file_env E" and s: "settled E s"
  shows "\<exists>s'. boot E ivs can hnd s = Inr s' \<and> core s' = core (s\<lparr>lock := hnd\<rparr>)"
proof -
  let ?s0 = "\<lparr>keystore = [], chains = Map.empty, fp_index = Map.empty, revoked = [], lim = create_limiter, rejects_seen = 0,
        lock = hnd, disk_ks = disk_ks s, disk_rev = disk_rev s, store = store s, trace = []\<rparr>"
  let ?s1 = "?s0\<lparr>keystore := keystore s, chains := chains s, fp_index := fp_index s\<rparr>"
  have "load_keystore E ivs can ?s0 = Inr ?s1"
  proof (cases "disk_ks s")
    case NoFile
    then have "keystore s = []" "fp_index s = Map.empty" "chains s = Map.empty"
      using s by (auto simp: settled_def keys_saved_def index_of_def fun_eq_iff)
    then show ?thesis using NoFile by (simp add: load_keystore_def)
  next
    case BadText
    then show ?thesis using s by (auto simp: settled_def keys_saved_def)
  next
    case (Doc raw)
    then obtain jvs where iv: "\<And>i. length (jvs i) = 12" "disk_ks s = Doc (JObj (sealed_entries E jvs 0 (keystore s)))"
      using s by (auto simp: settled_def keys_saved_def)
    obtain s' where l: "load_entries E (sealed_entries E jvs 0 (keystore s)) 0 ?s0 = Inr (s', 0)"
      "s' = ?s0\<lparr>keystore := keystore ?s0 @ keystore s,
         chains := \<lambda>k. if k \<in> fst ` set (keystore s) then chains s k else chains ?s0 k,
         fp_index := foldl (index_key E) (fp_index ?s0) (keystore s)\<rparr>"
      using load_sealed [OF E iv(1), where s = ?s0 and kvs = "keystore s" and ch = "chains s" and i = 0 and m = 0] s
      by (fastforce simp: settled_def chain_logged_def)
    have "s' = ?s1" using s unfolding l(2) by (auto simp: settled_def index_of_def fun_eq_iff)
    then show ?thesis using l(1) iv(2) by (simp add: load_keystore_def object_entries_def nullish_def undef_def)
  qed
  moreover have "load_revoked ?s1 = Inr (?s1\<lparr>revoked := revoked s\<rparr>)"
    using s by (intro load_revocations) (simp_all add: settled_def)
  ultimately show ?thesis by (simp add: boot_def core_def)
qed

subsection \<open>Requests\<close>

lemma sealed_keys_saved:
  assumes "\<And>i. length (ivs i) = 12"
  shows "keys_saved E (save_keystore E ivs True s)"
  using assms by (auto simp: keys_saved_def save_keystore_def write_doc_def)

lemma settled_keygen:
  assumes "file_env E" "settled E s" "keygen_route E rq s = (s', r)" "status_of (reply_of r) \<noteq> 500"
    and "rq_uuid rq \<notin> fst ` set (keystore s)" "length (snd (snd (rq_keys rq))) = 32" "\<And>i. length (rq_ivs rq i) = 12"
  shows "settled E s'"
proof (cases "s' = s")
  case False
  let ?e = "new_skey rq (read_body_caught E rq)"
  let ?t = "put_key E (rq_uuid rq) ?e (new_chain (chain_seed ?e)) s"
  have can: "rq_can_write rq"
    using False assms(3,4) by (auto simp: keygen_route_def with_body_def Let_def reply_of_def status_of_def split: if_splits)
  then have "core s' = core (save_keystore E (rq_ivs rq) True ?t)"
    using False assms(3) by (auto simp: keygen_route_def with_body_def Let_def split: if_splits)
  moreover have "settled E (save_keystore E (rq_ivs rq) True ?t)"
  proof -
    let ?u = "save_keystore E (rq_ivs rq) True ?t"
    have ek: "encrypting ?e = snd (snd (rq_keys rq))" by (simp add: new_skey_def split: prod.splits)
    have seed: "chain_seed ?e = encrypting ?e" using assms(6) by (simp add: chain_seed_def ek)
    have u: "keystore ?u = keystore s @ [(rq_uuid rq, ?e)]" "chains ?u = (chains s)(rq_uuid rq \<mapsto> new_chain (encrypting ?e))"
      "fp_index ?u = (fp_index s)(fingerprint_vk E (verifying ?e) \<mapsto> rq_uuid rq)" "store ?u = store s" "revoked ?u = revoked s"
      "disk_rev ?u = disk_rev s"
      using update_new [OF assms(5)] by (simp_all add: save_keystore_def put_key_def seed)
    have "chain_logged E ?u (rq_uuid rq, ?e)"
      using assms(2,5,6) new_chain_at chain_records_0 by (fastforce simp: chain_logged_def u ek settled_def)
    moreover have "chain_logged E ?u ke" if "ke \<in> set (keystore s)" for ke
    proof -
      have "fst ke \<noteq> rq_uuid rq" using that assms(5) by (metis image_eqI)
      moreover have "chain_logged E s ke" using that assms(2) by (simp add: settled_def)
      ultimately show ?thesis by (auto simp: chain_logged_def u split: prod.splits)
    qed
    moreover have "keys_saved E ?u" by (rule sealed_keys_saved) (rule assms(7))
    moreover have "revocations_saved ?u" using assms(2) by (simp add: settled_def revocations_saved_def u)
    ultimately show ?thesis using assms(2,5) by (auto simp: settled_def u index_of_def index_key_def)
  qed
  ultimately show ?thesis using settled_core by blast
qed (use assms(2) in simp)

lemma settled_issue_signed:
  assumes "file_env E" "settled E s" "k \<in> fst ` set (keystore s)"
    and "issue_signed E rq k e kvs ttl su si ty ti s = (s', r)" "status_of (reply_of r) \<noteq> 500"
  shows "settled E s'"
proof -
  let ?h = "p_sha3 (cfg_prims E)"
  obtain e' where e': "(k, e') \<in> set (keystore s)" using assms(3) by auto
  then have "chain_logged E s (k, e')" using assms(2) by (simp add: settled_def)
  then obtain n where n: "length (encrypting e') = 32" "chains s k = Some (chain_at ?h (encrypting e') n)"
    "file_recs (store s) k = chain_records ?h (encrypting e') n" by (auto simp: chain_logged_def)
  let ?c = "chain_at ?h (encrypting e') n"
  obtain c' x where i: "issue_token (cfg_prims E) (rq_now rq) (rq_nonce rq) (issue_prm e kvs ttl si ti) ?c = (c', x)" by force
  from assms(4,5) obtain tok hex s2 where x: "x = Inr (tok, hex)"
    "append_chain E (rq_lease rq) k (c_counter c') (c_state c') (s\<lparr>chains := (chains s)(k \<mapsto> c')\<rparr>) = Some s2" "core s' = core s2"
    by (auto simp: issue_signed_def issue_failed_def n(2) i Let_def reply_of_def status_of_def
        split: sum.splits option.splits)
  have h: "sha3_len ?h" and app: "cfg_append E = file_append" using assms(1) by (simp_all add: file_env_def)
  have adv: "advance ?h ?c = Inr c'" using issue_token_chain [OF i] x(1) by auto
  then have ctr: "c_counter c' = int (Suc n)" using advance_counter [OF adv] by simp
  from append_chain_Some [OF x(2)] obtain d where d: "file_append (store s) k (c_counter c') (c_state c') = Inr d"
    "s2 = s\<lparr>chains := (chains s)(k \<mapsto> c'), store := d\<rparr>" by (auto simp: app)
  then have "int (Suc n) < 2 ^ 64" by (auto simp: file_append_def file_record_def ctr split: if_splits)
  then have lt: "Suc n < 2 ^ 64" by (metis of_nat_less_iff of_nat_numeral of_nat_power)
  then have c': "c' = chain_at ?h (encrypting e') (Suc n)" using adv advance_chain_at [OF h n(1), of n] by simp
  have "file_inv (store s)" using assms(2) by (simp add: settled_def)
  from file_append_ok [OF this lt, of "c_state c'" k] have d2: "file_inv d"
    "file_recs d = (file_recs (store s))(k := chain_records ?h (encrypting e') (Suc n))"
    using d(1) h n(1,3) by (auto simp: c' chain_records_Suc)
  have "chain_logged E s2 ke" if "ke \<in> set (keystore s)" for ke
  proof (cases "fst ke = k")
    case True
    then have "ke = (k, e')"
      using that e' assms(2) eq_key_imp_eq_value [of "keystore s" k e' "snd ke"] by (cases ke) (auto simp: settled_def)
    then show ?thesis using n(1) by (auto simp: chain_logged_def d(2) c' d2(2))
  next
    case False
    have "chain_logged E s ke" using that assms(2) by (simp add: settled_def)
    then show ?thesis using False by (auto simp: chain_logged_def d(2) d2(2) split: prod.splits)
  qed
  then have "settled E s2"
    using assms(2,3) d2 by (auto simp: settled_def d(2) keys_saved_def revocations_saved_def)
  then show ?thesis using settled_core [OF x(3)] by simp
qed

lemma settled_issue:
  assumes "file_env E" "settled E s" "issue_route E rq s = (s', r)" "status_of (reply_of r) \<noteq> 500"
  shows "settled E s'"
proof (cases "core s' = core s")
  case False
  let ?b = "read_body_caught E rq"
  obtain k e kvs where k: "ks_find (keystore s) (jget ?b ''keyId'') = Some (k, e)"
    "issue_limited E rq k e kvs (or_default (jget ?b ''ttl'') (num 3600)) (or_default (jget ?b ''suite'') (str ''dilithium5''))
       (or_default (jget ?b ''tokenType'') (str ''access'')) s = (s', r)"
    using False assms(3) by (auto simp: issue_route_def with_body_def Let_def split: if_splits sum.splits option.splits)
  obtain l v where l: "check_key (cfg_rate E) (lim s) k ''issue'' (rq_now rq) = (l, v)" by force
  from k(2) False obtain su si ty ti where "issue_signed E rq k e kvs (or_default (jget ?b ''ttl'') (num 3600)) su si ty ti
      (s\<lparr>lim := l\<rparr>) = (s', r)"
    by (auto simp: issue_limited_def l Let_def split: if_splits option.splits)
  moreover have "k \<in> fst ` set (keystore s)" using ks_find_Some [OF k(1)] by (auto intro: rev_image_eqI)
  moreover have "settled E (s\<lparr>lim := l\<rparr>)" using settled_core [of "s\<lparr>lim := l\<rparr>" s] assms(2) by simp
  ultimately show ?thesis using settled_issue_signed [OF assms(1)] assms(4) by simp
qed (use assms(2) settled_core in blast)

lemma settled_revoke:
  assumes "settled E s" "revoke_route E rq v s = (s', r)" "status_of (reply_of r) \<noteq> 500"
  shows "settled E s'"
  using assms(2)
proof (cases rule: revoke_cases)
  case no
  then show ?thesis using assms(1) by simp
next
  case (lost k)
  then show ?thesis using assms(3) by (simp add: reply_of_def status_of_def)
next
  case (stored k b)
  obtain ks where ks: "distinct ks" "revoked s = map str ks"
    using assms(1) by (auto simp: settled_def revocations_saved_def)
  have "k \<notin> set ks" using stored(2) by (auto simp: is_revoked_def ks(2))
  then have "revocations_saved s'"
    using ks stored(5,6) by (auto simp: revocations_saved_def intro!: exI [of _ "ks @ [k]"])
  then show ?thesis
    using assms(1) stored by (auto simp: settled_def keys_saved_def chain_logged_def [abs_def])
qed

text \<open>What a request of the run brings: a fresh id and a 32-byte encryption key from the generators,
  12-byte nonces, and no failure.\<close>

definition sound_request :: "chain_dir server_env \<Rightarrow> chain_dir server \<Rightarrow> request \<Rightarrow> bool" where
  "sound_request E s rq \<longleftrightarrow> rq_uuid rq \<notin> fst ` set (keystore s) \<and> length (snd (snd (rq_keys rq))) = 32 \<and>
     (\<forall>i. length (rq_ivs rq i) = 12) \<and>
     (case snd (dispatch E rq s) of Replied p \<Rightarrow> status_of p \<noteq> 500 | Crashed \<Rightarrow> True)"

fun sound_run :: "chain_dir server_env \<Rightarrow> chain_dir server \<Rightarrow> srv_event list \<Rightarrow> bool" where
  "sound_run E s [] = True"
| "sound_run E s (ev # evs) =
     ((case ev of EvRequest rq \<Rightarrow> sound_request E s rq | _ \<Rightarrow> True) \<and> sound_run E (srv_step E s ev) evs)"

lemma settled_dispatch:
  assumes "file_env E" "settled E s" "sound_request E s rq"
  shows "settled E (fst (dispatch E rq s))"
proof -
  obtain s' out where d: "dispatch E rq s = (s', out)" by force
  then show ?thesis
  proof (cases rule: dispatch_cases)
    case refused
    from settled_core [OF refused(1)] show ?thesis using assms(2) d by simp
  next
    case (ran rt path s1 s2 r)
    have s1: "settled E s1" using assms(2) settled_core [OF ran(3)] by simp
    have r: "status_of (reply_of r) \<noteq> 500" using assms(3) d ran(6) by (simp add: sound_request_def)
    have frame: "settled E s2" if "\<not> writes_state rt"
    proof -
      have "core s2 = core s1" using core_run_route [OF that, of E rq s1] ran(4) by simp
      from settled_core [OF this] s1 show ?thesis by simp
    qed
    have "settled E s2"
    proof (cases rt)
      case RKeygen
      then show ?thesis
        using settled_keygen [OF assms(1) s1 _ r] ran(4) assms(3) core_fields(1) [OF ran(3)]
        by (simp add: run_route_def sound_request_def)
    next
      case RIssue
      then show ?thesis using settled_issue [OF assms(1) s1 _ r] ran(4) by (simp add: run_route_def)
    next
      case (RRevoke seg)
      then have "s2 = s1 \<or> (\<exists>v. revoke_route E rq v s1 = (s2, r))"
        using ran(4) by (auto simp: run_route_def with_key_def split: option.splits)
      then show ?thesis using settled_revoke [OF s1 _ r] s1 by blast
    qed (rule frame, simp add: writes_state_def)+
    then show ?thesis using d settled_core [OF ran(5)] by simp
  qed
qed

lemma settled_run:
  "file_env E \<Longrightarrow> settled E s \<Longrightarrow> sound_run E s evs \<Longrightarrow> settled E (foldl (srv_step E) s evs)"
proof (induction evs arbitrary: s)
  case (Cons ev evs)
  have "settled E (srv_step E s ev)"
  proof (cases ev)
    case (EvRequest rq)
    then show ?thesis using Cons.prems settled_dispatch by simp
  next
    case (EvRestart ivs can hnd)
    obtain s' where b: "boot E ivs can hnd s = Inr s'" "core s' = core (s\<lparr>lock := hnd\<rparr>)"
      using boot_settled Cons.prems by blast
    have "settled E (s\<lparr>lock := hnd\<rparr>)"
      using Cons.prems(2) by (simp add: settled_def keys_saved_def revocations_saved_def chain_logged_def [abs_def])
    then show ?thesis using settled_core [OF b(2)] b(1) EvRestart by simp
  qed
  with Cons show ?case by simp
qed simp

subsection \<open>Properties\<close>

text \<open>The first start of a process on an empty data directory.\<close>

definition first_start :: "chain_dir server" where
  "first_start = \<lparr>keystore = [], chains = Map.empty, fp_index = Map.empty, revoked = [], lim = create_limiter,
     rejects_seen = 0, lock = None, disk_ks = NoFile, disk_rev = NoFile, store = Map.empty, trace = []\<rparr>"

lemma settled_first: "settled E first_start"
  by (simp add: settled_def first_start_def file_inv_def file_recs_def index_of_def keys_saved_def revocations_saved_def)

text \<open>A restart loses nothing: after any run of requests and restarts on an empty data directory in which
  no request was answered with 500, a start of the process succeeds and gives back every key,
  every chain at its counter, the fingerprint index and the revocations.\<close>

theorem restart_restores:
  assumes "file_env E" "sound_run E first_start evs" "s = foldl (srv_step E) first_start evs"
  shows "\<exists>s'. boot E ivs can hnd s = Inr s' \<and> keystore s' = keystore s \<and> chains s' = chains s \<and>
    fp_index s' = fp_index s \<and> revoked s' = revoked s"
proof -
  have "settled E s" using settled_run [OF assms(1) settled_first assms(2)] assms(3) by simp
  from boot_settled [OF assms(1) this] obtain s' where b: "boot E ivs can hnd s = Inr s'" "core s' = core (s\<lparr>lock := hnd\<rparr>)"
    by blast
  from core_fields [OF b(2)] b(1) show ?thesis by auto
qed

lemma sample_file_env: "file_env (sample_env a p)"
  by (simp add: file_env_def sample_env_def gcm_correct_def sample_prims_def)

definition sample_key2 :: skey where
  "sample_key2 = \<lparr>signing = [1], verifying = [1], encrypting = replicate 32 3, label = str ''k2'', created = num 1000\<rparr>"

lemma sample_keygen:
  "\<exists>s1 b. dispatch (sample_env AnonMode (\<lambda>_. None)) (sample_rq ''POST'' ''/v3/keygen'' []) first_start =
     (s1, Replied (Json 201 b)) \<and> keystore s1 = [(''k2'', sample_key2)] \<and>
     revoked s1 = [] \<and> chains s1 = [''k2'' \<mapsto> chain_at h (replicate 32 3) 0] \<and> lock s1 = None \<and> store s1 = Map.empty"
  by (simp add: dispatch_eval new_chain_at [symmetric] new_skey_def sample_key2_def chain_seed_def slice_def coalesce_def first_start_def keygen_route_def read_body_caught_def read_json_bounded_def with_body_def
      Let_def put_key_def save_keystore_def log_effect_def finish_def nullish_def undef_def jget_def truthy_def)

lemma restart_restores_witness:
  "\<exists>s1 s2 b. dispatch (sample_env AnonMode (\<lambda>_. None)) (sample_rq ''POST'' ''/v3/keygen'' []) first_start =
       (s1, Replied (Json 201 b)) \<and>
     boot (sample_env AnonMode (\<lambda>_. None)) (\<lambda>_. []) True None s1 = Inr s2 \<and> map fst (keystore s2) = [''k2'']"
proof -
  let ?E = "sample_env AnonMode (\<lambda>_. None)" and ?rq = "sample_rq ''POST'' ''/v3/keygen'' []"
  obtain s1 b where d: "dispatch ?E ?rq first_start = (s1, Replied (Json 201 b))" "keystore s1 = [(''k2'', sample_key2)]" "revoked s1 = []"
    using sample_keygen [of sample_hash] by (elim exE conjE) (rule that)
  then have "sound_run ?E first_start [EvRequest ?rq]"
    by (simp add: sound_request_def status_of_def) (simp add: first_start_def sample_rq_def)
  from restart_restores [OF sample_file_env this, of s1 "\<lambda>_. []" True None] d(1) obtain s2
    where "boot ?E (\<lambda>_. []) True None s1 = Inr s2" "keystore s2 = keystore s1" by auto
  then show ?thesis using d by auto
qed

subsection \<open>After a failed request\<close>

text \<open>A revocation whose save fails is answered with an exception (500) but takes effect in memory; a restart
  forgets it, and the retry a client would make is refused as already revoked.\<close>

theorem failed_revocation_is_lost:
  assumes "file_env E" "settled E s" "(k, e) \<in> set (keystore s)" "\<not> is_revoked s k" "\<not> rq_can_write rq"
  shows "\<exists>s1. revoke_route E rq (str k) s = (s1, None) \<and> is_revoked s1 k \<and>
    revoke_route E rq' (str k) s1 = (s1, fail 409 ''ALREADY_REVOKED'') \<and>
    (\<exists>s2. boot E ivs can hnd s1 = Inr s2 \<and> \<not> is_revoked s2 k \<and> (k, e) \<in> set (keystore s2))"
proof -
  let ?s1 = "s\<lparr>revoked := revoked s @ [str k]\<rparr>"
  have "distinct (map fst (keystore s))" using assms(2) by (simp add: settled_def)
  then have f: "ks_find (keystore s) (str k) = Some (k, e)" using assms(3) by (simp add: ks_find_str)
  obtain s2 where b: "boot E ivs can hnd s = Inr s2" "core s2 = core (s\<lparr>lock := hnd\<rparr>)"
    using boot_settled [OF assms(1,2)] by blast
  have "boot E ivs can hnd ?s1 = Inr s2" using b(1) by (simp add: boot_def)
  moreover have "\<not> is_revoked s2 k" "(k, e) \<in> set (keystore s2)"
    using core_fields(1,4) [OF b(2)] assms(3,4) by (simp_all add: is_revoked_def)
  moreover have "revoke_route E rq (str k) s = (?s1, None)"
    using f assms(4,5) by (simp add: revoke_route_def set_add_def is_revoked_def Let_def)
  moreover have "is_revoked ?s1 k" by (simp add: is_revoked_def)
  moreover have "revoke_route E rq' (str k) ?s1 = (?s1, fail 409 ''ALREADY_REVOKED'')"
    using f by (simp add: revoke_route_def)
  ultimately show ?thesis by blast
qed

lemma failed_revocation_is_lost_witness:
  "let E = sample_env AnonMode (\<lambda>_. None); s = fst (dispatch E (sample_rq ''POST'' ''/v3/keygen'' []) first_start);
       rq = (sample_rq ''DELETE'' ''/v3/keys/k2'' [])\<lparr>rq_can_write := False\<rparr> in
   \<exists>s1 s2. revoke_route E rq (str ''k2'') s = (s1, None) \<and> is_revoked s1 ''k2'' \<and>
     boot E (\<lambda>_. []) True None s1 = Inr s2 \<and> \<not> is_revoked s2 ''k2''"
proof -
  let ?E = "sample_env AnonMode (\<lambda>_. None)" and ?rq = "sample_rq ''POST'' ''/v3/keygen'' []"
  let ?r = "(sample_rq ''DELETE'' ''/v3/keys/k2'' [])\<lparr>rq_can_write := False\<rparr>"
  obtain s1 b where d: "dispatch ?E ?rq first_start = (s1, Replied (Json 201 b))" "keystore s1 = [(''k2'', sample_key2)]" "revoked s1 = []"
    using sample_keygen [of sample_hash] by (elim exE conjE) (rule that)
  then have r: "sound_request ?E first_start ?rq"
    by (simp add: sound_request_def status_of_def) (simp add: first_start_def sample_rq_def)
  have s: "settled ?E s1" using settled_dispatch [OF sample_file_env settled_first r] d(1) by simp
  have e: "(''k2'', sample_key2) \<in> set (keystore s1)" using d(2) by simp
  have "\<not> is_revoked s1 ''k2''" using d(3) by (simp add: is_revoked_def)
  from failed_revocation_is_lost [OF sample_file_env s e this, of ?r ?r, where ivs = "\<lambda>_. []" and can = True and hnd = None]
  obtain t u where "revoke_route ?E ?r (str ''k2'') s1 = (t, None)" "is_revoked t ''k2''"
    "boot ?E (\<lambda>_. []) True None t = Inr u" "\<not> is_revoked u ''k2''" by auto
  then show ?thesis using d(1) by (simp add: Let_def)
qed

lemma load_entries_bad:
  assumes "ke \<in> set kvs" "read_entry E (fst ke) (snd (sealed_entry E ivs i ke)) = Inr (Some (snd ke, False))"
    and "cfg_load E (store s) (fst ke) (chain_seed (snd ke)) = Inl x"
    and "gcm_correct E" "\<And>i. length (ivs i) = 12"
  shows "\<exists>err. load_entries E (sealed_entries E ivs i kvs) m s = Inl err"
  using assms(1,3)
proof (induction kvs arbitrary: i m s)
  case (Cons a kvs)
  obtain k e where a: "a = (k, e)" by force
  have r: "read_entry E k (snd (sealed_entry E ivs i (k, e))) = Inr (Some (e, False))"
    using read_sealed [OF assms(4,5), where i = i and k = k and e = e] by (simp add: sealed_entry_def)
  obtain v where v: "sealed_entry E ivs i (k, e) = (js k, v)" by (simp add: sealed_entry_def)
  show ?case
  proof (cases "cfg_load E (store s) k (chain_seed e)")
    case (Inl y)
    then show ?thesis using r by (simp add: a v Let_def)
  next
    case (Inr l)
    let ?t = "put_key E k e (from_state (l_state l) (int (l_counter l))) s"
    have "ke \<in> set kvs" using Cons.prems Inr by (auto simp: a)
    moreover have "cfg_load E (store ?t) (fst ke) (chain_seed (snd ke)) = Inl x" using Cons.prems by (simp add: put_key_def)
    ultimately have "\<exists>err. load_entries E (sealed_entries E ivs (i + 1) kvs) m ?t = Inl err" by (rule Cons.IH)
    then show ?thesis using r Inr by (simp add: a v Let_def)
  qed
qed simp

lemma boot_bad_log:
  assumes "file_env E" "settled E s" "(k, e) \<in> set (keystore s)" "disk_ks s' = disk_ks s" "length (encrypting e) = 32"
    and bad: "file_load (p_sha3 (cfg_prims E)) (store s') k (encrypting e) = Inl y"
  shows "\<exists>err. boot E ivs can hnd s' = Inl err"
proof -
  have h: "cfg_load E = file_load (p_sha3 (cfg_prims E))" "gcm_correct E" using assms(1) by (simp_all add: file_env_def)
  have seed: "chain_seed e = encrypting e" using assms(5) by (simp add: chain_seed_def)
  obtain jvs where jvs: "\<And>i. length (jvs i) = 12" "disk_ks s = Doc (JObj (sealed_entries E jvs 0 (keystore s)))"
    using assms(2,3) by (auto simp: settled_def keys_saved_def)
  have "\<exists>err. load_entries E (sealed_entries E jvs 0 (keystore s)) 0 t = Inl err" if "store t = store s'" for t
    using load_entries_bad [OF assms(3) _ _ h(2) jvs(1), where i = 0 and s = t and m = 0 and x = y]
      read_sealed [OF h(2) jvs(1), where i = 0 and k = k and e = e] bad that by (simp add: sealed_entry_def h(1) seed)
  then obtain err where "load_entries E (sealed_entries E jvs 0 (keystore s)) 0
      \<lparr>keystore = [], chains = Map.empty, fp_index = Map.empty, revoked = [], lim = create_limiter, rejects_seen = 0,
        lock = hnd, disk_ks = disk_ks s', disk_rev = disk_rev s', store = store s', trace = []\<rparr> = Inl err" by fastforce
  then show ?thesis using jvs(2) assms(4)
    by (simp add: boot_def load_keystore_def object_entries_def nullish_def undef_def)
qed

text \<open>C18: An issue that fails after the chain moved (claims that do not encode, a lost lease, a full disk)
  burns a counter that is not in the log; the next issue of the key is answered with 200 and appends
  a record with a gap before it, and from then on no start of the process succeeds.\<close>

theorem burned_counter_stops_every_restart:
  assumes "file_env E" "settled E s" "(k, e) \<in> set (keystore s)" "c_counter (the (chains s k)) < 2 ^ 62"
    and "issue_signed E rq k e kvs ttl su si ty ti s = (s1, Some (IssueFailed x))" "chains s1 k \<noteq> chains s k"
    and "issue_signed E rq' k e kvs' ttl' su' si' ty' ti' s1 = (s2, Some (Json 200 b))"
  shows "\<exists>err. boot E ivs can hnd s2 = Inl err"
proof -
  let ?h = "p_sha3 (cfg_prims E)"
  have h: "sha3_len ?h" "cfg_append E = file_append" "cfg_load E = file_load ?h" "gcm_correct E"
    using assms(1) by (simp_all add: file_env_def)
  have "chain_logged E s (k, e)" using assms(2,3) by (simp add: settled_def)
  then obtain n where n: "length (encrypting e) = 32" "chains s k = Some (chain_at ?h (encrypting e) n)"
    "file_recs (store s) k = chain_records ?h (encrypting e) n" by (auto simp: chain_logged_def)
  have lt: "int n < 2 ^ 62" using assms(4) n(2) by simp
  then have "n < 2 ^ 62" by (metis of_nat_less_iff of_nat_numeral of_nat_power)
  then have nat_lt: "n < 2 ^ 64" "Suc n < 2 ^ 64" "Suc (Suc n) < 2 ^ 63" by simp_all
  obtain c1 r1 where i1: "issue_token (cfg_prims E) (rq_now rq) (rq_nonce rq) (issue_prm e kvs ttl si ti)
      (chain_at ?h (encrypting e) n) = (c1, r1)" by force
  have s1: "core s1 = core (s\<lparr>chains := (chains s)(k \<mapsto> c1)\<rparr>)"
    using assms(5) by (auto simp: issue_signed_def issue_failed_def n(2) i1 Let_def split: sum.splits option.splits)
  then have "chains s1 k = Some c1" using core_fields(2) [OF s1] by simp
  then have "c1 = chain_at ?h (encrypting e) (Suc n)"
    using issue_token_chain [OF i1] assms(6) n(2) advance_chain_at [OF h(1) n(1) nat_lt(1)] by auto
  note c1 = \<open>chains s1 k = Some c1\<close> [unfolded this]
  obtain c2 tok hex s3 where i2: "issue_token (cfg_prims E) (rq_now rq') (rq_nonce rq') (issue_prm e kvs' ttl' si' ti')
      (chain_at ?h (encrypting e) (Suc n)) = (c2, Inr (tok, hex))"
    "append_chain E (rq_lease rq') k (c_counter c2) (c_state c2) (s1\<lparr>chains := (chains s1)(k \<mapsto> c2)\<rparr>) = Some s3"
    "core s2 = core s3"
    using assms(7) by (auto simp: issue_signed_def issue_failed_def c1 Let_def split: sum.splits option.splits prod.splits)
  have "c2 = chain_at ?h (encrypting e) (Suc (Suc n))"
    using issue_token_chain [OF i2(1)] advance_chain_at [OF h(1) n(1) nat_lt(2)] by auto
  with append_chain_Some [OF i2(2)] obtain d where
    d: "file_append (store s) k (int (Suc (Suc n))) (ratchet ?h (encrypting e) (Suc (Suc n))) = Inr d" "store s2 = d"
      "keystore s2 = keystore s" "disk_ks s2 = disk_ks s"
    using core_fields [OF i2(3)] core_fields [OF s1] by (auto simp: h(2))
  have "file_inv (store s)" using assms(2) by (simp add: settled_def)
  from file_store.append_gap [OF h(1) this n(3) _ nat_lt(3), of "ratchet ?h (encrypting e) (Suc (Suc n))"] d(1,2) h(1) n(1)
  obtain y where bad: "file_load ?h (store s2) k (encrypting e) = Inl y" by auto
  then show ?thesis using boot_bad_log [OF assms(1-3) d(4) n(1)] by blast
qed

lemma burned_counter_stops_every_restart_witness:
  "let E = sample_env AnonMode (\<lambda>_. None); s = fst (dispatch E (sample_rq ''POST'' ''/v3/keygen'' []) first_start);
       rq = sample_rq ''POST'' ''/v3/token/issue'' [];
       issue = (\<lambda>kvs. issue_signed E rq ''k2'' sample_key2 kvs (num 60) (str ''dilithium5'') 5 (str ''access'') 1) in
   \<exists>s1 x s2 b err. issue [(js ''roles'', JArr [])] s = (s1, Some (IssueFailed x)) \<and>
     issue [] s1 = (s2, Some (Json 200 b)) \<and> boot E (\<lambda>_. []) True None s2 = Inl err"
proof -
  let ?E = "sample_env AnonMode (\<lambda>_. None)" and ?rq = "sample_rq ''POST'' ''/v3/keygen'' []"
  let ?rq2 = "sample_rq ''POST'' ''/v3/token/issue'' []" and ?c = "chain_at sample_hash (replicate 32 3)"
  let ?issue = "\<lambda>kvs. issue_signed ?E ?rq2 ''k2'' sample_key2 kvs (num 60) (str ''dilithium5'') 5 (str ''access'') 1"
  let ?prm = "\<lambda>kvs. issue_prm sample_key2 kvs (num 60) 5 1"
  obtain s b where d: "dispatch ?E ?rq first_start = (s, Replied (Json 201 b))" "keystore s = [(''k2'', sample_key2)]"
    "chains s = [''k2'' \<mapsto> ?c 0]" "lock s = None" "store s = Map.empty"
    using sample_keygen [of sample_hash] by (elim exE conjE) (rule that)
  then have r: "sound_request ?E first_start ?rq"
    by (simp add: sound_request_def status_of_def) (simp add: first_start_def sample_rq_def)
  have st: "settled ?E s" using settled_dispatch [OF sample_file_env settled_first r] d(1) by simp
  have h: "sha3_len sample_hash" by simp
  have adv: "advance sample_hash (?c n) = Inr (?c (Suc n))" if "n < 2 ^ 64" for n
    using advance_chain_at [OF h _ that, of "replicate 32 3"] by simp
  have prim: "cfg_prims ?E = sample_prims" "p_sha3 sample_prims = sample_hash" by (simp_all add: sample_env_def sample_prims_def)
  obtain err where "encode_claims sample_prims [(js ''roles'', JArr [])] = Inl err"
    using encode_claims_iff [of sample_prims "[(js ''roles'', JArr [])]"]
    by (cases "encode_claims sample_prims [(js ''roles'', JArr [])]") (auto simp: encodable_def)
  then have f: "issue_token sample_prims 1000 sample_nonce (?prm [(js ''roles'', JArr [])]) (?c 0) = (?c 1, Inl err)"
    using adv [of 0] by (simp add: issue_token_def issue_prm_def seal_token_def prim Let_def)
  obtain s1 where s1: "?issue [(js ''roles'', JArr [])] s = (s1, Some (IssueFailed (Some err)))" "chains s1 ''k2'' = Some (?c 1)"
    "lock s1 = None" "store s1 = Map.empty"
    using f d(3-5) by (simp add: issue_signed_def issue_failed_def prim sample_rq_def log_effect_def)
  have "\<exists>chn' tok. issue_token sample_prims 1000 sample_nonce (?prm []) (?c 1) = (chn', Inr (tok, to_hex tok)) \<and>
      c_counter chn' = c_counter (?c 1) + 1"
    by (rule issue_token_ok [where key = "[1]"]) (simp_all add: issue_prm_def sample_key2_def encodable_def wf_chain_def prim)
  then obtain c2 tok where i: "issue_token sample_prims 1000 sample_nonce (?prm []) (?c 1) = (c2, Inr (tok, to_hex tok))"
    "c_counter c2 = 2" by auto
  moreover obtain d' where "file_append Map.empty ''k2'' 2 (c_state c2) = Inr d'" by (simp add: file_append_def file_record_def)
  ultimately obtain s2 b2 where s2: "?issue [] s1 = (s2, Some (Json 200 b2))"
    using s1(2-4) by (simp add: issue_signed_def append_chain_def prim sample_rq_def) (simp add: sample_env_def)
  have "chains s1 ''k2'' \<noteq> chains s ''k2''" using s1(2) d(3) by (simp add: chain_at_def)
  moreover have "c_counter (the (chains s ''k2'')) < 2 ^ 62" by (simp add: d(3))
  ultimately have "\<exists>err. boot ?E (\<lambda>_. []) True None s2 = Inl err"
    using burned_counter_stops_every_restart [OF sample_file_env st, of "''k2''" sample_key2] s1(1) s2 d(2) by simp
  then show ?thesis using s1(1) s2 d(1) by (simp add: Let_def)
qed

end
