(* ===== verification/Murmur.thy ===== *)
theory Murmur
  imports Utf8
begin

section \<open>MurmurHash3 for worker affinity\<close>

text \<open>
  \<open>murmur3_32\<close> of \<open>qv-server/verify-pool.mjs\<close>, lines 32 to 73. A JavaScript bit operation first
  reduces its operands to 32 bits, so the running values are 32-bit words; \<open>imul32\<close> computes with
  exact numbers (all below \<open>2 ^ 53\<close>) and reduces where the code writes \<open>>>> 0\<close> or shifts. The
  hash is shown equal to the published algorithm, stated on words with the machine's multiplication.
\<close>

definition MUR3_C1 :: "32 word" where "MUR3_C1 = 0xcc9e2d51"
definition MUR3_C2 :: "32 word" where "MUR3_C2 = 0x1b873593"

definition rotl32 :: "32 word \<Rightarrow> nat \<Rightarrow> 32 word" where
  "rotl32 x r = or (push_bit r x) (drop_bit (32 - r) x)"

definition imul32 :: "32 word \<Rightarrow> 32 word \<Rightarrow> 32 word" where
  "imul32 a b =
     (let aHi = unat a div 65536 mod 65536; aLo = unat a mod 65536;
          bHi = unat b div 65536 mod 65536; bLo = unat b mod 65536;
          cross = (aHi * bLo + aLo * bHi) mod 2 ^ 32 * 65536 mod 2 ^ 32
      in word_of_nat ((aLo * bLo + cross) mod 2 ^ 32))"

text \<open>\<open>buf.readUInt32LE(off)\<close>; the loop reads inside the buffer only.\<close>

definition read_u32_le :: "bytes \<Rightarrow> nat \<Rightarrow> 32 word" where
  "read_u32_le buf off = word_of_nat (unat (buf ! off) + 256 * unat (buf ! (off + 1)) +
     65536 * unat (buf ! (off + 2)) + 16777216 * unat (buf ! (off + 3)))"

fun mur_loop :: "bytes \<Rightarrow> nat \<Rightarrow> nat \<Rightarrow> 32 word \<Rightarrow> 32 word" where
  "mur_loop buf i 0 h1 = h1"
| "mur_loop buf i (Suc n) h1 =
     (let k1 = imul32 (rotl32 (imul32 (read_u32_le buf (4 * i)) MUR3_C1) 15) MUR3_C2;
          h1 = rotl32 (xor h1 k1) 13
      in mur_loop buf (i + 1) n (imul32 h1 5 + 0xe6546b64))"

definition mur_tail :: "bytes \<Rightarrow> 32 word \<Rightarrow> 32 word" where
  "mur_tail buf h1 =
     (let tail = length buf mod 4; tailStart = 4 * (length buf div 4);
          byte = (\<lambda>i. word_of_nat (unat (buf ! (tailStart + i))) :: 32 word);
          k1 = 0 :: 32 word;
          k1 = (if tail = 3 then xor k1 (push_bit 16 (byte 2)) else k1);
          k1 = (if 2 \<le> tail then xor k1 (push_bit 8 (byte 1)) else k1)
      in if 1 \<le> tail
         then xor h1 (imul32 (rotl32 (imul32 (xor k1 (byte 0)) MUR3_C1) 15) MUR3_C2)
         else h1)"

definition murmur3_32 :: "bytes \<Rightarrow> 32 word \<Rightarrow> 32 word" where
  "murmur3_32 buf seed =
     (let h1 = mur_loop buf 0 (length buf div 4) seed;
          h1 = mur_tail buf h1;
          h1 = xor h1 (word_of_nat (length buf));
          h1 = xor h1 (drop_bit 16 h1);
          h1 = imul32 h1 0x85ebca6b;
          h1 = xor h1 (drop_bit 13 h1);
          h1 = imul32 h1 0xc2b2ae35
      in xor h1 (drop_bit 16 h1))"

subsection \<open>The published algorithm\<close>

text \<open>MurmurHash3 (x86, 32 bit) over the list of bytes: blocks of four, little endian, then the rest.\<close>

fun le_word :: "bytes \<Rightarrow> 32 word" where
  "le_word [] = 0"
| "le_word (b # bs) = ucast b + 256 * le_word bs"

definition mur_scramble :: "32 word \<Rightarrow> 32 word" where
  "mur_scramble k = word_rotl 15 (k * 0xcc9e2d51) * 0x1b873593"

fun mur_blocks :: "bytes \<Rightarrow> 32 word \<Rightarrow> 32 word" where
  "mur_blocks (a # b # c # d # bs) h =
     mur_blocks bs (word_rotl 13 (xor h (mur_scramble (le_word [a, b, c, d]))) * 5 + 0xe6546b64)"
| "mur_blocks rest h = xor h (mur_scramble (le_word rest))"

definition mur_final :: "32 word \<Rightarrow> 32 word" where
  "mur_final h =
     (let h = xor h (drop_bit 16 h) * 0x85ebca6b; h = xor h (drop_bit 13 h) * 0xc2b2ae35
      in xor h (drop_bit 16 h))"

definition mur_reference :: "bytes \<Rightarrow> 32 word \<Rightarrow> 32 word" where
  "mur_reference bs seed = mur_final (xor (mur_blocks bs seed) (word_of_nat (length bs)))"

lemma imul32_mult: "imul32 a b = a * b"
proof -
  let ?ah = "unat a div 65536" and ?al = "unat a mod 65536" and ?bh = "unat b div 65536" and ?bl = "unat b mod 65536"
  have "unat a < 2 ^ 32" "unat b < 2 ^ 32" using unsigned_less [of a] unsigned_less [of b] by simp_all
  then have hi: "?ah < 65536" "?bh < 65536" by (simp_all add: less_mult_imp_div_less)
  have four: "(65536 * p + q) * (65536 * r + s) = q * s + (p * s + q * r) * 65536 + p * r * 2 ^ 32" for p q r s :: nat
    by (simp add: algebra_simps)
  have a: "unat a = 65536 * ?ah + ?al" and b: "unat b = 65536 * ?bh + ?bl" by simp_all
  have "unat a * unat b = ?al * ?bl + (?ah * ?bl + ?al * ?bh) * 65536 + ?ah * ?bh * 2 ^ 32"
    using four a b by metis
  then have "(unat a * unat b) mod 2 ^ 32 =
      (?al * ?bl + (?ah * ?bl + ?al * ?bh) mod 2 ^ 32 * 65536 mod 2 ^ 32) mod 2 ^ 32"
    by (simp add: mod_simps)
  then have "imul32 a b = word_of_nat ((unat a * unat b) mod 2 ^ 32)"
    unfolding imul32_def Let_def by (simp only: mod_less [OF hi(1)] mod_less [OF hi(2)])
  also have "\<dots> = a * b"
    by (rule word_unat_eq_iff [THEN iffD2]) (simp add: unat_of_nat unat_word_ariths)
  finally show ?thesis .
qed

lemma rotl32_rotl: "r < 32 \<Longrightarrow> rotl32 x r = word_rotl r x"
proof (rule bit_word_eqI)
  fix n :: nat
  assume r: "r < 32" and "n < LENGTH(32)"
  then have n: "n < 32" by simp
  have rhs: "bit (word_rotl r x) n \<longleftrightarrow> bit x ((n + (32 - r)) mod 32)"
    using r n by (subst bit_word_rotl_iff) simp
  have lhs: "bit (rotl32 x r) n \<longleftrightarrow> (r \<le> n \<and> bit x (n - r)) \<or> bit x (32 - r + n)"
    using n by (simp add: rotl32_def bit_or_iff bit_push_bit_iff bit_drop_bit_eq)
  have short: "bit x k \<Longrightarrow> k < 32" for k using bit_imp_le_length [of x k] by simp
  show "bit (rotl32 x r) n = bit (word_rotl r x) n"
  proof (cases "r \<le> n")
    case True
    then have "n + (32 - r) = 32 + (n - r)" using r by simp
    then have "(n + (32 - r)) mod 32 = n - r" using n by (simp only: mod_add_self1) simp
    then show ?thesis using lhs rhs True r short [of "32 - r + n"] by auto
  next
    case False
    then have "(n + (32 - r)) mod 32 = 32 - r + n" using r n by (subst mod_less) simp_all
    then show ?thesis using lhs rhs False by auto
  qed
qed

lemma of_byte: "(word_of_nat (unat b) :: 32 word) = ucast b" for b :: byte
  by simp

lemma read_u32: "drop (4 * i) buf = a # b # c # d # bs \<Longrightarrow> read_u32_le buf (4 * i) = le_word [a, b, c, d]"
proof -
  assume d: "drop (4 * i) buf = a # b # c # d # bs"
  have "buf ! (4 * i + j) = (a # b # c # d # bs) ! j" if "j < 4" for j
  proof -
    have "4 * i \<le> length buf" using d by (cases "4 * i \<le> length buf") simp_all
    then show ?thesis using d by (metis nth_drop)
  qed
  from this [of 0] this [of 1] this [of 2] this [of 3] show ?thesis
    by (simp add: read_u32_le_def algebra_simps numeral_2_eq_2 numeral_3_eq_3)
qed

lemmas mur_words = imul32_mult rotl32_rotl MUR3_C1_def MUR3_C2_def mur_scramble_def

lemma mur_loop_blocks:
  "length rest < 4 \<Longrightarrow> drop (4 * i) buf = concat ws @ rest \<Longrightarrow> \<forall>w \<in> set ws. length w = 4 \<Longrightarrow>
   mur_blocks (concat ws @ rest) h = xor (mur_loop buf i (length ws) h) (mur_scramble (le_word rest))"
proof (induction ws arbitrary: i h)
  case Nil
  then show ?case by (cases "(rest, h)" rule: mur_blocks.cases) auto
next
  case (Cons w ws)
  from Cons.prems(3) have "length w = 4" by simp
  then obtain a b c d where w: "w = [a, b, c, d]" by (auto simp: length_Suc_conv numeral_eq_Suc)
  have "drop (4 * (i + 1)) buf = concat ws @ rest"
    using Cons.prems(2) by (simp add: w drop_drop [symmetric] del: drop_drop)
  from Cons.IH [OF Cons.prems(1) this] Cons.prems(3) show ?case
    using read_u32 [of i buf a b c d "concat ws @ rest"] Cons.prems(2)
    by (simp add: w mur_words Let_def)
qed

lemma xor_plus: "and a b = 0 \<Longrightarrow> xor a b = a + b" for a b :: "32 word"
  by (metis add_0 disjunctive_xor_eq_or word_plus_and_or)

lemma byte_bits: "bit (ucast (b :: byte) :: 32 word) k \<Longrightarrow> k < 8"
  using bit_imp_le_length [of b k] by (simp add: bit_ucast_iff)

lemma tail_word:
  "xor (push_bit 8 (ucast b)) (ucast a) = le_word [a, b]"
  "xor (xor (push_bit 16 (ucast c)) (push_bit 8 (ucast b))) (ucast a) = le_word [a, b, c]"
proof -
  have 1: "and (push_bit 8 (ucast b)) (ucast a) = (0 :: 32 word)" for a b :: byte
    by (rule bit_word_eqI) (auto simp: bit_and_iff bit_push_bit_iff dest: byte_bits)
  have 2: "and (push_bit 16 (ucast c)) (push_bit 8 (ucast b)) = (0 :: 32 word)" for b c :: byte
    by (rule bit_word_eqI) (auto simp: bit_and_iff bit_push_bit_iff dest!: byte_bits)
  have 3: "and (xor (push_bit 16 (ucast c)) (push_bit 8 (ucast b))) (ucast a) = (0 :: 32 word)" for a b c :: byte
    by (rule bit_word_eqI) (auto simp: bit_and_iff bit_xor_iff bit_push_bit_iff dest!: byte_bits)
  show "xor (push_bit 8 (ucast b)) (ucast a) = le_word [a, b]"
    unfolding xor_plus [OF 1] by (simp add: push_bit_eq_mult)
  show "xor (xor (push_bit 16 (ucast c)) (push_bit 8 (ucast b))) (ucast a) = le_word [a, b, c]"
    unfolding xor_plus [OF 2] xor_plus [OF 3 [unfolded xor_plus [OF 2]]] by (simp add: push_bit_eq_mult algebra_simps)
qed

lemma le_word1: "le_word [a] = ucast a"
  by simp

lemma mur_tail_rest:
  assumes "buf = pre @ rest" "length pre = 4 * (length buf div 4)"
  shows "mur_tail buf h = xor h (mur_scramble (le_word rest))"
proof -
  have "length rest = length buf mod 4" using assms by (metis add_left_cancel length_append mult_div_mod_eq)
  then have "length rest < 4" and t: "length buf mod 4 = length rest" by simp_all
  have nth: "buf ! (4 * (length buf div 4) + i) = rest ! i" for i
    using assms by (metis nth_append_length_plus)
  consider "rest = []" | a where "rest = [a]" | a b where "rest = [a, b]" | a b c where "rest = [a, b, c]"
    using \<open>length rest < 4\<close> by (cases "(rest, h)" rule: mur_blocks.cases) auto
  then show ?thesis
    unfolding mur_tail_def Let_def t nth of_byte mur_words
    by cases (simp_all add: tail_word le_word1 rotl32_rotl del: le_word.simps(2))
qed

text \<open>C38: The hash that maps a key to its worker is MurmurHash3: the code's loop, with its multiplication
  from 16-bit halves, computes the published algorithm on every byte string and seed.\<close>

theorem murmur3_is_reference: "murmur3_32 buf seed = mur_reference buf seed"
proof -
  define n where "n = length buf div 4"
  define pre where "pre = take (4 * n) buf"
  define rest where "rest = drop (4 * n) buf"
  have buf: "buf = pre @ rest" and pre: "length pre = 4 * n" by (simp_all add: pre_def rest_def n_def)
  have ws: "concat (chunks 4 pre) = pre" "\<forall>w \<in> set (chunks 4 pre). length w = 4" "length (chunks 4 pre) = n"
    using pre chunks_lengths [of 4 pre] by (simp_all add: concat_chunks length_chunks)
  have "length rest < 4" by (simp add: rest_def n_def minus_mult_div_eq_mod)
  from mur_loop_blocks [OF this, of 0 buf "chunks 4 pre" seed] ws buf
  have "mur_blocks buf seed = xor (mur_loop buf 0 n seed) (mur_scramble (le_word rest))" by simp
  then have "mur_tail buf (mur_loop buf 0 n seed) = mur_blocks buf seed"
    using mur_tail_rest [OF buf] pre by (simp add: n_def)
  then show ?thesis
    by (simp add: murmur3_32_def mur_reference_def mur_final_def Let_def imul32_mult n_def)
qed

end
