(* ===== verification/Ledger.thy ===== *)
theory Ledger
  imports Prelude
begin

section \<open>Accounts kept by a machine\<close>

text \<open>
  Several components take items in and hand them on: jobs of a pool, spans of an exporter, lines of a
  log. The contract is that every step adds to the account of the state exactly what came in with
  the event. A locale states it once; its only lemma is that the account of a run is what came in.
\<close>

locale conserving =
  fixes step :: "'s \<Rightarrow> 'e \<Rightarrow> 's"
    and good :: "'s \<Rightarrow> bool"
    and account :: "'s \<Rightarrow> 'm"
    and inflow :: "'e \<Rightarrow> 'm"
    and comb :: "'m \<Rightarrow> 'm \<Rightarrow> 'm"
    and none :: 'm
  assumes comb_assoc: "comb (comb a b) c = comb a (comb b c)"
    and comb_none: "comb a none = a"
    and good_step: "good s \<Longrightarrow> good (step s e)"
    and account_step: "good s \<Longrightarrow> account (step s e) = comb (account s) (inflow e)"
begin

fun total_in :: "'e list \<Rightarrow> 'm" where
  "total_in [] = none"
| "total_in (e # es) = comb (inflow e) (total_in es)"

lemma account_run: "good s \<Longrightarrow> good (foldl step s es) \<and> account (foldl step s es) = comb (account s) (total_in es)"
  by (induction es arbitrary: s) (auto simp: comb_none comb_assoc good_step account_step)

end

end
