(* ===== verification/Verify_Pool.thy ===== *)
theory Verify_Pool
  imports Murmur Ledger "HOL-Library.Multiset"
begin

section \<open>The verify pool\<close>

text \<open>
  \<open>VerifyPool\<close> of \<open>qv-server/verify-pool.mjs\<close>: worker threads that take verification jobs from one
  queue (round robin) or from one queue each (affinity). A worker is its index. A promise of \<open>run\<close>
  is the number \<open>j_id\<close> of its job, and \<open>vp_settled\<close> records the calls of its \<open>resolve\<close> in order.
  The events are those of the event loop: a call of \<open>run\<close>, a message or an error of a worker, the
  shutdown; each runs to its end before the next one.
\<close>

record 'm job =
  j_id :: nat
  j_key :: "jsstr option"     \<comment> \<open>\<open>msg.keyId\<close>; \<open>None\<close>: not a string\<close>
  j_msg :: 'm

datatype 'r outcome_msg = Answer 'r | WorkerError | PoolOverloaded "nat option" | WorkerDead nat | PoolShutdown

record ('m, 'r) pool =
  vp_size :: nat
  vp_queueMax :: nat
  vp_affinity :: bool
  vp_workers :: "nat list"
  vp_idle :: "nat list"
  vp_queue :: "'m job list"
  vp_queues :: "'m job list list"
  vp_busy :: "bool list"
  vp_perQueueMax :: nat
  vp_nextJobId :: nat
  vp_pending :: "(nat \<times> nat \<times> nat) list"      \<comment> \<open>jobId to promise and worker\<close>
  vp_rejects :: nat
  vp_affinityRejects :: "nat list"
  vp_posted :: "(nat \<times> nat \<times> 'm) list"         \<comment> \<open>worker, jobId, message\<close>
  vp_settled :: "(nat \<times> 'r outcome_msg) list"

definition create_pool :: "nat \<Rightarrow> nat \<Rightarrow> bool \<Rightarrow> ('m, 'r) pool" where
  "create_pool sz queueMax affinity =
     \<lparr>vp_size = sz, vp_queueMax = queueMax, vp_affinity = affinity, vp_workers = [], vp_idle = [], vp_queue = [],
      vp_queues = [], vp_busy = [], vp_perQueueMax = max 1 ((queueMax + (max 1 sz - 1)) div max 1 sz),
      vp_nextJobId = 1, vp_pending = [], vp_rejects = 0, vp_affinityRejects = replicate sz 0,
      vp_posted = [], vp_settled = []\<rparr>"

definition queue_depth :: "('m, 'r) pool \<Rightarrow> nat" where
  "queue_depth p = (if \<not> vp_affinity p then length (vp_queue p) else sum_list (map length (vp_queues p)))"

definition per_worker_queue_depth :: "('m, 'r) pool \<Rightarrow> nat list" where
  "per_worker_queue_depth p =
     (if \<not> vp_affinity p then length (vp_queue p) # replicate (vp_size p - 1) 0
      else map length (vp_queues p))"

text \<open>\<open>init\<close> starts the workers one after the other; a worker that does not report ready ends it with
  an exception (\<open>False\<close>).\<close>

definition add_worker :: "nat \<Rightarrow> ('m, 'r) pool \<Rightarrow> ('m, 'r) pool" where
  "add_worker i p =
     (let p = p\<lparr>vp_workers := vp_workers p @ [i]\<rparr> in
      if vp_affinity p then p\<lparr>vp_queues := vp_queues p @ [[]], vp_busy := vp_busy p @ [False]\<rparr>
      else p\<lparr>vp_idle := vp_idle p @ [i]\<rparr>)"

fun init_from :: "(nat \<Rightarrow> bool) \<Rightarrow> nat \<Rightarrow> nat \<Rightarrow> ('m, 'r) pool \<Rightarrow> ('m, 'r) pool \<times> bool" where
  "init_from spawns i 0 p = (p, True)"
| "init_from spawns i (Suc n) p =
     (if spawns i then init_from spawns (i + 1) n (add_worker i p) else (p, False))"

definition init :: "(nat \<Rightarrow> bool) \<Rightarrow> ('m, 'r) pool \<Rightarrow> ('m, 'r) pool \<times> bool" where
  "init spawns p = init_from spawns 0 (vp_size p) p"

definition vp_dispatch :: "nat \<Rightarrow> 'm job \<Rightarrow> ('m, 'r) pool \<Rightarrow> ('m, 'r) pool" where
  "vp_dispatch w j p =
     p\<lparr>vp_nextJobId := vp_nextJobId p + 1,
       vp_pending := vp_pending p @ [(vp_nextJobId p, j_id j, w)],
       vp_posted := vp_posted p @ [(w, vp_nextJobId p, j_msg j)]\<rparr>"

definition settle :: "nat list \<Rightarrow> 'r outcome_msg \<Rightarrow> ('m, 'r) pool \<Rightarrow> ('m, 'r) pool" where
  "settle ids r p = p\<lparr>vp_settled := vp_settled p @ map (\<lambda>j. (j, r)) ids\<rparr>"

definition vp_release :: "nat \<Rightarrow> ('m, 'r) pool \<Rightarrow> ('m, 'r) pool" where
  "vp_release w p =
     (if vp_affinity p then
        (case vp_queues p ! w of
           next # q \<Rightarrow> vp_dispatch w next (p\<lparr>vp_queues := (vp_queues p)[w := q]\<rparr>)
         | [] \<Rightarrow> p\<lparr>vp_busy := (vp_busy p)[w := False]\<rparr>)
      else
        (case vp_queue p of
           next # q \<Rightarrow> vp_dispatch w next (p\<lparr>vp_queue := q\<rparr>)
         | [] \<Rightarrow> p\<lparr>vp_idle := vp_idle p @ [w]\<rparr>))"

text \<open>A message is the readiness report or a reply. A reply to an unknown job is dropped.\<close>

datatype 'r worker_msg = Ready | Reply nat 'r

definition on_message :: "nat \<Rightarrow> 'r worker_msg \<Rightarrow> ('m, 'r) pool \<Rightarrow> ('m, 'r) pool" where
  "on_message w m p =
     (case m of
        Ready \<Rightarrow> p
      | Reply jobId r \<Rightarrow>
          (case map_of (vp_pending p) jobId of
             None \<Rightarrow> p
           | Some (j, _) \<Rightarrow>
               vp_release w (settle [j] (Answer r)
                 (p\<lparr>vp_pending := filter (\<lambda>(k, _). k \<noteq> jobId) (vp_pending p)\<rparr>))))"

definition on_error :: "nat \<Rightarrow> ('m, 'r) pool \<Rightarrow> ('m, 'r) pool" where
  "on_error w p =
     (let failed = map (\<lambda>(_, j, _). j) (filter (\<lambda>(_, _, i). i = w) (vp_pending p));
          p = settle failed WorkerError (p\<lparr>vp_pending := filter (\<lambda>(_, _, i). i \<noteq> w) (vp_pending p)\<rparr>)
      in if vp_affinity p then
           (settle (map j_id (vp_queues p ! w)) WorkerError p)
             \<lparr>vp_queues := (vp_queues p)[w := []], vp_busy := (vp_busy p)[w := False]\<rparr>
         else p)"

definition worker_for_key :: "jsstr option \<Rightarrow> ('m, 'r) pool \<Rightarrow> nat option" where
  "worker_for_key key p =
     (if \<not> vp_affinity p then None
      else Some (case key of
        None \<Rightarrow> 0
      | Some k \<Rightarrow> if k = [] then 0 else unat (murmur3_32 (utf8_encode k) 0) mod vp_size p))"

definition reject :: "nat \<Rightarrow> 'm job \<Rightarrow> 'r outcome_msg \<Rightarrow> ('m, 'r) pool \<Rightarrow> ('m, 'r) pool" where
  "reject idx j r p =
     settle [j_id j] r
       (p\<lparr>vp_rejects := vp_rejects p + 1,
          vp_affinityRejects := (vp_affinityRejects p)[idx := vp_affinityRejects p ! idx + 1]\<rparr>)"

definition vp_run :: "'m job \<Rightarrow> ('m, 'r) pool \<Rightarrow> ('m, 'r) pool" where
  "vp_run j p =
     (case worker_for_key (j_key j) p of
        Some idx \<Rightarrow>
          if length (vp_workers p) \<le> idx then reject idx j (WorkerDead idx) p
          else if \<not> vp_busy p ! idx then vp_dispatch (vp_workers p ! idx) j (p\<lparr>vp_busy := (vp_busy p)[idx := True]\<rparr>)
          else if vp_perQueueMax p \<le> length (vp_queues p ! idx) then reject idx j (PoolOverloaded (Some idx)) p
          else p\<lparr>vp_queues := (vp_queues p)[idx := vp_queues p ! idx @ [j]]\<rparr>
      | None \<Rightarrow>
          if vp_idle p \<noteq> [] then vp_dispatch (last (vp_idle p)) j (p\<lparr>vp_idle := butlast (vp_idle p)\<rparr>)
          else if vp_queueMax p \<le> length (vp_queue p) then
            settle [j_id j] (PoolOverloaded None) (p\<lparr>vp_rejects := vp_rejects p + 1\<rparr>)
          else p\<lparr>vp_queue := vp_queue p @ [j]\<rparr>)"

definition shutdown :: "('m, 'r) pool \<Rightarrow> ('m, 'r) pool" where
  "shutdown p =
     (let p = p\<lparr>vp_workers := [], vp_idle := []\<rparr>;
          p = (if vp_affinity p
               then (settle (map j_id (concat (vp_queues p))) PoolShutdown p)\<lparr>vp_queues := [], vp_busy := []\<rparr>
               else (settle (map j_id (vp_queue p)) PoolShutdown p)\<lparr>vp_queue := []\<rparr>)
      in (settle (map (\<lambda>(_, j, _). j) (vp_pending p)) PoolShutdown p)\<lparr>vp_pending := []\<rparr>)"

text \<open>Events: only a worker that was started and not terminated sends a message or fails.\<close>

datatype ('m, 'r) pool_event =
  EvRun "'m job" | EvMessage nat "'r worker_msg" | EvError nat | EvShutdown

fun pool_step :: "('m, 'r) pool \<Rightarrow> ('m, 'r) pool_event \<Rightarrow> ('m, 'r) pool" where
  "pool_step p (EvRun j) = vp_run j p"
| "pool_step p (EvMessage w m) = (if w < length (vp_workers p) then on_message w m p else p)"
| "pool_step p (EvError w) = (if w < length (vp_workers p) then on_error w p else p)"
| "pool_step p EvShutdown = shutdown p"

definition pool_start :: "nat \<Rightarrow> nat \<Rightarrow> bool \<Rightarrow> ('m, 'r) pool" where
  "pool_start sz queueMax affinity = fst (init (\<lambda>_. True) (create_pool sz queueMax affinity))"

subsection \<open>No promise is lost or settled twice\<close>

definition waiting :: "('m, 'r) pool \<Rightarrow> 'm job list" where
  "waiting p = (if vp_affinity p then concat (vp_queues p) else vp_queue p)"

definition owed :: "('m, 'r) pool \<Rightarrow> nat multiset" where
  "owed p = image_mset (\<lambda>(_, j, _). j) (mset (vp_pending p)) + image_mset j_id (mset (waiting p))"

definition ledger :: "('m, 'r) pool \<Rightarrow> nat multiset" where
  "ledger p = image_mset fst (mset (vp_settled p)) + owed p"

definition started :: "('m, 'r) pool_event list \<Rightarrow> nat multiset" where
  "started evs = mset (concat (map (\<lambda>ev. case ev of EvRun j \<Rightarrow> [j_id j] | _ \<Rightarrow> []) evs))"

text \<open>The shape every event keeps: one queue and one flag per worker, job ids that were given out once,
  queues within their bounds.\<close>

definition well_shaped :: "('m, 'r) pool \<Rightarrow> bool" where
  "well_shaped p \<longleftrightarrow>
     (vp_affinity p \<longrightarrow> length (vp_queues p) = length (vp_workers p) \<and> length (vp_busy p) = length (vp_workers p) \<and>
        (\<forall>q \<in> set (vp_queues p). length q \<le> vp_perQueueMax p)) \<and>
     length (vp_workers p) \<le> vp_size p \<and>
     distinct (map fst (vp_pending p)) \<and> (\<forall>k \<in> fst ` set (vp_pending p). k < vp_nextJobId p) \<and>
     length (vp_queue p) \<le> vp_queueMax p"

lemma mset_concat_update:
  "i < length xs \<Longrightarrow> mset (concat (xs[i := y])) + mset (xs ! i) = mset (concat xs) + mset y"
proof (induction xs arbitrary: i)
  case (Cons x xs)
  then show ?case by (cases i) (simp_all add: ac_simps)
qed simp

lemma mset_take_key:
  "distinct (map fst xs) \<Longrightarrow> map_of xs k = Some v \<Longrightarrow>
   mset xs = add_mset (k, v) (mset (filter (\<lambda>(l, _). l \<noteq> k) xs))"
proof (induction xs)
  case (Cons x xs)
  obtain l w where x: "x = (l, w)" by force
  show ?case
  proof (cases "l = k")
    case True
    then have "k \<notin> fst ` set xs" using Cons.prems(1) by (simp add: x)
    then have "filter (\<lambda>(l, _). l \<noteq> k) xs = xs" by (auto simp: filter_id_conv rev_image_eqI)
    then show ?thesis using True Cons.prems(2) by (simp add: x)
  qed (use Cons in \<open>simp add: x\<close>)
qed simp

named_theorems pool_simps \<open>the operations of the pool\<close>

lemmas [pool_simps] = vp_dispatch_def settle_def reject_def Let_def

lemma settle_fields [simp]:
  "vp_affinity (settle ids r p) = vp_affinity p" "vp_queues (settle ids r p) = vp_queues p"
  "vp_busy (settle ids r p) = vp_busy p" "vp_pending (settle ids r p) = vp_pending p"
  "vp_queue (settle ids r p) = vp_queue p" "vp_idle (settle ids r p) = vp_idle p"
  "vp_workers (settle ids r p) = vp_workers p" "vp_size (settle ids r p) = vp_size p"
  "vp_queueMax (settle ids r p) = vp_queueMax p" "vp_perQueueMax (settle ids r p) = vp_perQueueMax p"
  "vp_settled (settle ids r p) = vp_settled p @ map (\<lambda>j. (j, r)) ids"
  by (simp_all add: settle_def)

lemma dispatch_fields [simp]:
  "vp_affinity (vp_dispatch w j p) = vp_affinity p" "vp_queues (vp_dispatch w j p) = vp_queues p"
  "vp_busy (vp_dispatch w j p) = vp_busy p" "vp_pending (vp_dispatch w j p) = vp_pending p @ [(vp_nextJobId p, j_id j, w)]"
  "vp_queue (vp_dispatch w j p) = vp_queue p" "vp_idle (vp_dispatch w j p) = vp_idle p"
  "vp_workers (vp_dispatch w j p) = vp_workers p" "vp_size (vp_dispatch w j p) = vp_size p"
  "vp_queueMax (vp_dispatch w j p) = vp_queueMax p" "vp_perQueueMax (vp_dispatch w j p) = vp_perQueueMax p"
  "vp_settled (vp_dispatch w j p) = vp_settled p"
  by (simp_all add: vp_dispatch_def)

lemma ledger_dispatch: "ledger (vp_dispatch w j p) = add_mset (j_id j) (ledger p)"
  by (simp add: ledger_def owed_def waiting_def pool_simps)

lemma shape_dispatch: "well_shaped p \<Longrightarrow> well_shaped (vp_dispatch w j p)"
  by (auto simp: well_shaped_def pool_simps less_Suc_eq)

lemma ledger_settle: "ledger (settle ids r p) = mset ids + ledger p"
  by (simp add: ledger_def owed_def waiting_def settle_def multiset.map_comp comp_def)

lemma shape_settle [simp]: "well_shaped (settle ids r p) = well_shaped p"
  by (simp add: well_shaped_def settle_def)

lemma ledger_release:
  assumes "well_shaped p" "w < length (vp_workers p)"
  shows "ledger (vp_release w p) = ledger p"
proof (cases "vp_affinity p")
  case True
  then have w: "w < length (vp_queues p)" using assms by (simp add: well_shaped_def)
  show ?thesis
  proof (cases "vp_queues p ! w")
    case Nil
    then show ?thesis using True by (simp add: vp_release_def ledger_def owed_def waiting_def)
  next
    case (Cons j q)
    have "mset (concat (vp_queues p)) = add_mset j (mset (concat ((vp_queues p)[w := q])))"
      using mset_concat_update [OF w, of q] Cons by simp
    then show ?thesis using True Cons
      by (simp add: vp_release_def ledger_dispatch) (simp add: ledger_def owed_def waiting_def)
  qed
next
  case False
  then show ?thesis
    by (cases "vp_queue p") (simp_all add: vp_release_def ledger_dispatch, simp_all add: ledger_def owed_def waiting_def)
qed

lemma shape_release:
  assumes "well_shaped p" "w < length (vp_workers p)"
  shows "well_shaped (vp_release w p)"
proof (cases "vp_affinity p")
  case True
  then have w: "w < length (vp_queues p)" using assms by (simp add: well_shaped_def)
  show ?thesis
  proof (cases "vp_queues p ! w")
    case Nil
    then show ?thesis using True assms by (simp add: vp_release_def well_shaped_def)
  next
    case (Cons j q)
    then have "length q \<le> vp_perQueueMax p"
      using assms True nth_mem [OF w] by (fastforce simp: well_shaped_def)
    then have "well_shaped (p\<lparr>vp_queues := (vp_queues p)[w := q]\<rparr>)"
      using assms True by (auto simp: well_shaped_def dest: set_update_subset_insert [THEN subsetD])
    then show ?thesis using True Cons by (simp add: vp_release_def shape_dispatch)
  qed
next
  case False
  show ?thesis
  proof (cases "vp_queue p")
    case (Cons j q)
    then have "well_shaped (p\<lparr>vp_queue := q\<rparr>)" using False assms by (simp add: well_shaped_def)
    then show ?thesis using False Cons by (simp add: vp_release_def shape_dispatch)
  qed (use False assms in \<open>simp add: vp_release_def well_shaped_def\<close>)
qed

lemma message_kept:
  assumes "well_shaped p" "w < length (vp_workers p)"
  shows "well_shaped (on_message w m p) \<and> ledger (on_message w m p) = ledger p"
proof (cases m)
  case (Reply jobId r)
  show ?thesis
  proof (cases "map_of (vp_pending p) jobId")
    case (Some v)
    obtain j i where v: "v = (j, i)" by force
    let ?p = "p\<lparr>vp_pending := filter (\<lambda>(k, _). k \<noteq> jobId) (vp_pending p)\<rparr>"
    have d: "distinct (map fst (vp_pending p))" using assms(1) by (simp add: well_shaped_def)
    have sh: "well_shaped ?p"
      using assms(1) by (auto simp: well_shaped_def distinct_map_filter)
    have "image_mset (\<lambda>(_, j, _). j) (mset (vp_pending p)) = add_mset j (image_mset (\<lambda>(_, j, _). j) (mset (vp_pending ?p)))"
      by (subst mset_take_key [OF d Some]) (simp add: v)
    then have "ledger p = add_mset j (ledger ?p)" by (simp add: ledger_def owed_def waiting_def)
    then have "ledger (settle [j] (Answer r) ?p) = ledger p" by (simp add: ledger_settle)
    then show ?thesis
      using sh assms(2) ledger_release [of "settle [j] (Answer r) ?p" w] shape_release [of "settle [j] (Answer r) ?p" w]
      by (simp add: on_message_def Reply Some v)
  qed (use assms in \<open>simp add: on_message_def Reply\<close>)
qed (use assms in \<open>simp add: on_message_def\<close>)

lemma error_kept:
  assumes "well_shaped p" "w < length (vp_workers p)"
  shows "well_shaped (on_error w p) \<and> ledger (on_error w p) = ledger p"
proof -
  let ?failed = "map (\<lambda>(_, j, _). j) (filter (\<lambda>(_, _, i). i = w) (vp_pending p))"
  let ?p = "p\<lparr>vp_pending := filter (\<lambda>(_, _, i). i \<noteq> w) (vp_pending p)\<rparr>"
  have "mset (vp_pending p) = mset (filter (\<lambda>(_, _, i). i = w) (vp_pending p)) + mset (vp_pending ?p)"
    using multiset_partition [of "mset (vp_pending p)" "\<lambda>(_, _, i). i = w"] by (simp add: case_prod_unfold)
  from arg_cong [OF this, of "image_mset (\<lambda>(_, j, _). j)"]
  have "image_mset (\<lambda>(_, j, _). j) (mset (vp_pending p)) = mset ?failed + image_mset (\<lambda>(_, j, _). j) (mset (vp_pending ?p))"
    by (simp only: image_mset_union mset_map)
  then have l: "ledger (settle ?failed WorkerError ?p) = ledger p"
    unfolding ledger_settle by (simp add: ledger_def owed_def waiting_def)
  have sh: "well_shaped ?p" using assms(1) by (auto simp: well_shaped_def distinct_map_filter)
  show ?thesis
  proof (cases "vp_affinity p")
    case False
    then show ?thesis using l sh by (simp add: on_error_def Let_def)
  next
    case True
    then have w: "w < length (vp_queues p)" using assms by (simp add: well_shaped_def)
    have "mset (concat (vp_queues p)) = mset (concat ((vp_queues p)[w := []])) + mset (vp_queues p ! w)"
      using mset_concat_update [OF w, of "[]"] by simp
    then have "ledger (on_error w p) = ledger p"
      using True l by (simp add: on_error_def Let_def) (simp add: ledger_def owed_def waiting_def settle_def multiset.map_comp comp_def)
    moreover have "well_shaped (on_error w p)"
      using True sh w by (auto simp: on_error_def Let_def well_shaped_def settle_def dest: set_update_subset_insert [THEN subsetD])
    ultimately show ?thesis by simp
  qed
qed

lemma shutdown_kept: "well_shaped p \<Longrightarrow> well_shaped (shutdown p) \<and> ledger (shutdown p) = ledger p"
  by (auto simp: shutdown_def Let_def well_shaped_def ledger_def owed_def waiting_def settle_def multiset.map_comp comp_def
      case_prod_unfold)

lemma run_kept:
  assumes "well_shaped p"
  shows "well_shaped (vp_run j p) \<and> ledger (vp_run j p) = add_mset (j_id j) (ledger p)"
proof (cases "worker_for_key (j_key j) p")
  case None
  then have "\<not> vp_affinity p" by (simp add: worker_for_key_def split: if_splits)
  then have *: "well_shaped (p\<lparr>vp_idle := butlast (vp_idle p)\<rparr>)" "ledger (p\<lparr>vp_idle := butlast (vp_idle p)\<rparr>) = ledger p"
    "well_shaped (p\<lparr>vp_rejects := vp_rejects p + 1\<rparr>)" "ledger (p\<lparr>vp_rejects := vp_rejects p + 1\<rparr>) = ledger p"
    "length (vp_queue p) < vp_queueMax p \<Longrightarrow> well_shaped (p\<lparr>vp_queue := vp_queue p @ [j]\<rparr>)"
    "ledger (p\<lparr>vp_queue := vp_queue p @ [j]\<rparr>) = add_mset (j_id j) (ledger p)"
    using assms by (simp_all add: well_shaped_def ledger_def owed_def waiting_def)
  show ?thesis
    using * None by (auto simp: vp_run_def ledger_dispatch ledger_settle intro: shape_dispatch)
next
  case (Some idx)
  then have aff: "vp_affinity p" by (simp add: worker_for_key_def split: if_splits)
  have rej: "well_shaped (reject idx j r p) \<and> ledger (reject idx j r p) = add_mset (j_id j) (ledger p)" for r
    using assms by (simp add: reject_def ledger_settle) (simp add: well_shaped_def ledger_def owed_def waiting_def)
  show ?thesis
  proof (cases "idx < length (vp_workers p) \<and> vp_busy p ! idx \<and> length (vp_queues p ! idx) < vp_perQueueMax p")
    case True
    then have w: "idx < length (vp_queues p)" using aff assms by (simp add: well_shaped_def)
    have "mset (concat ((vp_queues p)[idx := vp_queues p ! idx @ [j]])) = add_mset j (mset (concat (vp_queues p)))"
      using mset_concat_update [OF w, of "vp_queues p ! idx @ [j]"] by simp
    moreover have "well_shaped (p\<lparr>vp_queues := (vp_queues p)[idx := vp_queues p ! idx @ [j]]\<rparr>)"
      using assms aff True by (auto simp: well_shaped_def dest!: set_update_subset_insert [THEN subsetD])
    ultimately show ?thesis using Some True aff
      by (simp add: vp_run_def) (simp add: ledger_def owed_def waiting_def)
  next
    case False
    have "well_shaped (p\<lparr>vp_busy := (vp_busy p)[idx := True]\<rparr>)"
      "ledger (p\<lparr>vp_busy := (vp_busy p)[idx := True]\<rparr>) = ledger p"
      using assms by (simp_all add: well_shaped_def ledger_def owed_def waiting_def)
    then show ?thesis using Some rej False by (auto simp: vp_run_def ledger_dispatch intro!: shape_dispatch)
  qed
qed

lemma step_kept:
  "well_shaped p \<Longrightarrow> well_shaped (pool_step p ev) \<and> ledger (pool_step p ev) = ledger p + started [ev]"
  by (cases ev) (simp_all add: started_def run_kept message_kept error_kept shutdown_kept)

interpretation jobs: conserving pool_step well_shaped ledger "\<lambda>ev. started [ev]" "(+)" "{#}"
  by unfold_locales (auto simp: step_kept)

lemma steps_kept:
  "well_shaped p \<Longrightarrow> well_shaped (foldl pool_step p evs) \<and> ledger (foldl pool_step p evs) = ledger p + started evs"
proof -
  have "jobs.total_in evs = started evs"
  proof (induction evs)
    case (Cons ev evs)
    have "started (ev # evs) = started [ev] + started evs" by (simp add: started_def)
    then show ?case using Cons by simp
  next
    case Nil
    have "started [] = {#}" by (simp add: started_def)
    then show ?case by simp
  qed
  then show "well_shaped p \<Longrightarrow> ?thesis" using jobs.account_run [of p evs] by simp
qed

lemma init_from_all:
  "init_from (\<lambda>_. True) i n p =
     (p\<lparr>vp_workers := vp_workers p @ [i..<i + n],
        vp_queues := vp_queues p @ (if vp_affinity p then replicate n [] else []),
        vp_busy := vp_busy p @ (if vp_affinity p then replicate n False else []),
        vp_idle := vp_idle p @ (if vp_affinity p then [] else [i..<i + n])\<rparr>, True)"
proof (induction n arbitrary: i p)
  case (Suc n)
  have "[i..<i + Suc n] = i # [i + 1..<i + 1 + n]" by (simp add: upt_conv_Cons)
  then show ?case using Suc by (auto simp: add_worker_def Let_def)
qed simp

lemma start_eq:
  "pool_start sz queueMax aff = (create_pool sz queueMax aff)
     \<lparr>vp_workers := [0..<sz], vp_queues := (if aff then replicate sz [] else []),
      vp_busy := (if aff then replicate sz False else []), vp_idle := (if aff then [] else [0..<sz])\<rparr>"
  by (simp add: pool_start_def init_def init_from_all) (simp add: create_pool_def)

lemma start_config:
  "vp_size (pool_start sz queueMax aff) = sz" "vp_affinity (pool_start sz queueMax aff) = aff"
  "vp_queueMax (pool_start sz queueMax aff) = queueMax"
  "vp_perQueueMax (pool_start sz queueMax aff) = max 1 ((queueMax + (max 1 sz - 1)) div max 1 sz)"
  by (simp_all add: start_eq create_pool_def)

lemma start_kept: "well_shaped (pool_start sz queueMax aff)" "ledger (pool_start sz queueMax aff) = {#}"
  by (auto simp: start_eq create_pool_def well_shaped_def ledger_def owed_def waiting_def)

lemma config_kept:
  "vp_size (pool_step p ev) = vp_size p \<and> vp_affinity (pool_step p ev) = vp_affinity p \<and>
   vp_queueMax (pool_step p ev) = vp_queueMax p \<and> vp_perQueueMax (pool_step p ev) = vp_perQueueMax p"
  by (cases ev)
    (auto simp: vp_run_def on_message_def on_error_def shutdown_def vp_release_def reject_def Let_def
      split: option.splits worker_msg.splits list.splits)

lemma config_steps:
  "vp_size (foldl pool_step p evs) = vp_size p \<and> vp_affinity (foldl pool_step p evs) = vp_affinity p \<and>
   vp_queueMax (foldl pool_step p evs) = vp_queueMax p \<and> vp_perQueueMax (foldl pool_step p evs) = vp_perQueueMax p"
  by (induction evs arbitrary: p) (simp_all add: config_kept)

lemma sum_lengths: "\<forall>q \<in> set qs. length q \<le> n \<Longrightarrow> sum_list (map length qs) \<le> length qs * n"
  by (induction qs) (auto intro: add_mono)

text \<open>C20: No promise is lost or settled twice: after any sequence of submissions, replies, worker failures
  and shutdowns, every call of \<open>run\<close> is accounted for exactly once, as settled, as posted to a
  worker, or as waiting, and the number of waiting jobs is within the configured bound.\<close>

theorem pool_conserves_promises:
  "let p = foldl pool_step (pool_start sz queueMax aff) evs in
    image_mset fst (mset (vp_settled p)) + owed p = started evs \<and>
    queue_depth p \<le> (if aff then sz * max 1 ((queueMax + (max 1 sz - 1)) div max 1 sz) else queueMax)"
proof -
  define p where "p = foldl pool_step (pool_start sz queueMax aff) evs"
  have k: "well_shaped p" "ledger p = started evs"
    using steps_kept [OF start_kept(1), of sz queueMax aff evs] by (simp_all add: p_def start_kept(2))
  have c: "vp_size p = sz" "vp_affinity p = aff" "vp_queueMax p = queueMax"
    "vp_perQueueMax p = max 1 ((queueMax + (max 1 sz - 1)) div max 1 sz)"
    by (simp_all only: p_def config_steps start_config)
  have depth: "queue_depth p \<le> sz * vp_perQueueMax p" if aff
  proof -
    have "length (vp_queues p) \<le> sz" "\<forall>q \<in> set (vp_queues p). length q \<le> vp_perQueueMax p"
      using k(1) c that by (simp_all add: well_shaped_def)
    then show ?thesis
      using sum_lengths [of "vp_queues p" "vp_perQueueMax p"] that c
      by (auto simp: queue_depth_def intro: order_trans mult_le_mono1)
  qed
  have "queue_depth p \<le> queueMax" if "\<not> aff" using k(1) c that by (simp add: queue_depth_def well_shaped_def)
  then have "queue_depth p \<le> (if aff then sz * max 1 ((queueMax + (max 1 sz - 1)) div max 1 sz) else queueMax)"
    using depth c(4) by (simp only: split: if_split) blast
  then show ?thesis using k(2) unfolding p_def [symmetric] Let_def ledger_def by (intro conjI) simp_all
qed

subsection \<open>Every job is answered\<close>

text \<open>Service without failures: submissions, and replies of workers to jobs they hold, in any order. The
  number in \<open>Serve\<close> picks one of the posted jobs.\<close>

datatype ('m, 'r) service = Submit "'m job" | Serve nat 'r

fun serve_step :: "('m, 'r) pool \<Rightarrow> ('m, 'r) service \<Rightarrow> ('m, 'r) pool" where
  "serve_step p (Submit j) = pool_step p (EvRun j)"
| "serve_step p (Serve i r) =
     (if vp_pending p = [] then p
      else case vp_pending p ! (i mod length (vp_pending p)) of
        (jobId, _, w) \<Rightarrow> pool_step p (EvMessage w (Reply jobId r)))"

definition in_work :: "('m, 'r) pool \<Rightarrow> nat multiset" where
  "in_work p = image_mset (\<lambda>(_, _, w). w) (mset (vp_pending p))"

definition serving :: "('m, 'r) pool \<Rightarrow> bool" where
  "serving p \<longleftrightarrow> well_shaped p \<and> vp_workers p = [0..<vp_size p] \<and> 0 < vp_size p \<and>
     (if vp_affinity p then
        (\<forall>i. count (in_work p) i = (if i < vp_size p \<and> vp_busy p ! i then 1 else 0)) \<and>
        (\<forall>i < vp_size p. \<not> vp_busy p ! i \<longrightarrow> vp_queues p ! i = [])
      else
        (\<forall>i. count (mset (vp_idle p) + in_work p) i = (if i < vp_size p then 1 else 0)) \<and>
        (vp_queue p \<noteq> [] \<longrightarrow> vp_idle p = []))"

lemma serving_start: "0 < sz \<Longrightarrow> serving (pool_start sz queueMax aff)"
  using start_kept(1) [of sz queueMax aff]
  by (auto simp: serving_def start_eq create_pool_def in_work_def count_mset count_list_0_iff
      distinct_count_atmost_1 [THEN iffD1, rule_format])

lemma in_work_dispatch [simp]: "in_work (vp_dispatch w j p) = add_mset w (in_work p)"
  by (simp add: in_work_def)

lemma in_work_settle [simp]: "in_work (settle ids r p) = in_work p"
  by (simp add: in_work_def)

lemma worker_for_key_lt: "0 < vp_size p \<Longrightarrow> worker_for_key k p = Some i \<Longrightarrow> i < vp_size p \<and> vp_affinity p"
  by (auto simp: worker_for_key_def split: if_splits option.splits)

lemma serving_run:
  assumes "serving p"
  shows "serving (vp_run j p)"
proof (cases "worker_for_key (j_key j) p")
  case None
  then have na: "\<not> vp_affinity p" by (simp add: worker_for_key_def split: if_splits)
  have ws: "well_shaped (vp_run j p)" using assms run_kept by (auto simp: serving_def)
  show ?thesis
  proof (cases "vp_idle p" rule: rev_cases)
    case Nil
    then show ?thesis using ws assms na None by (auto simp: serving_def vp_run_def in_work_def settle_def)
  next
    case (snoc ws' w)
    then show ?thesis using ws assms na None
      by (auto simp: serving_def vp_run_def in_work_def ac_simps)
  qed
next
  case (Some i)
  then have i: "i < vp_size p" "vp_affinity p" using worker_for_key_lt assms by (auto simp: serving_def)
  have ws: "well_shaped (vp_run j p)" using assms run_kept by (auto simp: serving_def)
  have len: "length (vp_busy p) = vp_size p" "length (vp_queues p) = vp_size p"
    using assms i by (simp_all add: serving_def well_shaped_def)
  show ?thesis
  proof (cases "vp_busy p ! i")
    case True
    then show ?thesis using ws assms i Some len
      by (auto simp: serving_def vp_run_def in_work_def reject_def nth_list_update)
  next
    case False
    then show ?thesis using ws assms i Some len
      by (auto simp: serving_def vp_run_def in_work_def nth_list_update)
  qed
qed

text \<open>One reply: the job leaves the worker, its promise is settled, the next one in the queue is posted.\<close>

lemma serving_release:
  assumes "well_shaped (vp_release w p)" "vp_workers p = [0..<vp_size p]" "w < vp_size p"
    and "vp_affinity p \<Longrightarrow> length (vp_queues p) = vp_size p \<and> length (vp_busy p) = vp_size p \<and> vp_busy p ! w \<and>
      (\<forall>i. count (in_work p) i = (if i < vp_size p \<and> vp_busy p ! i \<and> i \<noteq> w then 1 else 0)) \<and>
      (\<forall>i < vp_size p. \<not> vp_busy p ! i \<longrightarrow> vp_queues p ! i = [])"
    and "\<not> vp_affinity p \<Longrightarrow>
      (\<forall>i. count (mset (vp_idle p) + in_work p) i = (if i < vp_size p \<and> i \<noteq> w then 1 else 0)) \<and>
      (vp_queue p \<noteq> [] \<longrightarrow> vp_idle p = [])"
  shows "serving (vp_release w p)"
proof (cases "vp_affinity p")
  case True
  note aff = assms(4) [OF True]
  show ?thesis
  proof (cases "vp_queues p ! w")
    case Nil
    have "count (in_work (vp_release w p)) i = (if i < vp_size p \<and> (vp_busy p)[w := False] ! i then 1 else 0)" for i
      using aff Nil True assms(3) by (auto simp: vp_release_def in_work_def nth_list_update)
    then show ?thesis using assms(1-3) aff Nil True by (auto simp: serving_def vp_release_def nth_list_update)
  next
    case (Cons j q)
    have "count (in_work (vp_release w p)) i = (if i < vp_size p \<and> vp_busy p ! i then 1 else 0)" for i
      using aff Cons True assms(3) by (auto simp: vp_release_def in_work_def)
    then show ?thesis using assms(1-3) aff Cons True by (auto simp: serving_def vp_release_def nth_list_update)
  qed
next
  case False
  note rr = assms(5) [OF False]
  show ?thesis
  proof (cases "vp_queue p")
    case Nil
    then show ?thesis using assms(1-3) rr False by (auto simp: serving_def vp_release_def in_work_def)
  next
    case (Cons j q)
    then show ?thesis using assms(1-3) rr False by (auto simp: serving_def vp_release_def in_work_def)
  qed
qed

lemma serve_reply:
  assumes "serving p" "vp_pending p \<noteq> []"
  obtains q j a where "serve_step p (Serve i r) = q" "serving q" "vp_settled q = vp_settled p @ [(j, Answer a)]"
    "ledger q = ledger p"
proof -
  obtain k j w where e: "vp_pending p ! (i mod length (vp_pending p)) = (k, j, w)" by (metis prod_cases3)
  then have mem: "(k, j, w) \<in> set (vp_pending p)" using assms(2) by (metis length_greater_0_conv mod_less_divisor nth_mem)
  have ws: "well_shaped p" and d: "distinct (map fst (vp_pending p))" using assms(1) by (simp_all add: serving_def well_shaped_def)
  have look: "map_of (vp_pending p) k = Some (j, w)" using d mem by simp
  let ?p = "settle [j] (Answer r) (p\<lparr>vp_pending := filter (\<lambda>(l, _). l \<noteq> k) (vp_pending p)\<rparr>)"
  have work: "in_work p = add_mset w (in_work ?p)"
    unfolding in_work_def by (subst mset_take_key [OF d look]) simp
  then have "count (in_work p) w \<noteq> 0" by simp
  moreover have "count (in_work p) w \<le> count (mset (vp_idle p) + in_work p) w" by simp
  ultimately have w: "w < vp_size p" using assms(1) by (auto simp: serving_def split: if_splits)
  have step: "serve_step p (Serve i r) = vp_release w ?p"
    using assms e look w by (simp add: serving_def on_message_def)
  have lw: "w < length (vp_workers p)" using assms(1) w by (simp add: serving_def)
  from message_kept [OF ws lw, of "Reply k r"] have kept: "well_shaped (vp_release w ?p)" "ledger (vp_release w ?p) = ledger p"
    by (simp_all add: on_message_def look)
  have "serving (vp_release w ?p)"
  proof (rule serving_release [OF kept(1)])
    show "vp_workers ?p = [0..<vp_size ?p]" "w < vp_size ?p" using assms(1) w by (simp_all add: serving_def)
    have c: "count (in_work ?p) n = count (in_work p) n - (if n = w then 1 else 0)" for n by (simp add: work)
    show "length (vp_queues ?p) = vp_size ?p \<and> length (vp_busy ?p) = vp_size ?p \<and> vp_busy ?p ! w \<and>
      (\<forall>i. count (in_work ?p) i = (if i < vp_size ?p \<and> vp_busy ?p ! i \<and> i \<noteq> w then 1 else 0)) \<and>
      (\<forall>i < vp_size ?p. \<not> vp_busy ?p ! i \<longrightarrow> vp_queues ?p ! i = [])" if "vp_affinity ?p"
    proof -
      have aff: "vp_affinity p" using that by simp
      have cnt: "count (in_work p) n = (if n < vp_size p \<and> vp_busy p ! n then 1 else 0)" for n
        using assms(1) aff by (simp add: serving_def)
      have len: "length (vp_queues p) = vp_size p \<and> length (vp_busy p) = vp_size p"
        using ws assms(1) aff by (simp add: serving_def well_shaped_def)
      have "\<forall>i < vp_size p. \<not> vp_busy p ! i \<longrightarrow> vp_queues p ! i = []" using assms(1) aff by (simp add: serving_def)
      moreover have "vp_busy p ! w" using cnt [of w] \<open>count (in_work p) w \<noteq> 0\<close> by (simp split: if_splits)
      moreover have "count (in_work ?p) n = (if n < vp_size p \<and> vp_busy p ! n \<and> n \<noteq> w then 1 else 0)" for n
        unfolding c cnt by simp
      ultimately show ?thesis using len by simp
    qed
    show "(\<forall>i. count (mset (vp_idle ?p) + in_work ?p) i = (if i < vp_size ?p \<and> i \<noteq> w then 1 else 0)) \<and>
      (vp_queue ?p \<noteq> [] \<longrightarrow> vp_idle ?p = [])" if "\<not> vp_affinity ?p"
    proof -
      have *: "count (mset (vp_idle p)) n + count (in_work p) n = (if n < vp_size p then 1 else 0)" for n
        using assms(1) that by (simp add: serving_def)
      have "count (mset (vp_idle p)) n + (count (in_work p) n - (if n = w then 1 else 0)) =
          (if n < vp_size p \<and> n \<noteq> w then 1 else 0)" for n
        using * [of n] \<open>count (in_work p) w \<noteq> 0\<close> by (auto split: if_splits)
      then show ?thesis using assms(1) that c by (simp add: serving_def)
    qed
  qed
  moreover have "vp_settled (vp_release w ?p) = vp_settled p @ [(j, Answer r)]"
    by (simp add: vp_release_def split: list.split)
  ultimately show thesis using that step kept(2) by blast
qed

lemma serving_busy: "serving p \<Longrightarrow> owed p \<noteq> {#} \<Longrightarrow> vp_pending p \<noteq> []"
proof
  assume s: "serving p" and o: "owed p \<noteq> {#}" and e: "vp_pending p = []"
  then have "waiting p \<noteq> []" and work: "in_work p = {#}" by (auto simp: owed_def in_work_def)
  show False
  proof (cases "vp_affinity p")
    case True
    then obtain i where "i < vp_size p" "vp_queues p ! i \<noteq> []"
      using \<open>waiting p \<noteq> []\<close> s by (auto simp: waiting_def serving_def well_shaped_def in_set_conv_nth)
    moreover from this have "vp_busy p ! i" using s True by (auto simp: serving_def)
    moreover have "count (in_work p) i = (if i < vp_size p \<and> vp_busy p ! i then 1 else 0)"
      using s True by (simp add: serving_def)
    ultimately show False using work by simp
  next
    case False
    then have "vp_idle p = []" using \<open>waiting p \<noteq> []\<close> s by (simp add: waiting_def serving_def)
    then show False using s False work by (auto simp: serving_def dest!: spec [of _ 0])
  qed
qed

lemma ledger_size: "size (ledger p) = length (vp_settled p) + size (owed p)"
  by (simp add: ledger_def)

lemma serving_steps: "serving p \<Longrightarrow> serving (foldl serve_step p svcs)"
proof (induction svcs arbitrary: p)
  case (Cons svc svcs)
  have "serving (serve_step p svc)"
  proof (cases svc)
    case (Serve i r)
    show ?thesis
    proof (cases "vp_pending p = []")
      case False
      from serve_reply [OF Cons.prems False, of i r] show ?thesis by (metis Serve)
    qed (use Cons.prems Serve in simp)
  qed (use Cons.prems serving_run in simp)
  with Cons show ?case by simp
qed simp

lemma replies_drain:
  "serving p \<Longrightarrow> length replies = size (owed p) \<Longrightarrow>
   \<exists>as. vp_settled (foldl serve_step p (map (\<lambda>(i, r). Serve i r) replies)) = vp_settled p @ as \<and>
     (\<forall>(j, x) \<in> set as. \<exists>r. x = Answer r) \<and>
     owed (foldl serve_step p (map (\<lambda>(i, r). Serve i r) replies)) = {#}"
proof (induction replies arbitrary: p)
  case (Cons ir replies)
  obtain i r where ir: "ir = (i, r)" by force
  have ne: "owed p \<noteq> {#}" using Cons.prems(2) by (metis length_Cons nat.distinct(1) size_empty)
  obtain q j a where q: "serve_step p (Serve i r) = q" "serving q" "vp_settled q = vp_settled p @ [(j, Answer a)]"
    "ledger q = ledger p" using serve_reply [OF Cons.prems(1) serving_busy [OF Cons.prems(1) ne]] by blast
  have "length replies = size (owed q)" using q(3,4) Cons.prems(2) ledger_size [of q] ledger_size [of p] by simp
  from Cons.IH [OF q(2) this] show ?case using q(1,3) ir by fastforce
qed (use serving_busy in auto)

text \<open>C21: Without worker failures every job is answered: from any state the service reaches, a job that
  is still owed is posted to some worker, and as many replies as jobs are owed, each by a worker to any
  job it holds, answer them all and settle no promise otherwise.\<close>

theorem pool_drains:
  assumes "0 < sz" "p = foldl serve_step (pool_start sz queueMax aff) svcs" "length replies = size (owed p)"
  shows "(owed p \<noteq> {#} \<longrightarrow> vp_pending p \<noteq> []) \<and>
    (\<exists>as. vp_settled (foldl serve_step p (map (\<lambda>(i, r). Serve i r) replies)) = vp_settled p @ as \<and>
       (\<forall>(j, x) \<in> set as. \<exists>r. x = Answer r)) \<and>
    owed (foldl serve_step p (map (\<lambda>(i, r). Serve i r) replies)) = {#}"
proof -
  have "serving p" using assms(1,2) serving_start serving_steps by blast
  then show ?thesis using serving_busy replies_drain [OF _ assms(3)] by blast
qed

lemma pool_drains_witness:
  "owed (foldl serve_step (foldl serve_step (pool_start 1 5 False)
      [Submit \<lparr>j_id = 7, j_key = None, j_msg = ()\<rparr>, Submit \<lparr>j_id = 8, j_key = None, j_msg = ()\<rparr>])
      (map (\<lambda>(i, r). Serve i r) [(3, True), (4, False)])) = {#}"
proof -
  define p :: "(unit, bool) pool" where "p = foldl serve_step (pool_start 1 5 False)
      [Submit \<lparr>j_id = 7, j_key = None, j_msg = ()\<rparr>, Submit \<lparr>j_id = 8, j_key = None, j_msg = ()\<rparr>]"
  have "size (owed p) = 2"
    by (simp add: p_def start_eq create_pool_def vp_run_def worker_for_key_def owed_def waiting_def vp_dispatch_def)
  from pool_drains [of 1, OF _ p_def, of "[(3, True), (4, False)]"] this show ?thesis by (simp add: p_def)
qed

subsection \<open>Affinity: one queue per worker\<close>

text \<open>The contract of a worker with its own queue: what it holds and what waits for it, as promises.\<close>

definition fifo_submit :: "nat \<Rightarrow> nat \<Rightarrow> nat list \<times> nat list \<Rightarrow> nat list \<times> nat list" where
  "fifo_submit cap j = (\<lambda>(held, wait). if held = [] then ([j], wait)
     else if cap \<le> length wait then (held, wait) else (held, wait @ [j]))"

definition fifo_reply :: "nat list \<times> nat list \<Rightarrow> nat list \<times> nat list" where
  "fifo_reply = (\<lambda>(held, wait). (take 1 wait, drop 1 wait))"

definition held :: "('m, 'r) pool \<Rightarrow> nat \<Rightarrow> nat list" where
  "held p i = map (\<lambda>(_, j, _). j) (filter (\<lambda>(_, _, w). w = i) (vp_pending p))"

definition lane :: "('m, 'r) pool \<Rightarrow> nat \<Rightarrow> nat list \<times> nat list" where
  "lane p i = (held p i, map j_id (vp_queues p ! i))"

lemma held_count: "length (held p i) = count (in_work p) i"
proof -
  have "length (filter (\<lambda>(_, _, w). w = i) xs) = count (image_mset (\<lambda>(_, _, w). w) (mset xs)) i" for xs :: "(nat \<times> nat \<times> nat) list"
    by (induction xs) auto
  then show ?thesis by (simp add: held_def in_work_def)
qed

lemma held_dispatch [simp]: "held (vp_dispatch w j p) i = held p i @ (if w = i then [j_id j] else [])"
  by (simp add: held_def)

lemma lane_run:
  assumes "serving p" "worker_for_key (j_key j) p = Some w" "i < vp_size p"
  shows "lane (vp_run j p) i = (if i = w then fifo_submit (vp_perQueueMax p) (j_id j) (lane p i) else lane p i)"
proof -
  have w: "w < vp_size p" "vp_affinity p" using worker_for_key_lt [OF _ assms(2)] assms(3) by simp_all
  have sh: "vp_workers p = [0..<vp_size p]" "length (vp_queues p) = vp_size p" "length (vp_busy p) = vp_size p"
    using assms(1) w by (simp_all add: serving_def well_shaped_def)
  have cnt: "count (in_work p) n = (if n < vp_size p \<and> vp_busy p ! n then 1 else 0)" for n
    using assms(1) w by (simp add: serving_def)
  have free: "held p w = [] \<longleftrightarrow> \<not> vp_busy p ! w"
    using held_count [of p w] cnt [of w] w by (auto split: if_splits)
  have held: "held (p\<lparr>vp_busy := b\<rparr>) n = held p n" "held (p\<lparr>vp_queues := qs\<rparr>) n = held p n"
    "held (reject w j x p) n = held p n" for b qs n x by (simp_all add: held_def reject_def)
  show ?thesis
  proof (cases "vp_busy p ! w")
    case False
    then show ?thesis using assms(2,3) w sh free by (auto simp: vp_run_def lane_def held fifo_submit_def)
  next
    case True
    then show ?thesis using assms(2,3) w sh free
      by (auto simp: vp_run_def lane_def held fifo_submit_def nth_list_update) (simp_all add: reject_def)
  qed
qed

lemma held_drop:
  assumes "count (in_work p) w \<le> 1" "(k, j, w) \<in> set (vp_pending p)" "distinct (map fst (vp_pending p))"
  shows "held (p\<lparr>vp_pending := filter (\<lambda>(l, _). l \<noteq> k) (vp_pending p)\<rparr>) i = (if i = w then [] else held p i)"
proof (cases "i = w")
  case True
  let ?p = "p\<lparr>vp_pending := filter (\<lambda>(l, _). l \<noteq> k) (vp_pending p)\<rparr>"
  have look: "map_of (vp_pending p) k = Some (j, w)" using assms(2,3) by simp
  have "in_work p = add_mset w (in_work ?p)" unfolding in_work_def by (subst mset_take_key [OF assms(3) look]) simp
  then have "count (in_work ?p) w = 0" using assms(1) by simp
  then show ?thesis using True held_count [of ?p w] by simp
next
  case False
  have "l = k \<Longrightarrow> (l, j', w') \<in> set (vp_pending p) \<Longrightarrow> w' = w" for l j' w'
    using assms(2,3) by (metis Pair_inject map_of_is_SomeI option.inject)
  then have "filter (\<lambda>(_, _, w). w = i) (filter (\<lambda>(l, _). l \<noteq> k) (vp_pending p)) = filter (\<lambda>(_, _, w). w = i) (vp_pending p)"
    using False by (auto simp: filter_filter intro!: filter_cong)
  then show ?thesis using False by (simp add: held_def)
qed

lemma lane_reply:
  assumes "serving p" "vp_affinity p" "vp_pending p ! (n mod length (vp_pending p)) = (k, j, w)" "vp_pending p \<noteq> []" "i < vp_size p"
  shows "lane (serve_step p (Serve n r)) i = (if i = w then fifo_reply (lane p i) else lane p i)"
proof -
  have mem: "(k, j, w) \<in> set (vp_pending p)" using assms(3,4) by (metis length_greater_0_conv mod_less_divisor nth_mem)
  have d: "distinct (map fst (vp_pending p))" and sh: "vp_workers p = [0..<vp_size p]" "length (vp_queues p) = vp_size p"
    using assms(1,2) by (simp_all add: serving_def well_shaped_def)
  have cnt: "count (in_work p) n = (if n < vp_size p \<and> vp_busy p ! n then 1 else 0)" for n
    using assms(1,2) by (simp add: serving_def)
  have "w \<in># in_work p" using mem by (force simp: in_work_def)
  then have "0 < count (in_work p) w" by simp
  then have w: "w < vp_size p" unfolding cnt by (simp split: if_splits)
  let ?p = "settle [j] (Answer r) (p\<lparr>vp_pending := filter (\<lambda>(l, _). l \<noteq> k) (vp_pending p)\<rparr>)"
  have step: "serve_step p (Serve n r) = vp_release w ?p" using assms(3,4) mem d w sh by (simp add: on_message_def)
  have h: "held ?p i = (if i = w then [] else held p i)"
    using held_drop [OF _ mem d, of i] cnt [of w] by (simp add: held_def)
  have held: "held (q\<lparr>vp_busy := b\<rparr>) m = held q m" "held (q\<lparr>vp_queues := qs\<rparr>) m = held q m" for q :: "('a, 'b) pool" and b qs m
    by (simp_all add: held_def)
  show ?thesis
  proof (cases "vp_queues p ! w")
    case Nil
    then show ?thesis using assms(2,5) step h by (auto simp: vp_release_def lane_def held fifo_reply_def)
  next
    case (Cons x q)
    then show ?thesis using assms(2,5) step h w sh by (auto simp: vp_release_def lane_def held fifo_reply_def nth_list_update)
  qed
qed

text \<open>C22: With affinity the pool is one bounded FIFO queue per worker: a submission and a reply act on the
  queue of one worker as the queue's contract says and leave every other worker alone, so a hot key
  never delays or evicts the jobs of a key that hashes to another worker.\<close>

theorem affinity_refines_queues:
  assumes "0 < sz" "p = foldl serve_step (pool_start sz queueMax True) svcs" "i < sz"
  shows "(\<exists>w < sz. worker_for_key (j_key j) p = Some w \<and>
      lane (serve_step p (Submit j)) i = (if i = w then fifo_submit (vp_perQueueMax p) (j_id j) (lane p i) else lane p i)) \<and>
    (vp_pending p \<noteq> [] \<longrightarrow>
      (case vp_pending p ! (n mod length (vp_pending p)) of (_, _, w) \<Rightarrow>
        lane (serve_step p (Serve n r)) i = (if i = w then fifo_reply (lane p i) else lane p i)))"
proof -
  have s: "serving p" using assms(1,2) serving_start serving_steps by blast
  have "vp_size (serve_step q x) = vp_size q \<and> vp_affinity (serve_step q x) = vp_affinity q" for q :: "('a, 'b) pool" and x
    by (cases x) (simp_all add: config_kept split: prod.splits del: pool_step.simps)
  then have "vp_size (foldl serve_step q xs) = vp_size q \<and> vp_affinity (foldl serve_step q xs) = vp_affinity q"
    for q :: "('a, 'b) pool" and xs by (induction xs arbitrary: q) auto
  then have c: "vp_size p = sz" "vp_affinity p" unfolding assms(2) by (simp_all add: start_config)
  then obtain w where w: "worker_for_key (j_key j) p = Some w" by (simp add: worker_for_key_def)
  with worker_for_key_lt assms(1) c have "w < sz" by blast
  moreover have "lane (serve_step p (Submit j)) i =
      (if i = w then fifo_submit (vp_perQueueMax p) (j_id j) (lane p i) else lane p i)"
    using lane_run [OF s w] assms(3) c by simp
  ultimately show ?thesis using lane_reply [OF s c(2)] w assms(3) c by (auto split: prod.splits)
qed

lemma affinity_refines_queues_witness:
  "lane (serve_step (pool_start 2 4 True :: (unit, bool) pool) (Submit \<lparr>j_id = 7, j_key = None, j_msg = ()\<rparr>)) 1 = ([], [])"
proof -
  let ?j = "\<lparr>j_id = 7, j_key = None, j_msg = ()\<rparr>" and ?p = "pool_start 2 4 True :: (unit, bool) pool"
  have "worker_for_key (j_key ?j) ?p = Some 0" "lane ?p 1 = ([], [])"
    by (simp_all add: worker_for_key_def start_eq create_pool_def lane_def held_def)
  then show ?thesis using affinity_refines_queues [of 2 ?p 4 "[]" 1 ?j 0 True] by auto
qed

subsection \<open>What worker failures leave behind\<close>

text \<open>In round robin nothing puts a worker back that failed while it was busy, and after a shutdown none
  is left: such a pool takes jobs but answers none.\<close>

lemma stranded_step:
  assumes "\<not> vp_affinity p" "vp_pending p = []" "vp_idle p = []" "ev \<noteq> EvShutdown"
  shows "\<exists>q' as. pool_step p ev = q' \<and> \<not> vp_affinity q' \<and> vp_pending q' = [] \<and> vp_idle q' = [] \<and>
    vp_settled q' = vp_settled p @ as \<and> snd ` set as \<subseteq> {PoolOverloaded None} \<and> take (length (vp_queue p)) (vp_queue q') = vp_queue p \<and>
    length (vp_queue p) \<le> length (vp_queue q')"
proof (cases ev)
  case (EvRun j)
  then show ?thesis using assms by (auto simp: vp_run_def worker_for_key_def)
next
  case (EvMessage w m)
  then show ?thesis using assms by (cases m) (auto simp: on_message_def)
next
  case (EvError w)
  then show ?thesis using assms by (auto simp: on_error_def Let_def)
qed (use assms in simp)

lemma stranded_steps:
  assumes "\<not> vp_affinity p" "vp_pending p = []" "vp_idle p = []" "EvShutdown \<notin> set evs"
  shows "\<exists>as. vp_settled (foldl pool_step p evs) = vp_settled p @ as \<and> snd ` set as \<subseteq> {PoolOverloaded None} \<and>
    take (length (vp_queue p)) (vp_queue (foldl pool_step p evs)) = vp_queue p \<and>
    length (vp_queue p) \<le> length (vp_queue (foldl pool_step p evs))"
  using assms
proof (induction evs arbitrary: p)
  case (Cons ev evs)
  then have "ev \<noteq> EvShutdown" by auto
  from stranded_step [OF Cons.prems(1-3) this] obtain q as where q: "pool_step p ev = q" "\<not> vp_affinity q"
    "vp_pending q = []" "vp_idle q = []" "vp_settled q = vp_settled p @ as" "snd ` set as \<subseteq> {PoolOverloaded None}"
    "take (length (vp_queue p)) (vp_queue q) = vp_queue p" "length (vp_queue p) \<le> length (vp_queue q)" by blast
  obtain bs where b: "vp_settled (foldl pool_step q evs) = vp_settled q @ bs" "snd ` set bs \<subseteq> {PoolOverloaded None}"
    "take (length (vp_queue q)) (vp_queue (foldl pool_step q evs)) = vp_queue q"
    "length (vp_queue q) \<le> length (vp_queue (foldl pool_step q evs))"
    using Cons.IH [OF q(2-4)] Cons.prems(4) by auto
  have "take (length (vp_queue p)) (vp_queue (foldl pool_step q evs)) = vp_queue p"
    using b(3) q(7,8) by (metis min.absorb1 take_take)
  then show ?case using q b by (auto intro!: exI [of _ "as @ bs"])
qed simp

text \<open>A round-robin pool whose last worker failed, or that was shut down, answers nothing more: whatever
  is submitted afterwards is refused when the queue is full and otherwise waits for ever, until
  a shutdown settles it.\<close>

theorem dead_pool_answers_nothing:
  assumes "\<not> vp_affinity p" "vp_pending p = []" "vp_idle p = []" "EvShutdown \<notin> set evs"
  shows "(\<exists>as. vp_settled (foldl pool_step p evs) = vp_settled p @ as \<and> snd ` set as \<subseteq> {PoolOverloaded None}) \<and>
    take (length (vp_queue p)) (vp_queue (foldl pool_step p evs)) = vp_queue p"
  using stranded_steps [OF assms] by blast

lemma dead_pool_answers_nothing_witness:
  "let p = foldl pool_step (pool_start 1 2 False :: (unit, bool) pool)
       [EvRun \<lparr>j_id = 7, j_key = None, j_msg = ()\<rparr>, EvError 0, EvRun \<lparr>j_id = 8, j_key = None, j_msg = ()\<rparr>] in
     map j_id (vp_queue (foldl pool_step p [EvMessage 0 (Reply 1 True), EvError 0])) = [8]"
proof -
  define p where "p = foldl pool_step (pool_start 1 2 False :: (unit, bool) pool)
       [EvRun \<lparr>j_id = 7, j_key = None, j_msg = ()\<rparr>, EvError 0, EvRun \<lparr>j_id = 8, j_key = None, j_msg = ()\<rparr>]"
  have p: "\<not> vp_affinity p" "vp_pending p = []" "vp_idle p = []" "map j_id (vp_queue p) = [8]"
    by (simp_all add: p_def start_eq create_pool_def vp_run_def worker_for_key_def vp_dispatch_def on_error_def settle_def Let_def)
  then have len: "length (vp_queue p) = 1" by (metis length_map length_Cons list.size(3) One_nat_def)
  have "vp_queue (foldl pool_step p [EvMessage 0 (Reply 1 True), EvError 0]) = vp_queue p"
    using p by (simp add: on_message_def on_error_def settle_def Let_def)
  then show ?thesis
    using dead_pool_answers_nothing [OF p(1-3), of "[EvMessage 0 (Reply 1 True), EvError 0]"] p(4) len
    by (simp add: p_def Let_def)
qed

end
