(* ===== verification/Shutdown.thy ===== *)
theory Shutdown
  imports Ledger Js_Value
begin

section \<open>Graceful shutdown\<close>

text \<open>
  \<open>createShutdown\<close> of \<open>qv-server/shutdown.mjs\<close> with the request counter the server keeps around it
  (\<open>server-sovereign.mjs\<close>, lines 1169 to 1175). The asynchronous function is a machine that stops at
  its awaits: the poll of the drain loop, the race between the closed server and the deadline, each
  teardown callback. Time is one clock in milliseconds; a \<open>Tick\<close> moves it and runs what is due. The
  time limit is any number, as the server takes it unchecked from its environment; deadlines are exact,
  where the code adds doubles. \<open>process.exit\<close> ends the process, and so does Node when nothing keeps
  its event loop alive, so nothing happens after \<open>Exited\<close> and \<open>Ended\<close>. The argument \<open>log\<close> does not
  throw.
\<close>

subsection \<open>Numbers and timers of the language\<close>

datatype js_millis = Millis rat | PlusInfinity | MinusInfinity | NotANumber

fun plus_ms :: "js_millis \<Rightarrow> rat \<Rightarrow> js_millis" where
  "plus_ms (Millis r) x = Millis (r + x)"
| "plus_ms n x = n"

fun max_zero :: "js_millis \<Rightarrow> js_millis" where
  "max_zero (Millis r) = Millis (max 0 r)"
| "max_zero MinusInfinity = Millis 0"
| "max_zero n = n"

text \<open>\<open>now < n\<close> for an instant; false for \<open>NaN\<close>.\<close>

definition before_ms :: "int \<Rightarrow> js_millis \<Rightarrow> bool" where
  "before_ms now n = (case n of Millis r \<Rightarrow> of_int now < r | PlusInfinity \<Rightarrow> True | _ \<Rightarrow> False)"

text \<open>\<open>setTimeout\<close> waits one millisecond for any delay that is not between 1 and 2147483647, and cuts
  off fractions.\<close>

definition timer_ms :: "js_millis \<Rightarrow> int" where
  "timer_ms n = (case n of Millis r \<Rightarrow> if 1 \<le> r \<and> r \<le> 2147483647 then \<lfloor>r\<rfloor> else 1 | _ \<Rightarrow> 1)"

lemma timer_ms_pos: "1 \<le> timer_ms n"
  by (auto simp: timer_ms_def le_floor_iff split: js_millis.split)

subsection \<open>The machine\<close>

datatype phase =
    Serving
  | Polling int               \<comment> \<open>in \<open>waitForDrain\<close>, next look at this time\<close>
  | Closing int               \<comment> \<open>in \<open>Promise.race\<close>, the timer fires at this time\<close>
  | Tearing nat               \<comment> \<open>awaiting the teardown callback of this index\<close>
  | Exited int                \<comment> \<open>\<open>exit\<close> was called with this status\<close>
  | Ended                     \<comment> \<open>the event loop ran empty\<close>

record ctl =
  phase :: phase
  draining :: bool
  in_flight :: nat
  open_requests :: "nat list"    \<comment> \<open>requests whose \<open>done\<close> is false\<close>
  server_closed :: bool                 \<comment> \<open>the callback of \<open>server.close\<close> ran\<close>
  clock :: int
  deadline :: js_millis
  hard :: "int option"           \<comment> \<open>when the forced exit is due\<close>
  torn :: "nat list"             \<comment> \<open>teardown callbacks called, in order\<close>

record sd_config =
  callbacks :: nat
  timeoutMs :: js_millis

definition create_shutdown :: "int \<Rightarrow> ctl" where
  "create_shutdown now =
     \<lparr>phase = Serving, draining = False, in_flight = 0, open_requests = [], server_closed = False, clock = now,
      deadline = Millis 0, hard = None, torn = []\<rparr>"

definition begin_request :: "nat \<Rightarrow> ctl \<Rightarrow> ctl" where
  "begin_request i s = s\<lparr>in_flight := in_flight s + 1, open_requests := open_requests s @ [i]\<rparr>"

text \<open>\<open>endRequest\<close>: decrement, not below 0. A natural number subtraction does both.\<close>

definition end_request :: "ctl \<Rightarrow> ctl" where
  "end_request s = s\<lparr>in_flight := in_flight s - 1\<rparr>"

text \<open>The listener of \<open>finish\<close> and of \<open>close\<close>: the first of the two counts.\<close>

definition finish_event :: "nat \<Rightarrow> ctl \<Rightarrow> ctl" where
  "finish_event i s =
     (if i \<in> set (open_requests s) then end_request (s\<lparr>open_requests := filter (\<lambda>j. j \<noteq> i) (open_requests s)\<rparr>) else s)"

text \<open>Callback \<open>i\<close> is called when it is reached; after the last the process exits with 0.\<close>

definition call_teardown :: "sd_config \<Rightarrow> nat \<Rightarrow> ctl \<Rightarrow> ctl" where
  "call_teardown c i s =
     (if i < callbacks c then s\<lparr>phase := Tearing i, torn := torn s @ [i]\<rparr> else s\<lparr>phase := Exited 0\<rparr>)"

text \<open>The timer of the race is set to \<open>Math.max(0, deadline - Date.now())\<close>.\<close>

definition race :: "sd_config \<Rightarrow> ctl \<Rightarrow> ctl" where
  "race c s =
     (if server_closed s then call_teardown c 0 s
      else s\<lparr>phase := Closing (clock s + timer_ms (max_zero (plus_ms (deadline s) (- of_int (clock s)))))\<rparr>)"

text \<open>One look of the drain loop: \<open>while (inFlight > 0 && Date.now() < deadline)\<close>.\<close>

definition poll :: "sd_config \<Rightarrow> ctl \<Rightarrow> ctl" where
  "poll c s =
     (if 0 < in_flight s \<and> before_ms (clock s) (deadline s) then s\<lparr>phase := Polling (clock s + 50)\<rparr> else race c s)"

definition hard_delay :: "sd_config \<Rightarrow> int" where
  "hard_delay c = timer_ms (plus_ms (timeoutMs c) 1000)"

definition sd_shutdown :: "sd_config \<Rightarrow> ctl \<Rightarrow> ctl" where
  "sd_shutdown c s =
     (if hard s \<noteq> None then s
      else poll c (s\<lparr>draining := True, deadline := plus_ms (timeoutMs c) (of_int (clock s)),
                    hard := Some (clock s + hard_delay c)\<rparr>))"

text \<open>A signal calls \<open>shutdown\<close>. A callback that throws or rejects is logged with the property
  \<open>message\<close> of what it threw, and the next one is called; reading that property of \<open>null\<close> or
  \<open>undefined\<close> throws, the promise of the shutdown is rejected, and the signal handler exits with 1.\<close>

datatype settled = Resolved | Rejected jsval

datatype sd_event =
  Request nat | Finish nat | Signal | ServerClosed | TeardownSettled settled | LoopEmpty | Tick nat

definition settle_teardown :: "sd_config \<Rightarrow> settled \<Rightarrow> ctl \<Rightarrow> ctl" where
  "settle_teardown c r s =
     (case phase s of
        Tearing i \<Rightarrow>
          (case r of
             Resolved \<Rightarrow> call_teardown c (i + 1) s
           | Rejected v \<Rightarrow> if nullish v then s\<lparr>phase := Exited 1\<rparr> else call_teardown c (i + 1) s)
      | _ \<Rightarrow> s)"

definition due :: "sd_config \<Rightarrow> ctl \<Rightarrow> ctl" where
  "due c s =
     (case phase s of
        Polling t \<Rightarrow> if t \<le> clock s then poll c s else s
      | Closing t \<Rightarrow> if t \<le> clock s then call_teardown c 0 s else s
      | _ \<Rightarrow> s)"

text \<open>Timers run in the order in which they expire.\<close>

definition hard_first :: "ctl \<Rightarrow> bool" where
  "hard_first s =
     (case (hard s, phase s) of
        (Some h, Polling t) \<Rightarrow> h < t | (Some h, Closing t) \<Rightarrow> h < t | _ \<Rightarrow> False)"

definition is_exited :: "ctl \<Rightarrow> bool" where
  "is_exited s = (case phase s of Exited _ \<Rightarrow> True | Ended \<Rightarrow> True | _ \<Rightarrow> False)"

definition force_exit :: "ctl \<Rightarrow> ctl" where
  "force_exit s =
     (if is_exited s then s
      else case hard s of Some t \<Rightarrow> if t \<le> clock s then s\<lparr>phase := Exited 1\<rparr> else s | None \<Rightarrow> s)"

text \<open>The forced exit is a timer that does not keep the event loop alive (\<open>unref\<close>): while a callback
  is awaited, nothing else may be left in the loop, and Node ends the process.\<close>

fun sd_event_step :: "sd_config \<Rightarrow> ctl \<Rightarrow> sd_event \<Rightarrow> ctl" where
  "sd_event_step c s (Request i) = begin_request i s"
| "sd_event_step c s (Finish i) = finish_event i s"
| "sd_event_step c s Signal = sd_shutdown c s"
| "sd_event_step c s ServerClosed =
     (let s = s\<lparr>server_closed := True\<rparr> in case phase s of Closing _ \<Rightarrow> call_teardown c 0 s | _ \<Rightarrow> s)"
| "sd_event_step c s (TeardownSettled r) = settle_teardown c r s"
| "sd_event_step c s LoopEmpty = (case phase s of Tearing _ \<Rightarrow> s\<lparr>phase := Ended\<rparr> | _ \<Rightarrow> s)"
| "sd_event_step c s (Tick d) =
     (let s = s\<lparr>clock := clock s + int d\<rparr> in force_exit (if hard_first s then s else due c s))"

definition sd_step :: "sd_config \<Rightarrow> ctl \<Rightarrow> sd_event \<Rightarrow> ctl" where
  "sd_step c s ev = (if is_exited s then s else sd_event_step c s ev)"

definition sd_run :: "sd_config \<Rightarrow> int \<Rightarrow> sd_event list \<Rightarrow> ctl" where
  "sd_run c now evs = foldl (sd_step c) (create_shutdown now) evs"

subsection \<open>The request counter\<close>

text \<open>A request is opened once: its number is not in use when it begins.\<close>

definition opened :: "sd_event list \<Rightarrow> nat list" where
  "opened evs = concat (map (\<lambda>ev. case ev of Request i \<Rightarrow> [i] | _ \<Rightarrow> []) evs)"

definition counted :: "ctl \<Rightarrow> bool" where
  "counted s \<longleftrightarrow> in_flight s = length (open_requests s) \<and> distinct (open_requests s)"

named_theorems sd_simps \<open>the parts of the shutdown machine\<close>

lemmas [sd_simps] = call_teardown_def race_def poll_def sd_shutdown_def due_def force_exit_def begin_request_def
  end_request_def finish_event_def is_exited_def settle_teardown_def hard_first_def Let_def

lemma counter_frame:
  "open_requests (call_teardown c i s) = open_requests s" "in_flight (call_teardown c i s) = in_flight s"
  "open_requests (race c s) = open_requests s" "in_flight (race c s) = in_flight s"
  "open_requests (poll c s) = open_requests s" "in_flight (poll c s) = in_flight s"
  "open_requests (sd_shutdown c s) = open_requests s" "in_flight (sd_shutdown c s) = in_flight s"
  "open_requests (due c s) = open_requests s" "in_flight (due c s) = in_flight s"
  "open_requests (force_exit s) = open_requests s" "in_flight (force_exit s) = in_flight s"
  "open_requests (settle_teardown c r s) = open_requests s" "in_flight (settle_teardown c r s) = in_flight s"
  by (simp_all add: sd_simps split: phase.split option.split settled.split)

lemma length_remove_one: "distinct xs \<Longrightarrow> i \<in> set xs \<Longrightarrow> length (filter (\<lambda>j. j \<noteq> i) xs) = length xs - 1"
proof (induction xs)
  case (Cons x xs)
  show ?case
  proof (cases "x = i")
    case True
    then have "filter (\<lambda>j. j \<noteq> i) xs = xs" using Cons.prems(1) by (auto simp: filter_id_conv)
    then show ?thesis using True by simp
  next
    case False
    then have "length xs \<noteq> 0" "length (filter (\<lambda>j. j \<noteq> i) xs) = length xs - 1" using Cons by auto
    then show ?thesis using False by simp
  qed
qed simp

lemma counted_step:
  assumes "counted s" "\<And>i. ev = Request i \<Longrightarrow> i \<notin> set (open_requests s)"
  shows "counted (sd_step c s ev)" "set (open_requests (sd_step c s ev)) \<subseteq> set (open_requests s) \<union> set (opened [ev])"
  using assms
  by (cases ev; auto simp: sd_step_def counted_def counter_frame begin_request_def finish_event_def end_request_def opened_def
      Let_def length_remove_one split: phase.split)+

lemma counted_run:
  "counted s \<Longrightarrow> distinct (opened evs) \<Longrightarrow> set (open_requests s) \<inter> set (opened evs) = {} \<Longrightarrow>
   counted (foldl (sd_step c) s evs)"
proof (induction evs arbitrary: s)
  case (Cons ev evs)
  have o: "opened (ev # evs) = opened [ev] @ opened evs" by (simp add: opened_def)
  have fresh: "ev = Request i \<Longrightarrow> i \<notin> set (open_requests s)" for i
    using Cons.prems(3) by (auto simp: opened_def)
  have "set (open_requests (sd_step c s ev)) \<inter> set (opened evs) = {}"
    using counted_step(2) [OF Cons.prems(1) fresh, where c = c] Cons.prems(2,3) unfolding o by auto
  then show ?case using Cons.IH [OF counted_step(1) [OF Cons.prems(1) fresh]] Cons.prems(2) unfolding o by simp
qed simp

subsection \<open>Phases\<close>

definition sd_inv :: "sd_config \<Rightarrow> ctl \<Rightarrow> bool" where
  "sd_inv c s \<longleftrightarrow>
     (draining s \<longleftrightarrow> hard s \<noteq> None) \<and> (draining s \<longleftrightarrow> phase s \<noteq> Serving) \<and>
     (\<forall>h. hard s = Some h \<longrightarrow> \<not> is_exited s \<longrightarrow> clock s < h) \<and>
     (case phase s of
        Tearing i \<Rightarrow> i < callbacks c \<and> torn s = [0..<i + 1]
      | Exited e \<Rightarrow> (e = 0 \<and> torn s = [0..<callbacks c]) \<or>
          (e = 1 \<and> length (torn s) \<le> callbacks c \<and> torn s = [0..<length (torn s)])
      | Ended \<Rightarrow> torn s \<noteq> [] \<and> length (torn s) \<le> callbacks c \<and> torn s = [0..<length (torn s)]
      | _ \<Rightarrow> torn s = [])"

lemma last_index: "\<not> Suc i < n \<Longrightarrow> i < n \<Longrightarrow> n = Suc i"
  by simp

text \<open>Each part on its own; a step is built from them.\<close>

lemma sd_inv_call:
  "sd_inv c s \<Longrightarrow> phase s \<in> {Polling t, Closing t} \<Longrightarrow> sd_inv c (call_teardown c 0 s)"
  by (auto simp: sd_inv_def call_teardown_def is_exited_def)

lemma sd_inv_settle: "sd_inv c s \<Longrightarrow> sd_inv c (settle_teardown c r s)"
  by (auto simp: sd_inv_def settle_teardown_def call_teardown_def is_exited_def dest: last_index split: phase.split settled.split)

text \<open>Moving the clock may break the bound on it; what is due restores it.\<close>

definition sd_late :: "sd_config \<Rightarrow> ctl \<Rightarrow> bool" where
  "sd_late c s \<longleftrightarrow> (\<exists>t \<le> clock s. sd_inv c (s\<lparr>clock := t\<rparr>))"

lemma poll_cases:
  obtains u where "poll c s = s\<lparr>phase := Polling u\<rparr>"
  | u where "poll c s = s\<lparr>phase := Closing u\<rparr>"
  | "poll c s = call_teardown c 0 s"
proof -
  have "(\<exists>u. poll c s = s\<lparr>phase := Polling u\<rparr>) \<or> (\<exists>u. poll c s = s\<lparr>phase := Closing u\<rparr>) \<or> poll c s = call_teardown c 0 s"
    by (auto simp: poll_def race_def)
  then show thesis using that by blast
qed

lemma sd_late_call: "sd_late c s \<Longrightarrow> phase s \<in> {Polling t, Closing t} \<Longrightarrow> sd_late c (call_teardown c 0 s)"
proof -
  assume "sd_late c s" and p: "phase s \<in> {Polling t, Closing t}"
  then obtain u where u: "u \<le> clock s" "sd_inv c (s\<lparr>clock := u\<rparr>)" by (auto simp: sd_late_def)
  have "(call_teardown c 0 s)\<lparr>clock := u\<rparr> = call_teardown c 0 (s\<lparr>clock := u\<rparr>)" "clock (call_teardown c 0 s) = clock s"
    by (simp_all add: call_teardown_def)
  with u sd_inv_call [OF u(2), of t] p show ?thesis unfolding sd_late_def by (intro exI [of _ u]) simp
qed

lemma sd_late_due: "sd_late c s \<Longrightarrow> sd_late c (due c s)"
proof -
  assume late: "sd_late c s"
  have wait: "sd_late c (s\<lparr>phase := Polling u\<rparr>)" "sd_late c (s\<lparr>phase := Closing u\<rparr>)" if "phase s = Polling t" for t u
    using late that by (auto simp: sd_late_def sd_inv_def is_exited_def)
  show ?thesis
  proof (cases "phase s")
    case (Polling t)
    have "sd_late c (poll c s)"
      by (cases rule: poll_cases [of c s]) (use wait [OF Polling] sd_late_call [OF late, of t] Polling in simp_all)
    then show ?thesis using late Polling by (simp add: due_def)
  next
    case (Closing t)
    then show ?thesis using late sd_late_call [OF late, of t] by (simp add: due_def)
  qed (use late in \<open>simp_all add: due_def\<close>)
qed

lemma sd_inv_force: "sd_late c s \<Longrightarrow> sd_inv c (force_exit s)"
proof -
  assume "sd_late c s"
  then obtain u where u: "u \<le> clock s" "sd_inv c (s\<lparr>clock := u\<rparr>)" by (auto simp: sd_late_def)
  then show ?thesis
    by (cases "phase s"; cases "hard s") (auto simp: sd_inv_def force_exit_def is_exited_def dest: last_index)
qed

lemma sd_inv_signal:
  assumes "sd_inv c s" "\<not> is_exited s"
  shows "sd_inv c (sd_shutdown c s)"
proof (cases "hard s = None")
  case True
  let ?t = "s\<lparr>draining := True, deadline := plus_ms (timeoutMs c) (of_int (clock s)), hard := Some (clock s + hard_delay c)\<rparr>"
  have "0 < hard_delay c" using timer_ms_pos [of "plus_ms (timeoutMs c) 1000"] by (simp add: hard_delay_def)
  then have "sd_inv c (?t\<lparr>phase := Polling u\<rparr>)" "sd_inv c (?t\<lparr>phase := Closing u\<rparr>)" "sd_inv c (call_teardown c 0 ?t)" for u
    using assms True by (auto simp: sd_inv_def is_exited_def call_teardown_def)
  then have "sd_inv c (poll c ?t)" by (cases rule: poll_cases [of c ?t]) simp_all
  then show ?thesis using True by (simp add: sd_shutdown_def)
qed (use assms in \<open>simp add: sd_shutdown_def\<close>)

lemma sd_inv_step: "sd_inv c s \<Longrightarrow> sd_inv c (sd_step c s ev)"
proof (cases "is_exited s")
  case False
  assume inv: "sd_inv c s"
  have "sd_inv c (sd_event_step c s ev)"
  proof (cases ev)
    case (Tick d)
    let ?t = "s\<lparr>clock := clock s + int d\<rparr>"
    have "sd_late c ?t" using inv by (auto simp: sd_late_def intro!: exI [of _ "clock s"])
    then have "sd_late c (if hard_first ?t then ?t else due c ?t)" using sd_late_due by simp
    from sd_inv_force [OF this] show ?thesis by (simp only: Tick sd_event_step.simps Let_def)
  next
    case Signal
    then show ?thesis using sd_inv_signal [OF inv False] by simp
  next
    case ServerClosed
    have c: "sd_inv c (s\<lparr>server_closed := True\<rparr>)" using inv by (cases "phase s") (auto simp: sd_inv_def is_exited_def)
    then show ?thesis using ServerClosed sd_inv_call [OF c] by (auto simp: Let_def split: phase.split)
  next
    case (TeardownSettled r)
    then show ?thesis using sd_inv_settle [OF inv] by simp
  next
    case LoopEmpty
    then show ?thesis using inv by (cases "phase s") (auto simp: sd_inv_def is_exited_def)
  next
    case (Request i)
    then show ?thesis using inv by (cases "phase s") (auto simp: begin_request_def sd_inv_def is_exited_def)
  next
    case (Finish i)
    then show ?thesis using inv by (cases "phase s") (auto simp: finish_event_def end_request_def sd_inv_def is_exited_def)
  qed
  with False show ?thesis by (simp add: sd_step_def)
qed (simp add: sd_step_def)

lemma sd_inv_from: "sd_inv c s \<Longrightarrow> sd_inv c (foldl (sd_step c) s evs)"
  by (induction evs arbitrary: s) (auto simp: sd_inv_step)

lemma sd_inv_create: "sd_inv c (create_shutdown now)"
  by (simp add: sd_inv_def create_shutdown_def is_exited_def)

lemma sd_inv_run: "sd_inv c (sd_run c now evs)"
  unfolding sd_run_def by (rule sd_inv_from [OF sd_inv_create])

lemma sd_run_snoc: "sd_run c now (evs @ [ev]) = sd_step c (sd_run c now evs) ev"
  by (simp add: sd_run_def)

lemma sd_run_nil: "sd_run c now [] = create_shutdown now"
  by (simp add: sd_run_def)

lemma counted_create: "counted (create_shutdown now)" "open_requests (create_shutdown now) = []"
  by (simp_all add: counted_def create_shutdown_def)

subsection \<open>When the times are set, and why the process exits\<close>

lemma times_frame:
  "draining (call_teardown c i s) = draining s" "deadline (call_teardown c i s) = deadline s" "hard (call_teardown c i s) = hard s"
  "draining (race c s) = draining s" "deadline (race c s) = deadline s" "hard (race c s) = hard s"
  "draining (poll c s) = draining s" "deadline (poll c s) = deadline s" "hard (poll c s) = hard s"
  "draining (due c s) = draining s" "deadline (due c s) = deadline s" "hard (due c s) = hard s"
  "draining (force_exit s) = draining s" "deadline (force_exit s) = deadline s" "hard (force_exit s) = hard s"
  "draining (settle_teardown c r s) = draining s" "deadline (settle_teardown c r s) = deadline s" "hard (settle_teardown c r s) = hard s"
  "clock (call_teardown c i s) = clock s" "clock (race c s) = clock s" "clock (poll c s) = clock s"
  "clock (due c s) = clock s" "clock (force_exit s) = clock s" "clock (settle_teardown c r s) = clock s"
  by (simp_all add: sd_simps split: phase.split option.split settled.split)

lemma times_kept:
  assumes "ev \<noteq> Signal \<or> draining s" "sd_inv c s"
  shows "draining (sd_step c s ev) = draining s \<and> deadline (sd_step c s ev) = deadline s \<and> hard (sd_step c s ev) = hard s"
  using assms
  by (cases ev; auto simp: sd_step_def begin_request_def finish_event_def end_request_def sd_shutdown_def sd_inv_def
      times_frame Let_def split: phase.split)

lemma times_set:
  assumes "\<not> draining s" "sd_inv c s"
  shows "draining (sd_step c s Signal)" "phase s = Serving"
    "deadline (sd_step c s Signal) = plus_ms (timeoutMs c) (of_int (clock s))"
    "hard (sd_step c s Signal) = Some (clock s + hard_delay c)" "clock (sd_step c s Signal) = clock s"
  using assms by (simp_all add: sd_step_def sd_shutdown_def sd_inv_def is_exited_def times_frame)

lemma drain_began:
  "draining (sd_run c now evs) \<Longrightarrow>
   \<exists>pre post. evs = pre @ Signal # post \<and> phase (sd_run c now pre) = Serving \<and>
     deadline (sd_run c now evs) = plus_ms (timeoutMs c) (of_int (clock (sd_run c now pre))) \<and>
     hard (sd_run c now evs) = Some (clock (sd_run c now pre) + hard_delay c)"
proof (induction evs rule: rev_induct)
  case (snoc ev evs)
  show ?case
  proof (cases "ev \<noteq> Signal \<or> draining (sd_run c now evs)")
    case True
    from times_kept [OF this sd_inv_run] snoc show ?thesis
      unfolding sd_run_snoc by (metis append_Cons append_assoc)
  next
    case False
    then show ?thesis using times_set [OF _ sd_inv_run, of c now evs] by (auto simp: sd_run_snoc)
  qed
qed (simp add: sd_run_nil create_shutdown_def)

lemma exit_one_step:
  assumes "phase (sd_step c s ev) = Exited 1" "\<not> is_exited s" "sd_inv c s"
  shows "(\<exists>h. hard (sd_step c s ev) = Some h \<and> h \<le> clock (sd_step c s ev)) \<or>
    (\<exists>v i. ev = TeardownSettled (Rejected v) \<and> nullish v \<and> phase s = Tearing i \<and> torn (sd_step c s ev) = [0..<i + 1])"
proof -
  have no: "phase (call_teardown c i t) \<noteq> Exited 1" for i t by (simp add: call_teardown_def)
  then have no': "phase (poll c t) \<noteq> Exited 1" "phase (race c t) \<noteq> Exited 1" for t by (simp_all add: poll_def race_def)
  then have d: "phase t \<noteq> Exited 1 \<Longrightarrow> phase (due c t) \<noteq> Exited 1" for t using no by (auto simp: due_def split: phase.splits)
  have alive: "phase s \<noteq> Exited 1" using assms(2) by (auto simp: is_exited_def)
  show ?thesis
  proof (cases ev)
    case (Tick n)
    let ?u = "if hard_first (s\<lparr>clock := clock s + int n\<rparr>) then s\<lparr>clock := clock s + int n\<rparr> else due c (s\<lparr>clock := clock s + int n\<rparr>)"
    have "sd_step c s ev = force_exit ?u" using assms(2) by (simp only: Tick sd_step_def sd_event_step.simps Let_def if_False)
    moreover have "phase ?u \<noteq> Exited 1" using d [of "s\<lparr>clock := clock s + int n\<rparr>"] alive by simp
    ultimately show ?thesis using assms(1) by (auto simp: force_exit_def simp del: if_split_asm split: option.splits if_split_asm)
  next
    case (TeardownSettled r)
    then show ?thesis using assms no alive
      by (auto simp: sd_step_def settle_teardown_def sd_inv_def split: phase.splits settled.splits if_splits)
  qed (use assms no no' alive in \<open>auto simp: sd_step_def begin_request_def finish_event_def end_request_def sd_shutdown_def
      Let_def split: phase.splits if_splits\<close>)
qed

lemma exit_one_reason:
  "phase (sd_run c now evs) = Exited 1 \<Longrightarrow>
   (\<exists>h. hard (sd_run c now evs) = Some h \<and> h \<le> clock (sd_run c now evs)) \<or>
   (\<exists>pre post v. evs = pre @ TeardownSettled (Rejected v) # post \<and> nullish v \<and>
      (\<exists>i. phase (sd_run c now pre) = Tearing i \<and> torn (sd_run c now evs) = [0..<i + 1]))"
proof (induction evs rule: rev_induct)
  case (snoc ev evs)
  show ?case
  proof (cases "is_exited (sd_run c now evs)")
    case True
    then have "sd_run c now (evs @ [ev]) = sd_run c now evs" by (simp add: sd_run_snoc sd_step_def)
    then show ?thesis using snoc by (metis append_Cons append_assoc)
  next
    case False
    from exit_one_step [OF _ this sd_inv_run] snoc.prems show ?thesis unfolding sd_run_snoc by blast
  qed
qed (simp add: sd_run_nil create_shutdown_def)

lemma leaves_polling:
  assumes "phase s = Polling t"
  shows "(\<exists>u. phase (sd_step c s ev) = Polling u) \<or> phase (sd_step c s ev) = Exited 1 \<or>
    in_flight (sd_step c s ev) = 0 \<or> \<not> before_ms (clock (sd_step c s ev)) (deadline (sd_step c s ev))"
proof (cases ev)
  case (Tick d)
  then show ?thesis using assms
    by (auto simp: sd_step_def sd_simps hard_first_def split: phase.splits option.splits)
qed (use assms in \<open>auto simp: sd_step_def sd_simps split: phase.splits option.splits\<close>)

lemma hard_delay_plain:
  "timeoutMs c = Millis (of_nat n) \<Longrightarrow> hard_delay c = (if n \<le> 2147482647 then int n + 1000 else 1)"
proof -
  assume t: "timeoutMs c = Millis (of_nat n)"
  have e: "(of_nat n + 1000 :: rat) = of_int (int n + 1000)" by simp
  have "(of_nat n + 1000 :: rat) \<le> 2147483647 \<longleftrightarrow> (of_int (int n + 1000) :: rat) \<le> of_int 2147483647" unfolding e by simp
  then have "(of_nat n + 1000 :: rat) \<le> 2147483647 \<longleftrightarrow> n \<le> 2147482647" by (simp only: of_int_le_iff) linarith
  moreover have "\<lfloor>of_nat n + 1000 :: rat\<rfloor> = int n + 1000" unfolding e by (rule floor_of_int)
  ultimately show ?thesis by (simp add: hard_delay_def t timer_ms_def)
qed

text \<open>C33: The shutdown is orderly: the counter of requests in flight is the number of open requests; the
  drain ends only when no request is in flight or the time is not before the deadline; the callbacks are
  called in their order, each once. \<open>exit\<close> is called only after a signal: with 0 after all the
  callbacks, and with 1 only when the hard timer set at that signal is due (the time limit plus a second
  later, or a millisecond later when that is no delay a timer can have), or when a callback rejected
  with \<open>null\<close> or \<open>undefined\<close>, and then the remaining callbacks are not called. A process that ends on
  its own does so while it waits for a callback.\<close>

theorem shutdown_orderly:
  assumes "distinct (opened evs)" "s = sd_run c now evs"
  shows "in_flight s = length (open_requests s) \<and>
    torn s = [0..<length (torn s)] \<and> length (torn s) \<le> callbacks c \<and>
    (\<forall>e. phase s = Exited e \<longrightarrow>
       (\<exists>pre post. evs = pre @ Signal # post \<and> phase (sd_run c now pre) = Serving \<and>
          (e = 0 \<and> length (torn s) = callbacks c \<or>
           e = 1 \<and> clock (sd_run c now pre) + hard_delay c \<le> clock s \<or>
           e = 1 \<and> (\<exists>pre' post' v. evs = pre' @ TeardownSettled (Rejected v) # post' \<and> nullish v \<and>
              (\<exists>i. phase (sd_run c now pre') = Tearing i \<and> torn s = [0..<i + 1]))))) \<and>
    (\<forall>n. timeoutMs c = Millis (of_nat n) \<longrightarrow> hard_delay c = (if n \<le> 2147482647 then int n + 1000 else 1)) \<and>
    (phase s = Ended \<longrightarrow> torn s \<noteq> []) \<and>
    (\<forall>t ev. phase s = Polling t \<longrightarrow>
       (\<exists>u. phase (sd_step c s ev) = Polling u) \<or> phase (sd_step c s ev) = Exited 1 \<or>
       in_flight (sd_step c s ev) = 0 \<or> \<not> before_ms (clock (sd_step c s ev)) (deadline (sd_step c s ev)))"
proof -
  have count: "counted s"
    unfolding assms(2) sd_run_def by (rule counted_run [OF counted_create(1) assms(1)]) (simp add: counted_create)
  have inv: "sd_inv c s" unfolding assms(2) by (rule sd_inv_run)
  have order: "torn s = [0..<length (torn s)] \<and> length (torn s) \<le> callbacks c \<and> (phase s = Ended \<longrightarrow> torn s \<noteq> [])"
    using inv by (cases "phase s") (auto simp: sd_inv_def)
  have exits: "\<exists>pre post. evs = pre @ Signal # post \<and> phase (sd_run c now pre) = Serving \<and>
          (e = 0 \<and> length (torn s) = callbacks c \<or>
           e = 1 \<and> clock (sd_run c now pre) + hard_delay c \<le> clock s \<or>
           e = 1 \<and> (\<exists>pre' post' v. evs = pre' @ TeardownSettled (Rejected v) # post' \<and> nullish v \<and>
              (\<exists>i. phase (sd_run c now pre') = Tearing i \<and> torn s = [0..<i + 1])))"
    if p: "phase s = Exited e" for e
  proof -
    have "draining s" using inv p by (auto simp: sd_inv_def)
    then obtain pre post where pp: "evs = pre @ Signal # post" "phase (sd_run c now pre) = Serving"
      "hard s = Some (clock (sd_run c now pre) + hard_delay c)" using drain_began [of c now evs] assms(2) by blast
    have "e = 0 \<and> length (torn s) = callbacks c \<or> e = 1" using inv p by (auto simp: sd_inv_def)
    moreover have "e = 1 \<Longrightarrow> clock (sd_run c now pre) + hard_delay c \<le> clock s \<or>
        (\<exists>pre' post' v. evs = pre' @ TeardownSettled (Rejected v) # post' \<and> nullish v \<and>
          (\<exists>i. phase (sd_run c now pre') = Tearing i \<and> torn s = [0..<i + 1]))"
      using exit_one_reason [of c now evs] p pp(3) assms(2) by auto
    ultimately show ?thesis using pp(1,2) by blast
  qed
  show ?thesis using count order exits leaves_polling [of s _ c] hard_delay_plain [of c]
    unfolding counted_def by blast
qed

lemma shutdown_orderly_witness:
  "phase (sd_run \<lparr>callbacks = 1, timeoutMs = Millis 100\<rparr> 0
      [Request 4, Signal, Tick 60, Finish 4, Tick 60, ServerClosed, TeardownSettled Resolved]) = Exited 0 \<and>
   torn (sd_run \<lparr>callbacks = 1, timeoutMs = Millis 100\<rparr> 0
      [Request 4, Signal, Tick 60, Finish 4, Tick 60, ServerClosed, TeardownSettled Resolved]) = [0..<1]"
proof -
  let ?c = "\<lparr>callbacks = 1, timeoutMs = Millis 100\<rparr>"
  let ?evs = "[Request 4, Signal, Tick 60, Finish 4, Tick 60, ServerClosed, TeardownSettled Resolved]"
  have p: "phase (sd_run ?c 0 ?evs) = Exited 0"
    by (simp add: sd_run_def sd_step_def sd_simps create_shutdown_def before_ms_def timer_ms_def hard_delay_def)
  have "distinct (opened ?evs)" by (simp add: opened_def)
  from shutdown_orderly [OF this refl, of ?c 0] p show ?thesis by (metis (no_types, lifting) sd_config.select_convs(1) zero_neq_one)
qed

text \<open>A callback that rejects with \<open>null\<close> ends the shutdown at once: the second callback is never called
  and the status is 1, twenty seconds before the time limit. A time limit beyond what a timer can wait
  forces the exit after a millisecond, with a request still open.\<close>

lemma shutdown_cut_short:
  "phase (sd_run \<lparr>callbacks = 2, timeoutMs = Millis 30000\<rparr> 0
      [Signal, Tick 10, ServerClosed, TeardownSettled (Rejected JNull)]) = Exited 1"
  "torn (sd_run \<lparr>callbacks = 2, timeoutMs = Millis 30000\<rparr> 0
      [Signal, Tick 10, ServerClosed, TeardownSettled (Rejected JNull)]) = [0]"
  "phase (sd_run \<lparr>callbacks = 2, timeoutMs = Millis 2147483648\<rparr> 0 [Request 4, Signal, Tick 1]) = Exited 1"
  by (simp_all add: sd_run_def sd_step_def sd_simps create_shutdown_def before_ms_def timer_ms_def hard_delay_def nullish_def)

subsection \<open>The process ends\<close>

definition elapsed :: "sd_event list \<Rightarrow> int" where
  "elapsed evs = sum_list (map (\<lambda>ev. case ev of Tick d \<Rightarrow> int d | _ \<Rightarrow> 0) evs)"

lemma clock_step: "\<not> is_exited s \<Longrightarrow> clock (sd_step c s ev) = clock s + elapsed [ev]"
  by (cases ev) (auto simp: sd_step_def begin_request_def finish_event_def end_request_def sd_shutdown_def times_frame
      Let_def elapsed_def split: phase.splits)

lemma exited_stays: "is_exited s \<Longrightarrow> is_exited (foldl (sd_step c) s evs)"
  by (induction evs) (auto simp: sd_step_def)

lemma clock_run:
  "\<not> is_exited (foldl (sd_step c) s evs) \<Longrightarrow> clock (foldl (sd_step c) s evs) = clock s + elapsed evs"
proof (induction evs arbitrary: s)
  case (Cons ev evs)
  have "\<not> is_exited (sd_step c s ev)" using Cons.prems exited_stays by auto
  then have "\<not> is_exited s" by (auto simp: sd_step_def)
  from clock_step [OF this] Cons show ?case by (simp add: elapsed_def)
qed (simp add: elapsed_def)

lemma clock_mono: "clock (sd_run c now pre) \<le> clock (sd_run c now (pre @ post))"
proof (induction post rule: rev_induct)
  case (snoc ev post)
  have "clock s \<le> clock (sd_step c s ev)" for s
  proof (cases "is_exited s")
    case False
    then show ?thesis using clock_step [OF False, of c ev] by (cases ev) (simp_all add: elapsed_def)
  qed (simp add: sd_step_def)
  then show ?case using snoc by (metis append_assoc order_trans sd_run_snoc)
qed simp

lemma times_kept_from:
  "draining s \<Longrightarrow> sd_inv c s \<Longrightarrow> hard (foldl (sd_step c) s evs) = hard s"
proof (induction evs arbitrary: s)
  case (Cons ev evs)
  then show ?case using times_kept [of ev s c] sd_inv_step [of c s ev] by simp
qed simp

lemma hard_delay_le: "hard_delay c \<le> (case timeoutMs c of Millis r \<Rightarrow> max 1 \<lfloor>r + 1000\<rfloor> | _ \<Rightarrow> 1)"
  by (auto simp: hard_delay_def timer_ms_def split: js_millis.split)

text \<open>C34: The process ends: whatever the clients, the server and the callbacks do, once a signal has arrived and
  the time limit plus one second has passed (a millisecond, when the limit is no finite number or
  below zero), the process has exited.\<close>

theorem shutdown_terminates:
  assumes "(case timeoutMs c of Millis r \<Rightarrow> max 1 \<lfloor>r + 1000\<rfloor> | _ \<Rightarrow> 1) \<le> elapsed later"
  shows "is_exited (sd_run c now (before @ Signal # later))"
proof (rule ccontr)
  let ?s = "sd_run c now before" and ?f = "sd_run c now (before @ Signal # later)"
  let ?t = "sd_step c ?s Signal"
  assume ex: "\<not> is_exited ?f"
  have f: "?f = foldl (sd_step c) ?t later" by (simp add: sd_run_def)
  have inv: "sd_inv c ?s" "sd_inv c ?t" using sd_inv_run sd_inv_step by blast+
  have "\<not> is_exited ?t" using ex exited_stays unfolding f by blast
  then have alive: "\<not> is_exited ?s" by (auto simp: sd_step_def)
  have ft: "clock ?f = clock ?s + elapsed later"
    using clock_run [of c ?t later] ex clock_step [OF alive, of c Signal] unfolding f by (simp add: elapsed_def)
  obtain h where h: "hard ?t = Some h" "h \<le> clock ?s + hard_delay c" "draining ?t"
  proof (cases "draining ?s")
    case True
    have "hard ?s \<noteq> None" using True inv(1) by (simp add: sd_inv_def)
    then obtain h where "hard ?s = Some h" by blast
    moreover obtain pre post where "before = pre @ Signal # post" "hard ?s = Some (clock (sd_run c now pre) + hard_delay c)"
      using drain_began [OF True] by blast
    then have "h \<le> clock ?s + hard_delay c" using calculation clock_mono [of c now pre "Signal # post"] by simp
    ultimately show thesis using that times_kept [of Signal ?s c] True inv(1) by simp
  next
    case False
    then show thesis using that times_set [OF False inv(1)] by simp
  qed
  have "hard ?f = Some h" using times_kept_from [OF h(3) inv(2), of later] h(1) unfolding f by simp
  then have "clock ?f < h" using ex sd_inv_run [of c now "before @ Signal # later"] by (simp add: sd_inv_def)
  then show False using assms h(2) ft hard_delay_le [of c] by linarith
qed

lemma shutdown_terminates_witness:
  "is_exited (sd_run \<lparr>callbacks = 3, timeoutMs = Millis 100\<rparr> 0 ([Request 4] @ Signal # [Tick 700, Tick 400]))"
  by (rule shutdown_terminates) (simp add: elapsed_def)

end
