(* ===== verification/Audit_Log.thy ===== *)
theory Audit_Log
  imports Js_Value Ledger "HOL-Library.AList"
begin

section \<open>The audit log\<close>

text \<open>
  \<open>qv-server/audit.mjs\<close>: the configuration, the record of an event, the line it becomes, and the
  rotation of the log files. File \<open>0\<close> is \<open>config.path\<close>, file \<open>i\<close> is \<open>config.path.i\<close>; a file is the list
  of its lines, and a write stores a whole line or throws. \<open>dropped\<close> is not in the code: it collects the lines
  of files that were unlinked or overwritten, oldest first.
\<close>

subsection \<open>Configuration\<close>

definition audit_int :: "(string \<Rightarrow> string option) \<Rightarrow> string \<Rightarrow> int \<Rightarrow> int \<Rightarrow> int \<Rightarrow> string + int" where
  "audit_int env name def lo hi =
     (case env name of
        None \<Rightarrow> Inr def
      | Some raw \<Rightarrow>
          if raw = [] then Inr def
          else (case js_integer raw of
                  None \<Rightarrow> Inl name
                | Some n \<Rightarrow> if n < lo \<or> hi < n then Inl name else Inr n))"

record audit_config =
  a_disabled :: bool
  a_stdout :: bool
  a_fileOn :: bool
  a_path :: string
  a_rotateBytes :: nat
  a_rotateKeep :: nat

definition load_audit_config :: "(string \<Rightarrow> string option) \<Rightarrow> string \<Rightarrow> string + audit_config" where
  "load_audit_config env dataDir =
     bind_r (audit_int env ''QV_AUDIT_ROTATE_BYTES'' (64 * 1024 * 1024) 0 (10 * 1024 * 1024 * 1024)) (\<lambda>bytes.
     bind_r (audit_int env ''QV_AUDIT_ROTATE_KEEP'' 5 0 100) (\<lambda>keep.
       Inr \<lparr>a_disabled = (env ''QV_AUDIT_DISABLED'' = Some ''true''),
            a_stdout = (env ''QV_AUDIT_STDOUT'' \<noteq> Some ''false''),
            a_fileOn = (env ''QV_AUDIT_FILE'' \<noteq> Some ''false''),
            a_path = (case env ''QV_AUDIT_LOG'' of
                        Some p \<Rightarrow> if p = [] then dataDir @ ''/audit.log'' else p
                      | None \<Rightarrow> dataDir @ ''/audit.log''),
            a_rotateBytes = nat bytes, a_rotateKeep = nat keep\<rparr>))"

subsection \<open>Files and rotation\<close>

type_synonym line = jsstr

record auditor =
  fd :: bool
  fileBroken :: bool
  bytesWritten :: nat
  logs :: "nat \<Rightarrow> line list option"
  dropped :: "line list"
  stdout :: "line list"
  sunk :: "(string \<times> jsval) list list"

text \<open>What the file system does during one call: the write, each rename, the two attempts to open.\<close>

record audit_io =
  io_write :: bool
  io_rename :: "nat \<Rightarrow> bool"
  io_open :: bool
  io_reopen :: bool

definition line_bytes :: "line \<Rightarrow> nat" where
  "line_bytes l = length (utf8_encode l)"

definition lines_of :: "auditor \<Rightarrow> nat \<Rightarrow> line list" where
  "lines_of s i = (case logs s i of None \<Rightarrow> [] | Some ls \<Rightarrow> ls)"

definition open_log :: "auditor \<Rightarrow> auditor" where
  "open_log s = s\<lparr>fd := True, logs := (logs s)(0 \<mapsto> lines_of s 0),
     bytesWritten := sum_list (map line_bytes (lines_of s 0))\<rparr>"

definition create_auditor :: "audit_config \<Rightarrow> bool \<Rightarrow> (nat \<Rightarrow> line list option) \<Rightarrow> auditor" where
  "create_auditor c can_open files =
     (let s = \<lparr>fd = False, fileBroken = False, bytesWritten = 0, logs = files, dropped = [], stdout = [], sunk = []\<rparr> in
      if \<not> a_fileOn c then s else if can_open then open_log s else s\<lparr>fileBroken := True\<rparr>)"

text \<open>The loop of \<open>rotate\<close>, from \<open>rotateKeep\<close> down to 1. A rename replaces its target.\<close>

definition move_log :: "nat \<Rightarrow> auditor \<Rightarrow> auditor" where
  "move_log i s = s\<lparr>dropped := dropped s @ lines_of s (Suc i),
     logs := (logs s)(Suc i := logs s i, i := None)\<rparr>"

fun shift_logs :: "(nat \<Rightarrow> bool) \<Rightarrow> nat \<Rightarrow> nat \<Rightarrow> auditor \<Rightarrow> auditor" where
  "shift_logs can_rename keep 0 s = s"
| "shift_logs can_rename keep (Suc i) s =
     shift_logs can_rename keep i
      (if logs s i = None then s
       else let s = (if Suc i = keep then s\<lparr>dropped := dropped s @ lines_of s keep, logs := (logs s)(keep := None)\<rparr> else s)
            in if can_rename (Suc i) then move_log i s else s)"

definition rotate_log :: "audit_config \<Rightarrow> audit_io \<Rightarrow> auditor \<Rightarrow> auditor" where
  "rotate_log c io s =
     (if a_rotateBytes c = 0 \<or> \<not> fd s then s
      else let s = shift_logs (io_rename io) (a_rotateKeep c) (a_rotateKeep c) (s\<lparr>fd := False\<rparr>)
           in if io_open io \<or> io_reopen io then open_log s else s)"

definition write_line :: "audit_config \<Rightarrow> audit_io \<Rightarrow> line \<Rightarrow> auditor \<Rightarrow> auditor" where
  "write_line c io l s =
     (if \<not> fd s \<or> fileBroken s then s
      else if \<not> io_write io then s\<lparr>fileBroken := True\<rparr>
      else let s = s\<lparr>logs := (logs s)(0 \<mapsto> lines_of s 0 @ [l]), bytesWritten := bytesWritten s + line_bytes l\<rparr>
           in if 0 < a_rotateBytes c \<and> a_rotateBytes c \<le> bytesWritten s then rotate_log c io s else s)"

subsection \<open>Events\<close>

definition BLOCK :: "string list" where
  "BLOCK = [''token'', ''bearer'', ''authorization'', ''masterKey'', ''master_key'',
     ''privateKey'', ''private_key'', ''secret'', ''password'', ''cookie'']"

definition safe_fields :: "(string \<times> jsval) list \<Rightarrow> (string \<times> jsval) list" where
  "safe_fields flds = filter (\<lambda>(k, v). k \<notin> set BLOCK \<and> v \<noteq> undef) flds"

definition field_level :: "(string \<times> jsval) list \<Rightarrow> jsval" where
  "field_level flds =
     (let v = jget (obj flds) ''level'' in if truthy v then v else str ''info'')"

definition audit_record :: "string \<Rightarrow> string \<Rightarrow> (string \<times> jsval) list \<Rightarrow> (string \<times> jsval) list" where
  "audit_record ts name flds =
     AList.delete ''level''
       (foldl (\<lambda>r (k, v). AList.update k v r)
         [(''ts'', str ts), (''level'', field_level flds), (''event'', str name)] (safe_fields flds))
     @ [(''level'', field_level flds)]"

text \<open>The line of a record; a record that does not serialise gets a fixed one. \<open>None\<close>: that throws too,
  on a time stamp replaced by a BigInt, and the exception escapes.\<close>

definition audit_line :: "(jsnum \<Rightarrow> jsstr) \<Rightarrow> (string \<times> jsval) list \<Rightarrow> string \<Rightarrow> line option" where
  "audit_line ns r name =
     (let fixed = obj [(''ts'', jget (obj r) ''ts''), (''event'', str name), (''level'', str ''error''),
                       (''reason'', str ''unserializable'')] in
      case json_text ns (obj r) of
        Some (Some t) \<Rightarrow> Some (t @ [10])
      | _ \<Rightarrow> (case json_text ns fixed of Some (Some t) \<Rightarrow> Some (t @ [10]) | _ \<Rightarrow> None))"

definition event :: "audit_config \<Rightarrow> audit_io \<Rightarrow> (jsnum \<Rightarrow> jsstr) \<Rightarrow> string \<Rightarrow> string \<Rightarrow> (string \<times> jsval) list \<Rightarrow> auditor \<Rightarrow> auditor" where
  "event c io ns ts name flds s =
     (if a_disabled c then s
      else let r = audit_record ts name flds in
        (case audit_line ns r name of
           None \<Rightarrow> s
         | Some l \<Rightarrow>
             let s = write_line c io l s; s = (if a_stdout c then s\<lparr>stdout := stdout s @ [l]\<rparr> else s)
             in s\<lparr>sunk := sunk s @ [r]\<rparr>))"

definition close :: "auditor \<Rightarrow> auditor" where
  "close s = s\<lparr>fd := False\<rparr>"

subsection \<open>One event, one line\<close>

definition clean :: "jsstr \<Rightarrow> bool" where
  "clean t \<longleftrightarrow> list_all (\<lambda>u. 32 \<le> unat u) t"

lemma clean_append [simp]: "clean (s @ t) \<longleftrightarrow> clean s \<and> clean t"
  by (simp add: clean_def)

lemma clean_Cons [simp]: "clean (u # t) \<longleftrightarrow> 32 \<le> unat u \<and> clean t" "clean []"
  by (simp_all add: clean_def)

lemma clean_concat [simp]: "clean (concat ts) \<longleftrightarrow> (\<forall>t \<in> set ts. clean t)"
  by (induction ts) auto

lemma clean_js: "clean (js s) \<longleftrightarrow> list_all (\<lambda>c. 32 \<le> (of_char c :: nat)) s"
  by (simp add: clean_def js_def list_all_iff unat_js_char)

lemma hex_digit_print: "n < 16 \<Longrightarrow> 32 \<le> (of_char (hex_digit n) :: nat)"
  by (simp add: hex_digit_def)

lemma clean_escape_unit: "clean (escape_unit u)"
proof -
  have "clean (js (hex4 n))" for n by (simp add: clean_js hex4_def hex_digit_print)
  then show ?thesis by (auto simp: escape_unit_def Let_def)
qed

lemma clean_surrogate: "is_high u \<Longrightarrow> 32 \<le> unat u" "is_low u \<Longrightarrow> 32 \<le> unat u"
  by (simp_all add: is_high_def is_low_def)

lemma clean_quote: "clean (quote_text s)"
proof -
  have "clean (escape_units s)" by (induction s rule: escape_units.induct) (auto simp: clean_escape_unit clean_surrogate)
  then show ?thesis by (simp add: quote_text_def)
qed

lemma clean_join: "(\<forall>t \<in> set ts. clean t) \<Longrightarrow> clean (case ts of [] \<Rightarrow> [] | t # ts' \<Rightarrow> t @ concat (map (\<lambda>t. 44 # t) ts'))"
  by (cases ts) auto

definition clean_numbers :: "(jsnum \<Rightarrow> jsstr) \<Rightarrow> bool" where
  "clean_numbers ns \<longleftrightarrow> (\<forall>n. clean (ns n))"

lemma clean_json:
  "clean_numbers ns \<Longrightarrow> json_text ns v = Some (Some t) \<Longrightarrow> clean t"
  "clean_numbers ns \<Longrightarrow> json_elems ns vs = Some ts \<Longrightarrow> \<forall>t \<in> set ts. clean t"
  "clean_numbers ns \<Longrightarrow> json_props ns kvs = Some ts \<Longrightarrow> \<forall>t \<in> set ts. clean t"
proof (induction ns v and ns vs and ns kvs arbitrary: t and ts and ts rule: json_text_json_elems_json_props.induct)
  case (2 ns b)
  then show ?case by (cases b) (auto simp: clean_js)
next
  case (3 ns n)
  then show ?case by (cases n) (auto simp: clean_js clean_numbers_def)
next
  case (6 ns vs)
  then show ?case using clean_join by (auto split: option.splits)
next
  case (7 ns kvs)
  then show ?case using clean_join by (auto split: option.splits)
next
  case (10 ns v vs)
  then show ?case by (auto simp: clean_js split: option.splits)
next
  case (12 ns k v kvs)
  then show ?case by (auto simp: clean_quote split: option.splits)
qed (auto simp: clean_js clean_quote)

lemma audit_line_clean:
  assumes "clean_numbers ns" "audit_line ns r name = Some l"
  shows "\<exists>t. l = t @ [10] \<and> clean t"
  using assms clean_json(1) [OF assms(1)] by (auto simp: audit_line_def Let_def split: option.splits)

lemma record_keys: "fst ` set (audit_record ts name flds) \<subseteq> {''ts'', ''level'', ''event''} \<union> fst ` set (safe_fields flds)"
proof -
  have "fst ` set (foldl (\<lambda>r (k, v). AList.update k v r) r0 kvs) \<subseteq> fst ` set r0 \<union> fst ` set kvs"
    for r0 kvs :: "(string \<times> jsval) list"
  proof (induction kvs arbitrary: r0)
    case (Cons kv kvs)
    obtain k v where "kv = (k, v)" by force
    then show ?case using Cons.IH [of "AList.update k v r0"] by (simp add: dom_update)
  qed simp
  from this [of "[(''ts'', str ts), (''level'', field_level flds), (''event'', str name)]" "safe_fields flds"]
  show ?thesis unfolding audit_record_def by (auto simp: delete_conv' AList.delete_eq)
qed

lemma disjoint_from_union: "A \<subseteq> X \<union> Y \<Longrightarrow> X \<inter> B = {} \<Longrightarrow> Y \<inter> B = {} \<Longrightarrow> A \<inter> B = {}"
  by blast

lemma record_unblocked: "fst ` set (audit_record ts name flds) \<inter> set BLOCK = {}"
proof -
  have "{''ts'', ''level'', ''event''} \<inter> set BLOCK = {}" by (simp add: BLOCK_def)
  moreover have "fst ` set (safe_fields flds) \<inter> set BLOCK = {}" by (auto simp: safe_fields_def)
  ultimately show ?thesis by (rule disjoint_from_union [OF record_keys])
qed

definition one_line :: "line \<Rightarrow> bool" where
  "one_line l \<longleftrightarrow> (\<exists>t. l = t @ [10] \<and> clean t)"

definition tidy :: "auditor \<Rightarrow> bool" where
  "tidy s \<longleftrightarrow> (\<forall>i. \<forall>l \<in> set (lines_of s i). one_line l) \<and> (\<forall>l \<in> set (stdout s). one_line l) \<and>
     (\<forall>r \<in> set (sunk s). fst ` set r \<inter> set BLOCK = {})"

lemma tidy_move: "tidy s \<Longrightarrow> tidy (move_log i s)"
  by (auto simp: tidy_def move_log_def lines_of_def split: if_splits option.splits)

lemma tidy_shift: "tidy s \<Longrightarrow> tidy (shift_logs can keep i s)"
proof (induction i arbitrary: s)
  case (Suc i)
  have "tidy (s\<lparr>dropped := d, logs := (logs s)(keep := None)\<rparr>)" for d
    using Suc.prems by (auto simp: tidy_def lines_of_def)
  then show ?case using Suc tidy_move by (auto simp: Let_def)
qed simp

lemma tidy_open: "tidy s \<Longrightarrow> tidy (open_log s)"
  by (auto simp: tidy_def open_log_def lines_of_def)

lemma tidy_rotate: "tidy s \<Longrightarrow> tidy (rotate_log c io s)"
proof -
  assume "tidy s"
  then have "tidy (s\<lparr>fd := False\<rparr>)" by (simp add: tidy_def lines_of_def)
  then show ?thesis using \<open>tidy s\<close> by (auto simp: rotate_log_def Let_def intro: tidy_shift tidy_open)
qed

lemma tidy_write: "tidy s \<Longrightarrow> one_line l \<Longrightarrow> tidy (write_line c io l s)"
proof -
  assume s: "tidy s" "one_line l"
  then have "tidy (s\<lparr>logs := (logs s)(0 \<mapsto> lines_of s 0 @ [l]), bytesWritten := n\<rparr>)" for n
    by (auto simp: tidy_def lines_of_def)
  moreover have "tidy (s\<lparr>fileBroken := True\<rparr>)" using s by (simp add: tidy_def lines_of_def)
  ultimately show ?thesis using s by (auto simp: write_line_def Let_def intro: tidy_rotate)
qed

lemma tidy_event: "clean_numbers ns \<Longrightarrow> tidy s \<Longrightarrow> tidy (event c io ns ts name flds s)"
proof -
  assume ns: "clean_numbers ns" and s: "tidy s"
  show ?thesis
  proof (cases "audit_line ns (audit_record ts name flds) name")
    case (Some l)
    then have "one_line l" using audit_line_clean [OF ns] by (simp add: one_line_def)
    then have "tidy (write_line c io l s)" by (rule tidy_write [OF s])
    with \<open>one_line l\<close> show ?thesis using s Some record_unblocked [of ts name flds]
      by (auto simp: event_def Let_def tidy_def lines_of_def)
  qed (use s in \<open>simp add: event_def Let_def\<close>)
qed

text \<open>C35: Nothing a client sends can forge or split an audit line or carry a secret under a blocked name: after
  any events, with any failures of the file system, every line in every log file and on stdout is one
  line of text ended by its only line break, and no record has a field of the blocked names.\<close>

theorem audit_lines_intact:
  assumes "clean_numbers ns" "\<forall>i l. l \<in> set (case files i of None \<Rightarrow> [] | Some ls \<Rightarrow> ls) \<longrightarrow> one_line l"
    and "s = foldl (\<lambda>s (io, ts, name, flds). event c io ns ts name flds s) (create_auditor c can files) evs"
  shows "(\<forall>i. \<forall>l \<in> set (lines_of s i). one_line l) \<and> (\<forall>l \<in> set (stdout s). one_line l) \<and>
    (\<forall>r \<in> set (sunk s). fst ` set r \<inter> set BLOCK = {})"
proof -
  have "tidy \<lparr>fd = False, fileBroken = b, bytesWritten = 0, logs = files, dropped = [], stdout = [], sunk = []\<rparr>" for b
    using assms(2) by (simp add: tidy_def lines_of_def)
  then have "tidy (create_auditor c can files)" by (auto simp: create_auditor_def Let_def intro: tidy_open)
  then have "tidy (foldl (\<lambda>s (io, ts, name, flds). event c io ns ts name flds s) (create_auditor c can files) evs)"
    by (induction evs rule: rev_induct) (auto simp: tidy_event [OF assms(1)])
  then show ?thesis using assms(3) by (simp add: tidy_def)
qed

lemma audit_lines_intact_witness:
  "one_line (hd (stdout (foldl (\<lambda>s (io, ts, name, flds). event
       \<lparr>a_disabled = False, a_stdout = True, a_fileOn = False, a_path = ''x'', a_rotateBytes = 0, a_rotateKeep = 0\<rparr> io (\<lambda>_. []) ts name flds s)
     (create_auditor \<lparr>a_disabled = False, a_stdout = True, a_fileOn = False, a_path = ''x'', a_rotateBytes = 0, a_rotateKeep = 0\<rparr> True Map.empty)
     [(\<lparr>io_write = True, io_rename = (\<lambda>_. True), io_open = True, io_reopen = True\<rparr>, ''t'', ''auth.deny'', [(''token'', str ''x'')])])))"
proof -
  let ?c = "\<lparr>a_disabled = False, a_stdout = True, a_fileOn = False, a_path = ''x'', a_rotateBytes = 0, a_rotateKeep = 0\<rparr>"
  let ?evs = "[(\<lparr>io_write = True, io_rename = (\<lambda>_. True), io_open = True, io_reopen = True\<rparr>, ''t'', ''auth.deny'', [(''token'', str ''x'')])]"
  let ?s = "foldl (\<lambda>s (io, ts, name, flds). event ?c io (\<lambda>_. []) ts name flds s) (create_auditor ?c True Map.empty) ?evs"
  have "audit_line (\<lambda>_. []) (audit_record ''t'' ''auth.deny'' [(''token'', str ''x'')]) ''auth.deny'' \<noteq> None"
  proof -
    have "safe_fields [(''token'', str ''x'')] = []" by (simp add: safe_fields_def BLOCK_def)
    then have "audit_record ''t'' ''auth.deny'' [(''token'', str ''x'')] =
        [(''ts'', str ''t''), (''event'', str ''auth.deny''), (''level'', str ''info'')]"
      by (simp add: audit_record_def field_level_def)
    moreover have "\<exists>t. json_text (\<lambda>_. []) (obj [(''ts'', str ''t''), (''event'', str ''auth.deny''), (''level'', str ''info'')]) = Some (Some t)"
      by (simp add: obj_def str_def)
    ultimately show ?thesis by (auto simp: audit_line_def Let_def)
  qed
  then have "stdout ?s \<noteq> []" by (auto simp: event_def Let_def create_auditor_def write_line_def)
  then have "hd (stdout ?s) \<in> set (stdout ?s)" by simp
  then show ?thesis
    using audit_lines_intact [OF _ _ refl, of "\<lambda>_. []" Map.empty ?c True ?evs] by (simp add: clean_numbers_def)
qed

subsection \<open>Rotation keeps the log\<close>

text \<open>All lines that are or were in the files, oldest first.\<close>

definition kept :: "nat \<Rightarrow> auditor \<Rightarrow> line list" where
  "kept keep s = dropped s @ concat (map (lines_of s) (rev [0..<Suc keep]))"

definition attached :: "audit_config \<Rightarrow> auditor \<Rightarrow> bool" where
  "attached c s \<longleftrightarrow> fd s \<and> \<not> fileBroken s \<and> logs s 0 \<noteq> None \<and>
     bytesWritten s = sum_list (map line_bytes (lines_of s 0)) \<and>
     (0 < a_rotateBytes c \<and> 0 < a_rotateKeep c \<longrightarrow> bytesWritten s < a_rotateBytes c)"

lemma concat_shift:
  assumes "f (Suc i) = []" "i < n"
  shows "concat (map (f(Suc i := f i, i := [])) (rev [0..<Suc n])) = concat (map f (rev [0..<Suc n]))"
  using assms(2)
proof (induction n)
  case (Suc n)
  let ?g = "f(Suc i := f i, i := [])"
  show ?case
  proof (cases "i = n")
    case True
    have "map ?g (rev [0..<n]) = map f (rev [0..<n])" using True by simp
    moreover have "rev [0..<Suc (Suc n)] = Suc n # n # rev [0..<n]" by simp
    moreover have "?g (Suc n) = f n" "?g n = []" using True by simp_all
    ultimately show ?thesis using True assms(1) by (simp only: list.map concat.simps append_Nil)
  next
    case False
    then have "?g (Suc n) = f (Suc n)" "i < n" using Suc.prems by auto
    then show ?thesis using Suc.IH by simp
  qed
qed simp

lemma lines_of_move: "lines_of (move_log i s) = (lines_of s)(Suc i := lines_of s i, i := [])"
  by (auto simp: lines_of_def move_log_def fun_eq_iff)

lemma kept_move: "logs s (Suc i) = None \<Longrightarrow> i < keep \<Longrightarrow> kept keep (move_log i s) = kept keep s"
  using concat_shift [of "lines_of s" i keep]
  by (simp only: kept_def lines_of_move) (simp add: move_log_def lines_of_def)

lemma kept_shift:
  assumes "i \<le> keep" "i < keep \<Longrightarrow> logs s i = None"
  shows "kept keep (shift_logs (\<lambda>_. True) keep i s) = kept keep s \<and>
    (0 < keep \<longrightarrow> logs (shift_logs (\<lambda>_. True) keep i s) 0 = None \<or> (i = 0 \<and> keep = 0))"
  using assms
proof (induction i arbitrary: s)
  case 0
  then show ?case by auto
next
  case (Suc i)
  show ?case
  proof (cases "logs s i")
    case None
    then show ?thesis using Suc.IH [of s] Suc.prems by simp
  next
    case (Some ls)
    let ?d = "if Suc i = keep then s\<lparr>dropped := dropped s @ lines_of s keep, logs := (logs s)(keep := None)\<rparr> else s"
    have d: "kept keep ?d = kept keep s"
    proof (cases "Suc i = keep")
      case True
      have "map (lines_of ?d) (rev [0..<keep]) = map (lines_of s) (rev [0..<keep])"
        using True by (auto simp: lines_of_def)
      moreover have "lines_of ?d keep = []" "dropped ?d = dropped s @ lines_of s keep" using True by (simp_all add: lines_of_def)
      moreover have "rev [0..<Suc keep] = keep # rev [0..<keep]" by simp
      ultimately show ?thesis unfolding kept_def by (simp only: list.map concat.simps append_Nil append_assoc)
    qed simp
    have "logs ?d (Suc i) = None" using Suc.prems by auto
    then have m: "kept keep (move_log i ?d) = kept keep s" using kept_move [of ?d i keep] d Suc.prems by simp
    have "logs (move_log i ?d) i = None" by (simp add: move_log_def)
    then show ?thesis using Suc.IH [of "move_log i ?d"] Suc.prems Some m by (simp add: Let_def)
  qed
qed

lemma kept_open [simp]: "kept keep (open_log s) = kept keep s"
proof -
  have "lines_of (open_log s) = lines_of s" by (auto simp: open_log_def lines_of_def fun_eq_iff)
  then show ?thesis by (simp add: kept_def) (simp add: open_log_def)
qed

lemma shift_broken [simp]: "fileBroken (shift_logs can keep i s) = fileBroken s"
  by (induction i arbitrary: s) (auto simp: Let_def move_log_def)

definition fine_io :: audit_io where
  "fine_io = \<lparr>io_write = True, io_rename = (\<lambda>_. True), io_open = True, io_reopen = True\<rparr>"

lemma write_kept:
  assumes "attached c s"
  shows "attached c (write_line c fine_io l s) \<and> kept (a_rotateKeep c) (write_line c fine_io l s) = kept (a_rotateKeep c) s @ [l]"
proof -
  let ?s = "s\<lparr>logs := (logs s)(0 \<mapsto> lines_of s 0 @ [l]), bytesWritten := bytesWritten s + line_bytes l\<rparr>"
  have s: "fd s" "\<not> fileBroken s" "bytesWritten s = sum_list (map line_bytes (lines_of s 0))"
    using assms by (simp_all add: attached_def)
  have "lines_of ?s = (lines_of s)(0 := lines_of s 0 @ [l])" by (auto simp: lines_of_def fun_eq_iff)
  moreover have "[0..<Suc n] = 0 # [1..<Suc n]" for n by (simp add: upt_conv_Cons del: upt_Suc)
  ultimately have k: "kept (a_rotateKeep c) ?s = kept (a_rotateKeep c) s @ [l]"
    by (simp add: kept_def del: upt_Suc)
  show ?thesis
  proof (cases "0 < a_rotateBytes c \<and> a_rotateBytes c \<le> bytesWritten ?s")
    case False
    then show ?thesis using s k by (auto simp: write_line_def fine_io_def attached_def lines_of_def)
  next
    case True
    let ?t = "shift_logs (\<lambda>_. True) (a_rotateKeep c) (a_rotateKeep c) (?s\<lparr>fd := False\<rparr>)"
    have w: "write_line c fine_io l s = open_log ?t"
      using True s by (simp add: write_line_def fine_io_def rotate_log_def)
    have sh: "kept (a_rotateKeep c) ?t = kept (a_rotateKeep c) (?s\<lparr>fd := False\<rparr>)"
      "0 < a_rotateKeep c \<longrightarrow> logs ?t 0 = None" using kept_shift [of "a_rotateKeep c" "a_rotateKeep c" "?s\<lparr>fd := False\<rparr>"] by auto
    have "kept (a_rotateKeep c) (?s\<lparr>fd := False\<rparr>) = kept (a_rotateKeep c) ?s" by (simp add: kept_def lines_of_def [abs_def])
    moreover have "attached c (open_log ?t)"
      using sh(2) True s(2) by (auto simp: attached_def open_log_def lines_of_def)
    ultimately show ?thesis using w sh(1) k by simp
  qed
qed

interpretation log_file: conserving "\<lambda>s l. write_line c fine_io l s" "attached c" "kept (a_rotateKeep c)" "\<lambda>l. [l]" "(@)" "[]"
  for c
  by unfold_locales (auto simp: write_kept)

text \<open>Rotation loses only the oldest lines: as long as the file system works, the files from the oldest
  to the current one hold a final part of everything written, in order, and what is missing was in
  files that rotation discarded; with rotation on, the current file stays below the limit.\<close>

theorem rotation_keeps_suffix:
  assumes "s = foldl (\<lambda>s l. write_line c fine_io l s) (create_auditor c True Map.empty) ls" "a_fileOn c"
    and "0 < a_rotateBytes c" "0 < a_rotateKeep c"
  shows "ls = dropped s @ concat (map (lines_of s) (rev [0..<Suc (a_rotateKeep c)])) \<and> bytesWritten s < a_rotateBytes c"
proof -
  have "attached c (create_auditor c True Map.empty)" "kept (a_rotateKeep c) (create_auditor c True Map.empty) = []"
    using assms(2,3) by (simp_all add: create_auditor_def Let_def attached_def)
      (simp_all add: open_log_def lines_of_def kept_def [abs_def])
  moreover have "log_file.total_in ls = ls" by (induction ls) simp_all
  ultimately have "attached c s" "kept (a_rotateKeep c) s = ls"
    using log_file.account_run [of c "create_auditor c True Map.empty" ls] assms(1) by simp_all
  then show ?thesis using assms(3,4) by (simp add: kept_def attached_def)
qed

lemma rotation_keeps_suffix_witness:
  "let c = \<lparr>a_disabled = False, a_stdout = True, a_fileOn = True, a_path = ''x'', a_rotateBytes = 2, a_rotateKeep = 1\<rparr>;
       s = foldl (\<lambda>s l. write_line c fine_io l s) (create_auditor c True Map.empty) [[65], [66], [67], [68], [69]]
   in [[65], [66], [67], [68], [69]] = dropped s @ concat (map (lines_of s) (rev [0..<Suc 1]))"
proof -
  define c where "c = \<lparr>a_disabled = False, a_stdout = True, a_fileOn = True, a_path = ''x'', a_rotateBytes = 2, a_rotateKeep = 1\<rparr>"
  have "a_fileOn c" "0 < a_rotateBytes c" "0 < a_rotateKeep c" "a_rotateKeep c = 1" by (simp_all add: c_def)
  from rotation_keeps_suffix [OF refl this(1-3), of "[[65], [66], [67], [68], [69]]"] this(4)
  show ?thesis unfolding Let_def c_def [symmetric] by (simp only:)
qed

text \<open>With \<open>QV_AUDIT_ROTATE_KEEP=0\<close>, which the configuration accepts, nothing is ever rotated out: the file
  is closed and opened again on every event beyond the limit and grows on.\<close>

lemma keep_zero_never_rotates:
  assumes "a_rotateKeep c = 0" "a_fileOn c"
  shows "lines_of (foldl (\<lambda>s l. write_line c fine_io l s) (create_auditor c True Map.empty) ls) 0 = ls"
proof -
  let ?run = "\<lambda>ls. foldl (\<lambda>s l. write_line c fine_io l s) (create_auditor c True Map.empty) ls"
  have step: "attached c s \<Longrightarrow> dropped (write_line c fine_io l s) = dropped s" for s l
    using assms(1) by (auto simp: write_line_def rotate_log_def fine_io_def open_log_def Let_def)
  have start: "attached c (create_auditor c True Map.empty)" "kept 0 (create_auditor c True Map.empty) = []"
    "dropped (create_auditor c True Map.empty) = []"
    using assms by (simp_all add: create_auditor_def Let_def attached_def open_log_def lines_of_def kept_def)
  have "attached c (?run ls) \<and> dropped (?run ls) = []"
    using start write_kept step by (induction ls rule: rev_induct) auto
  moreover have "kept 0 (?run ls) = ls"
  proof -
    have "log_file.total_in ls = ls" by (induction ls) simp_all
    then show ?thesis using log_file.account_run [OF start(1), of ls] start(2) assms(1) by simp
  qed
  ultimately show ?thesis by (simp add: kept_def)
qed

end
