(* ===== verification/Otlp.thy ===== *)
theory Otlp
  imports Js_Value Ledger
begin

section \<open>The trace exporter\<close>

text \<open>
  \<open>qv-server/otlp.mjs\<close>: the configuration, the conversion of an audit event to a span, the payload, and the
  buffering exporter as a machine over calls of \<open>onAuditEvent\<close> and \<open>flush\<close>, the timer, and the end of a
  post the timer waits for. \<open>URL\<close> and \<open>Date.parse\<close> are arguments; the post itself is the batch that is
  sent. A number of the configuration is \<open>None\<close> for NaN and \<open>Some None\<close> for an infinity, taken as positive.
\<close>

subsection \<open>Configuration\<close>

type_synonym number = "rat option option"

record otlp_config =
  o_protocol :: string
  o_token :: "string option"
  o_batchMax :: number
  o_flushMs :: number
  o_timeoutMs :: number

datatype otlp_error = BadUrl | BadProtocol

definition number_env :: "string option \<Rightarrow> rat \<Rightarrow> number" where
  "number_env v d = (case v of None \<Rightarrow> Some (Some d) | Some s \<Rightarrow> if s = [] then Some (Some d) else js_number s)"

text \<open>\<open>Inr None\<close>: not enabled. \<open>parse_url\<close> gives the protocol of a URL that parses.\<close>

definition load_otlp_config ::
  "(string \<Rightarrow> string option) \<Rightarrow> (string \<Rightarrow> string option) \<Rightarrow> otlp_error + otlp_config option" where
  "load_otlp_config parse_url env =
     (case map_option js_trim (env ''QV_OTLP_ENDPOINT'') of
        None \<Rightarrow> Inr None
      | Some endpoint \<Rightarrow>
          if endpoint = [] then Inr None
          else (case parse_url endpoint of
                  None \<Rightarrow> Inl BadUrl
                | Some protocol \<Rightarrow>
                    if protocol \<noteq> ''http:'' \<and> protocol \<noteq> ''https:'' then Inl BadProtocol
                    else Inr (Some
                      \<lparr>o_protocol = protocol,
                       o_token = (case env ''QV_OTLP_TOKEN'' of Some t \<Rightarrow> if t = [] then None else Some t | None \<Rightarrow> None),
                       o_batchMax = number_env (env ''QV_OTLP_BATCH_MAX'') 128,
                       o_flushMs = number_env (env ''QV_OTLP_FLUSH_MS'') 5000,
                       o_timeoutMs = number_env (env ''QV_OTLP_TIMEOUT_MS'') 5000\<rparr>)))"

subsection \<open>Spans\<close>

definition attr_value :: "(jsnum \<Rightarrow> jsstr) \<Rightarrow> jsval \<Rightarrow> jsval" where
  "attr_value ns v =
     (case v of
        JStr s \<Rightarrow> obj [(''stringValue'', v)]
      | JBool b \<Rightarrow> obj [(''boolValue'', v)]
      | JNum n \<Rightarrow>
          if (case n of Finite r \<Rightarrow> r = of_int \<lfloor>r\<rfloor> | NonFinite \<Rightarrow> False)
          then obj [(''intValue'', JStr (ns n))] else obj [(''doubleValue'', v)]
      | JBig i \<Rightarrow> obj [(''intValue'', str (int_text i))]
      | _ \<Rightarrow> obj [(''stringValue'', (case json_text ns v of Some (Some t) \<Rightarrow> JStr t | _ \<Rightarrow> undef))])"

definition attrs :: "(jsnum \<Rightarrow> jsstr) \<Rightarrow> (string \<times> jsval) list \<Rightarrow> jsval" where
  "attrs ns kv = JArr (map (\<lambda>(k, v). obj [(''key'', str k), (''value'', attr_value ns v)])
     (filter (\<lambda>(k, v). \<not> nullish v) kv))"

definition span_or :: "jsval \<Rightarrow> jsval \<Rightarrow> jsval" where
  "span_or v w = (if truthy v then v else w)"

definition at_least :: "jsval \<Rightarrow> rat \<Rightarrow> bool" where
  "at_least v n = (case to_number v of Some r \<Rightarrow> n \<le> r | None \<Rightarrow> False)"

definition duration_ns :: "jsval \<Rightarrow> int option" where
  "duration_ns ms = (case ms of
     JNum (Finite r) \<Rightarrow> Some \<lfloor>max 0 r * 1000000 + 1 / 2\<rfloor> | JNum NonFinite \<Rightarrow> None | _ \<Rightarrow> Some 0)"

text \<open>\<open>None\<close> is a throw (a time that is not a number), \<open>Some None\<close> the value \<open>null\<close>.\<close>

definition audit_to_span :: "(jsnum \<Rightarrow> jsstr) \<Rightarrow> (jsval \<Rightarrow> int option) \<Rightarrow> int \<Rightarrow> jsval \<Rightarrow> jsval option option" where
  "audit_to_span ns date_parse now ev =
     (if (case ev of JObj _ \<Rightarrow> False | JArr _ \<Rightarrow> False | _ \<Rightarrow> True) then Some None
      else if \<not> truthy (jget ev ''traceId'') \<or> \<not> truthy (jget ev ''spanId'') then Some None
      else case (if truthy (jget ev ''ts'') then date_parse (jget ev ''ts'') else Some now, duration_ns (jget ev ''ms'')) of
        (Some tsMs, Some dur) \<Rightarrow>
          (let startNs = tsMs * 1000000; endNs = startNs + dur;
               status = (if at_least (jget ev ''status'') 500 then 2 else if at_least (jget ev ''status'') 400 then 2 else 1)
           in Some (Some (obj
             [(''traceId'', jget ev ''traceId''),
              (''spanId'', jget ev ''spanId''),
              (''parentSpanId'', span_or (jget ev ''parentSpanId'') undef),
              (''name'', span_or (jget ev ''template'') (span_or (jget ev ''event'') (str ''sigvault.request''))),
              (''kind'', num 2),
              (''startTimeUnixNano'', str (int_text startNs)),
              (''endTimeUnixNano'', str (int_text endNs)),
              (''attributes'', attrs ns
                 [(''http.method'', jget ev ''method''), (''http.route'', jget ev ''template''),
                  (''http.status_code'', jget ev ''status''), (''http.target'', jget ev ''path''),
                  (''net.peer.ip'', jget ev ''ip''), (''sigvault.event'', jget ev ''event''),
                  (''sigvault.request_id'', jget ev ''requestId''), (''sigvault.key_id'', jget ev ''keyId''),
                  (''sigvault.suite'', jget ev ''suite''), (''sigvault.token_type'', jget ev ''tokenType'')]),
              (''status'', obj [(''code'', num status)])])))
      | _ \<Rightarrow> None)"

definition build_payload :: "(jsnum \<Rightarrow> jsstr) \<Rightarrow> jsval list \<Rightarrow> jsval" where
  "build_payload ns spans =
     obj [(''resourceSpans'', JArr [obj
       [(''resource'', obj [(''attributes'', attrs ns
           [(''service.name'', str ''sigvault-server''), (''service.version'', str ''4.3.0'')])]),
        (''scopeSpans'', JArr [obj
           [(''scope'', obj [(''name'', str ''sigvault''), (''version'', str ''4.3.0'')]),
            (''spans'', JArr spans)]])]])]"

subsection \<open>The exporter\<close>

record exporter =
  buf :: "jsval list"
  timer :: bool
  stopping :: bool
  waits :: nat                   \<comment> \<open>timer callbacks that await their flush\<close>
  posts :: "jsval list list"     \<comment> \<open>the batches posted\<close>

definition create_exporter :: exporter where
  "create_exporter = \<lparr>buf = [], timer = False, stopping = False, waits = 0, posts = []\<rparr>"

text \<open>\<open>buf.length >= batchMax\<close>, and how many elements \<open>splice(0, batchMax)\<close> removes.\<close>

definition batch_full :: "number \<Rightarrow> nat \<Rightarrow> bool" where
  "batch_full m n = (case m of Some (Some r) \<Rightarrow> r \<le> of_nat n | _ \<Rightarrow> False)"

definition splice_count :: "number \<Rightarrow> nat \<Rightarrow> nat" where
  "splice_count m n = (case m of None \<Rightarrow> 0 | Some None \<Rightarrow> n | Some (Some r) \<Rightarrow> min n (nat (trunc_rat r)))"

definition flush :: "otlp_config \<Rightarrow> exporter \<Rightarrow> exporter" where
  "flush c s =
     (if buf s = [] then s
      else let d = splice_count (o_batchMax c) (length (buf s)) in
        s\<lparr>buf := drop d (buf s), posts := posts s @ [take d (buf s)]\<rparr>)"

definition schedule :: "exporter \<Rightarrow> exporter" where
  "schedule s = (if timer s \<or> stopping s then s else s\<lparr>timer := True\<rparr>)"

definition on_span :: "otlp_config \<Rightarrow> jsval \<Rightarrow> exporter \<Rightarrow> exporter" where
  "on_span c x s =
     (let s = s\<lparr>buf := buf s @ [x]\<rparr> in
      if batch_full (o_batchMax c) (length (buf s)) then flush c s else schedule s)"

definition stop :: "exporter \<Rightarrow> exporter" where
  "stop s = s\<lparr>stopping := True, timer := False\<rparr>"

datatype otlp_event = Span jsval | Flush | TimerFires | PostEnds | Stop

fun otlp_step :: "otlp_config \<Rightarrow> exporter \<Rightarrow> otlp_event \<Rightarrow> exporter" where
  "otlp_step c s (Span x) = on_span c x s"
| "otlp_step c s Flush = flush c s"
| "otlp_step c s TimerFires = (if timer s then (flush c (s\<lparr>timer := False\<rparr>))\<lparr>waits := waits s + 1\<rparr> else s)"
| "otlp_step c s PostEnds =
     (if waits s = 0 then s
      else let s = s\<lparr>waits := waits s - 1\<rparr> in if \<not> stopping s \<and> buf s \<noteq> [] then schedule s else s)"
| "otlp_step c s Stop = stop s"

subsection \<open>What is exported\<close>

definition handed :: "exporter \<Rightarrow> jsval list" where
  "handed s = concat (posts s) @ buf s"

fun span_in :: "otlp_event \<Rightarrow> jsval list" where
  "span_in (Span x) = [x]"
| "span_in _ = []"

lemma handed_flush [simp]: "handed (flush c s) = handed s"
  by (simp add: handed_def flush_def Let_def)

lemma handed_schedule [simp]: "handed (schedule s) = handed s"
  by (simp add: handed_def schedule_def)

lemma handed_step: "handed (otlp_step c s ev) = handed s @ span_in ev"
proof (cases ev)
  case (Span x)
  have "handed (s\<lparr>buf := buf s @ [x]\<rparr>) = handed s @ [x]" by (simp add: handed_def)
  then show ?thesis using Span by (auto simp: on_span_def Let_def)
next
  case TimerFires
  have "handed (s'\<lparr>waits := n\<rparr>) = handed s'" "handed (s\<lparr>timer := False\<rparr>) = handed s" for s' n by (simp_all add: handed_def)
  then show ?thesis using TimerFires by simp
next
  case PostEnds
  have "handed (s\<lparr>waits := n\<rparr>) = handed s" for n by (simp add: handed_def)
  then show ?thesis using PostEnds by (simp add: Let_def)
next
  case Stop
  then show ?thesis by (simp add: stop_def handed_def)
qed simp

interpretation spans: conserving "otlp_step c" "\<lambda>_. True" handed span_in "(@)" "[]"
  for c
  by unfold_locales (simp_all add: handed_step)

text \<open>With a limit of at least one span the buffer stays below it, and a span in it has a timer or a
  waiting callback to send it.\<close>

definition flowing :: "nat \<Rightarrow> exporter \<Rightarrow> bool" where
  "flowing m s \<longleftrightarrow> length (buf s) < m \<and> (\<forall>b \<in> set (posts s). 0 < length b \<and> length b \<le> m) \<and>
     (buf s \<noteq> [] \<and> \<not> stopping s \<longrightarrow> timer s)"

lemma flowing_flush:
  assumes "o_batchMax c = Some (Some (of_nat m))" "length (buf s) \<le> m" "\<forall>b \<in> set (posts s). 0 < length b \<and> length b \<le> m" "0 < m"
  shows "flowing m (flush c s)"
  using assms by (auto simp: flowing_def flush_def splice_count_def trunc_rat_def Let_def)

lemma flowing_step:
  assumes "o_batchMax c = Some (Some (of_nat m))" "0 < m" "flowing m s"
  shows "flowing m (otlp_step c s ev)"
proof (cases ev)
  case (Span x)
  let ?s = "s\<lparr>buf := buf s @ [x]\<rparr>"
  show ?thesis
  proof (cases "length (buf ?s) < m")
    case True
    then have "\<not> batch_full (o_batchMax c) (length (buf ?s))"
      using assms(1) by (simp add: batch_full_def)
    then show ?thesis using Span True assms(3) by (auto simp: on_span_def Let_def schedule_def flowing_def)
  next
    case False
    then have "length (buf ?s) = m" "batch_full (o_batchMax c) (length (buf ?s))"
      using assms by (auto simp: flowing_def batch_full_def)
    moreover from this have "flowing m (flush c ?s)"
      using assms by (intro flowing_flush) (auto simp: flowing_def)
    ultimately show ?thesis using Span by (simp add: on_span_def Let_def)
  qed
next
  case Flush
  have "flowing m (flush c s)" using assms by (intro flowing_flush) (auto simp: flowing_def)
  then show ?thesis using Flush by simp
next
  case TimerFires
  have "flowing m (flush c (s\<lparr>timer := False\<rparr>))" using assms by (intro flowing_flush) (auto simp: flowing_def)
  then show ?thesis using TimerFires assms(3) by (auto simp: flowing_def)
next
  case PostEnds
  then show ?thesis using assms(3) by (auto simp: flowing_def schedule_def Let_def)
next
  case Stop
  then show ?thesis using assms(3) by (auto simp: flowing_def stop_def)
qed

text \<open>The exporter loses, repeats and reorders nothing: the posted batches followed by the buffer are the
  spans handed in, in order; with a batch limit of at least one every batch is non-empty and within the limit,
  the buffer stays below it, and as long as the exporter is not stopped a buffered span has its timer.\<close>

theorem otlp_exports_in_order:
  assumes "o_batchMax c = Some (Some (of_nat m))" "0 < m" "s = foldl (otlp_step c) create_exporter evs"
  shows "concat (posts s) @ buf s = concat (map span_in evs) \<and>
    (\<forall>b \<in> set (posts s). 0 < length b \<and> length b \<le> m) \<and> length (buf s) < m \<and> (buf s \<noteq> [] \<and> \<not> stopping s \<longrightarrow> timer s)"
proof -
  have "spans.total_in evs = concat (map span_in evs)" by (induction evs) simp_all
  then have "handed s = concat (map span_in evs)"
    using spans.account_run [of c create_exporter evs] assms(3) by (simp add: handed_def create_exporter_def)
  moreover have "flowing m s"
    unfolding assms(3)
  proof (induction evs rule: rev_induct)
    case Nil
    then show ?case using assms(2) by (simp add: flowing_def create_exporter_def)
  qed (simp add: flowing_step [OF assms(1,2)])
  ultimately show ?thesis by (simp add: handed_def flowing_def)
qed

lemma otlp_exports_in_order_witness:
  "posts (foldl (otlp_step \<lparr>o_protocol = ''https:'', o_token = None, o_batchMax = Some (Some 2), o_flushMs = None, o_timeoutMs = None\<rparr>)
       create_exporter [Span JNull, TimerFires, Span (num 1), Span (num 2)]) = [[JNull], [num 1, num 2]] \<and>
   buf (foldl (otlp_step \<lparr>o_protocol = ''https:'', o_token = None, o_batchMax = Some (Some 2), o_flushMs = None, o_timeoutMs = None\<rparr>)
       create_exporter [Span JNull, TimerFires, Span (num 1), Span (num 2)]) = []"
proof -
  let ?c = "\<lparr>o_protocol = ''https:'', o_token = None, o_batchMax = Some (Some 2), o_flushMs = None, o_timeoutMs = None\<rparr>"
  let ?s = "foldl (otlp_step ?c) create_exporter [Span JNull, TimerFires, Span (num 1), Span (num 2)]"
  have p: "posts ?s = [[JNull], [num 1, num 2]]"
    by (simp add: create_exporter_def on_span_def flush_def schedule_def batch_full_def splice_count_def trunc_rat_def Let_def)
  from otlp_exports_in_order [of ?c 2, OF _ _ refl, of "[Span JNull, TimerFires, Span (num 1), Span (num 2)]"] p
  show ?thesis by simp
qed

text \<open>With \<open>QV_OTLP_BATCH_MAX=0\<close> every span posts an empty batch and the buffer only grows.\<close>

lemma batch_zero_exports_nothing:
  assumes "o_batchMax c = Some (Some 0)"
  shows "concat (posts (foldl (otlp_step c) create_exporter evs)) = []"
proof -
  have "concat (posts s) = [] \<Longrightarrow> concat (posts (otlp_step c s ev)) = []" for s ev
    using assms by (cases ev) (auto simp: on_span_def flush_def schedule_def stop_def splice_count_def trunc_rat_def Let_def)
  then show ?thesis by (induction evs rule: rev_induct) (simp_all add: create_exporter_def)
qed

end
