(* ===== verification/Pg_Wire.thy ===== *)
theory Pg_Wire
  imports Chain_Store Utf8
begin

section \<open>The PostgreSQL wire format\<close>

text \<open>
  The message layer of \<open>qv-server/postgres.mjs\<close>: frames, the start packet, the messages of an
  extended query, and the parsers of the replies. Offsets are integers, because the code computes
  them with \<open>indexOf\<close>, which returns -1: \<open>subarray\<close> then counts from the end and the next
  offset is 0. Two loops follow such offsets and may not end; they are
  \<open>partial_function (option)\<close>, with \<open>None\<close> for a call that never returns.
\<close>

subsection \<open>Buffers\<close>

definition rel_index :: "nat \<Rightarrow> int \<Rightarrow> nat" where
  "rel_index n i = nat (if i < 0 then max 0 (int n + i) else min i (int n))"

definition subarray :: "bytes \<Rightarrow> int \<Rightarrow> int \<Rightarrow> bytes" where
  "subarray p a b = slice (rel_index (length p) a) (rel_index (length p) b) p"

definition index_zero :: "bytes \<Rightarrow> int \<Rightarrow> int" where
  "index_zero p off =
     (let r = drop (nat off) p; pre = takeWhile (\<lambda>b. b \<noteq> 0) r in
      if length pre < length r then off + int (length pre) else -1)"

text \<open>\<open>toString('utf8')\<close>: like \<open>TextDecoder\<close>, but a byte order mark stays.\<close>

definition buf_text :: "bytes \<Rightarrow> jsstr" where
  "buf_text bs = concat (map units_of (utf8_run 0 0 0x80 0xBF bs))"

definition cstr :: "jsstr \<Rightarrow> bytes" where
  "cstr s = utf8_encode (s @ [0])"

definition read_uint :: "nat \<Rightarrow> bytes \<Rightarrow> int \<Rightarrow> nat option" where
  "read_uint k p off =
     (if off < 0 \<or> int (length p) < off + int k then None else Some (be_dec (slice (nat off) (nat off + k) p)))"

definition read_int32 :: "bytes \<Rightarrow> int \<Rightarrow> int option" where
  "read_int32 p off = map_option (\<lambda>n. if n < 2 ^ 31 then int n else int n - 2 ^ 32) (read_uint 4 p off)"

subsection \<open>Frames\<close>

text \<open>The loop of \<open>_onData\<close>: the frames that are complete, in order, and what stays in the buffer.\<close>

function frames :: "bytes \<Rightarrow> (nat \<times> bytes) list \<times> bytes" where
  "frames buf =
     (if length buf < 5 then ([], buf)
      else let len = be_dec (slice 1 5 buf) in
        if length buf < 1 + len then ([], buf)
        else case frames (drop (1 + len) buf) of
          (fs, rest) \<Rightarrow> ((unat (buf ! 0), slice 5 (1 + len) buf) # fs, rest))"
  by pat_completeness auto
termination
  by (relation "measure length") (auto simp: Let_def)

declare frames.simps [simp del]

text \<open>\<open>_send\<close>; the start packet and the password of a sub-protocol have no tag.\<close>

definition frame :: "char \<Rightarrow> bytes \<Rightarrow> bytes" where
  "frame tag body = [word_of_nat (of_char tag)] @ be_enc 4 (length body + 4) @ body"

definition startup_packet :: "jsstr \<Rightarrow> jsstr \<Rightarrow> jsstr \<Rightarrow> bytes" where
  "startup_packet user database app =
     (let body = [0, 3, 0, 0] @ concat (map cstr [js ''user'', user,
            js ''database'', (if database = [] then user else database),
            js ''application_name'', (if app = [] then js ''sigvault-server'' else app),
            js ''client_encoding'', js ''UTF8'']) @ [0]
      in be_enc 4 (length body + 4) @ body)"

subsection \<open>The messages of a query\<close>

definition bind_param :: "pg_param \<Rightarrow> bytes" where
  "bind_param p = (case param_text p of
     None \<Rightarrow> be_enc 4 (2 ^ 32 - 1)
   | Some s \<Rightarrow> (let b = utf8_encode (js s) in be_enc 4 (length b) @ b))"

definition parse_message :: "jsstr \<Rightarrow> bytes" where
  "parse_message sql = frame (CHR ''P'') (cstr [] @ cstr sql @ be_enc 2 0)"

definition bind_message :: "pg_param list \<Rightarrow> bytes" where
  "bind_message params =
     frame (CHR ''B'') (cstr [] @ cstr [] @ be_enc 2 0 @ be_enc 2 (length params) @
       concat (map bind_param params) @ be_enc 2 0)"

definition execute_message :: bytes where
  "execute_message = frame (CHR ''E'') (cstr [] @ be_enc 4 0)"

definition sync_message :: bytes where
  "sync_message = frame (CHR ''S'') []"

subsection \<open>The replies\<close>

text \<open>\<open>RowDescription\<close>: \<open>n\<close> names, each followed by 18 bytes.\<close>

fun column_names :: "nat \<Rightarrow> bytes \<Rightarrow> int \<Rightarrow> jsstr list" where
  "column_names 0 p off = []"
| "column_names (Suc n) p off =
     (let e = index_zero p off in buf_text (subarray p off e) # column_names n p (e + 1 + 18))"

text \<open>\<open>DataRow\<close>: \<open>n\<close> fields, each with its length before it; -1 is NULL. \<open>None\<close> is a \<open>RangeError\<close>.\<close>

fun row_fields :: "nat \<Rightarrow> bytes \<Rightarrow> int \<Rightarrow> jsstr option list option" where
  "row_fields 0 p off = Some []"
| "row_fields (Suc n) p off =
     (case read_int32 p off of
        None \<Rightarrow> None
      | Some len \<Rightarrow>
          if len = -1 then map_option ((#) None) (row_fields n p (off + 4))
          else map_option ((#) (Some (buf_text (subarray p (off + 4) (off + 4 + len)))))
                 (row_fields n p (off + 4 + len)))"

record pg_fields =
  f_code :: jsstr
  f_message :: jsstr
  f_severity :: jsstr
  f_detail :: jsstr
  f_hint :: jsstr

definition no_fields :: pg_fields where
  "no_fields = \<lparr>f_code = [], f_message = [], f_severity = [], f_detail = [], f_hint = []\<rparr>"

definition put_field :: "nat \<Rightarrow> jsstr \<Rightarrow> pg_fields \<Rightarrow> pg_fields" where
  "put_field tag v out =
     (if tag = 0x53 then out\<lparr>f_severity := v\<rparr> else if tag = 0x43 then out\<lparr>f_code := v\<rparr>
      else if tag = 0x4d then out\<lparr>f_message := v\<rparr> else if tag = 0x44 then out\<lparr>f_detail := v\<rparr>
      else if tag = 0x48 then out\<lparr>f_hint := v\<rparr> else out)"

partial_function (option) error_fields :: "bytes \<Rightarrow> int \<Rightarrow> pg_fields \<Rightarrow> pg_fields option" where
  "error_fields p off out =
     (if int (length p) \<le> off then Some out
      else if p ! nat off = 0 then Some out
      else let e = index_zero p (off + 1) in
        error_fields p (e + 1) (put_field (unat (p ! nat off)) (buf_text (subarray p (off + 1) e)) out))"

definition decode_error :: "bytes \<Rightarrow> pg_fields option" where
  "decode_error p = error_fields p 0 no_fields"

text \<open>The mechanisms of \<open>AuthenticationSASL\<close>, up to an empty one.\<close>

partial_function (option) mechanisms :: "bytes \<Rightarrow> int \<Rightarrow> jsstr list option" where
  "mechanisms p off =
     (let e = index_zero p off in
      if e = off then Some []
      else Option.bind (mechanisms p (e + 1)) (\<lambda>ms. Some (buf_text (subarray p off e) # ms)))"

subsection \<open>Laws of the buffer operations\<close>

lemma buf_text_encode: "well_formed s \<Longrightarrow> buf_text (utf8_encode s) = s"
  using utf8_run_scalars [of "scalars s"] scalars_valid [of _ s] units_scalars [of s]
  by (auto simp: buf_text_def utf8_encode_def)

lemma frames_short: "length buf < 5 \<Longrightarrow> frames buf = ([], buf)"
  by (simp add: frames.simps)

lemma frames_frame:
  assumes "length body + 4 < 2 ^ 32"
  shows "frames (frame tag body @ rest) = (case frames rest of (fs, r) \<Rightarrow> ((of_char tag, body) # fs, r))"
proof -
  have d: "be_dec (be_enc 4 (length body + 4)) = length body + 4" using assms by (intro be_dec_enc) simp
  have len: "length (frame tag body @ rest) = 1 + (length body + 4) + length rest" by (simp add: frame_def)
  have s: "slice 1 5 (frame tag body @ rest) = be_enc 4 (length body + 4)" by (simp add: frame_def slice_def)
  have "length (frame tag body) = 1 + (length body + 4)" by (simp add: frame_def)
  then have "drop (1 + (length body + 4)) (frame tag body @ rest) = rest" by simp
  moreover have "slice 5 (1 + (length body + 4)) (frame tag body @ rest) = body" by (simp add: frame_def slice_def)
  moreover have "unat ((frame tag body @ rest) ! 0) = of_char tag"
    by (simp add: frame_def) (metis of_char_mod_256 unat_byte_of_nat)
  ultimately show ?thesis using len s d by (subst frames.simps) (simp add: Let_def)
qed

text \<open>Where the chunks of the stream end does not matter.\<close>

lemma frames_append:
  "frames (a @ b) = (case frames a of (fs, r) \<Rightarrow> (case frames (r @ b) of (gs, r') \<Rightarrow> (fs @ gs, r')))"
proof (induction a rule: frames.induct)
  case (1 a)
  show ?case
  proof (cases "length a < 5 \<or> length a < 1 + be_dec (slice 1 5 a)")
    case True
    then have "frames a = ([], a)" by (subst frames.simps) (auto simp: Let_def)
    then show ?thesis by (simp split: prod.splits)
  next
    case False
    let ?n = "1 + be_dec (slice 1 5 a)"
    have s: "slice 1 5 (a @ b) = slice 1 5 a" "slice 5 ?n (a @ b) = slice 5 ?n a" "(a @ b) ! 0 = a ! 0"
      "drop ?n (a @ b) = drop ?n a @ b"
      using False by (auto simp: slice_def nth_append)
    have IH: "frames (drop ?n a @ b) =
        (case frames (drop ?n a) of (fs, r) \<Rightarrow> (case frames (r @ b) of (gs, r') \<Rightarrow> (fs @ gs, r')))"
      using False by (intro "1.IH") auto
    have "frames (a @ b) = (case frames (drop ?n (a @ b)) of (fs, rest) \<Rightarrow>
        ((unat ((a @ b) ! 0), slice 5 ?n (a @ b)) # fs, rest))"
      using False s(1) by (subst frames.simps) (simp add: Let_def)
    moreover have "frames a = (case frames (drop ?n a) of (fs, rest) \<Rightarrow> ((unat (a ! 0), slice 5 ?n a) # fs, rest))"
      using False by (subst frames.simps) (simp add: Let_def)
    ultimately show ?thesis using IH unfolding s by (simp split: prod.splits)
  qed
qed

lemma frames_concat:
  "\<forall>(t, b) \<in> set ms. length b + 4 < 2 ^ 32 \<Longrightarrow>
   frames (concat (map (\<lambda>(t, b). frame t b) ms) @ rest) =
     (case frames rest of (fs, r) \<Rightarrow> (map (\<lambda>(t, b). (of_char t, b)) ms @ fs, r))"
  by (induction ms) (auto simp: frames_frame split: prod.splits)

subsection \<open>C strings\<close>

lemma scalars_zero: "scalars (s @ [0]) = scalars s @ [0]"
  by (induction s rule: scalars.induct) (auto simp: is_low_def is_high_def)

lemma zero_scalars: "0 \<notin> set s \<Longrightarrow> 0 \<notin> set (scalars s)"
proof (induction s rule: scalars.induct)
  case (2 u)
  then show ?case by (auto simp: unat_eq_zero [symmetric] dest: sym)
next
  case (3 u v us)
  have "join_pair u v \<noteq> 0" by (simp add: join_pair_def)
  with 3 show ?case by (auto simp: unat_gt_0)
qed simp

lemma word_of_nat_nonzero: "0 < n \<Longrightarrow> n < 256 \<Longrightarrow> (word_of_nat n :: byte) \<noteq> 0"
  by (metis less_irrefl unat_0 unat_byte_small)

lemma enc_scalar_nonzero:
  assumes "valid_scalar c" "c \<noteq> 0"
  shows "0 \<notin> set (enc_scalar c)"
proof -
  have c: "c < 0x110000" using assms(1) by (simp add: valid_scalar_def)
  have t: "(word_of_nat (0x80 + n mod 64) :: byte) \<noteq> 0" for n
    by (rule word_of_nat_nonzero) (simp, use mod_less_divisor [of 64 n] in linarith)
  have "(word_of_nat c :: byte) \<noteq> 0" if "c < 0x80" by (rule word_of_nat_nonzero) (use that assms(2) in auto)
  moreover have "(word_of_nat (0xC0 + c div 64) :: byte) \<noteq> 0" if "c < 0x800"
    by (rule word_of_nat_nonzero) (simp, use that less_mult_imp_div_less [of c 32 64] in linarith)
  moreover have "(word_of_nat (0xE0 + c div 4096) :: byte) \<noteq> 0" if "c < 0x10000"
    by (rule word_of_nat_nonzero) (simp, use that less_mult_imp_div_less [of c 16 4096] in linarith)
  moreover have "(word_of_nat (0xF0 + c div 262144) :: byte) \<noteq> 0"
    by (rule word_of_nat_nonzero) (simp, use c less_mult_imp_div_less [of c 5 262144] in linarith)
  ultimately show ?thesis
    using t [of c] t [of "c div 64"] t [of "c div 4096"] unfolding enc_scalar_def
    by (auto simp del: of_nat_add of_nat_eq_0_iff split: if_splits)
qed

lemma cstr_encode: "cstr s = utf8_encode s @ [0]"
  by (simp add: cstr_def utf8_encode_def scalars_zero enc_scalar_def)

lemma utf8_nonzero: "0 \<notin> set s \<Longrightarrow> 0 \<notin> set (utf8_encode s)"
  using zero_scalars [of s] scalars_valid [of _ s] enc_scalar_nonzero by (fastforce simp: utf8_encode_def)

text \<open>Reading a C string that starts at an offset.\<close>

lemma index_zero_at:
  assumes "0 \<notin> set b" "p = pre @ b @ 0 # suf" "off = int (length pre)"
  shows "index_zero p off = off + int (length b)"
proof -
  have "takeWhile (\<lambda>x. x \<noteq> 0) (b @ 0 # suf) = b" using assms(1) by (induction b) auto
  then show ?thesis using assms(2,3) by (simp add: index_zero_def Let_def)
qed

lemma subarray_at:
  "p = pre @ b @ suf \<Longrightarrow> off = int (length pre) \<Longrightarrow> e = off + int (length b) \<Longrightarrow> subarray p off e = b"
  by (simp add: subarray_def rel_index_def slice_def)

definition clean_field :: "jsstr \<Rightarrow> bool" where
  "clean_field s \<longleftrightarrow> well_formed s \<and> 0 \<notin> set s"

lemma cstr_at:
  assumes "clean_field s" "p = pre @ cstr s @ suf" "off = int (length pre)"
  shows "index_zero p off = off + int (length (utf8_encode s))"
    and "buf_text (subarray p off (index_zero p off)) = s"
proof -
  have p: "p = pre @ utf8_encode s @ 0 # suf" using assms(2) by (simp add: cstr_encode)
  have z: "0 \<notin> set (utf8_encode s)" using assms(1) utf8_nonzero by (simp add: clean_field_def)
  show i: "index_zero p off = off + int (length (utf8_encode s))" by (rule index_zero_at [OF z p assms(3)])
  have "subarray p off (index_zero p off) = utf8_encode s" unfolding i by (rule subarray_at [OF p assms(3) refl])
  then show "buf_text (subarray p off (index_zero p off)) = s"
    using assms(1) buf_text_encode by (simp add: clean_field_def)
qed

lemma read_uint_at:
  assumes "p = pre @ be_enc k n @ suf" "off = int (length pre)" "n < 256 ^ k"
  shows "read_uint k p off = Some n"
  using assms be_dec_enc [OF assms(3)] by (simp add: read_uint_def slice_def)

subsection \<open>What a server sends\<close>

text \<open>The documented formats of the reply messages, as a server encodes them.\<close>

definition row_description :: "(jsstr \<times> bytes) list \<Rightarrow> bytes" where
  "row_description cols = be_enc 2 (length cols) @ concat (map (\<lambda>(n, d). cstr n @ d) cols)"

definition field_bytes :: "jsstr option \<Rightarrow> bytes" where
  "field_bytes v = (case v of None \<Rightarrow> be_enc 4 (2 ^ 32 - 1)
     | Some s \<Rightarrow> be_enc 4 (length (utf8_encode s)) @ utf8_encode s)"

definition data_row :: "jsstr option list \<Rightarrow> bytes" where
  "data_row row = be_enc 2 (length row) @ concat (map field_bytes row)"

definition error_body :: "(nat \<times> jsstr) list \<Rightarrow> bytes" where
  "error_body fs = concat (map (\<lambda>(t, v). word_of_nat t # cstr v) fs) @ [0]"

lemma column_names_encoded:
  assumes "\<forall>(n, d) \<in> set cols. clean_field n \<and> length d = 18"
    and "p = pre @ concat (map (\<lambda>(n, d). cstr n @ d) cols) @ suf" "off = int (length pre)"
  shows "column_names (length cols) p off = map fst cols"
  using assms
proof (induction cols arbitrary: pre off)
  case (Cons c cols)
  obtain n d where c: "c = (n, d)" by force
  have n: "clean_field n" "length d = 18" using Cons.prems(1) by (auto simp: c)
  have p: "p = pre @ cstr n @ d @ concat (map (\<lambda>(n, d). cstr n @ d) cols) @ suf" using Cons.prems(2) by (simp add: c)
  note at = cstr_at [OF n(1) p Cons.prems(3)]
  have "column_names (length cols) p (index_zero p off + 1 + 18) = map fst cols"
  proof (rule Cons.IH)
    show "p = (pre @ cstr n @ d) @ concat (map (\<lambda>(n, d). cstr n @ d) cols) @ suf" using p by simp
    show "index_zero p off + 1 + 18 = int (length (pre @ cstr n @ d))"
      using at(1) n(2) Cons.prems(3) by (simp add: cstr_encode)
  qed (use Cons.prems(1) in simp)
  then show ?case using at(2) by (simp add: c Let_def)
qed simp

lemma field_bytes_simps:
  "field_bytes None = be_enc 4 (2 ^ 32 - 1)"
  "field_bytes (Some s) = be_enc 4 (length (utf8_encode s)) @ utf8_encode s"
  by (simp_all add: field_bytes_def)

lemma row_fields_encoded:
  assumes "\<forall>v \<in> set row. \<forall>s. v = Some s \<longrightarrow> well_formed s \<and> length (utf8_encode s) < 2 ^ 31"
    and "p = pre @ concat (map field_bytes row) @ suf" "off = int (length pre)"
  shows "row_fields (length row) p off = Some row"
  using assms
proof (induction row arbitrary: pre off)
  case (Cons v row)
  show ?case
  proof (cases v)
    case None
    have p: "p = pre @ be_enc 4 (2 ^ 32 - 1) @ concat (map field_bytes row) @ suf"
      using Cons.prems(2) by (simp add: None field_bytes_simps)
    have "read_int32 p off = Some (-1)"
      using read_uint_at [OF p Cons.prems(3)] by (simp add: read_int32_def)
    moreover have "row_fields (length row) p (off + 4) = Some row"
      by (rule Cons.IH [where pre = "pre @ be_enc 4 (2 ^ 32 - 1)"]) (use Cons.prems(1,3) p in simp_all)
    ultimately show ?thesis by (simp add: None)
  next
    case (Some s)
    let ?b = "utf8_encode s"
    have s: "well_formed s" "length ?b < 2 ^ 31" using Cons.prems(1) Some by auto
    have p: "p = pre @ be_enc 4 (length ?b) @ ?b @ concat (map field_bytes row) @ suf"
      using Cons.prems(2) by (simp add: Some field_bytes_simps)
    have "read_int32 p off = Some (int (length ?b))"
      using read_uint_at [OF p Cons.prems(3)] s(2) by (simp add: read_int32_def)
    moreover have "subarray p (off + 4) (off + 4 + int (length ?b)) = ?b"
      by (rule subarray_at [where pre = "pre @ be_enc 4 (length ?b)"]) (use p Cons.prems(3) in simp_all)
    moreover have "row_fields (length row) p (off + 4 + int (length ?b)) = Some row"
      by (rule Cons.IH [where pre = "pre @ be_enc 4 (length ?b) @ ?b"]) (use Cons.prems(1,3) p in simp_all)
    ultimately show ?thesis using buf_text_encode [OF s(1)] by (simp add: Some)
  qed
qed simp

lemma error_fields_encoded:
  assumes "\<forall>(t, v) \<in> set fs. 0 < t \<and> t < 256 \<and> clean_field v"
    and "p = pre @ error_body fs" "off = int (length pre)"
  shows "error_fields p off out = Some (foldl (\<lambda>o' (t, v). put_field t v o') out fs)"
  using assms
proof (induction fs arbitrary: pre off out)
  case Nil
  then show ?case by (subst error_fields.simps) (simp add: error_body_def nth_append)
next
  case (Cons f fs)
  obtain t v where f: "f = (t, v)" by force
  have t: "0 < t" "t < 256" "clean_field v" using Cons.prems(1) by (auto simp: f)
  have p: "p = pre @ word_of_nat t # cstr v @ error_body fs" using Cons.prems(2) by (simp add: f error_body_def)
  have p': "p = (pre @ [word_of_nat t]) @ cstr v @ error_body fs" using p by simp
  note at = cstr_at [OF t(3) p', of "off + 1"]
  have nth: "p ! length pre = word_of_nat t" by (simp add: p nth_append)
  have "error_fields p (index_zero p (off + 1) + 1) (put_field t v out) =
      Some (foldl (\<lambda>o' (t, v). put_field t v o') (put_field t v out) fs)"
    by (rule Cons.IH [where pre = "pre @ word_of_nat t # cstr v"])
      (use Cons.prems p at(1) in \<open>simp_all add: cstr_encode\<close>)
  moreover have "(word_of_nat t :: byte) \<noteq> 0" by (rule word_of_nat_nonzero [OF t(1,2)])
  moreover have "int (length p) > off" using Cons.prems(3) by (simp add: p)
  moreover have "unat (word_of_nat t :: byte) = t" by (rule unat_byte_small [OF t(2)])
  ultimately show ?case
    using at Cons.prems(3) by (subst error_fields.simps) (simp add: nth f Let_def)
qed

subsection \<open>An error message without its terminator\<close>

text \<open>The offsets of \<open>decodeError\<close> are well-founded as long as every field has its zero byte; past one that
  has not, the loop starts again from the front and comes back to it.\<close>

function terminated :: "bytes \<Rightarrow> nat \<Rightarrow> bool" where
  "terminated p off =
     (if length p \<le> off \<or> p ! off = 0 then True
      else let e = index_zero p (int off + 1) in if e < 0 then False else terminated p (nat (e + 1)))"
  by pat_completeness auto
termination
proof (relation "measure (\<lambda>(p, off). length p - off)", goal_cases)
  case (2 p off e)
  then have "e = index_zero p (int off + 1)" "0 \<le> e" "off < length p" by simp_all
  then have "int off + 1 \<le> e" by (auto simp: index_zero_def Let_def split: if_splits)
  with 2 show ?case by auto
qed simp

declare terminated.simps [simp del]

inductive reaches :: "bytes \<Rightarrow> nat \<Rightarrow> nat \<Rightarrow> bool" for p where
  here: "reaches p off off"
| field: "reaches p a off \<Longrightarrow> off < length p \<Longrightarrow> p ! off \<noteq> 0 \<Longrightarrow> 0 \<le> index_zero p (int off + 1) \<Longrightarrow>
    reaches p a (nat (index_zero p (int off + 1) + 1))"

lemma terminated_reaches: "reaches p a off \<Longrightarrow> terminated p a \<longleftrightarrow> terminated p off"
proof (induction rule: reaches.induct)
  case (field a off)
  then show ?case by (subst (asm) (2) terminated.simps) (simp add: Let_def)
qed simp

lemma error_fields_total: "terminated p off \<Longrightarrow> \<exists>y. error_fields p (int off) out = Some y"
proof (induction p off arbitrary: out rule: terminated.induct)
  case (1 p off)
  show ?case
  proof (cases "length p \<le> off \<or> p ! off = 0")
    case True
    then show ?thesis by (subst error_fields.simps) auto
  next
    case False
    then have "0 \<le> index_zero p (int off + 1)" "terminated p (nat (index_zero p (int off + 1) + 1))"
      using "1.prems" by (auto simp: terminated.simps [of p off] Let_def split: if_splits)
    with 1 False show ?thesis by (subst error_fields.simps) (simp add: Let_def)
  qed
qed

lemma error_fields_stop:
  "error_fields p off out = Some y \<Longrightarrow> 0 \<le> off \<Longrightarrow> reaches p 0 (nat off) \<Longrightarrow> terminated p 0"
proof (induction rule: error_fields.raw_induct [rotated 1, consumes 1])
  case (1 error_fields p off out y)
  show ?case
  proof (cases "int (length p) \<le> off \<or> p ! nat off = 0")
    case True
    then have "terminated p (nat off)" by (subst terminated.simps) auto
    then show ?thesis using terminated_reaches 1(4) by blast
  next
    case False
    let ?e = "index_zero p (off + 1)"
    have more: "error_fields p (?e + 1) (put_field (unat (p ! nat off)) (buf_text (subarray p (off + 1) ?e)) out) = Some y"
      using 1(2) False by (simp add: Let_def)
    have e: "?e = -1 \<or> off + 1 \<le> ?e" by (auto simp: index_zero_def Let_def)
    have "reaches p 0 (nat (?e + 1))"
    proof (cases "?e = -1")
      case True
      then show ?thesis by (simp add: reaches.here)
    next
      case ne: False
      have "reaches p 0 (nat (index_zero p (int (nat off) + 1) + 1))"
        using e ne 1(3,4) False by (intro reaches.field) auto
      then show ?thesis using 1(3) by simp
    qed
    moreover have "0 \<le> ?e + 1" using e 1(3) by auto
    ultimately show ?thesis using 1(1) [OF more] by simp
  qed
qed

text \<open>\<open>decodeError\<close> returns exactly on bodies whose fields are all terminated.\<close>

lemma decode_error_returns: "(\<exists>y. decode_error p = Some y) \<longleftrightarrow> terminated p 0"
  using error_fields_total [of p 0 no_fields] error_fields_stop [of p 0 no_fields] reaches.here [of p 0]
  by (auto simp: decode_error_def)

end
