(* ===== verification/Pg_Client.thy ===== *)
theory Pg_Client
  imports Pg_Wire Js_Value Base64
begin

section \<open>The PostgreSQL client\<close>

text \<open>
  The class \<open>PgClient\<close> of \<open>qv-server/postgres.mjs\<close>: the queue of pending requests, each with
  the handler of its replies, the start-up with cleartext or SCRAM-SHA-256 authentication, queries,
  timeouts and the end. The closures of the code are the constructors of \<open>pg_handler\<close> with what they capture. A promise
  is a number, its settlement an entry of \<open>pc_settled\<close>. The socket is the list of what was written.
  A step that never returns (see \<open>decode_error\<close>) is \<open>None\<close>.
\<close>

subsection \<open>State\<close>

datatype pg_failure =
    AuthUnsupported "jsstr list" | ScramBadNonce | ServerProofMismatch | AuthUnknownSubtype nat
  | UnexpectedTagDuringAuth nat | UnexpectedTag nat | ServerError pg_fields
  | RangeFailure | TypeFailure | QueryTimeout | ConnectTimeout | SocketClosed | SocketError string | ClientClosed

text \<open>The error that \<open>decodeError\<close> composes: its code and its message.\<close>

definition failure_code :: "pg_fields \<Rightarrow> jsstr" where
  "failure_code f = js ''PG_'' @ (if f_code f = [] then js ''ERROR'' else f_code f)"

definition failure_message :: "pg_fields \<Rightarrow> jsstr" where
  "failure_message f = failure_code f @ js '': '' @ f_message f"

record pg_result =
  r_rows :: "jsstr option list list"
  r_columns :: "jsstr list"
  r_command :: "jsstr option"

record scram =
  sc_nonce :: string
  sc_first_bare :: string
  sc_server_key :: "bytes option"
  sc_auth_message :: "jsstr option"

datatype pg_handler = Authenticating "scram option" | Collecting pg_result "pg_fields option"

text \<open>\<open>Resolved None\<close> is the \<open>true\<close> of the start-up.\<close>

datatype pg_outcome = Resolved "pg_result option" | Rejected pg_failure

record pg_client =
  pc_buf :: bytes
  pc_queue :: "(nat \<times> pg_handler) list"
  pc_params :: "jsstr \<Rightarrow> jsstr option"
  pc_tx :: nat
  pc_closed :: bool
  pc_fatal :: "pg_failure option"
  pc_sent :: "bytes list"
  pc_settled :: "(nat \<times> pg_outcome) list"
  pc_next :: nat
  pc_draws :: nat

text \<open>The options of \<open>connect\<close>, the random bytes, and the functions of \<open>node:crypto\<close>.\<close>

record pg_env =
  pe_user :: jsstr
  pe_password :: jsstr
  pe_database :: jsstr
  pe_app :: jsstr
  pe_random :: "nat \<Rightarrow> bytes"
  pe_hmac :: "bytes \<Rightarrow> bytes \<Rightarrow> bytes"        \<comment> \<open>key, data\<close>
  pe_sha256 :: "bytes \<Rightarrow> bytes"
  pe_pbkdf2 :: "jsstr \<Rightarrow> bytes \<Rightarrow> nat \<Rightarrow> bytes"

datatype pg_verdict = Wait pg_handler | Resolve "pg_result option" | Throw pg_failure

definition pg_send :: "char \<Rightarrow> bytes \<Rightarrow> pg_client \<Rightarrow> pg_client" where
  "pg_send tag body c = c\<lparr>pc_sent := pc_sent c @ [frame tag body]\<rparr>"

definition pg_settle :: "nat \<Rightarrow> pg_outcome \<Rightarrow> pg_client \<Rightarrow> pg_client" where
  "pg_settle i r c = c\<lparr>pc_settled := pc_settled c @ [(i, r)]\<rparr>"

text \<open>\<open>_fatal\<close> and \<open>_enqueue\<close>.\<close>

definition pg_fatal :: "pg_failure \<Rightarrow> pg_client \<Rightarrow> pg_client" where
  "pg_fatal f c = c\<lparr>pc_fatal := Some f, pc_closed := True, pc_queue := [],
     pc_settled := pc_settled c @ map (\<lambda>(i, _). (i, Rejected f)) (pc_queue c)\<rparr>"

definition pg_enqueue :: "pg_handler \<Rightarrow> pg_client \<Rightarrow> pg_client" where
  "pg_enqueue h c =
     (let i = pc_next c; c1 = c\<lparr>pc_next := i + 1\<rparr> in
      case pc_fatal c of Some f \<Rightarrow> pg_settle i (Rejected f) c1
      | None \<Rightarrow> c1\<lparr>pc_queue := pc_queue c @ [(i, h)]\<rparr>)"

subsection \<open>SCRAM-SHA-256\<close>

text \<open>\<open>kv.slice(0, i)\<close> and \<open>kv.slice(i + 1)\<close> at the first \<open>=\<close>; without one, all but the last unit and
  the whole. Of several attributes of a name the last counts.\<close>

definition attribute :: "jsstr \<Rightarrow> jsstr \<times> jsstr" where
  "attribute kv = (let k = takeWhile (\<lambda>u. u \<noteq> 61) kv in
     if length k < length kv then (k, drop (Suc (length k)) kv) else (butlast kv, kv))"

definition attributes :: "jsstr \<Rightarrow> jsstr \<Rightarrow> jsstr option" where
  "attributes s = map_of (rev (map attribute (split_on 44 s)))"

text \<open>\<open>Number(s)\<close> as \<open>pbkdf2Sync\<close> takes it: an integer from 1 to \<open>2 ^ 31 - 1\<close>, or it throws.\<close>

definition blank_unit :: "16 word \<Rightarrow> bool" where
  "blank_unit u = (let n = unat u in
     if n < 256 then is_ws (char_of n)
     else 0x2000 \<le> n \<and> n \<le> 0x200A \<or> n \<in> {0x1680, 0x2028, 0x2029, 0x202F, 0x205F, 0x3000, 0xFEFF})"

definition iteration_count :: "jsstr option \<Rightarrow> nat option" where
  "iteration_count v = (case v of
     None \<Rightarrow> None
   | Some s \<Rightarrow>
       (let t = rev (dropWhile blank_unit (rev (dropWhile blank_unit s))) in
        if list_all (\<lambda>u. unat u < 256) t then
          (case js_integer (of_js t) of
             Some n \<Rightarrow> if 1 \<le> n \<and> n < 2 ^ 31 then Some (nat n) else None
           | None \<Rightarrow> None)
        else None))"

definition xor_bytes :: "bytes \<Rightarrow> bytes \<Rightarrow> bytes" where
  "xor_bytes a b = map2 (\<lambda>x y. semiring_bit_operations_class.xor x y) a b"

definition sasl_start :: "pg_env \<Rightarrow> bytes \<Rightarrow> pg_client \<Rightarrow> (pg_client \<times> pg_verdict) option" where
  "sasl_start E p c =
     Option.bind (mechanisms p 4) (\<lambda>mechs. Some
       (if js ''SCRAM-SHA-256'' \<notin> set mechs then (c, Throw (AuthUnsupported mechs))
        else
          let cnonce = base64_encode (pe_random E (pc_draws c));
              bare = ''n=,r='' @ cnonce;
              cf = utf8_encode (js (''n,,'' @ bare))
          in (pg_send (CHR ''p'') (cstr (js ''SCRAM-SHA-256'') @ be_enc 4 (length cf) @ cf) (c\<lparr>pc_draws := pc_draws c + 1\<rparr>),
              Wait (Authenticating (Some \<lparr>sc_nonce = cnonce, sc_first_bare = bare, sc_server_key = None,
                sc_auth_message = None\<rparr>)))))"

definition final_no_proof :: "jsstr \<Rightarrow> jsstr" where
  "final_no_proof r = js ''c=biws,r='' @ r"

definition scram_message :: "scram \<Rightarrow> jsstr \<Rightarrow> jsstr \<Rightarrow> jsstr" where
  "scram_message sc serverFirst r = js (sc_first_bare sc) @ js '','' @ serverFirst @ js '','' @ final_no_proof r"

definition client_proof :: "pg_env \<Rightarrow> bytes \<Rightarrow> jsstr \<Rightarrow> bytes" where
  "client_proof E salted authMessage =
     (let clientKey = pe_hmac E salted (utf8_encode (js ''Client Key''));
          clientSig = pe_hmac E (pe_sha256 E clientKey) (utf8_encode authMessage)
      in xor_bytes (take 32 clientKey) (take 32 clientSig))"

definition sasl_continue :: "pg_env \<Rightarrow> scram option \<Rightarrow> bytes \<Rightarrow> pg_client \<Rightarrow> pg_client \<times> pg_verdict" where
  "sasl_continue E st p c =
     (let serverFirst = buf_text (drop 4 p); parts = attributes serverFirst in
      case (parts (js ''r''), st) of
        (Some r, Some sc) \<Rightarrow>
          if \<not> starts_with (js (sc_nonce sc)) r then (c, Throw ScramBadNonce)
          else (case parts (js ''s'') of
            None \<Rightarrow> (c, Throw TypeFailure)
          | Some salt64 \<Rightarrow>
              (case iteration_count (parts (js ''i'')) of
                 None \<Rightarrow> (c, Throw RangeFailure)
               | Some iter \<Rightarrow>
                   let salted = pe_pbkdf2 E (pe_password E) (base64_decode (latin salt64)) iter;
                       msg = scram_message sc serverFirst r;
                       final = final_no_proof r @ js ('',p='' @ base64_encode (client_proof E salted msg))
                   in (pg_send (CHR ''p'') (utf8_encode final) c,
                       Wait (Authenticating (Some (sc\<lparr>
                         sc_server_key := Some (pe_hmac E salted (utf8_encode (js ''Server Key''))),
                         sc_auth_message := Some msg\<rparr>))))))
      | _ \<Rightarrow> (c, Throw TypeFailure))"

definition sasl_final :: "pg_env \<Rightarrow> scram option \<Rightarrow> bytes \<Rightarrow> pg_verdict" where
  "sasl_final E st p =
     (case (find (starts_with (js ''v='')) (split_on 44 (buf_text (drop 4 p))), st) of
        (Some kv, Some sc) \<Rightarrow>
          (case (sc_server_key sc, sc_auth_message sc) of
             (Some key, Some msg) \<Rightarrow>
               if base64_decode (latin (drop 2 kv)) = pe_hmac E key (utf8_encode msg)
               then Wait (Authenticating st) else Throw ServerProofMismatch
           | _ \<Rightarrow> Throw TypeFailure)
      | _ \<Rightarrow> Throw TypeFailure)"

subsection \<open>The handlers\<close>

definition auth_request :: "pg_env \<Rightarrow> scram option \<Rightarrow> bytes \<Rightarrow> pg_client \<Rightarrow> (pg_client \<times> pg_verdict) option" where
  "auth_request E st p c =
     (case read_uint 4 p 0 of
        None \<Rightarrow> Some (c, Throw RangeFailure)
      | Some n \<Rightarrow>
          if n = 0 then Some (c, Wait (Authenticating st))
          else if n = 3 then Some (pg_send (CHR ''p'') (cstr (pe_password E)) c, Wait (Authenticating st))
          else if n = 10 then sasl_start E p c
          else if n = 11 then Some (sasl_continue E st p c)
          else if n = 12 then Some (c, sasl_final E st p)
          else Some (c, Throw (AuthUnknownSubtype n)))"

definition is_tag :: "nat \<Rightarrow> char \<Rightarrow> bool" where
  "is_tag t ch \<longleftrightarrow> t = of_char ch"

definition on_auth :: "pg_env \<Rightarrow> scram option \<Rightarrow> nat \<Rightarrow> bytes \<Rightarrow> pg_client \<Rightarrow> (pg_client \<times> pg_verdict) option" where
  "on_auth E st t p c =
     (if is_tag t (CHR ''R'') then auth_request E st p c
      else if is_tag t (CHR ''S'') then
        (let i = index_zero p 0; j = index_zero p (i + 1);
             k = buf_text (subarray p 0 i); v = buf_text (subarray p (i + 1) j)
         in Some (if k = js ''__proto__'' then c else c\<lparr>pc_params := (pc_params c)(k \<mapsto> v)\<rparr>, Wait (Authenticating st)))
      else if is_tag t (CHR ''K'') \<or> is_tag t (CHR ''N'') then Some (c, Wait (Authenticating st))
      else if is_tag t (CHR ''Z'') then
        (case p of [] \<Rightarrow> Some (c, Throw RangeFailure) | b # _ \<Rightarrow> Some (c\<lparr>pc_tx := unat b\<rparr>, Resolve None))
      else if is_tag t (CHR ''E'') then
        Option.bind (decode_error p) (\<lambda>f. Some (c, Throw (ServerError f)))
      else Some (c, Throw (UnexpectedTagDuringAuth t)))"

definition on_collect ::
  "pg_result \<Rightarrow> pg_fields option \<Rightarrow> nat \<Rightarrow> bytes \<Rightarrow> pg_client \<Rightarrow> (pg_client \<times> pg_verdict) option" where
  "on_collect res err t p c =
     (let go = (\<lambda>r. Some (c, Wait (Collecting r err))) in
      if is_tag t (CHR ''T'') then
        (case read_uint 2 p 0 of
           None \<Rightarrow> Some (c, Throw RangeFailure)
         | Some n \<Rightarrow> go (res\<lparr>r_columns := r_columns res @ column_names n p 2\<rparr>))
      else if is_tag t (CHR ''D'') then
        (case Option.bind (read_uint 2 p 0) (\<lambda>n. row_fields n p 2) of
           None \<Rightarrow> Some (c, Throw RangeFailure)
         | Some row \<Rightarrow> go (res\<lparr>r_rows := r_rows res @ [row]\<rparr>))
      else if is_tag t (CHR ''C'') then
        go (res\<lparr>r_command := Some (buf_text (subarray p 0 (index_zero p 0)))\<rparr>)
      else if list_ex (is_tag t) ''In12sNS'' then go res
      else if is_tag t (CHR ''Z'') then
        (case p of [] \<Rightarrow> Some (c, Throw RangeFailure)
         | b # _ \<Rightarrow> Some (c\<lparr>pc_tx := unat b\<rparr>,
             case err of Some f \<Rightarrow> Throw (ServerError f) | None \<Rightarrow> Resolve (Some res)))
      else if is_tag t (CHR ''E'') then
        Option.bind (decode_error p) (\<lambda>f. Some (c, Wait (Collecting res (Some f))))
      else Some (c, Throw (UnexpectedTag t)))"

text \<open>\<open>_dispatch\<close>: a throw of the handler rejects the request in front.\<close>

definition pg_dispatch :: "pg_env \<Rightarrow> nat \<Rightarrow> bytes \<Rightarrow> pg_client \<Rightarrow> pg_client option" where
  "pg_dispatch E t p c =
     (case pc_queue c of
        [] \<Rightarrow> Some c
      | (i, h) # q \<Rightarrow>
          Option.bind (case h of Authenticating st \<Rightarrow> on_auth E st t p c | Collecting res err \<Rightarrow> on_collect res err t p c)
            (\<lambda>(c', v). Some (case v of
               Wait h' \<Rightarrow> c'\<lparr>pc_queue := (i, h') # q\<rparr>
             | Resolve r \<Rightarrow> pg_settle i (Resolved r) (c'\<lparr>pc_queue := q\<rparr>)
             | Throw f \<Rightarrow> pg_settle i (Rejected f) (c'\<lparr>pc_queue := q\<rparr>))))"

text \<open>The loop of \<open>_onData\<close>.\<close>

function pg_drain :: "pg_env \<Rightarrow> bytes \<Rightarrow> pg_client \<Rightarrow> pg_client option" where
  "pg_drain E buf c =
     (if length buf < 5 then Some (c\<lparr>pc_buf := buf\<rparr>)
      else let len = be_dec (slice 1 5 buf) in
        if length buf < 1 + len then Some (c\<lparr>pc_buf := buf\<rparr>)
        else (case pg_dispatch E (unat (buf ! 0)) (slice 5 (1 + len) buf) (c\<lparr>pc_buf := drop (1 + len) buf\<rparr>) of
                None \<Rightarrow> None
              | Some c' \<Rightarrow> pg_drain E (drop (1 + len) buf) c'))"
  by pat_completeness auto
termination
  by (relation "measure (\<lambda>(E, buf, c). length buf)") (auto simp: Let_def)

declare pg_drain.simps [simp del]

definition on_data :: "pg_env \<Rightarrow> pg_client \<Rightarrow> bytes \<Rightarrow> pg_client option" where
  "on_data E c chunk = pg_drain E (pc_buf c @ chunk) c"

subsection \<open>Requests\<close>

definition empty_result :: pg_result where
  "empty_result = \<lparr>r_rows = [], r_columns = [], r_command = None\<rparr>"

text \<open>A connected socket: the start packet is written and the start-up waits for its replies.\<close>

definition pg_connected :: "pg_env \<Rightarrow> pg_client" where
  "pg_connected E = pg_enqueue (Authenticating None)
     \<lparr>pc_buf = [], pc_queue = [], pc_params = Map.empty, pc_tx = of_char (CHR ''I''), pc_closed = False, pc_fatal = None,
      pc_sent = [startup_packet (pe_user E) (pe_database E) (pe_app E)], pc_settled = [], pc_next = 0, pc_draws = 0\<rparr>"

text \<open>The three ends of the TCP connect; the first one decides.\<close>

datatype connect_event = ConnOpen | ConnError string | ConnTimeout

definition pg_connect :: "pg_env \<Rightarrow> connect_event \<Rightarrow> pg_failure + pg_client" where
  "pg_connect E ev = (case ev of
     ConnOpen \<Rightarrow> Inr (pg_connected E) | ConnError m \<Rightarrow> Inl (SocketError m) | ConnTimeout \<Rightarrow> Inl ConnectTimeout)"

definition reject_new :: "pg_failure \<Rightarrow> pg_client \<Rightarrow> pg_client" where
  "reject_new f c = pg_settle (pc_next c) (Rejected f) (c\<lparr>pc_next := pc_next c + 1\<rparr>)"

definition pg_query :: "jsstr \<Rightarrow> pg_client \<Rightarrow> pg_client" where
  "pg_query sql c =
     (if pc_closed c then reject_new ClientClosed c
      else pg_enqueue (Collecting empty_result None) (pg_send (CHR ''Q'') (cstr sql) c))"

definition pg_write :: "bytes \<Rightarrow> pg_client \<Rightarrow> pg_client" where
  "pg_write b c = c\<lparr>pc_sent := pc_sent c @ [b]\<rparr>"

definition pg_exec :: "jsstr \<Rightarrow> pg_param list \<Rightarrow> pg_client \<Rightarrow> pg_client" where
  "pg_exec sql params c =
     (if pc_closed c then reject_new ClientClosed c
      else if 2 ^ 16 \<le> length params then reject_new RangeFailure (pg_write (parse_message sql) c)
      else pg_enqueue (Collecting empty_result None)
        (pg_write sync_message (pg_write execute_message (pg_write (bind_message params) (pg_write (parse_message sql) c)))))"

definition pg_end :: "pg_client \<Rightarrow> pg_client" where
  "pg_end c = (if pc_closed c then c else (pg_send (CHR ''X'') [] c)\<lparr>pc_closed := True\<rparr>)"

datatype pg_event = Data bytes | SockError string | SockClose | Timeout | Query jsstr | Exec jsstr "pg_param list" | EndCall

text \<open>A timer is cleared when its request settles, so one fires only while the queue is not empty.\<close>

definition pg_step :: "pg_env \<Rightarrow> pg_client \<Rightarrow> pg_event \<Rightarrow> pg_client option" where
  "pg_step E c ev = (case ev of
     Data chunk \<Rightarrow> on_data E c chunk
   | SockError m \<Rightarrow> Some (pg_fatal (SocketError m) c)
   | SockClose \<Rightarrow> Some (pg_fatal SocketClosed c)
   | Timeout \<Rightarrow> Some (if pc_queue c = [] then c else pg_fatal QueryTimeout c)
   | Query sql \<Rightarrow> Some (pg_query sql c)
   | Exec sql params \<Rightarrow> Some (pg_exec sql params c)
   | EndCall \<Rightarrow> Some (pg_end c))"

fun pg_run :: "pg_env \<Rightarrow> pg_client \<Rightarrow> pg_event list \<Rightarrow> pg_client option" where
  "pg_run E c [] = Some c"
| "pg_run E c (ev # evs) = (case pg_step E c ev of None \<Rightarrow> None | Some c' \<Rightarrow> pg_run E c' evs)"

subsection \<open>The stream as a sequence of messages\<close>

text \<open>The messages handed to the front handler one after the other: the abstraction of the reader,
  in which neither buffer nor chunks occur.\<close>

fun pg_messages :: "pg_env \<Rightarrow> pg_client \<Rightarrow> (nat \<times> bytes) list \<Rightarrow> pg_client option" where
  "pg_messages E c [] = Some c"
| "pg_messages E c ((t, p) # ms) = (case pg_dispatch E t p c of None \<Rightarrow> None | Some c' \<Rightarrow> pg_messages E c' ms)"

lemma pg_messages_append:
  "pg_messages E c (ms @ ns) = (case pg_messages E c ms of None \<Rightarrow> None | Some c' \<Rightarrow> pg_messages E c' ns)"
  by (induction E c ms rule: pg_messages.induct) (auto split: option.splits)

abbreviation with_buf :: "bytes \<Rightarrow> pg_client \<times> 'v \<Rightarrow> pg_client \<times> 'v" where
  "with_buf b \<equiv> map_prod (\<lambda>c. c\<lparr>pc_buf := b\<rparr>) id"

lemma sasl_start_buf: "sasl_start E p (c\<lparr>pc_buf := b\<rparr>) = map_option (with_buf b) (sasl_start E p c)"
  by (cases "mechanisms p 4") (simp_all add: sasl_start_def pg_send_def Let_def)

lemma sasl_continue_buf: "sasl_continue E st p (c\<lparr>pc_buf := b\<rparr>) = with_buf b (sasl_continue E st p c)"
  by (simp add: sasl_continue_def pg_send_def Let_def split: option.splits)

lemma auth_request_buf: "auth_request E st p (c\<lparr>pc_buf := b\<rparr>) = map_option (with_buf b) (auth_request E st p c)"
  by (simp add: auth_request_def sasl_start_buf sasl_continue_buf pg_send_def split: option.splits)

lemma on_auth_buf: "on_auth E st t p (c\<lparr>pc_buf := b\<rparr>) = map_option (with_buf b) (on_auth E st t p c)"
  by (cases "decode_error p") (simp_all add: on_auth_def auth_request_buf Let_def split: list.splits)

lemma on_collect_buf: "on_collect res err t p (c\<lparr>pc_buf := b\<rparr>) = map_option (with_buf b) (on_collect res err t p c)"
  by (cases "decode_error p") (simp_all add: on_collect_def Let_def split: option.splits list.splits)

lemma dispatch_buf:
  "pg_dispatch E t p (c\<lparr>pc_buf := b\<rparr>) = map_option (\<lambda>c. c\<lparr>pc_buf := b\<rparr>) (pg_dispatch E t p c)"
proof (cases "pc_queue c")
  case (Cons ih q)
  obtain i h where ih: "ih = (i, h)" by force
  let ?r = "\<lambda>c. case h of Authenticating st \<Rightarrow> on_auth E st t p c | Collecting res err \<Rightarrow> on_collect res err t p c"
  have "?r (c\<lparr>pc_buf := b\<rparr>) = map_option (with_buf b) (?r c)"
    by (simp add: on_auth_buf on_collect_buf split: pg_handler.splits)
  then show ?thesis
    by (cases "?r c") (auto simp: pg_dispatch_def Cons ih pg_settle_def split: pg_verdict.splits)
qed (simp add: pg_dispatch_def)

lemma messages_buf: "pg_messages E (c\<lparr>pc_buf := b\<rparr>) ms = map_option (\<lambda>c. c\<lparr>pc_buf := b\<rparr>) (pg_messages E c ms)"
  by (induction E c ms rule: pg_messages.induct) (auto simp: dispatch_buf split: option.splits)

text \<open>The reader implements the abstraction: the state after any data is that of the complete messages.\<close>

lemma drain_messages:
  "pg_drain E buf c = (case frames buf of (ms, r) \<Rightarrow> map_option (\<lambda>c. c\<lparr>pc_buf := r\<rparr>) (pg_messages E c ms))"
proof (induction E buf c rule: pg_drain.induct)
  case (1 E buf c)
  let ?n = "1 + be_dec (slice 1 5 buf)"
  show ?case
  proof (cases "length buf < 5 \<or> length buf < ?n")
    case True
    then show ?thesis by (subst pg_drain.simps, subst frames.simps) (auto simp: Let_def)
  next
    case False
    obtain ms r where fr: "frames (drop ?n buf) = (ms, r)" by force
    have frames: "frames buf = ((unat (buf ! 0), slice 5 ?n buf) # ms, r)"
      using False fr by (subst frames.simps) (simp add: Let_def)
    show ?thesis
    proof (cases "pg_dispatch E (unat (buf ! 0)) (slice 5 ?n buf) c")
      case None
      then show ?thesis using False by (subst pg_drain.simps) (simp add: Let_def dispatch_buf frames)
    next
      case (Some c')
      then have "pg_drain E buf c = pg_drain E (drop ?n buf) (c'\<lparr>pc_buf := drop ?n buf\<rparr>)"
        using False by (subst pg_drain.simps) (simp add: Let_def dispatch_buf)
      also have "\<dots> = map_option (\<lambda>c. c\<lparr>pc_buf := r\<rparr>) (pg_messages E (c'\<lparr>pc_buf := drop ?n buf\<rparr>) ms)"
        using False Some "1.IH" fr [simplified] by (simp add: dispatch_buf)
      finally show ?thesis by (simp add: frames Some [simplified] messages_buf option.map_comp comp_def)
    qed
  qed
qed

fun feed :: "pg_env \<Rightarrow> pg_client \<Rightarrow> bytes list \<Rightarrow> pg_client option" where
  "feed E c [] = Some c"
| "feed E c (ch # chs) = (case on_data E c ch of None \<Rightarrow> None | Some c' \<Rightarrow> feed E c' chs)"

lemma frames_rest: "frames buf = (ms, r) \<Longrightarrow> frames r = ([], r)"
proof (induction buf arbitrary: ms rule: frames.induct)
  case (1 buf)
  show ?case
  proof (cases "length buf < 5 \<or> length buf < 1 + be_dec (slice 1 5 buf)")
    case True
    then have "frames buf = ([], buf)" by (subst frames.simps) (auto simp: Let_def)
    then show ?thesis using 1(2) by simp
  next
    case False
    obtain ms' r' where "frames (drop (1 + be_dec (slice 1 5 buf)) buf) = (ms', r')" by force
    moreover from this have "r' = r" using 1(2) False by (subst (asm) frames.simps) (simp add: Let_def)
    ultimately show ?thesis using "1.IH" False by simp
  qed
qed

lemma feed_messages:
  assumes "frames (pc_buf c) = ([], pc_buf c)"
  shows "feed E c chs = (case frames (pc_buf c @ concat chs) of (ms, r) \<Rightarrow>
     map_option (\<lambda>c. c\<lparr>pc_buf := r\<rparr>) (pg_messages E c ms))"
  using assms
proof (induction E c chs rule: feed.induct)
  case (2 E c ch chs)
  obtain ms r where fr: "frames (pc_buf c @ ch) = (ms, r)" by force
  obtain ms' r' where fr': "frames (r @ concat chs) = (ms', r')" by force
  have all: "frames (pc_buf c @ concat (ch # chs)) = (ms @ ms', r')"
    using frames_append [of "pc_buf c @ ch" "concat chs"] by (simp add: fr fr')
  have d: "on_data E c ch = map_option (\<lambda>c. c\<lparr>pc_buf := r\<rparr>) (pg_messages E c ms)"
    by (simp add: on_data_def drain_messages fr)
  show ?case
  proof (cases "pg_messages E c ms")
    case None
    then show ?thesis unfolding all by (simp add: d pg_messages_append)
  next
    case (Some c')
    then have "feed E (c'\<lparr>pc_buf := r\<rparr>) chs = map_option (\<lambda>c. c\<lparr>pc_buf := r'\<rparr>) (pg_messages E (c'\<lparr>pc_buf := r\<rparr>) ms')"
      using frames_rest [OF fr] "2.IH" by (simp add: d fr')
    then show ?thesis
      unfolding all using Some by (simp add: d fr' pg_messages_append messages_buf option.map_comp comp_def)
  qed
qed simp

subsection \<open>Replies of a server\<close>

text \<open>What the protocol documents for one request: acknowledgements, a description of the columns, rows, and
  either the tag of the command or an error, then the state of the transaction.\<close>

record pg_reply =
  y_acks :: "char list"
  y_columns :: "(jsstr \<times> bytes) list option"
  y_rows :: "jsstr option list list"
  y_end :: "jsstr + (nat \<times> jsstr) list"
  y_tx :: byte

definition reply_messages :: "pg_reply \<Rightarrow> (char \<times> bytes) list" where
  "reply_messages y =
     map (\<lambda>a. (a, [])) (y_acks y) @
     (case y_columns y of None \<Rightarrow> [] | Some cols \<Rightarrow> [(CHR ''T'', row_description cols)]) @
     map (\<lambda>r. (CHR ''D'', data_row r)) (y_rows y) @
     [case y_end y of Inl cmd \<Rightarrow> (CHR ''C'', cstr cmd) | Inr fs \<Rightarrow> (CHR ''E'', error_body fs), (CHR ''Z'', [y_tx y])]"

definition reply_outcome :: "pg_reply \<Rightarrow> pg_outcome" where
  "reply_outcome y = (case y_end y of
     Inl cmd \<Rightarrow> Resolved (Some \<lparr>r_rows = y_rows y,
       r_columns = (case y_columns y of None \<Rightarrow> [] | Some cols \<Rightarrow> map fst cols), r_command = Some cmd\<rparr>)
   | Inr fs \<Rightarrow> Rejected (ServerError (foldl (\<lambda>o' (t, v). put_field t v o') no_fields fs)))"

definition good_reply :: "pg_reply \<Rightarrow> bool" where
  "good_reply y \<longleftrightarrow> set (y_acks y) \<subseteq> set ''In12sNS'' \<and>
     (case y_columns y of None \<Rightarrow> True
      | Some cols \<Rightarrow> length cols < 2 ^ 16 \<and> (\<forall>(n, d) \<in> set cols. clean_field n \<and> length d = 18)) \<and>
     (\<forall>r \<in> set (y_rows y). length r < 2 ^ 16 \<and> (\<forall>s. Some s \<in> set r \<longrightarrow> well_formed s \<and> length (utf8_encode s) < 2 ^ 31)) \<and>
     (case y_end y of Inl cmd \<Rightarrow> clean_field cmd | Inr fs \<Rightarrow> \<forall>(t, v) \<in> set fs. 0 < t \<and> t < 256 \<and> clean_field v) \<and>
     (\<forall>(t, b) \<in> set (reply_messages y). length b + 4 < 2 ^ 32)"

declare is_tag_def [simp]

definition collecting :: "nat \<Rightarrow> pg_result \<Rightarrow> pg_client \<Rightarrow> (nat \<times> pg_handler) list \<Rightarrow> pg_client" where
  "collecting i res c q = c\<lparr>pc_queue := (i, Collecting res None) # q\<rparr>"

lemma collect_ack:
  "set as \<subseteq> set ''In12sNS'' \<Longrightarrow>
   pg_messages E (collecting i res c q) (map (\<lambda>(t, b). (of_char t, b)) (map (\<lambda>a. (a, [])) as)) = Some (collecting i res c q)"
  by (induction as) (auto simp: pg_dispatch_def collecting_def on_collect_def)

lemma collect_columns:
  assumes "length cols < 2 ^ 16" "\<forall>(n, d) \<in> set cols. clean_field n \<and> length d = 18"
  shows "pg_dispatch E (of_char (CHR ''T'')) (row_description cols) (collecting i res c q) =
    Some (collecting i (res\<lparr>r_columns := r_columns res @ map fst cols\<rparr>) c q)"
proof -
  have p: "row_description cols = [] @ be_enc 2 (length cols) @ concat (map (\<lambda>(n, d). cstr n @ d) cols)"
    by (simp add: row_description_def)
  have "read_uint 2 (row_description cols) 0 = Some (length cols)" by (rule read_uint_at [OF p]) (use assms(1) in simp_all)
  moreover have "column_names (length cols) (row_description cols) 2 = map fst cols"
    by (rule column_names_encoded [OF assms(2), where pre = "be_enc 2 (length cols)" and suf = "[]"]) (simp_all add: row_description_def)
  ultimately show ?thesis by (simp add: pg_dispatch_def collecting_def on_collect_def)
qed

lemma collect_row:
  assumes "length r < 2 ^ 16" "\<forall>s. Some s \<in> set r \<longrightarrow> well_formed s \<and> length (utf8_encode s) < 2 ^ 31"
  shows "pg_dispatch E (of_char (CHR ''D'')) (data_row r) (collecting i res c q) =
    Some (collecting i (res\<lparr>r_rows := r_rows res @ [r]\<rparr>) c q)"
proof -
  have p: "data_row r = [] @ be_enc 2 (length r) @ concat (map field_bytes r)" by (simp add: data_row_def)
  have "read_uint 2 (data_row r) 0 = Some (length r)" by (rule read_uint_at [OF p]) (use assms(1) in simp_all)
  moreover have "row_fields (length r) (data_row r) 2 = Some r"
    by (rule row_fields_encoded [where pre = "be_enc 2 (length r)" and suf = "[]"]) (use assms(2) in \<open>auto simp: data_row_def\<close>)
  ultimately show ?thesis by (simp add: pg_dispatch_def collecting_def on_collect_def)
qed

lemma collect_rows:
  "\<forall>r \<in> set rs. length r < 2 ^ 16 \<and> (\<forall>s. Some s \<in> set r \<longrightarrow> well_formed s \<and> length (utf8_encode s) < 2 ^ 31) \<Longrightarrow>
   pg_messages E (collecting i res c q) (map (\<lambda>(t, b). (of_char t, b)) (map (\<lambda>r. (CHR ''D'', data_row r)) rs)) =
     Some (collecting i (res\<lparr>r_rows := r_rows res @ rs\<rparr>) c q)"
  by (induction rs arbitrary: res) (simp_all add: collect_row [simplified])

definition received :: "(char \<times> bytes) list \<Rightarrow> (nat \<times> bytes) list" where
  "received ms = map (\<lambda>(t, b). (of_char t, b)) ms"

lemma one_reply:
  assumes "good_reply y" "pc_queue c = (i, Collecting empty_result None) # q"
  shows "pg_messages E c (received (reply_messages y)) =
    Some (pg_settle i (reply_outcome y) (c\<lparr>pc_tx := unat (y_tx y), pc_queue := q\<rparr>))"
proof -
  define res where "res = empty_result\<lparr>r_columns := (case y_columns y of None \<Rightarrow> [] | Some cols \<Rightarrow> map fst cols), r_rows := y_rows y\<rparr>"
  have c: "c = collecting i empty_result c q" using assms(2) by (simp add: collecting_def)
  have cols: "pg_messages E (collecting i empty_result c q)
      (received (case y_columns y of None \<Rightarrow> [] | Some cols \<Rightarrow> [(CHR ''T'', row_description cols)])) =
    Some (collecting i (empty_result\<lparr>r_columns := (case y_columns y of None \<Rightarrow> [] | Some cols \<Rightarrow> map fst cols)\<rparr>) c q)"
    using assms(1) collect_columns [simplified]
    by (auto simp: received_def good_reply_def empty_result_def split: option.splits)
  have head: "pg_messages E c (received (map (\<lambda>a. (a, [])) (y_acks y) @
       (case y_columns y of None \<Rightarrow> [] | Some cols \<Rightarrow> [(CHR ''T'', row_description cols)]) @
       map (\<lambda>r. (CHR ''D'', data_row r)) (y_rows y))) = Some (collecting i res c q)"
    using assms(1) cols collect_ack [of "y_acks y" E i empty_result c q, folded received_def]
      collect_rows [of "y_rows y" E i _ c q, folded received_def]
    by (subst c) (simp add: received_def pg_messages_append good_reply_def res_def empty_result_def)
  have tail: "pg_messages E (collecting i res c q)
     (received [case y_end y of Inl cmd \<Rightarrow> (CHR ''C'', cstr cmd) | Inr fs \<Rightarrow> (CHR ''E'', error_body fs), (CHR ''Z'', [y_tx y])]) =
    Some (pg_settle i (reply_outcome y) (c\<lparr>pc_tx := unat (y_tx y), pc_queue := q\<rparr>))"
  proof (cases "y_end y")
    case (Inl cmd)
    then have "buf_text (subarray (cstr cmd) 0 (index_zero (cstr cmd) 0)) = cmd"
      using assms(1) cstr_at(2) [of cmd "cstr cmd" "[]" "[]" 0] by (simp add: good_reply_def)
    then show ?thesis
      by (simp add: Inl received_def pg_dispatch_def collecting_def on_collect_def reply_outcome_def res_def empty_result_def)
  next
    case (Inr fs)
    then have "decode_error (error_body fs) = Some (foldl (\<lambda>o' (t, v). put_field t v o') no_fields fs)"
      using assms(1) error_fields_encoded [of fs "error_body fs" "[]" 0] by (simp add: good_reply_def decode_error_def)
    then show ?thesis
      by (simp add: Inr received_def pg_dispatch_def collecting_def on_collect_def reply_outcome_def)
  qed
  have "received (reply_messages y) = received (map (\<lambda>a. (a, [])) (y_acks y) @
       (case y_columns y of None \<Rightarrow> [] | Some cols \<Rightarrow> [(CHR ''T'', row_description cols)]) @
       map (\<lambda>r. (CHR ''D'', data_row r)) (y_rows y)) @
     received [case y_end y of Inl cmd \<Rightarrow> (CHR ''C'', cstr cmd) | Inr fs \<Rightarrow> (CHR ''E'', error_body fs), (CHR ''Z'', [y_tx y])]"
    by (simp add: reply_messages_def received_def)
  then show ?thesis using head tail by (simp only: pg_messages_append option.case)
qed

lemma replies_settle:
  assumes "\<forall>y \<in> set ys. good_reply y" "length ids = length ys"
    and "pc_queue c = map (\<lambda>i. (i, Collecting empty_result None)) ids @ q"
  shows "\<exists>c'. pg_messages E c (received (concat (map reply_messages ys))) = Some c' \<and> pc_queue c' = q \<and>
    pc_settled c' = pc_settled c @ zip ids (map reply_outcome ys) \<and> pc_sent c' = pc_sent c \<and> pc_fatal c' = pc_fatal c"
  using assms
proof (induction ys arbitrary: ids c)
  case (Cons y ys)
  obtain i rest where ids: "ids = i # rest" using Cons.prems(2) by (cases ids) auto
  let ?c = "pg_settle i (reply_outcome y) (c\<lparr>pc_tx := unat (y_tx y), pc_queue := map (\<lambda>i. (i, Collecting empty_result None)) rest @ q\<rparr>)"
  have 1: "pg_messages E c (received (reply_messages y)) = Some ?c"
    by (rule one_reply) (use Cons.prems in \<open>simp_all add: ids\<close>)
  have "\<exists>c'. pg_messages E ?c (received (concat (map reply_messages ys))) = Some c' \<and> pc_queue c' = q \<and>
      pc_settled c' = pc_settled ?c @ zip rest (map reply_outcome ys) \<and> pc_sent c' = pc_sent ?c \<and> pc_fatal c' = pc_fatal ?c"
    by (rule Cons.IH) (use Cons.prems in \<open>simp_all add: ids pg_settle_def\<close>)
  moreover have "received (concat (map reply_messages (y # ys))) = received (reply_messages y) @ received (concat (map reply_messages ys))"
    by (simp add: received_def)
  ultimately show ?case using 1 by (simp add: pg_messages_append ids pg_settle_def)
qed (simp add: received_def)

subsection \<open>Properties\<close>

definition wire :: "pg_reply list \<Rightarrow> bytes" where
  "wire ys = concat (map (\<lambda>(t, b). frame t b) (concat (map reply_messages ys)))"

lemma wire_frames: "\<forall>y \<in> set ys. good_reply y \<Longrightarrow> frames (wire ys) = (received (concat (map reply_messages ys)), [])"
  using frames_concat [of "concat (map reply_messages ys)" "[]"] frames_short [of "[]"]
  by (auto simp: wire_def received_def good_reply_def)

text \<open>C24: Pipelined requests get their own replies: however the stream of the replies is cut into
  pieces, the pending requests settle in the order they were sent, each with the rows, columns and
  command tag the server encoded for it, or with the server's error, and nothing is left in the buffer.\<close>

theorem pipelined_requests_get_their_replies:
  assumes "\<forall>y \<in> set ys. good_reply y" "length ids = length ys"
    and "pc_queue c = map (\<lambda>i. (i, Collecting empty_result None)) ids @ q" "pc_buf c = []" "concat pieces = wire ys"
  shows "\<exists>c'. feed E c pieces = Some c' \<and> pc_settled c' = pc_settled c @ zip ids (map reply_outcome ys) \<and>
    pc_queue c' = q \<and> pc_buf c' = []"
proof -
  have "feed E c pieces = map_option (\<lambda>c. c\<lparr>pc_buf := []\<rparr>) (pg_messages E c (received (concat (map reply_messages ys))))"
    using feed_messages [of c E pieces] wire_frames [OF assms(1)] assms(4,5) by (simp add: frames_short)
  with replies_settle [OF assms(1-3), of E] show ?thesis by auto
qed

text \<open>An unexpected message shifts the replies: a message the client does not know (a notification, say)
  rejects the request in front at once, although the server still answers it, so every later
  pending request is resolved with the reply to the one before it.\<close>

theorem unexpected_message_shifts_replies:
  assumes "\<forall>y \<in> set ys. good_reply y" "length ids = length ys" "t \<notin> set ''TDCIn12sNSZE''" "length b + 4 < 2 ^ 32"
    and "pc_queue c = map (\<lambda>i. (i, Collecting empty_result None)) (j # ids)" "pc_buf c = []"
    and "concat pieces = frame t b @ wire ys"
  shows "\<exists>c'. feed E c pieces = Some c' \<and>
    pc_settled c' = pc_settled c @ (j, Rejected (UnexpectedTag (of_char t))) # zip ids (map reply_outcome ys) \<and> pc_queue c' = []"
proof -
  let ?c = "pg_settle j (Rejected (UnexpectedTag (of_char t))) (c\<lparr>pc_queue := map (\<lambda>i. (i, Collecting empty_result None)) ids @ []\<rparr>)"
  have "\<forall>k \<in> set ''TDCIn12sNSZE''. (of_char t :: nat) \<noteq> of_char k" using assms(3) by (metis of_char_eq_iff)
  then have d: "pg_dispatch E (of_char t) b c = Some ?c"
    using assms(5) by (simp add: pg_dispatch_def on_collect_def del: of_char_eq_iff)
  have "feed E c pieces = map_option (\<lambda>c. c\<lparr>pc_buf := []\<rparr>) (pg_messages E ?c (received (concat (map reply_messages ys))))"
    using feed_messages [of c E pieces] wire_frames [OF assms(1)] assms(4,6,7) d by (simp add: frames_short frames_frame)
  moreover have "\<exists>c'. pg_messages E ?c (received (concat (map reply_messages ys))) = Some c' \<and> pc_queue c' = [] \<and>
    pc_settled c' = pc_settled ?c @ zip ids (map reply_outcome ys) \<and> pc_sent c' = pc_sent ?c \<and> pc_fatal c' = pc_fatal ?c"
    by (rule replies_settle [OF assms(1,2)]) (simp add: pg_settle_def)
  ultimately show ?thesis by (auto simp: pg_settle_def)
qed

text \<open>C26: An error message from the server blocks the process for ever exactly when one of its fields lacks
  its zero byte: the offset after it is 0 and the loop of \<open>decodeError\<close> starts again.\<close>

theorem error_message_blocks_iff_unterminated:
  assumes "pc_queue c \<noteq> []" "pc_buf c = []" "length p + 4 < 2 ^ 32"
  shows "on_data E c (frame (CHR ''E'') p) = None \<longleftrightarrow> \<not> terminated p 0"
proof -
  obtain i h q where q: "pc_queue c = (i, h) # q" using assms(1) by (cases "pc_queue c") auto
  have "frames (frame (CHR ''E'') p) = ([(of_char (CHR ''E''), p)], [])"
    using frames_frame [OF assms(3), of "CHR ''E''" "[]"] by (simp add: frames_short)
  then have "on_data E c (frame (CHR ''E'') p) = map_option (\<lambda>c. c\<lparr>pc_buf := []\<rparr>) (pg_dispatch E (of_char (CHR ''E'')) p c)"
    using assms(2) by (simp add: on_data_def drain_messages split: option.splits)
  moreover have "pg_dispatch E (of_char (CHR ''E'')) p c = None \<longleftrightarrow> decode_error p = None"
    by (cases "decode_error p"; cases h) (simp_all add: pg_dispatch_def q on_auth_def on_collect_def)
  moreover have "decode_error p = None \<longleftrightarrow> \<not> terminated p 0" using decode_error_returns [of p] by auto
  ultimately show ?thesis by simp
qed

definition sample_pg :: pg_env where
  "sample_pg = \<lparr>pe_user = js ''u'', pe_password = js ''pw'', pe_database = [], pe_app = [], pe_random = (\<lambda>_. replicate 18 7),
     pe_hmac = (\<lambda>k m. take 32 (k @ m @ replicate 32 0)), pe_sha256 = (\<lambda>m. take 32 (m @ replicate 32 1)),
     pe_pbkdf2 = (\<lambda>p s n. take 32 (s @ replicate 32 5))\<rparr>"

definition two_queries :: pg_client where
  "two_queries = \<lparr>pc_buf = [], pc_queue = [(0, Collecting empty_result None), (1, Collecting empty_result None)],
     pc_params = Map.empty, pc_tx = 73, pc_closed = False, pc_fatal = None, pc_sent = [], pc_settled = [], pc_next = 2, pc_draws = 0\<rparr>"

definition sample_reply :: "string \<Rightarrow> pg_reply" where
  "sample_reply v = \<lparr>y_acks = ''12'', y_columns = Some [(js ''c'', replicate 18 0)], y_rows = [[Some (js v), None]],
     y_end = Inl (js ''SELECT 1''), y_tx = 73\<rparr>"

definition sample_error :: pg_reply where
  "sample_error = \<lparr>y_acks = ''1'', y_columns = None, y_rows = [], y_end = Inr [(0x43, js ''23505''), (0x4d, js ''dup'')], y_tx = 73\<rparr>"

lemma sample_texts: "clean_field (js ''c'')" "well_formed (js ''7'')" "clean_field (js ''SELECT 1'')"
    "clean_field (js ''23505'')" "clean_field (js ''dup'')" "well_formed (js ''8'')"
  by (simp_all add: clean_field_def js_def is_high_def is_low_def)

lemma sample_replies: "good_reply (sample_reply ''7'')" "good_reply (sample_reply ''8'')" "good_reply sample_error"
  using sample_texts length_utf8_encode [of "js ''7''"] length_utf8_encode [of "js ''8''"] length_utf8_encode [of "js ''c''"]
    length_utf8_encode [of "js ''SELECT 1''"] length_utf8_encode [of "js ''23505''"] length_utf8_encode [of "js ''dup''"]
  by (auto simp: good_reply_def sample_reply_def sample_error_def reply_messages_def row_description_def data_row_def
      field_bytes_simps cstr_encode error_body_def, auto simp: js_def)

lemma pipelined_requests_get_their_replies_witness:
  "\<exists>c'. feed sample_pg two_queries (chunks 3 (wire [sample_reply ''7'', sample_error])) = Some c' \<and>
    pc_settled c' = [(0, reply_outcome (sample_reply ''7'')), (1, reply_outcome sample_error)] \<and> pc_queue c' = []"
proof -
  have "\<exists>c'. feed sample_pg two_queries (chunks 3 (wire [sample_reply ''7'', sample_error])) = Some c' \<and>
      pc_settled c' = pc_settled two_queries @ zip [0, 1] (map reply_outcome [sample_reply ''7'', sample_error]) \<and>
      pc_queue c' = [] \<and> pc_buf c' = []"
    by (rule pipelined_requests_get_their_replies) (simp_all add: sample_replies two_queries_def concat_chunks)
  then show ?thesis by (auto simp: two_queries_def)
qed

lemma unexpected_message_shifts_replies_witness:
  "\<exists>c'. feed sample_pg two_queries [frame (CHR ''A'') [0] @ wire [sample_reply ''7'']] = Some c' \<and>
    pc_settled c' = [(0, Rejected (UnexpectedTag 65)), (1, reply_outcome (sample_reply ''7''))]"
proof -
  have "\<exists>c'. feed sample_pg two_queries [frame (CHR ''A'') [0] @ wire [sample_reply ''7'']] = Some c' \<and>
    pc_settled c' = pc_settled two_queries @ (0, Rejected (UnexpectedTag (of_char (CHR ''A'')))) # zip [1] (map reply_outcome [sample_reply ''7'']) \<and>
    pc_queue c' = []"
    by (rule unexpected_message_shifts_replies) (simp_all add: sample_replies two_queries_def)
  then show ?thesis by (auto simp: two_queries_def)
qed

lemma error_message_blocks_iff_unterminated_witness:
  "on_data sample_pg two_queries (frame (CHR ''E'') [0x53]) = None \<and>
   on_data sample_pg two_queries (frame (CHR ''E'') [0x53, 0, 0]) \<noteq> None"
proof -
  have "\<not> terminated [0x53] 0" "terminated [0x53, 0, 0] 0"
    by (subst terminated.simps, simp add: index_zero_def Let_def)+
  then show ?thesis
    using error_message_blocks_iff_unterminated [of two_queries _ sample_pg] by (simp add: two_queries_def)
qed

subsection \<open>Who authenticates whom\<close>

text \<open>The client does not insist on the server's proof: whatever it has sent before, \<open>AuthenticationOk\<close>
  and \<open>ReadyForQuery\<close> complete the start-up, and a request for the cleartext password is
  answered with the password, also in the middle of a SCRAM exchange.\<close>

theorem server_is_accepted_without_proof:
  assumes "pc_queue c = (i, Authenticating st) # q" "pc_buf c = []" "length (cstr (pe_password E)) + 4 < 2 ^ 32"
  shows "\<exists>c'. feed E c [frame (CHR ''R'') (be_enc 4 3), frame (CHR ''R'') (be_enc 4 0), frame (CHR ''Z'') [b]] = Some c' \<and>
    pc_settled c' = pc_settled c @ [(i, Resolved None)] \<and> pc_queue c' = q \<and>
    pc_sent c' = pc_sent c @ [frame (CHR ''p'') (cstr (pe_password E))]"
proof -
  have "frames (concat [frame (CHR ''R'') (be_enc 4 3), frame (CHR ''R'') (be_enc 4 0), frame (CHR ''Z'') [b]]) =
      ([(82, be_enc 4 3), (82, be_enc 4 0), (90, [b])], [])"
    using frames_frame [of "be_enc 4 3" "CHR ''R''"] frames_frame [of "be_enc 4 0" "CHR ''R''"]
      frames_frame [of "[b]" "CHR ''Z''" "[]"] by (simp add: frames_short)
  moreover have "read_uint 4 (be_enc 4 n) 0 = Some n" if "n < 2 ^ 32" for n
    using that read_uint_at [of "be_enc 4 n" "[]" 4 n "[]" 0] by simp
  ultimately show ?thesis
    using feed_messages [of c E] assms(1,2)
    by (simp add: frames_short pg_dispatch_def on_auth_def auth_request_def pg_send_def pg_settle_def del: feed.simps)
qed

lemma server_is_accepted_without_proof_witness:
  "\<exists>c'. feed sample_pg (pg_connected sample_pg)
      [frame (CHR ''R'') (be_enc 4 3), frame (CHR ''R'') (be_enc 4 0), frame (CHR ''Z'') [73]] = Some c' \<and>
    pc_settled c' = [(0, Resolved None)]"
proof -
  have "length (cstr (pe_password sample_pg)) + 4 < 2 ^ 32"
    using length_utf8_encode [of "js ''pw''"] by (simp add: sample_pg_def cstr_encode js_def)
  from server_is_accepted_without_proof [OF _ _ this, of "pg_connected sample_pg" 0 None "[]" 73]
  show ?thesis by (auto simp: pg_connected_def pg_enqueue_def Let_def)
qed

subsection \<open>The SCRAM exchange\<close>

lemma js_append [simp]: "js (a @ b) = js a @ js b"
  by (simp add: js_def)

lemma well_formed_js: "well_formed (js s)"
proof (induction s)
  case (Cons c s)
  have "(of_char c :: nat) < 256" by (metis of_char_mod_256 mod_less_divisor zero_less_numeral)
  then have "\<not> 0xD800 \<le> (of_char c :: nat)" "\<not> 0xDC00 \<le> (of_char c :: nat)" by linarith+
  then have "\<not> is_high (word_of_nat (of_char c))" "\<not> is_low (word_of_nat (of_char c))"
    unfolding is_high_def is_low_def unat_js_char by blast+
  with Cons show ?case by (cases s) (simp_all add: js_def)
qed (simp add: js_def)

lemma js_mem: "js [d] = [u] \<Longrightarrow> u \<in> set (js s) \<longleftrightarrow> d \<in> set s"
proof (induction s)
  case (Cons c s)
  have "js [c] = [u] \<longleftrightarrow> c = d" using Cons.prems js_inj [of "[c]" "[d]"] by auto
  with Cons show ?case by (auto simp: js_def)
qed (simp add: js_def)

lemma base64_clean: "CHR '','' \<notin> set (base64_encode bs)"
proof -
  have "base64_char False n \<noteq> CHR '',''" if "n < 64" for n
  proof
    assume "base64_char False n = CHR '',''"
    then have "base64_val (CHR '','') = Some n" using base64_val_char [OF that, of False] by simp
    then show False by (simp add: base64_val_def code_def)
  qed
  then show ?thesis using sextets_of_lt [of _ bs] by (force simp: base64_encode_def)
qed

lemma attribute_named: "attribute (js (k # ''='' @ v)) = (js [k], js v)" if "k \<noteq> CHR ''=''"
proof -
  have "(61 :: 16 word) \<notin> set (js [k])" using js_mem [of "CHR ''=''" 61 "[k]"] that by (simp add: js_def)
  then show ?thesis by (simp add: attribute_def js_def)
qed

text \<open>What the server of RFC 5802 sends first and last, for a nonce, a salt and a count of its own.\<close>

definition server_first :: "string \<Rightarrow> string \<Rightarrow> bytes \<Rightarrow> nat \<Rightarrow> jsstr" where
  "server_first cnonce snonce salt iter =
     js (''r='' @ cnonce @ snonce @ '',s='' @ base64_encode salt @ '',i='' @ dec_print iter)"

definition server_final :: "bytes \<Rightarrow> jsstr" where
  "server_final v = js (''v='' @ base64_encode v)"

lemma attributes_first:
  assumes "CHR '','' \<notin> set cnonce" "CHR '','' \<notin> set snonce"
  shows "attributes (server_first cnonce snonce salt iter) =
    [js ''r'' \<mapsto> js (cnonce @ snonce), js ''s'' \<mapsto> js (base64_encode salt), js ''i'' \<mapsto> js (dec_print iter)]"
proof -
  let ?ps = "[js (CHR ''r'' # ''='' @ cnonce @ snonce), js (CHR ''s'' # ''='' @ base64_encode salt), js (CHR ''i'' # ''='' @ dec_print iter)]"
  have sf: "server_first cnonce snonce salt iter = join_with [44] ?ps"
    by (simp add: server_first_def js_def)
  have "\<not> is_digit (CHR '','')" by (simp add: is_digit_def dec_val_def code_def)
  then have "CHR '','' \<notin> set (dec_print iter)" using dec_print_digits by blast
  then have "\<forall>p \<in> set ?ps. 44 \<notin> set p"
    using assms base64_clean js_mem [of "CHR '',''" 44] by (simp add: js_def [of "[_]"] del: js_append)
  then have "split_on 44 (server_first cnonce snonce salt iter) = ?ps" unfolding sf by (intro split_join) simp_all
  moreover have "map attribute ?ps = [(js ''r'', js (cnonce @ snonce)), (js ''s'', js (base64_encode salt)), (js ''i'', js (dec_print iter))]"
    using attribute_named [of "CHR ''r''"] attribute_named [of "CHR ''s''"] attribute_named [of "CHR ''i''"] by (simp del: js_append)
  ultimately have "attributes (server_first cnonce snonce salt iter) =
      map_of [(js ''i'', js (dec_print iter)), (js ''s'', js (base64_encode salt)), (js ''r'', js (cnonce @ snonce))]"
    by (simp add: attributes_def del: js_append map_of.simps)
  then show ?thesis by (simp add: fun_upd_twist del: js_append)
qed

lemma iteration_count_print: "1 \<le> n \<Longrightarrow> n < 2 ^ 31 \<Longrightarrow> iteration_count (Some (js (dec_print n))) = Some n"
proof -
  assume n: "1 \<le> n" "n < 2 ^ 31"
  have unit: "\<not> blank_unit u \<and> unat u < 256" if u: "u \<in> set (js (dec_print n))" for u
  proof -
    have "u \<in> (\<lambda>c. word_of_nat (of_char c)) ` set (dec_print n)" using u by (simp only: js_def list.set_map)
    then obtain d where d: "d \<in> set (dec_print n)" "u = word_of_nat (of_char d)" by (rule imageE)
    have "(of_char d :: nat) < 256" by (metis of_char_mod_256 mod_less_divisor zero_less_numeral)
    moreover have "\<not> is_ws d" using digit_not_ws dec_print_digits d(1) by blast
    ultimately show ?thesis by (simp add: blank_unit_def d(2) unat_js_char Let_def)
  qed
  have dw: "dropWhile blank_unit us = us" if "\<forall>u \<in> set us. \<not> blank_unit u" for us
    using that by (cases us) auto
  have "rev (dropWhile blank_unit (rev (dropWhile blank_unit (js (dec_print n))))) = js (dec_print n)"
    using unit by (simp add: dw)
  then show ?thesis using n unit by (simp add: iteration_count_def list_all_iff)
qed

lemma xor_bytes_twice: "length a = length b \<Longrightarrow> xor_bytes (xor_bytes a b) b = a"
proof -
  assume len: "length a = length b"
  show ?thesis
  proof (rule nth_equalityI)
    fix i assume "i < length (xor_bytes (xor_bytes a b) b)"
    then show "xor_bytes (xor_bytes a b) b ! i = a ! i" using len by (simp add: xor_bytes_def xor.assoc)
  qed (simp add: xor_bytes_def len)
qed

lemma buf_text_js [simp]: "buf_text (utf8_encode (js s)) = js s"
  by (rule buf_text_encode [OF well_formed_js])

lemma final_accepts:
  assumes "sc_server_key sc = Some key" "sc_auth_message sc = Some msg" "length hdr = 4"
  shows "sasl_final E (Some sc) (hdr @ utf8_encode (server_final v)) =
    (if v = pe_hmac E key (utf8_encode msg) then Wait (Authenticating (Some sc)) else Throw ServerProofMismatch)"
proof -
  have "44 \<notin> set (server_final v)"
    using base64_clean [of v] js_mem [of "CHR '',''" 44 "''v='' @ base64_encode v"] by (simp add: server_final_def js_def [of "[_]"])
  then have sp: "split_on 44 (server_final v) = [server_final v]" by (rule split_on_no_sep)
  have st: "starts_with (js ''v='') (server_final v)" by (simp add: server_final_def starts_with_def js_def)
  have dr: "drop 2 (server_final v) = js (base64_encode v)" by (simp add: server_final_def js_def)
  show ?thesis
    using assms sp st dr buf_text_js [of "''v='' @ base64_encode v", folded server_final_def] by (simp add: sasl_final_def)
qed

text \<open>C25: The SCRAM exchange is the one of RFC 5802: the client answers the first message of a server with a
  proof from which the server recovers its stored key, and it accepts the server's last message
  exactly when it carries the signature under the server key of the same password.\<close>

theorem scram_exchange_authenticates_both:
  assumes "\<And>k m. length (pe_hmac E k m) = 32" "length hdr = 4" "length hdr' = 4"
    and "CHR '','' \<notin> set (sc_nonce sc)" "CHR '','' \<notin> set snonce" "1 \<le> iter" "iter < 2 ^ 31"
  shows "let salted = pe_pbkdf2 E (pe_password E) salt iter;
      stored = pe_sha256 E (pe_hmac E salted (utf8_encode (js ''Client Key'')));
      serverKey = pe_hmac E salted (utf8_encode (js ''Server Key''));
      first = server_first (sc_nonce sc) snonce salt iter;
      msg = scram_message sc first (js (sc_nonce sc @ snonce)) in
    \<exists>proof sc'. sasl_continue E (Some sc) (hdr @ utf8_encode first) c =
        (pg_send (CHR ''p'') (utf8_encode (js (''c=biws,r='' @ sc_nonce sc @ snonce @ '',p='' @ base64_encode proof))) c,
         Wait (Authenticating (Some sc'))) \<and>
      pe_sha256 E (xor_bytes proof (pe_hmac E stored (utf8_encode msg))) = stored \<and>
      (\<forall>v. sasl_final E (Some sc') (hdr' @ utf8_encode (server_final v)) =
        (if v = pe_hmac E serverKey (utf8_encode msg) then Wait (Authenticating (Some sc')) else Throw ServerProofMismatch))"
proof -
  let ?salted = "pe_pbkdf2 E (pe_password E) salt iter" and ?first = "server_first (sc_nonce sc) snonce salt iter"
  let ?msg = "scram_message sc ?first (js (sc_nonce sc @ snonce))" and ?key = "pe_hmac E ?salted (utf8_encode (js ''Server Key''))"
  let ?ck = "pe_hmac E ?salted (utf8_encode (js ''Client Key''))" and ?proof = "client_proof E ?salted ?msg"
  let ?sc = "sc\<lparr>sc_server_key := Some ?key, sc_auth_message := Some ?msg\<rparr>"
  have "buf_text (utf8_encode ?first) = ?first" unfolding server_first_def by (rule buf_text_js)
  moreover have "starts_with (js (sc_nonce sc)) (js (sc_nonce sc @ snonce))" by (simp add: starts_with_def)
  moreover have "attributes ?first (js ''r'') = Some (js (sc_nonce sc @ snonce))" "attributes ?first (js ''s'') = Some (js (base64_encode salt))"
    "attributes ?first (js ''i'') = Some (js (dec_print iter))"
    unfolding attributes_first [OF assms(4,5)] by simp_all
  moreover have "final_no_proof (js (sc_nonce sc @ snonce)) @ js ('',p='' @ base64_encode ?proof) =
      js (''c=biws,r='' @ sc_nonce sc @ snonce @ '',p='' @ base64_encode ?proof)"
    by (simp add: final_no_proof_def js_def)
  ultimately have "sasl_continue E (Some sc) (hdr @ utf8_encode ?first) c =
      (pg_send (CHR ''p'') (utf8_encode (js (''c=biws,r='' @ sc_nonce sc @ snonce @ '',p='' @ base64_encode ?proof))) c,
       Wait (Authenticating (Some ?sc)))"
    using iteration_count_print [OF assms(6,7)] assms(2) by (simp add: sasl_continue_def Let_def del: js_append)
  moreover have "xor_bytes ?proof (pe_hmac E (pe_sha256 E ?ck) (utf8_encode ?msg)) = ?ck"
    using assms(1) by (simp add: client_proof_def Let_def xor_bytes_twice)
  moreover have "sasl_final E (Some ?sc) (hdr' @ utf8_encode (server_final v)) =
      (if v = pe_hmac E ?key (utf8_encode ?msg) then Wait (Authenticating (Some ?sc)) else Throw ServerProofMismatch)" for v
    by (rule final_accepts) (simp_all add: assms(3))
  ultimately show ?thesis unfolding Let_def by metis
qed

lemma scram_exchange_authenticates_both_witness:
  "\<exists>sc. sc_nonce sc = base64_encode (replicate 18 7) \<and>
    (\<exists>proof sc'. sasl_continue sample_pg (Some sc) (be_enc 4 11 @ utf8_encode (server_first (sc_nonce sc) ''x'' [1, 2] 4096)) two_queries =
      (pg_send (CHR ''p'') (utf8_encode (js (''c=biws,r='' @ sc_nonce sc @ ''x'' @ '',p='' @ base64_encode proof))) two_queries,
       Wait (Authenticating (Some sc'))))"
proof -
  let ?sc = "\<lparr>sc_nonce = base64_encode (replicate 18 7), sc_first_bare = ''n=,r='', sc_server_key = None, sc_auth_message = None\<rparr>"
  have "length (pe_hmac sample_pg k m) = 32" for k m by (simp add: sample_pg_def)
  from scram_exchange_authenticates_both [OF this, of "be_enc 4 11" "be_enc 4 12" ?sc "''x''" 4096 "[1, 2]" two_queries]
  show ?thesis using base64_clean by (intro exI [of _ ?sc]) (auto simp: Let_def)
qed

subsection \<open>Every request settles once\<close>

definition pg_ok :: "pg_client \<Rightarrow> bool" where
  "pg_ok c \<longleftrightarrow> distinct (map fst (pc_queue c) @ map fst (pc_settled c)) \<and>
     set (map fst (pc_queue c) @ map fst (pc_settled c)) = {0..<pc_next c} \<and>
     (pc_fatal c \<noteq> None \<longrightarrow> pc_queue c = [] \<and> pc_closed c)"

lemma handler_frame:
  assumes "(case h of Authenticating st \<Rightarrow> on_auth E st t p c | Collecting res err \<Rightarrow> on_collect res err t p c) = Some (c', v)"
  shows "pc_queue c' = pc_queue c \<and> pc_settled c' = pc_settled c \<and> pc_next c' = pc_next c \<and> pc_fatal c' = pc_fatal c \<and>
    pc_closed c' = pc_closed c"
proof -
  have "sasl_start E p c = Some (c', v) \<Longrightarrow> ?thesis"
    by (auto simp: sasl_start_def pg_send_def bind_eq_Some_conv Let_def split: if_splits)
  moreover have "sasl_continue E st p c = (c', v) \<Longrightarrow> ?thesis" for st
    by (auto simp: sasl_continue_def pg_send_def Let_def split: option.splits if_splits)
  ultimately have "auth_request E st p c = Some (c', v) \<Longrightarrow> ?thesis" for st
    by (auto simp: auth_request_def pg_send_def split: option.splits if_splits)
  then have "on_auth E st t p c = Some (c', v) \<Longrightarrow> ?thesis" for st
    by (auto simp: on_auth_def bind_eq_Some_conv Let_def split: if_splits list.splits)
  moreover have "on_collect res err t p c = Some (c', v) \<Longrightarrow> ?thesis" for res err
    by (auto simp: on_collect_def bind_eq_Some_conv Let_def split: if_splits list.splits option.splits)
  ultimately show ?thesis using assms by (cases h) auto
qed

lemma ok_dispatch:
  assumes "pg_ok c" "pg_dispatch E t p c = Some c'"
  shows "pg_ok c' \<and> pc_next c' = pc_next c"
proof (cases "pc_queue c")
  case (Cons ih q)
  obtain i h where ih: "ih = (i, h)" by force
  then obtain c1 v where h: "(case h of Authenticating st \<Rightarrow> on_auth E st t p c | Collecting res err \<Rightarrow> on_collect res err t p c) = Some (c1, v)"
    "c' = (case v of Wait h' \<Rightarrow> c1\<lparr>pc_queue := (i, h') # q\<rparr>
       | Resolve r \<Rightarrow> pg_settle i (Resolved r) (c1\<lparr>pc_queue := q\<rparr>)
       | Throw f \<Rightarrow> pg_settle i (Rejected f) (c1\<lparr>pc_queue := q\<rparr>))"
    using assms(2) by (auto simp: pg_dispatch_def Cons bind_eq_Some_conv)
  from handler_frame [OF h(1)] show ?thesis
    using assms(1) unfolding h(2) by (cases v) (auto simp: pg_ok_def Cons ih pg_settle_def)
qed (use assms in \<open>simp add: pg_dispatch_def\<close>)

lemma ok_messages: "pg_ok c \<Longrightarrow> pg_messages E c ms = Some c' \<Longrightarrow> pg_ok c' \<and> pc_next c' = pc_next c"
  by (induction E c ms rule: pg_messages.induct) (auto split: option.splits dest: ok_dispatch)

lemma ok_enqueue:
  assumes "pg_ok c"
  shows "pg_ok (pg_enqueue h c)" "pg_ok (reject_new f c)"
proof -
  have all: "fst ` set (pc_queue c) \<union> fst ` set (pc_settled c) = {0..<pc_next c}" using assms by (simp add: pg_ok_def)
  then have "pc_next c \<notin> fst ` set (pc_queue c)" "pc_next c \<notin> fst ` set (pc_settled c)" by auto
  moreover have "{0..<Suc (pc_next c)} = insert (pc_next c) (fst ` set (pc_queue c) \<union> fst ` set (pc_settled c))"
    unfolding all by auto
  ultimately show "pg_ok (pg_enqueue h c)" "pg_ok (reject_new f c)"
    using assms by (cases "pc_fatal c"; simp add: pg_ok_def pg_enqueue_def reject_new_def pg_settle_def Let_def)+
qed

lemma ok_sent [simp]: "pg_ok (pg_send t b c) = pg_ok c" "pg_ok (pg_write b c) = pg_ok c" "pg_ok (c\<lparr>pc_buf := b\<rparr>) = pg_ok c"
  by (simp_all add: pg_ok_def pg_send_def pg_write_def)

lemma ok_fatal: "pg_ok c \<Longrightarrow> pg_ok (pg_fatal f c)"
  by (auto simp: pg_ok_def pg_fatal_def comp_def case_prod_beta)

lemma next_simps [simp]:
  "pc_next (pg_enqueue h c) = Suc (pc_next c)" "pc_next (reject_new f c) = Suc (pc_next c)" "pc_next (pg_send t b c) = pc_next c"
  "pc_next (pg_write b c) = pc_next c" "pc_next (pg_fatal f c) = pc_next c"
  by (simp_all add: pg_enqueue_def reject_new_def pg_settle_def pg_send_def pg_write_def pg_fatal_def Let_def split: option.splits)

lemma ok_end: "pg_ok c \<Longrightarrow> pg_ok (pg_end c) \<and> pc_next (pg_end c) = pc_next c"
  by (auto simp: pg_ok_def pg_end_def pg_send_def)

lemma ok_step:
  assumes "pg_ok c" "pg_step E c ev = Some c'"
  shows "pg_ok c' \<and> pc_next c' = pc_next c + (case ev of Query _ \<Rightarrow> 1 | Exec _ _ \<Rightarrow> 1 | _ \<Rightarrow> 0)"
proof (cases ev)
  case (Data chunk)
  then obtain ms r c1 where "pg_messages E c ms = Some c1" "c' = c1\<lparr>pc_buf := r\<rparr>"
    using assms(2) by (auto simp: pg_step_def on_data_def drain_messages split: prod.splits)
  then show ?thesis using ok_messages assms(1) by (simp add: Data)
qed (use assms in \<open>auto simp: pg_step_def pg_query_def pg_exec_def ok_end ok_fatal ok_enqueue split: if_splits\<close>)

lemma ok_run:
  "pg_ok c \<Longrightarrow> pg_run E c evs = Some c' \<Longrightarrow>
   pg_ok c' \<and> pc_next c' = pc_next c + length (filter (\<lambda>ev. case ev of Query _ \<Rightarrow> True | Exec _ _ \<Rightarrow> True | _ \<Rightarrow> False) evs)"
proof (induction E c evs rule: pg_run.induct)
  case (2 E c ev evs)
  obtain c1 where c1: "pg_step E c ev = Some c1" "pg_run E c1 evs = Some c'" using 2(3) by (auto split: option.splits)
  from ok_step [OF 2(2) c1(1)] "2.IH" [OF c1(1) _ c1(2)] show ?case by (cases ev) auto
qed simp

text \<open>Every request is settled exactly once or still pending, through data, timeouts, socket errors and the
  end of the connection: after any run the settled and the pending numbers are together those
  of the requests made (and the start-up), without repetition, and after a fatal error none is pending.\<close>

theorem every_request_settles_once:
  assumes "pg_run E (pg_connected E) evs = Some c"
  shows "distinct (map fst (pc_queue c) @ map fst (pc_settled c)) \<and>
    set (map fst (pc_queue c) @ map fst (pc_settled c)) =
      {0..length (filter (\<lambda>ev. case ev of Query _ \<Rightarrow> True | Exec _ _ \<Rightarrow> True | _ \<Rightarrow> False) evs)} \<and>
    (pc_fatal c \<noteq> None \<longrightarrow> pc_queue c = [])"
proof -
  have "pg_ok (pg_connected E)" "pc_next (pg_connected E) = 1" by (auto simp: pg_ok_def pg_connected_def pg_enqueue_def)
  from ok_run [OF this(1) assms] this(2) show ?thesis by (auto simp: pg_ok_def)
qed

lemma every_request_settles_once_witness:
  "\<exists>c. pg_run sample_pg (pg_connected sample_pg) [Query (js ''A''), Timeout, Exec (js ''B'') [PNull]] = Some c \<and>
    set (map fst (pc_queue c) @ map fst (pc_settled c)) = {0..2}"
proof -
  obtain c where c: "pg_run sample_pg (pg_connected sample_pg) [Query (js ''A''), Timeout, Exec (js ''B'') [PNull]] = Some c"
    by (simp add: pg_step_def)
  from every_request_settles_once [OF c] show ?thesis using c by simp
qed

subsection \<open>Transactions\<close>

text \<open>\<open>transaction\<close>, over the awaited outcome of a statement and of the caller's function.\<close>

definition pg_transaction ::
  "('s \<Rightarrow> jsstr \<Rightarrow> 's \<times> pg_outcome) \<Rightarrow> ('s \<Rightarrow> 's \<times> (pg_failure + 'a)) \<Rightarrow> 's \<Rightarrow> 's \<times> (pg_failure + 'a)" where
  "pg_transaction q fn s =
     (case q s (js ''BEGIN'') of
        (s1, Rejected f) \<Rightarrow> (s1, Inl f)
      | (s1, Resolved _) \<Rightarrow>
          (case fn s1 of
             (s2, Inl f) \<Rightarrow> (fst (q s2 (js ''ROLLBACK'')), Inl f)
           | (s2, Inr r) \<Rightarrow>
               (case q s2 (js ''COMMIT'') of
                  (s3, Resolved _) \<Rightarrow> (s3, Inr r)
                | (s3, Rejected f) \<Rightarrow> (fst (q s3 (js ''ROLLBACK'')), Inl f))))"

text \<open>Over a database with a committed state and a working copy, a transaction is all or nothing.\<close>

lemma transaction_all_or_nothing:
  assumes "\<And>d w. q (d, w) (js ''BEGIN'') = ((d, Some d), Resolved None)"
    and "\<And>d w. q (d, w) (js ''ROLLBACK'') = ((d, None), Resolved None)"
    and "\<And>d w. q (d, Some w) (js ''COMMIT'') = ((w, None), Resolved None)"
    and "\<And>d w. fst (fst (fn (d, Some w))) = d" "\<And>d w. snd (fst (fn (d, Some w))) \<noteq> None"
  shows "case pg_transaction q fn (d, w) of
    ((d', w'), r) \<Rightarrow> w' = None \<and> d' = (case r of Inl _ \<Rightarrow> d | Inr _ \<Rightarrow> the (snd (fst (fn (d, Some d)))))"
proof -
  obtain w1 r where f: "fn (d, Some d) = ((d, Some w1), r)" using assms(4,5) [of d d] by (cases "fn (d, Some d)") auto
  then show ?thesis using assms(1-3) by (cases r) (simp_all add: pg_transaction_def)
qed

end
