(* ===== verification/Rotate_Master.thy ===== *)
theory Rotate_Master
  imports Server_Revocation Master_Key
begin

section \<open>Rotation of the master key\<close>

text \<open>
  \<open>qv-server/rotate-master.mjs\<close>: the keystore is opened under the old master key and sealed again
  under the new one. The data directory is the two files, their backups and the lease file; the
  four changes on it are values of \<open>disk_op\<close>, so that a crash is a prefix of the list. A
  durable write is one change (theory \<open>Durable\<close>). A rotation that throws before the first rename
  yields no change. Key ids are ASCII, as in \<open>Server_State\<close>, whose reader of entries says what
  the server will find.
\<close>

datatype rot_error =
    RotUsage | RotHex | RotSame | RotLockHeld | RotNoFile | RotType | RotSyntax
  | KeystoreMissing | MasterMissing | OpenFailed string

record rot_dir =
  rd_ks :: doc
  rd_mk :: "bytes option"
  rd_ks_bak :: "doc list"
  rd_mk_bak :: "bytes list"
  rd_lock :: "lock_text option"

subsection \<open>Sealing\<close>

definition seal_with :: "'s server_env \<Rightarrow> bytes \<Rightarrow> bytes \<Rightarrow> string \<Rightarrow> bytes \<Rightarrow> string" where
  "seal_with E masterKey iv keyId plaintext =
     (let (ct, tag) = cfg_gcm_enc E masterKey iv (utf8_encode (js keyId)) plaintext in base64_encode (iv @ tag @ ct))"

definition open_with :: "'s server_env \<Rightarrow> bytes \<Rightarrow> string \<Rightarrow> jsval \<Rightarrow> bytes option" where
  "open_with E masterKey keyId sealedB64 =
     Option.bind (from_b64 E sealedB64) (\<lambda>buf.
       cfg_gcm_dec E masterKey (slice 0 12 buf) (utf8_encode (js keyId)) (drop 28 buf) (slice 12 28 buf))"

subsection \<open>The rotation\<close>

text \<open>First pass. The texts of legacy entries are in the clear.\<close>

definition open_entry :: "'s server_env \<Rightarrow> bytes \<Rightarrow> string \<Rightarrow> jsval \<Rightarrow> rot_error + bytes \<times> bytes" where
  "open_entry E oldMaster keyId v =
     (if nullish v then Inl RotType
      else if \<not> truthy (jget v ''sealed'') then
        (case (from_b64 E (jget v ''sk''), from_b64 E (jget v ''ek'')) of
           (Some sk, Some ek) \<Rightarrow> Inr (sk, ek) | _ \<Rightarrow> Inl RotType)
      else
        (case (open_with E oldMaster (keyId @ '':sk'') (jget v ''sk_sealed''),
               open_with E oldMaster (keyId @ '':ek'') (jget v ''ek_sealed'')) of
           (Some sk, Some ek) \<Rightarrow> Inr (sk, ek) | _ \<Rightarrow> Inl (OpenFailed keyId)))"

fun open_all :: "'s server_env \<Rightarrow> bytes \<Rightarrow> (jsstr \<times> jsval) list \<Rightarrow> rot_error + (bytes \<times> bytes) list" where
  "open_all E oldMaster [] = Inr []"
| "open_all E oldMaster ((k, v) # kvs) =
     bind_r (open_entry E oldMaster (of_js k) v) (\<lambda>o'.
     bind_r (open_all E oldMaster kvs) (\<lambda>os. Inr (o' # os)))"

text \<open>Second pass; \<open>JSON.stringify\<close> leaves out properties that are \<open>undefined\<close>.\<close>

definition json_obj :: "(string \<times> jsval) list \<Rightarrow> jsval" where
  "json_obj kvs = obj (filter (\<lambda>(k, v). v \<noteq> undef) kvs)"

definition reseal_entry :: "'s server_env \<Rightarrow> bytes \<Rightarrow> bytes \<Rightarrow> bytes \<Rightarrow> string \<Rightarrow> jsval \<Rightarrow> bytes \<times> bytes \<Rightarrow> jsval" where
  "reseal_entry E newMaster iv1 iv2 keyId v o' =
     json_obj
       [(''sealed'', JBool True),
        (''sk_sealed'', str (seal_with E newMaster iv1 (keyId @ '':sk'') (fst o'))),
        (''ek_sealed'', str (seal_with E newMaster iv2 (keyId @ '':ek'') (snd o'))),
        (''vk'', jget v ''vk''), (''label'', jget v ''label''), (''createdAt'', jget v ''createdAt'')]"

fun reseal :: "'s server_env \<Rightarrow> bytes \<Rightarrow> (nat \<Rightarrow> bytes) \<Rightarrow> nat \<Rightarrow> (jsstr \<times> jsval) list \<Rightarrow> (bytes \<times> bytes) list \<Rightarrow>
    (jsstr \<times> jsval) list" where
  "reseal E newMaster ivs i ((k, v) # kvs) (o' # os) =
     (k, reseal_entry E newMaster (ivs (2 * i)) (ivs (2 * i + 1)) (of_js k) v o') # reseal E newMaster ivs (i + 1) kvs os"
| "reseal E newMaster ivs i _ _ = []"

datatype disk_op = BackupKeystore | BackupMaster | WriteKeystore jsval | WriteMaster bytes

fun disk_step :: "rot_dir \<Rightarrow> disk_op \<Rightarrow> rot_dir" where
  "disk_step d BackupKeystore = d\<lparr>rd_ks := NoFile, rd_ks_bak := rd_ks d # rd_ks_bak d\<rparr>"
| "disk_step d BackupMaster = d\<lparr>rd_mk := None, rd_mk_bak := the (rd_mk d) # rd_mk_bak d\<rparr>"
| "disk_step d (WriteKeystore v) = d\<lparr>rd_ks := Doc v\<rparr>"
| "disk_step d (WriteMaster m) = d\<lparr>rd_mk := Some m\<rparr>"

text \<open>\<open>rotateMaster\<close>: the number of entries and the changes it makes on disk, in order.\<close>

definition rotate_master ::
  "'s server_env \<Rightarrow> bytes \<Rightarrow> bytes \<Rightarrow> bool \<Rightarrow> (nat \<Rightarrow> bytes) \<Rightarrow> rot_dir \<Rightarrow> rot_error + nat \<times> disk_op list" where
  "rotate_master E oldMaster newMaster dryRun ivs d =
     (if rd_ks d = NoFile then Inl KeystoreMissing
      else if rd_mk d = None then Inl MasterMissing
      else case rd_ks d of
        Doc raw \<Rightarrow>
          if nullish raw then Inl RotType
          else
            let entries = object_entries raw in
            bind_r (open_all E oldMaster entries) (\<lambda>opened.
              let newRaw = JObj (reseal E newMaster ivs 0 entries opened) in
              Inr (length entries,
                if dryRun then [] else [BackupKeystore, BackupMaster, WriteKeystore newRaw, WriteMaster newMaster]))
      | _ \<Rightarrow> Inl RotSyntax)"

subsection \<open>The command\<close>

datatype argval = AText string | AFlag | AMissing

definition arg :: "string list \<Rightarrow> string \<Rightarrow> argval" where
  "arg argv name =
     (let flag = ''--'' @ name @ ''='' in
      case find (starts_with flag) argv of
        Some a \<Rightarrow> AText (drop (length flag) a)
      | None \<Rightarrow> if List.member argv (''--'' @ name) then AFlag else AMissing)"

definition arg_set :: "argval \<Rightarrow> bool" where
  "arg_set a = (case a of AText s \<Rightarrow> s \<noteq> [] | AFlag \<Rightarrow> True | AMissing \<Rightarrow> False)"

definition parse_master_hex :: "argval \<Rightarrow> rot_error + bytes" where
  "parse_master_hex a = (case a of
     AText hex \<Rightarrow> if length hex = 64 \<and> list_all is_hex hex then Inr (from_hex hex) else Inl RotHex
   | _ \<Rightarrow> Inl RotHex)"

definition assert_writer_lock_idle :: "int \<Rightarrow> lock_text option \<Rightarrow> rot_error + unit" where
  "assert_writer_lock_idle now lf = (case lf of
     Some (Lease cur) \<Rightarrow> (case w_expires cur of Some e \<Rightarrow> if now < e then Inl RotLockHeld else Inr () | None \<Rightarrow> Inr ())
   | _ \<Rightarrow> Inr ())"

text \<open>\<open>main\<close>; \<open>dirs\<close> is the file system, by directory. A path \<open>join\<close> throws on a flag without value.\<close>

definition rotate_main ::
  "'s server_env \<Rightarrow> (string \<Rightarrow> rot_dir) \<Rightarrow> int \<Rightarrow> (nat \<Rightarrow> bytes) \<Rightarrow> string list \<Rightarrow> rot_error + string \<times> nat \<times> disk_op list" where
  "rotate_main E dirs now ivs argv =
     (let dataDir = arg argv ''data-dir'';
          oldHex = (if arg_set (arg argv ''old-master-hex'') then Inr (arg argv ''old-master-hex'')
            else case dataDir of
              AFlag \<Rightarrow> Inl RotType
            | _ \<Rightarrow> (case rd_mk (dirs (if arg_set dataDir then (case dataDir of AText s \<Rightarrow> s | _ \<Rightarrow> []) else ''.'')) of
                None \<Rightarrow> Inl RotNoFile | Some b \<Rightarrow> Inr (AText (to_hex b))));
          newHex = arg argv ''new-master-hex''; dryRun = \<not> arg_set (arg argv ''confirm'')
      in bind_r oldHex (\<lambda>oldHex.
        if \<not> arg_set dataDir \<or> \<not> arg_set newHex then Inl RotUsage
        else bind_r (parse_master_hex oldHex) (\<lambda>oldMaster.
          bind_r (parse_master_hex newHex) (\<lambda>newMaster.
            if oldMaster = newMaster then Inl RotSame
            else case dataDir of
              AText s \<Rightarrow>
                bind_r (assert_writer_lock_idle now (rd_lock (dirs s))) (\<lambda>_.
                  bind_r (rotate_master E oldMaster newMaster dryRun ivs (dirs s)) (\<lambda>(n, ops). Inr (s, n, ops)))
            | _ \<Rightarrow> Inl RotType))))"

subsection \<open>What the server finds\<close>

text \<open>The keys that a start of the server reads from a keystore under a master key, all of them or none.\<close>

fun read_all :: "'s server_env \<Rightarrow> (jsstr \<times> jsval) list \<Rightarrow> (string \<times> skey) list option" where
  "read_all E [] = Some []"
| "read_all E ((k, v) # kvs) =
     (case read_entry E (of_js k) v of
        Inr (Some (e, _)) \<Rightarrow> map_option ((#) (of_js k, e)) (read_all E kvs)
      | _ \<Rightarrow> None)"

definition unsealed :: "'s server_env \<Rightarrow> bytes \<Rightarrow> doc \<Rightarrow> (string \<times> skey) list option" where
  "unsealed E m d = (case d of Doc raw \<Rightarrow> read_all (E\<lparr>cfg_master := m\<rparr>) (object_entries raw) | _ \<Rightarrow> None)"

lemma from_b64_master [simp]: "from_b64 (E\<lparr>cfg_master := m\<rparr>) v = from_b64 E v"
  by (simp add: from_b64_def split: jsval.splits)

lemma open_key_with: "open_key (E\<lparr>cfg_master := m\<rparr>) k v = open_with E m k v"
  by (simp add: open_key_def open_with_def split: option.splits)

lemma open_seal_with:
  assumes "gcm_correct E" "length iv = 12"
  shows "open_with E m k (str (seal_with E m iv k pt)) = Some pt"
proof -
  have g: "gcm_correct (E\<lparr>cfg_master := m\<rparr>)" using assms(1) by (simp add: gcm_correct_def)
  have "seal_key (E\<lparr>cfg_master := m\<rparr>) iv k pt = seal_with E m iv k pt" by (simp add: seal_key_def seal_with_def)
  then show ?thesis using open_seal [OF g assms(2), of k pt] by (simp add: open_key_with)
qed

lemma jget_json_obj: "jget (json_obj kvs) k = jget (obj kvs) k" if "distinct (map fst kvs)"
  using that
proof (induction kvs)
  case (Cons kv kvs)
  have "jget (obj (filter (\<lambda>(k, v). v \<noteq> undef) kvs)) a = undef" if "a \<notin> fst ` set kvs" for a
    using that by (induction kvs) auto
  with Cons show ?case by (cases kv) (auto simp: json_obj_def)
qed (simp add: json_obj_def)

text \<open>An entry that was opened under the old key reads the same after sealing under the new one.\<close>

lemma read_resealed:
  assumes "gcm_correct E" "length iv1 = 12" "length iv2 = 12" "open_entry E old (of_js k) v = Inr (sk, ek)"
  shows "map_option fst (case read_entry (E\<lparr>cfg_master := new\<rparr>) (of_js k) (reseal_entry E new iv1 iv2 (of_js k) v (sk, ek))
           of Inr r \<Rightarrow> r | Inl _ \<Rightarrow> None) =
    map_option fst (case read_entry (E\<lparr>cfg_master := old\<rparr>) (of_js k) v of Inr r \<Rightarrow> r | Inl _ \<Rightarrow> None)"
proof -
  have nn: "nullish (json_obj kvs) = False" for kvs by (simp add: json_obj_def nullish_def obj_def undef_def)
  have "read_entry (E\<lparr>cfg_master := old\<rparr>) (of_js k) v =
      (case from_b64 E (jget v ''vk'') of None \<Rightarrow> Inl BootThrow
       | Some vk \<Rightarrow> Inr (Some (\<lparr>signing = sk, verifying = vk, encrypting = ek, label = jget v ''label'',
            created = jget v ''createdAt''\<rparr>, \<not> truthy (jget v ''sealed''))))"
    using assms(4) by (auto simp: open_entry_def read_entry_def open_key_with Let_def split: if_splits option.splits)
  moreover have "read_entry (E\<lparr>cfg_master := new\<rparr>) (of_js k) (reseal_entry E new iv1 iv2 (of_js k) v (sk, ek)) =
      (case from_b64 E (jget v ''vk'') of None \<Rightarrow> Inl BootThrow
       | Some vk \<Rightarrow> Inr (Some (\<lparr>signing = sk, verifying = vk, encrypting = ek, label = jget v ''label'',
            created = jget v ''createdAt''\<rparr>, False)))"
    using open_seal_with [OF assms(1,2)] open_seal_with [OF assms(1,3)] by (simp add: read_entry_def reseal_entry_def nn jget_json_obj open_key_with Let_def split: option.split)
  ultimately show ?thesis by (simp split: option.splits)
qed

lemma read_all_map:
  "read_all E ((k, v) # kvs) =
     (case map_option fst (case read_entry E (of_js k) v of Inr r \<Rightarrow> r | Inl _ \<Rightarrow> None) of
        None \<Rightarrow> None | Some e \<Rightarrow> map_option ((#) (of_js k, e)) (read_all E kvs))"
  by (simp split: sum.splits option.splits prod.splits)

lemma read_all_resealed:
  assumes "gcm_correct E" "\<And>i. length (ivs i) = 12" "open_all E old kvs = Inr os"
  shows "read_all (E\<lparr>cfg_master := new\<rparr>) (reseal E new ivs i kvs os) = read_all (E\<lparr>cfg_master := old\<rparr>) kvs"
  using assms(3)
proof (induction kvs arbitrary: os i)
  case (Cons kv kvs)
  obtain k v where kv: "kv = (k, v)" by force
  from Cons.prems obtain sk ek os' where o: "open_entry E old (of_js k) v = Inr (sk, ek)" "open_all E old kvs = Inr os'"
    "os = (sk, ek) # os'" by (auto simp: kv bind_r_eq_Inr)
  show ?case
    unfolding kv o(3) reseal.simps read_all_map read_resealed [OF assms(1) assms(2) assms(2) o(1)] Cons.IH [OF o(2)] by simp
qed simp

lemma rotate_Inr:
  assumes "rotate_master E old new False ivs d = Inr (n, ops)"
  obtains raw os where "rd_ks d = Doc raw" "open_all E old (object_entries raw) = Inr os" "rd_mk d \<noteq> None"
    "ops = [BackupKeystore, BackupMaster, WriteKeystore (JObj (reseal E new ivs 0 (object_entries raw) os)), WriteMaster new]"
  using assms by (auto simp: rotate_master_def Let_def bind_r_eq_Inr split: if_splits doc.splits)

subsection \<open>Properties\<close>

text \<open>C17: A rotation keeps every key: after it the server reads from the new keystore under the new master key
  exactly what it read from the old one under the old key, and the master key file is the new key.\<close>

theorem rotation_keeps_every_key:
  assumes "gcm_correct E" "\<And>i. length (ivs i) = 12"
    and "rotate_master E old new False ivs d = Inr (n, ops)" "d' = foldl disk_step d ops"
  shows "unsealed E new (rd_ks d') = unsealed E old (rd_ks d) \<and> rd_mk d' = Some new"
proof -
  from assms(3) obtain raw os where r: "rd_ks d = Doc raw" "open_all E old (object_entries raw) = Inr os"
    "ops = [BackupKeystore, BackupMaster, WriteKeystore (JObj (reseal E new ivs 0 (object_entries raw) os)), WriteMaster new]"
    by (rule rotate_Inr)
  then show ?thesis
    using read_all_resealed [OF assms(1,2) r(2), where new = new and i = 0] by (simp add: assms(4) unsealed_def object_entries_def)
qed

text \<open>C19: A crash in the middle of a rotation cannot be repaired by running the tool again: until the last
  write there is no master key file or no keystore, so it refuses, with either key. The old pair is always
  among the backups, and from the second rename on a server that keeps its key in the file makes up a fresh one.\<close>

theorem crashed_rotation_needs_the_backups:
  assumes "rotate_master E old new False ivs d = Inr (n, ops)" "0 < m" "m < 4" "d' = foldl disk_step d (take m ops)"
  shows "rotate_master E old' new' dry ivs' d' \<in> {Inl KeystoreMissing, Inl MasterMissing} \<and>
    hd (rd_ks_bak d') = rd_ks d \<and> Some (if m = 1 then the (rd_mk d') else hd (rd_mk_bak d')) = rd_mk d \<and>
    (2 \<le> m \<longrightarrow> file_provider (rd_mk d') True rand =
      (Some rand, Inr \<lparr>mk_key = rand, mk_source = FileSource, mk_generated = True\<rparr>))"
proof -
  from assms(1) obtain raw os where r: "rd_ks d = Doc raw" "rd_mk d \<noteq> None"
    "ops = [BackupKeystore, BackupMaster, WriteKeystore (JObj (reseal E new ivs 0 (object_entries raw) os)), WriteMaster new]"
    by (rule rotate_Inr)
  consider "m = 1" | "m = 2" | "m = 3" using assms(2,3) by linarith
  then show ?thesis
    using r by cases (auto simp: assms(4) rotate_master_def file_provider_def numeral_2_eq_2 numeral_3_eq_3)
qed

text \<open>The command changes a file only when it is confirmed, the keys are two different keys of 32 bytes, the
  lease of a server on that directory is not live and every entry opens under the old key.\<close>

theorem rotation_is_guarded:
  assumes "rotate_main E dirs now ivs argv = Inr (s, n, ops)" "ops \<noteq> []"
  shows "arg_set (arg argv ''confirm'') \<and> arg argv ''data-dir'' = AText s \<and>
    (\<forall>cur e. rd_lock (dirs s) = Some (Lease cur) \<longrightarrow> w_expires cur = Some e \<longrightarrow> e \<le> now) \<and>
    (\<exists>old new raw os. length old = 32 \<and> length new = 32 \<and> old \<noteq> new \<and> parse_master_hex (arg argv ''new-master-hex'') = Inr new \<and>
      rd_ks (dirs s) = Doc raw \<and> open_all E old (object_entries raw) = Inr os \<and> n = length (object_entries raw))"
proof -
  let ?data = "arg argv ''data-dir''" and ?new = "arg argv ''new-master-hex''"
  obtain oldHex where main: "(if \<not> arg_set ?data \<or> \<not> arg_set ?new then Inl RotUsage
      else bind_r (parse_master_hex oldHex) (\<lambda>oldMaster. bind_r (parse_master_hex ?new) (\<lambda>newMaster.
        if oldMaster = newMaster then Inl RotSame
        else case ?data of
          AText s \<Rightarrow> bind_r (assert_writer_lock_idle now (rd_lock (dirs s))) (\<lambda>_.
            bind_r (rotate_master E oldMaster newMaster (\<not> arg_set (arg argv ''confirm'')) ivs (dirs s)) (\<lambda>(n, ops). Inr (s, n, ops)))
        | _ \<Rightarrow> Inl RotType))) = Inr (s, n, ops)"
    using assms(1) unfolding rotate_main_def Let_def bind_r_eq_Inr by blast
  obtain old new where o: "parse_master_hex (arg argv ''new-master-hex'') = Inr new" "old \<noteq> new" "arg argv ''data-dir'' = AText s"
    "assert_writer_lock_idle now (rd_lock (dirs s)) = Inr ()"
    "rotate_master E old new (\<not> arg_set (arg argv ''confirm'')) ivs (dirs s) = Inr (n, ops)" "\<exists>a. parse_master_hex a = Inr old"
    using main unfolding if_Inl_eq_Inr bind_r_eq_Inr
    by (cases ?data) (simp_all only: argval.case if_Inl_eq_Inr bind_r_eq_Inr, auto)
  have hex: "parse_master_hex a = Inr b \<Longrightarrow> length b = 32" for a b
    by (auto simp: parse_master_hex_def length_from_hex split: argval.splits if_splits)
  have c: "arg_set (arg argv ''confirm'')"
    using o(5) assms(2) by (auto simp: rotate_master_def Let_def bind_r_eq_Inr split: if_splits doc.splits)
  obtain raw os where "rd_ks (dirs s) = Doc raw" "open_all E old (object_entries raw) = Inr os" "n = length (object_entries raw)"
    using o(5) by (auto simp: rotate_master_def Let_def bind_r_eq_Inr split: if_splits doc.splits)
  moreover have "\<forall>cur e. rd_lock (dirs s) = Some (Lease cur) \<longrightarrow> w_expires cur = Some e \<longrightarrow> e \<le> now"
    using o(4) by (auto simp: assert_writer_lock_idle_def split: if_splits)
  ultimately show ?thesis using o c hex by blast
qed

subsection \<open>A rotation of one key\<close>

lemma open_resealed:
  assumes "gcm_correct E" "length iv1 = 12" "length iv2 = 12"
  shows "open_entry E m k (reseal_entry E m iv1 iv2 k v o') = Inr o'"
proof -
  have nn: "nullish (json_obj kvs) = False" for kvs by (simp add: json_obj_def nullish_def obj_def undef_def)
  show ?thesis
    using open_seal_with [OF assms(1,2)] open_seal_with [OF assms(1,3)]
    by (simp add: open_entry_def reseal_entry_def nn jget_json_obj)
qed

definition sample_dir :: rot_dir where
  "sample_dir = \<lparr>rd_ks = Doc (JObj [(js ''k'', reseal_entry (sample_env AnonMode (\<lambda>_. None)) (replicate 32 1)
      (replicate 12 0) (replicate 12 0) ''k'' (obj [(''vk'', str ''AQ=='')]) ([1], [2]))]),
     rd_mk = Some (replicate 32 1), rd_ks_bak = [], rd_mk_bak = [], rd_lock = None\<rparr>"

lemma sample_gcm: "gcm_correct (sample_env AnonMode p)"
  by (simp add: gcm_correct_def sample_env_def)

lemma sample_rotation:
  "\<exists>v. rotate_master (sample_env AnonMode (\<lambda>_. None)) (replicate 32 1) (replicate 32 2) False (\<lambda>_. replicate 12 0) sample_dir =
     Inr (1, [BackupKeystore, BackupMaster, WriteKeystore v, WriteMaster (replicate 32 2)])"
  using open_resealed [OF sample_gcm, of "replicate 12 0" "replicate 12 0"]
  by (simp add: rotate_master_def sample_dir_def object_entries_def nullish_def undef_def)

lemma rotation_keeps_every_key_witness:
  "\<exists>ops. rotate_master (sample_env AnonMode (\<lambda>_. None)) (replicate 32 1) (replicate 32 2) False (\<lambda>_. replicate 12 0) sample_dir =
      Inr (1, ops) \<and> rd_mk (foldl disk_step sample_dir ops) = Some (replicate 32 2)"
proof -
  obtain v where v: "rotate_master (sample_env AnonMode (\<lambda>_. None)) (replicate 32 1) (replicate 32 2) False (\<lambda>_. replicate 12 0) sample_dir =
     Inr (1, [BackupKeystore, BackupMaster, WriteKeystore v, WriteMaster (replicate 32 2)])" using sample_rotation by blast
  from rotation_keeps_every_key [OF sample_gcm _ this HOL.refl] show ?thesis using v by auto
qed

lemma crashed_rotation_needs_the_backups_witness:
  "\<exists>ops. rotate_master (sample_env AnonMode (\<lambda>_. None)) (replicate 32 1) (replicate 32 2) False (\<lambda>_. replicate 12 0) sample_dir =
      Inr (1, ops) \<and>
    hd (rd_ks_bak (foldl disk_step sample_dir (take 3 ops))) = rd_ks sample_dir"
proof -
  obtain v where v: "rotate_master (sample_env AnonMode (\<lambda>_. None)) (replicate 32 1) (replicate 32 2) False (\<lambda>_. replicate 12 0) sample_dir =
     Inr (1, [BackupKeystore, BackupMaster, WriteKeystore v, WriteMaster (replicate 32 2)])" using sample_rotation by blast
  from crashed_rotation_needs_the_backups [OF this, where m = 3 and old' = "[]" and
      new' = "[]" and dry = True and ivs' = "\<lambda>_. []" and rand = "[]"]
  show ?thesis using v by auto
qed

definition sample_argv :: "string list" where
  "sample_argv = [''--data-dir=d'', ''--new-master-hex='' @ to_hex (replicate 32 2), ''--confirm'']"

lemma rotation_is_guarded_witness:
  "\<exists>ops. rotate_main (sample_env AnonMode (\<lambda>_. None)) (\<lambda>_. sample_dir) 0 (\<lambda>_. replicate 12 0)
      sample_argv = Inr (''d'', 1, ops) \<and> ops \<noteq> [] \<and>
    arg_set (arg sample_argv ''confirm'')"
proof -
  obtain v where v: "rotate_master (sample_env AnonMode (\<lambda>_. None)) (replicate 32 1) (replicate 32 2) False (\<lambda>_. replicate 12 0) sample_dir =
     Inr (1, [BackupKeystore, BackupMaster, WriteKeystore v, WriteMaster (replicate 32 2)])" using sample_rotation by blast
  have args: "arg sample_argv ''data-dir'' = AText ''d''" "arg sample_argv ''old-master-hex'' = AMissing"
    "arg sample_argv ''new-master-hex'' = AText (to_hex (replicate 32 2))" "arg sample_argv ''confirm'' = AFlag"
    by (simp_all add: arg_def starts_with_def sample_argv_def)
  have hex: "parse_master_hex (AText (to_hex (replicate 32 b))) = Inr (replicate 32 b)" for b :: byte
    using to_hex_all [of "replicate 32 b"] by (simp add: parse_master_hex_def)
  have ne2: "to_hex (replicate 32 2) \<noteq> []" using length_to_hex [of "replicate 32 2"] by (metis length_replicate list.size(3)
        mult_eq_0_iff zero_neq_numeral)
  have sd: "rd_mk sample_dir = Some (replicate 32 1)" "assert_writer_lock_idle 0 (rd_lock sample_dir) = Inr ()"
    by (simp_all add: sample_dir_def assert_writer_lock_idle_def)
  have ne: "replicate 32 1 \<noteq> replicate 32 (2 :: byte)" by simp
  have "rotate_main (sample_env AnonMode (\<lambda>_. None)) (\<lambda>_. sample_dir) 0 (\<lambda>_. replicate 12 0) sample_argv =
      Inr (''d'', 1, [BackupKeystore, BackupMaster, WriteKeystore v, WriteMaster (replicate 32 2)])"
    using v ne ne2 hex [of 1] hex [of 2]
    by (simp add: rotate_main_def args arg_set_def sd)
  from rotation_is_guarded [OF this] this show ?thesis by auto
qed

end
