(* ===== verification/Qv_Audit.thy ===== *)
theory Qv_Audit
  imports Rotate_Master "HOL-Library.Multiset"
begin

section \<open>The forensic query tool\<close>

text \<open>
  \<open>qv-server/qv-audit.mjs\<close>: arguments, filters, the loop over the lines of an audit log and the summary.
  \<open>JSON.parse\<close> and \<open>Date.parse\<close> are arguments. A summary is its numbers, not its layout. Latencies are exact rationals and finite, where the code has doubles. A field name of
  \<open>--top\<close> is taken to be none of the names an object or an array has from its prototype, and no
  value of a record to have a property \<open>toString\<close> of its own.
\<close>

subsection \<open>Arguments\<close>

text \<open>Here a value may also follow its flag as the next word.\<close>

fun index_in :: "'a list \<Rightarrow> 'a \<Rightarrow> nat option" where
  "index_in [] a = None"
| "index_in (x # xs) a = (if x = a then Some 0 else map_option Suc (index_in xs a))"

definition qa_arg :: "string list \<Rightarrow> string \<Rightarrow> argval" where
  "qa_arg argv name =
     (let flag = ''--'' @ name @ ''='' in
      case find (starts_with flag) argv of
        Some a \<Rightarrow> AText (drop (length flag) a)
      | None \<Rightarrow>
          (case index_in argv (''--'' @ name) of
             None \<Rightarrow> AMissing
           | Some i \<Rightarrow> if i + 1 < length argv \<and> \<not> starts_with ''--'' (argv ! (i + 1)) then AText (argv ! (i + 1)) else AFlag))"

datatype qa_format = FHuman | FJson | FTsv

record qa_opts =
  q_event :: argval
  q_request :: argval
  q_trace :: argval
  q_key :: argval
  q_status :: argval
  q_ip :: argval
  q_reason :: argval
  q_grep :: argval
  q_since :: "int option"
  q_until :: "int option"
  q_summary :: bool
  q_top :: "string option"
  q_limit :: nat
  q_format :: qa_format

definition all_digits :: "string \<Rightarrow> bool" where
  "all_digits s \<longleftrightarrow> s \<noteq> [] \<and> list_all is_digit s"

definition top_limit :: "string list \<Rightarrow> nat" where
  "top_limit argv =
     (case index_in argv ''--top'' of
        Some i \<Rightarrow>
          if i + 2 < length argv \<and> all_digits (argv ! (i + 2)) then digits_val 10 dec_val (argv ! (i + 2))
          else (case qa_arg argv ''top-n'' of AText s \<Rightarrow> if all_digits s then digits_val 10 dec_val s else 10 | _ \<Rightarrow> 10)
      | None \<Rightarrow> (case qa_arg argv ''top-n'' of AText s \<Rightarrow> if all_digits s then digits_val 10 dec_val s else 10 | _ \<Rightarrow> 10))"

definition qa_date :: "(string \<Rightarrow> int option) \<Rightarrow> argval \<Rightarrow> int option option" where
  "qa_date date a = (case a of
     AMissing \<Rightarrow> Some None
   | AFlag \<Rightarrow> None
   | AText s \<Rightarrow> if s = [] then Some None else map_option Some (date s))"

text \<open>\<open>None\<close> is the exit with status 1 for a bad format or date.\<close>

definition qa_options :: "(string \<Rightarrow> int option) \<Rightarrow> string list \<Rightarrow> qa_opts option" where
  "qa_options date argv =
     (let fmt = (case qa_arg argv ''format'' of
            AMissing \<Rightarrow> Some FHuman
          | AFlag \<Rightarrow> None
          | AText s \<Rightarrow> if s = ''human'' then Some FHuman else if s = ''json'' then Some FJson
                      else if s = ''tsv'' then Some FTsv else None)
      in case (fmt, qa_date date (qa_arg argv ''since''), qa_date date (qa_arg argv ''until'')) of
        (Some f, Some si, Some un) \<Rightarrow> Some
          \<lparr>q_event = qa_arg argv ''event'', q_request = qa_arg argv ''request-id'', q_trace = qa_arg argv ''trace-id'',
           q_key = qa_arg argv ''key-id'', q_status = qa_arg argv ''status'', q_ip = qa_arg argv ''ip'',
           q_reason = qa_arg argv ''reason'', q_grep = qa_arg argv ''grep'', q_since = si, q_until = un,
           q_summary = (qa_arg argv ''summary'' = AFlag),
           q_top = (case qa_arg argv ''top'' of AText s \<Rightarrow> if s = ''true'' then None else Some s | _ \<Rightarrow> None),
           q_limit = top_limit argv, q_format = f\<rparr>
      | _ \<Rightarrow> None)"

subsection \<open>Filters\<close>

text \<open>\<open>flt && rec.x !== flt\<close> fails: no filter, or the same text; a flag without a value is \<open>true\<close>.\<close>

definition field_ok :: "argval \<Rightarrow> jsval \<Rightarrow> bool" where
  "field_ok a v = (case a of AMissing \<Rightarrow> True | AFlag \<Rightarrow> v = JBool True | AText s \<Rightarrow> s = [] \<or> v = str s)"

definition status_matches :: "jsval \<Rightarrow> argval \<Rightarrow> bool" where
  "status_matches st a = (case a of
     AMissing \<Rightarrow> True
   | AFlag \<Rightarrow> False
   | AText flt \<Rightarrow>
       if flt = [] then True
       else (case to_number st of
          None \<Rightarrow> False
        | Some c \<Rightarrow>
            if all_digits flt then c = of_nat (digits_val 10 dec_val flt)
            else (case flt of
               [d, x, y] \<Rightarrow> d \<in> set ''12345'' \<and> x \<in> set ''xX'' \<and> y \<in> set ''xX'' \<and> Some (nat \<lfloor>c / 100\<rfloor>) = dec_val d \<and> 0 \<le> c
             | _ \<Rightarrow> False)))"

definition js_includes :: "jsstr \<Rightarrow> jsstr \<Rightarrow> bool" where
  "js_includes line t = list_ex (\<lambda>i. starts_with t (drop i line)) [0..<Suc (length line)]"

definition grep_ok :: "argval \<Rightarrow> jsstr \<Rightarrow> bool" where
  "grep_ok a line = (case a of AMissing \<Rightarrow> True | AFlag \<Rightarrow> js_includes line (js ''true'')
     | AText s \<Rightarrow> s = [] \<or> js_includes line (js s))"

definition set_date :: "int option \<Rightarrow> bool" where
  "set_date d \<longleftrightarrow> d \<noteq> None \<and> d \<noteq> Some 0"

definition date_ok :: "(jsval \<Rightarrow> int option) \<Rightarrow> qa_opts \<Rightarrow> jsval \<Rightarrow> bool" where
  "date_ok rdate q ts =
     (if set_date (q_since q) \<or> set_date (q_until q) then
        (case (if truthy ts then rdate ts else None) of
           None \<Rightarrow> False
         | Some t \<Rightarrow> \<not> (set_date (q_since q) \<and> t < the (q_since q)) \<and> \<not> (set_date (q_until q) \<and> the (q_until q) \<le> t))
      else True)"

text \<open>\<open>None\<close>: the record is \<open>null\<close>, and reading its first property throws.\<close>

definition matches_filters :: "(jsval \<Rightarrow> int option) \<Rightarrow> qa_opts \<Rightarrow> jsval \<Rightarrow> jsstr \<Rightarrow> bool option" where
  "matches_filters rdate q r line =
     (if nullish r then None
      else Some
        (field_ok (q_event q) (jget r ''event'') \<and> field_ok (q_request q) (jget r ''requestId'') \<and>
         field_ok (q_trace q) (jget r ''traceId'') \<and> field_ok (q_key q) (jget r ''keyId'') \<and>
         field_ok (q_ip q) (jget r ''ip'') \<and> field_ok (q_reason q) (jget r ''reason'') \<and>
         status_matches (jget r ''status'') (q_status q) \<and> date_ok rdate q (jget r ''ts'') \<and> grep_ok (q_grep q) line))"

text \<open>What the module does before it opens its input. \<open>None\<close> is exit status 1.\<close>

datatype qa_start = QaHelp | QaBad | QaGo qa_opts

definition qa_begin :: "(string \<Rightarrow> int option) \<Rightarrow> string list \<Rightarrow> qa_start" where
  "qa_begin date argv =
     (if qa_arg argv ''help'' = AFlag \<or> qa_arg argv ''h'' = AFlag then QaHelp
      else case qa_options date argv of None \<Rightarrow> QaBad | Some q \<Rightarrow> QaGo q)"

text \<open>\<open>inputStream\<close>: the lines of the file or of the standard input, or exit status 2. \<open>stat\<close> says
  whether a path exists and is a regular file; no path exists for a flag without value.\<close>

definition input_stream :: "(string \<Rightarrow> bool option) \<Rightarrow> (string \<Rightarrow> jsstr list) \<Rightarrow> jsstr list \<Rightarrow> argval \<Rightarrow> jsstr list option" where
  "input_stream stat lines stdin a = (case a of
     AMissing \<Rightarrow> Some stdin
   | AFlag \<Rightarrow> None
   | AText path \<Rightarrow> if path = [] then Some stdin else if stat path = Some True then Some (lines path) else None)"

subsection \<open>Output of a record\<close>

text \<open>Functions of the language that are arguments of the model: \<open>String(n)\<close> and \<open>n.toFixed(2)\<close> of a
  number, and \<open>toUpperCase\<close> of a text.\<close>

record qa_text =
  num_str :: "jsnum \<Rightarrow> jsstr"
  to_fixed :: "jsnum \<Rightarrow> jsstr"
  to_upper :: "jsstr \<Rightarrow> jsstr"

definition tab_free :: "jsstr \<Rightarrow> jsstr" where
  "tab_free s = map (\<lambda>u. if u = 9 then 32 else u) s"

definition fmt_tsv :: "qa_text \<Rightarrow> jsval \<Rightarrow> jsstr" where
  "fmt_tsv T r =
     join_with [9] (map (\<lambda>v. tab_free (prop_name (num_str T) v))
       [val_or (jget r ''ts'') (str []), val_or (jget r ''level'') (str []), val_or (jget r ''event'') (str []),
        val_or (jget r ''status'') (str []), coalesce (jget r ''ms'') (str []), val_or (jget r ''method'') (str []),
        val_or (jget r ''template'') (val_or (jget r ''path'') (str [])), val_or (jget r ''ip'') (str []),
        val_or (jget r ''keyId'') (str []), val_or (jget r ''reason'') (str []), val_or (jget r ''requestId'') (str []),
        val_or (jget r ''traceId'') (str [])])"

text \<open>\<open>fmtHuman\<close> throws (\<open>None\<close>) where a method its value does not have is called: \<open>toUpperCase\<close> and
  \<open>padEnd\<close> are there for texts, \<open>toFixed\<close> for numbers, \<open>slice\<close> for texts and arrays.\<close>

definition as_text :: "jsval \<Rightarrow> jsstr option" where
  "as_text v = (case v of JStr u \<Rightarrow> Some u | _ \<Rightarrow> None)"

definition pad_end :: "nat \<Rightarrow> jsstr \<Rightarrow> jsstr" where
  "pad_end n u = u @ replicate (n - length u) 32"

definition short_id :: "qa_text \<Rightarrow> string \<Rightarrow> jsval \<Rightarrow> jsstr option" where
  "short_id T name v =
     (if \<not> truthy v then Some []
      else case v of
        JStr u \<Rightarrow> Some (js name @ take 8 u @ [8230])
      | JArr vs \<Rightarrow> Some (js name @ prop_name (num_str T) (JArr (take 8 vs)) @ [8230])
      | _ \<Rightarrow> None)"

definition labelled :: "qa_text \<Rightarrow> string \<Rightarrow> jsval \<Rightarrow> jsstr" where
  "labelled T name v = (if truthy v then js name @ prop_name (num_str T) v else [])"

definition fmt_human :: "qa_text \<Rightarrow> jsval \<Rightarrow> jsstr option" where
  "fmt_human T r =
     Option.bind (as_text (val_or (jget r ''level'') (str ''info''))) (\<lambda>lvl.
     Option.bind (as_text (val_or (jget r ''event'') (str []))) (\<lambda>evt.
     Option.bind (if nullish (jget r ''ms'') then Some []
       else case jget r ''ms'' of JNum n \<Rightarrow> Some ([32] @ to_fixed T n @ js ''ms'') | _ \<Rightarrow> None) (\<lambda>ms.
     Option.bind (short_id T ''keyId='' (jget r ''keyId'')) (\<lambda>kid.
     Option.bind (short_id T ''req='' (jget r ''requestId'')) (\<lambda>rid.
       let path = prop_name (num_str T) (val_or (jget r ''template'') (val_or (jget r ''path'') (str [])));
           meth = (if truthy (jget r ''method'') then prop_name (num_str T) (jget r ''method'') @ [32] @ path else []);
           meta = join_with [32] (filter (\<lambda>u. u \<noteq> [])
             [meth, labelled T ''ip='' (jget r ''ip''), kid, labelled T ''reason='' (jget r ''reason''), rid]);
           status = labelled T '' '' (jget r ''status'')
       in Some (prop_name (num_str T) (val_or (jget r ''ts'') (str [])) @ [32] @ pad_end 4 (to_upper T lvl) @ [32] @
                pad_end 20 evt @ status @ ms @ [32] @ meta))))))"

subsection \<open>The summary\<close>

text \<open>A \<open>Map\<close> is the list of its entries in insertion order.\<close>

definition same_key :: "jsval \<Rightarrow> jsval \<Rightarrow> bool" where
  "same_key v w = (case v of JArr _ \<Rightarrow> False | JObj _ \<Rightarrow> False | _ \<Rightarrow> v = w)"

fun map_inc :: "(jsval \<times> nat) list \<Rightarrow> jsval \<Rightarrow> (jsval \<times> nat) list" where
  "map_inc [] k = [(k, 1)]"
| "map_inc ((k', n) # m) k = (if same_key k' k then (k', n + 1) # m else (k', n) # map_inc m k)"

definition bump :: "(jsval \<times> nat) list \<Rightarrow> jsval \<Rightarrow> (jsval \<times> nat) list" where
  "bump m k = (if nullish k then m else map_inc m k)"

record qa_summary =
  s_total :: nat
  s_events :: "(jsval \<times> nat) list"
  s_status :: "(jsval \<times> nat) list"
  s_reasons :: "(jsval \<times> nat) list"
  s_ms :: "rat list"
  s_top :: "(jsval \<times> nat) list option"

definition empty_summary :: qa_summary where
  "empty_summary = \<lparr>s_total = 0, s_events = [], s_status = [], s_reasons = [], s_ms = [], s_top = None\<rparr>"

definition sample :: "jsval \<Rightarrow> rat list" where
  "sample v = (case v of JNum (Finite r) \<Rightarrow> if 0 \<le> r then [r] else [] | _ \<Rightarrow> [])"

definition ingest :: "string option \<Rightarrow> qa_summary \<Rightarrow> jsval \<Rightarrow> qa_summary" where
  "ingest topField s r =
     \<lparr>s_total = s_total s + 1,
      s_events = bump (s_events s) (jget r ''event''),
      s_status = bump (s_status s) (jget r ''status''),
      s_reasons = bump (s_reasons s) (jget r ''reason''),
      s_ms = s_ms s @ sample (jget r ''ms''),
      s_top = (case topField of None \<Rightarrow> s_top s | Some f \<Rightarrow>
         if f = [] then s_top s
         else Some (bump (case s_top s of None \<Rightarrow> [] | Some m \<Rightarrow> m) (jget r f)))\<rparr>"

definition pct :: "rat list \<Rightarrow> rat \<Rightarrow> rat option" where
  "pct arr p =
     (if arr = [] then None
      else Some (sort arr ! min (length arr - 1) (nat \<lfloor>of_nat (length arr) * p\<rfloor>)))"

record qa_report =
  r_total :: nat
  r_events :: "(jsval \<times> nat) list"
  r_status :: "(jsval \<times> nat) list"
  r_reasons :: "(jsval \<times> nat) list"
  r_p50 :: "rat option"
  r_p95 :: "rat option"
  r_p99 :: "rat option"
  r_max :: "rat option"
  r_samples :: nat
  r_top :: "(jsval \<times> nat) list option"

text \<open>\<open>b[1] - a[1]\<close>: descending by count, the sort is stable.\<close>

definition by_count :: "(jsval \<times> nat) list \<Rightarrow> (jsval \<times> nat) list" where
  "by_count m = sort_key (\<lambda>(k, n). - int n) m"

text \<open>\<open>print\<close>: the numbers it writes. The last sample is read after the array was sorted in place.
  In JSON the maps are written in insertion order and the field of \<open>--top\<close> is not. The order
  of the status table is not kept.\<close>

definition print_summary :: "qa_opts \<Rightarrow> qa_summary \<Rightarrow> qa_report" where
  "print_summary q s =
     (let human = (q_format q \<noteq> FJson) in
      \<lparr>r_total = s_total s,
       r_events = (if human then by_count (s_events s) else s_events s),
       r_status = s_status s,
       r_reasons = (if human then by_count (s_reasons s) else s_reasons s),
       r_p50 = pct (s_ms s) (1 / 2), r_p95 = pct (s_ms s) (95 / 100), r_p99 = pct (s_ms s) (99 / 100),
       r_max = (if s_ms s = [] then None else Some (last (sort (s_ms s)))),
       r_samples = length (s_ms s),
       r_top = (if human then map_option (\<lambda>m. take (q_limit q) (by_count m)) (s_top s) else None)\<rparr>)"

subsection \<open>The run\<close>

definition ws_unit :: "16 word \<Rightarrow> bool" where
  "ws_unit u \<longleftrightarrow> unat u \<in> {9, 10, 11, 12, 13, 32, 160, 5760, 8232, 8233, 8239, 8287, 12288, 65279} \<or>
     (8192 \<le> unat u \<and> unat u \<le> 8202)"

datatype qa_out = Raw jsstr | Tsv jsstr | Human jsstr

record qa_state =
  qs_out :: "qa_out list"
  qs_matched :: nat
  qs_sum :: qa_summary
  qs_threw :: bool

definition summarise :: "qa_opts \<Rightarrow> bool" where
  "summarise q \<longleftrightarrow> q_summary q \<or> (q_top q \<noteq> None \<and> q_top q \<noteq> Some [])"

definition qa_record :: "qa_text \<Rightarrow> qa_opts \<Rightarrow> jsval \<Rightarrow> jsstr \<Rightarrow> qa_state \<Rightarrow> qa_state" where
  "qa_record T q r line s0 =
     (let s = s0\<lparr>qs_matched := qs_matched s0 + 1\<rparr> in
      if summarise q then s\<lparr>qs_sum := ingest (q_top q) (qs_sum s) r\<rparr>
      else case q_format q of
        FJson \<Rightarrow> s\<lparr>qs_out := qs_out s @ [Raw line]\<rparr>
      | FTsv \<Rightarrow> s\<lparr>qs_out := qs_out s @ [Tsv (fmt_tsv T r)]\<rparr>
      | FHuman \<Rightarrow> (case fmt_human T r of
          Some t \<Rightarrow> s\<lparr>qs_out := qs_out s @ [Human t]\<rparr> | None \<Rightarrow> s\<lparr>qs_threw := True\<rparr>))"

text \<open>The loop; an exception ends it.\<close>

fun qa_lines :: "(jsstr \<Rightarrow> jsval option) \<Rightarrow> (jsval \<Rightarrow> int option) \<Rightarrow> qa_text \<Rightarrow> qa_opts \<Rightarrow>
    jsstr list \<Rightarrow> qa_state \<Rightarrow> qa_state" where
  "qa_lines parse rdate T q [] s = s"
| "qa_lines parse rdate T q (line # ls) s =
     (if list_all ws_unit line then qa_lines parse rdate T q ls s
      else case parse line of
        None \<Rightarrow> qa_lines parse rdate T q ls s
      | Some r \<Rightarrow>
          (case matches_filters rdate q r line of
             None \<Rightarrow> s\<lparr>qs_threw := True\<rparr>
           | Some False \<Rightarrow> qa_lines parse rdate T q ls s
           | Some True \<Rightarrow>
               let s' = qa_record T q r line s in
               if qs_threw s' then s' else qa_lines parse rdate T q ls s'))"

definition qa_init :: qa_state where
  "qa_init = \<lparr>qs_out = [], qs_matched = 0, qs_sum = empty_summary, qs_threw = False\<rparr>"

record qa_result =
  res_out :: "qa_out list"
  res_report :: "qa_report option"
  res_hint :: bool
  res_exit :: nat

definition qa_main :: "(jsstr \<Rightarrow> jsval option) \<Rightarrow> (jsval \<Rightarrow> int option) \<Rightarrow> qa_text \<Rightarrow> qa_opts \<Rightarrow> jsstr list \<Rightarrow> qa_result" where
  "qa_main parse rdate T q ls =
     (let s = qa_lines parse rdate T q ls qa_init in
      if qs_threw s then \<lparr>res_out = qs_out s, res_report = None, res_hint = False, res_exit = 1\<rparr>
      else \<lparr>res_out = qs_out s,
            res_report = (if summarise q then Some (print_summary q (qs_sum s)) else None),
            res_hint = (\<not> summarise q \<and> qs_matched s = 0 \<and> q_format q = FHuman), res_exit = 0\<rparr>)"

text \<open>The whole command.\<close>

definition qa_command :: "(jsstr \<Rightarrow> jsval option) \<Rightarrow> (string \<Rightarrow> int option) \<Rightarrow> (jsval \<Rightarrow> int option) \<Rightarrow>
    qa_text \<Rightarrow> (string \<Rightarrow> bool option) \<Rightarrow> (string \<Rightarrow> jsstr list) \<Rightarrow> jsstr list \<Rightarrow> string list \<Rightarrow> qa_result" where
  "qa_command parse date rdate T stat lines stdin argv =
     (let stop = (\<lambda>c. \<lparr>res_out = [], res_report = None, res_hint = False, res_exit = c\<rparr>) in
      case qa_begin date argv of
        QaHelp \<Rightarrow> stop 0
      | QaBad \<Rightarrow> stop 1
      | QaGo q \<Rightarrow>
          (case input_stream stat lines stdin (qa_arg argv ''file'') of
             None \<Rightarrow> stop 2
           | Some ls \<Rightarrow> qa_main parse rdate T q ls))"

subsection \<open>The reference: the matching records\<close>

text \<open>The lines that hold a record the filters accept, in order, with their record.\<close>

definition matching :: "(jsstr \<Rightarrow> jsval option) \<Rightarrow> (jsval \<Rightarrow> int option) \<Rightarrow> qa_opts \<Rightarrow> jsstr list \<Rightarrow> (jsstr \<times> jsval) list" where
  "matching parse rdate q ls =
     concat (map (\<lambda>l. if list_all ws_unit l then [] else (case parse l of
        Some r \<Rightarrow> if matches_filters rdate q r l = Some True then [(l, r)] else [] | None \<Rightarrow> [])) ls)"

definition no_null :: "(jsstr \<Rightarrow> jsval option) \<Rightarrow> jsstr list \<Rightarrow> bool" where
  "no_null parse ls \<longleftrightarrow> list_all (\<lambda>l. list_all ws_unit l \<or> (case parse l of Some r \<Rightarrow> \<not> nullish r | None \<Rightarrow> True)) ls"

lemma matching_simps [simp]:
  "matching parse rdate q [] = []"
  "matching parse rdate q (l # ls) =
     (if list_all ws_unit l then [] else (case parse l of
        Some r \<Rightarrow> if matches_filters rdate q r l = Some True then [(l, r)] else [] | None \<Rightarrow> [])) @ matching parse rdate q ls"
  by (simp_all add: matching_def)

lemma matches_filters_None: "matches_filters rdate q r l = None \<longleftrightarrow> nullish r"
  by (simp add: matches_filters_def)

lemma qa_record_threw:
  "\<not> qs_threw s \<Longrightarrow> qs_threw (qa_record T q r l s) \<longleftrightarrow> \<not> summarise q \<and> q_format q = FHuman \<and> fmt_human T r = None"
  by (simp add: qa_record_def Let_def split: qa_format.split option.split)

lemma qa_lines_fold:
  assumes "no_null parse ls" "\<not> qs_threw s"
    and "summarise q \<or> q_format q \<noteq> FHuman \<or> list_all (\<lambda>(l, r). fmt_human T r \<noteq> None) (matching parse rdate q ls)"
  shows "qa_lines parse rdate T q ls s = fold (\<lambda>(l, r). qa_record T q r l) (matching parse rdate q ls) s"
  using assms
proof (induction ls arbitrary: s)
  case (Cons l ls)
  have rest: "no_null parse ls" using Cons.prems(1) by (simp add: no_null_def)
  have tail: "summarise q \<or> q_format q \<noteq> FHuman \<or> list_all (\<lambda>(l, r). fmt_human T r \<noteq> None) (matching parse rdate q ls)"
    using Cons.prems(3) by auto
  note IH = Cons.IH [OF rest _ tail]
  show ?case
  proof (cases "\<not> list_all ws_unit l \<and> (\<exists>r. parse l = Some r \<and> matches_filters rdate q r l = Some True)")
    case True
    then obtain r where r: "parse l = Some r" "matches_filters rdate q r l = Some True" "\<not> list_all ws_unit l" by blast
    have "\<not> qs_threw (qa_record T q r l s)"
      using Cons.prems(3) r by (auto simp: qa_record_threw [OF Cons.prems(2)])
    with IH [OF this] r show ?thesis by (simp add: Let_def)
  next
    case False
    then show ?thesis using IH [OF Cons.prems(2)] Cons.prems(1)
      by (auto simp: no_null_def matches_filters_None split: option.split bool.split)
  qed
qed simp

lemma record_summary:
  "summarise q \<Longrightarrow> fold (\<lambda>(l, r). qa_record T q r l) ms s =
     s\<lparr>qs_matched := qs_matched s + length ms, qs_sum := fold (\<lambda>(l, r) t. ingest (q_top q) t r) ms (qs_sum s)\<rparr>"
  by (induction ms arbitrary: s) (auto simp: qa_record_def Let_def)

definition shown :: "qa_text \<Rightarrow> qa_opts \<Rightarrow> jsstr \<times> jsval \<Rightarrow> qa_out" where
  "shown T q m = (case q_format q of FJson \<Rightarrow> Raw (fst m) | FTsv \<Rightarrow> Tsv (fmt_tsv T (snd m)) | FHuman \<Rightarrow> Human (the (fmt_human T (snd m))))"

lemma record_shown:
  assumes "\<not> summarise q" "q_format q \<noteq> FHuman \<or> list_all (\<lambda>(l, r). fmt_human T r \<noteq> None) ms"
  shows "fold (\<lambda>(l, r). qa_record T q r l) ms s =
     s\<lparr>qs_matched := qs_matched s + length ms, qs_out := qs_out s @ map (shown T q) ms\<rparr>"
  using assms by (induction ms arbitrary: s) (auto simp: qa_record_def Let_def shown_def split: qa_format.split option.split)

subsection \<open>What the filters ask for\<close>

text \<open>
  The meaning of the options, stated of the record and the line alone. A flag asks for its value
  unless that is empty. The six fields must be equal to the texts asked for; a status is a number or
  a class of a hundred; a record lies in the window from \<open>--since\<close>, included, to \<open>--until\<close>, excluded,
  where the first instant of 1970 is no bound; \<open>--grep\<close> is a part of the line. A flag without value
  stands for \<open>true\<close>: no status is, a field has to be that truth value, and a line has to contain the word.
\<close>

definition given :: "argval \<Rightarrow> string \<Rightarrow> bool" where
  "given a s \<longleftrightarrow> a = AText s \<and> s \<noteq> []"

definition has_part :: "jsstr \<Rightarrow> string \<Rightarrow> bool" where
  "has_part line t \<longleftrightarrow> (\<exists>u v. line = u @ js t @ v)"

definition same_number :: "string \<Rightarrow> rat \<Rightarrow> bool" where
  "same_number s c \<longleftrightarrow> (\<forall>d \<in> set s. 48 \<le> code d \<and> code d \<le> 57) \<and>
     c = of_nat (foldl (\<lambda>n d. 10 * n + (code d - 48)) 0 s)"

definition in_class :: "string \<Rightarrow> rat \<Rightarrow> bool" where
  "in_class s c \<longleftrightarrow> (\<exists>n \<in> {1..5}. \<exists>x \<in> {CHR ''x'', CHR ''X''}. \<exists>y \<in> {CHR ''x'', CHR ''X''}.
     s = [digit_char n, x, y] \<and> of_nat (100 * n) \<le> c \<and> c < of_nat (100 * n + 100))"

definition bound_ms :: "int option \<Rightarrow> int \<Rightarrow> bool" where
  "bound_ms d b \<longleftrightarrow> d = Some b \<and> b \<noteq> 0"

definition asked_fields :: "qa_opts \<Rightarrow> (argval \<times> string) list" where
  "asked_fields q =
     [(q_event q, ''event''), (q_request q, ''requestId''), (q_trace q, ''traceId''),
      (q_key q, ''keyId''), (q_ip q, ''ip''), (q_reason q, ''reason'')]"

definition satisfies :: "(jsval \<Rightarrow> int option) \<Rightarrow> qa_opts \<Rightarrow> jsstr \<Rightarrow> jsval \<Rightarrow> bool" where
  "satisfies rdate q line r \<longleftrightarrow>
     (\<forall>(a, f) \<in> set (asked_fields q).
        (\<forall>s. given a s \<longrightarrow> jget r f = str s) \<and> (a = AFlag \<longrightarrow> jget r f = JBool True)) \<and>
     (\<forall>s. given (q_status q) s \<longrightarrow>
        (\<exists>c. to_number (jget r ''status'') = Some c \<and> (same_number s c \<or> in_class s c))) \<and> q_status q \<noteq> AFlag \<and>
     ((\<exists>b. bound_ms (q_since q) b \<or> bound_ms (q_until q) b) \<longrightarrow> truthy (jget r ''ts'') \<and>
        (\<exists>t. rdate (jget r ''ts'') = Some t \<and>
           (\<forall>b. bound_ms (q_since q) b \<longrightarrow> b \<le> t) \<and> (\<forall>b. bound_ms (q_until q) b \<longrightarrow> t < b))) \<and>
     (\<forall>s. given (q_grep q) s \<longrightarrow> has_part line s) \<and> (q_grep q = AFlag \<longrightarrow> has_part line ''true'')"

text \<open>The lines that are asked for, in the order of the log: not blank, and a record that satisfies
  the filters.\<close>

definition hits :: "(jsstr \<Rightarrow> jsval option) \<Rightarrow> (jsval \<Rightarrow> int option) \<Rightarrow> qa_opts \<Rightarrow> jsstr list \<Rightarrow> (jsstr \<times> jsval) list" where
  "hits parse rdate q ls =
     map (\<lambda>l. (l, the (parse l)))
       (filter (\<lambda>l. (\<exists>u \<in> set l. \<not> ws_unit u) \<and> parse l \<noteq> None \<and> satisfies rdate q l (the (parse l))) ls)"

lemma js_includes_iff: "js_includes line (js t) \<longleftrightarrow> has_part line t"
proof
  assume "js_includes line (js t)"
  then obtain i where "starts_with (js t) (drop i line)" unfolding js_includes_def list_ex_iff by blast
  then have "line = take i line @ js t @ drop (length (js t)) (drop i line)"
    by (metis append_take_drop_id starts_with_def)
  then show "has_part line t" unfolding has_part_def by blast
next
  assume "has_part line t"
  then obtain u v where "line = u @ js t @ v" by (auto simp: has_part_def)
  then have "starts_with (js t) (drop (length u) line)" "length u \<in> set [0..<Suc (length line)]"
    by (simp_all add: starts_with_def)
  then show "js_includes line (js t)" unfolding js_includes_def list_ex_iff by blast
qed

lemma field_ok_iff:
  "field_ok a v \<longleftrightarrow> (\<forall>s. given a s \<longrightarrow> v = str s) \<and> (a = AFlag \<longrightarrow> v = JBool True)"
  by (auto simp: field_ok_def given_def split: argval.split)

lemma grep_ok_iff:
  "grep_ok a line \<longleftrightarrow> (\<forall>s. given a s \<longrightarrow> has_part line s) \<and> (a = AFlag \<longrightarrow> has_part line ''true'')"
  by (auto simp: grep_ok_def given_def js_includes_iff split: argval.split)

lemma date_ok_iff:
  "date_ok rdate q ts \<longleftrightarrow>
     ((\<exists>b. bound_ms (q_since q) b \<or> bound_ms (q_until q) b) \<longrightarrow> truthy ts \<and>
        (\<exists>t. rdate ts = Some t \<and>
           (\<forall>b. bound_ms (q_since q) b \<longrightarrow> b \<le> t) \<and> (\<forall>b. bound_ms (q_until q) b \<longrightarrow> t < b)))"
  by (cases "q_since q"; cases "q_until q"; cases "rdate ts")
    (auto simp: date_ok_def set_date_def bound_ms_def)

lemma digits_val_foldl:
  "list_all is_digit s \<Longrightarrow> digits_val 10 dec_val s = foldl (\<lambda>n d. 10 * n + (code d - 48)) 0 s"
proof (induction s rule: rev_induct)
  case (snoc d s)
  then have "dec_val d = Some (code d - 48)" by (auto simp: is_digit_def dec_val_def split: if_splits)
  with snoc show ?case by simp
qed (simp add: digits_val_def)

lemma same_number_iff:
  "s \<noteq> [] \<Longrightarrow> same_number s c \<longleftrightarrow> all_digits s \<and> c = of_nat (digits_val 10 dec_val s)"
  by (auto simp: same_number_def all_digits_def digits_val_foldl list_all_iff is_digit_def dec_val_def split: if_splits)

lemma hundreds_iff:
  fixes c :: rat
  assumes "1 \<le> n"
  shows "n = nat \<lfloor>c / 100\<rfloor> \<and> 0 \<le> c \<longleftrightarrow> of_nat (100 * n) \<le> c \<and> c < of_nat (100 * n + 100)"
proof -
  have "n = nat \<lfloor>c / 100\<rfloor> \<longleftrightarrow> \<lfloor>c / 100\<rfloor> = int n" using assms by linarith
  also have "\<dots> \<longleftrightarrow> of_nat n \<le> c / 100 \<and> c / 100 < of_nat n + 1" by (simp add: floor_eq_iff)
  also have "\<dots> \<longleftrightarrow> of_nat (100 * n) \<le> c \<and> c < of_nat (100 * n + 100)"
    by (simp add: pos_le_divide_eq pos_divide_less_eq mult.commute distrib_left)
  finally have e: "n = nat \<lfloor>c / 100\<rfloor> \<longleftrightarrow> of_nat (100 * n) \<le> c \<and> c < of_nat (100 * n + 100)" .
  moreover have "of_nat (100 * n) \<le> c \<Longrightarrow> 0 \<le> c" using of_nat_0_le_iff order_trans by blast
  ultimately show ?thesis by blast
qed

lemma class_digits: "d \<in> set ''12345'' \<longleftrightarrow> (\<exists>n \<in> {1..5}. d = digit_char n)"
proof -
  have "{1..5} = {1, 2, 3, 4, 5 :: nat}" by auto
  moreover have "map digit_char [1, 2, 3, 4, 5] = ''12345''" by code_simp
  then have "set ''12345'' = digit_char ` {1, 2, 3, 4, 5}" by (metis empty_set image_set list.simps(15))
  ultimately show ?thesis by auto
qed

lemma in_class_iff:
  "in_class s c \<longleftrightarrow> (case s of
     [d, x, y] \<Rightarrow> d \<in> set ''12345'' \<and> x \<in> set ''xX'' \<and> y \<in> set ''xX'' \<and> Some (nat \<lfloor>c / 100\<rfloor>) = dec_val d \<and> 0 \<le> c
   | _ \<Rightarrow> False)"
proof -
  have h: "n \<in> {1..5} \<Longrightarrow> of_nat (100 * n) \<le> c \<and> c < of_nat (100 * n + 100) \<longleftrightarrow> Some (nat \<lfloor>c / 100\<rfloor>) = dec_val (digit_char n) \<and> 0 \<le> c" for n
    using hundreds_iff [of n c] by auto
  have "(\<exists>n \<in> {1..5}. d = digit_char n \<and> of_nat (100 * n) \<le> c \<and> c < of_nat (100 * n + 100)) \<longleftrightarrow>
      d \<in> set ''12345'' \<and> Some (nat \<lfloor>c / 100\<rfloor>) = dec_val d \<and> 0 \<le> c" for d
    unfolding class_digits using h by metis
  note digit = this
  show ?thesis
  proof (cases "\<exists>d x y. s = [d, x, y]")
    case True
    then obtain d x y where s: "s = [d, x, y]" by blast
    have "in_class s c \<longleftrightarrow> x \<in> set ''xX'' \<and> y \<in> set ''xX'' \<and>
        (\<exists>n \<in> {1..5}. d = digit_char n \<and> of_nat (100 * n) \<le> c \<and> c < of_nat (100 * n + 100))"
      unfolding in_class_def s by auto
    then show ?thesis unfolding digit s by auto
  qed (auto simp: in_class_def split: list.split)
qed

lemma class_no_number: "in_class s c \<Longrightarrow> \<not> all_digits s"
proof -
  assume "in_class s c"
  then have "CHR ''x'' \<in> set s \<or> CHR ''X'' \<in> set s" by (auto simp: in_class_def)
  moreover have "\<not> is_digit CHR ''x''" "\<not> is_digit CHR ''X''" by (simp_all add: is_digit_def dec_val_def code_def)
  ultimately show ?thesis by (auto simp: all_digits_def list_all_iff)
qed

lemma status_matches_iff:
  "status_matches st a \<longleftrightarrow>
     (\<forall>s. given a s \<longrightarrow> (\<exists>c. to_number st = Some c \<and> (same_number s c \<or> in_class s c))) \<and> a \<noteq> AFlag"
proof (cases a)
  case (AText s)
  show ?thesis
  proof (cases "s = [] \<or> to_number st = None")
    case False
    then obtain c where c: "to_number st = Some c" "s \<noteq> []" by auto
    have "status_matches st a \<longleftrightarrow> (if all_digits s then c = of_nat (digits_val 10 dec_val s) else in_class s c)"
      using c by (simp add: status_matches_def AText in_class_iff)
    also have "\<dots> \<longleftrightarrow> same_number s c \<or> in_class s c"
      using same_number_iff [OF c(2)] class_no_number by auto
    finally show ?thesis using c by (auto simp: given_def AText)
  qed (auto simp: status_matches_def given_def AText)
qed (simp_all add: status_matches_def given_def)

lemma matches_filters_iff: "matches_filters rdate q r line = Some True \<longleftrightarrow> \<not> nullish r \<and> satisfies rdate q line r"
  unfolding matches_filters_def satisfies_def asked_fields_def
  by (simp add: field_ok_iff status_matches_iff date_ok_iff grep_ok_iff)

lemma matching_hits: "no_null parse ls \<Longrightarrow> matching parse rdate q ls = hits parse rdate q ls"
proof (induction ls)
  case (Cons l ls)
  have "no_null parse ls" using Cons.prems by (simp add: no_null_def)
  moreover have "list_all ws_unit l \<longleftrightarrow> \<not> (\<exists>u \<in> set l. \<not> ws_unit u)" by (simp add: list_all_iff)
  ultimately show ?case using Cons
    by (auto simp: hits_def no_null_def matches_filters_iff split: option.split)
qed (simp add: hits_def)

subsection \<open>A small log, for the witnesses\<close>

definition ex_query :: "qa_format \<Rightarrow> bool \<Rightarrow> string option \<Rightarrow> qa_opts" where
  "ex_query fmt sm tp =
     \<lparr>q_event = AMissing, q_request = AMissing, q_trace = AMissing, q_key = AMissing, q_status = AMissing, q_ip = AMissing,
      q_reason = AText ''cidr_denied'', q_grep = AMissing, q_since = None, q_until = None,
      q_summary = sm, q_top = tp, q_limit = 1, q_format = fmt\<rparr>"

definition ex_text :: qa_text where
  "ex_text = \<lparr>num_str = \<lambda>_. js ''1'', to_fixed = \<lambda>_. js ''1.00'', to_upper = id\<rparr>"

definition ex_deny :: jsval where
  "ex_deny = obj [(''event'', str ''auth.deny''), (''reason'', str ''cidr_denied''), (''ms'', num 3)]"

definition ex_parse :: "jsstr \<Rightarrow> jsval option" where
  "ex_parse l = (if l = [65] then Some ex_deny else if l = [66] then Some (obj [(''event'', str ''token.issue'')])
     else if l = [78] then Some JNull else None)"

lemma ex_matching:
  "matching ex_parse (\<lambda>_. None) (ex_query fmt sm tp) [[65], [32], [66], [67], [65]] = [([65], ex_deny), ([65], ex_deny)]"
  by (simp add: matching_def ex_parse_def ex_query_def matches_filters_def ex_deny_def nullish_def field_ok_def
      status_matches_def date_ok_def set_date_def grep_ok_def ws_unit_def obj_def undef_def jget_def js_def str_def)

lemma ex_query_sel: "q_format (ex_query fmt sm tp) = fmt" "summarise (ex_query fmt sm tp) \<longleftrightarrow> sm \<or> (tp \<noteq> None \<and> tp \<noteq> Some [])"
  by (simp_all add: ex_query_def summarise_def)

lemma ex_no_null: "no_null ex_parse [[65], [32], [66], [67], [65]]"
  by (simp add: no_null_def ex_parse_def ex_deny_def nullish_def obj_def undef_def)

text \<open>C36: a query prints exactly the records that are asked for, each once and in the order of the
  log: as the untouched lines in JSON, as one formatted row otherwise. A record is asked for when every
  field filter equals its field, its status is the number or in the hundred given, its time is in the
  window, and its line has the text of \<open>--grep\<close>; blank lines and lines that are not JSON are passed
  over. The query exits with 0, and hints at the filter exactly when a human query matched nothing. (No
  line is the JSON value null, and every matching record can be formatted.)\<close>

theorem query_prints_exactly_the_matches:
  assumes "no_null parse ls" "\<not> summarise q"
    and "q_format q \<noteq> FHuman \<or> list_all (\<lambda>(l, r). fmt_human T r \<noteq> None) (hits parse rdate q ls)"
  shows "qa_main parse rdate T q ls =
    \<lparr>res_out = map (shown T q) (hits parse rdate q ls), res_report = None,
     res_hint = (hits parse rdate q ls = [] \<and> q_format q = FHuman), res_exit = 0\<rparr>"
  using assms
  by (simp add: qa_main_def qa_lines_fold record_shown qa_init_def flip: matching_hits)

theorem query_prints_exactly_the_matches_witness:
  "qa_main ex_parse (\<lambda>_. None) ex_text (ex_query FJson False None) [[65], [32], [66], [67], [65]] =
    \<lparr>res_out = [Raw [65], Raw [65]], res_report = None, res_hint = False, res_exit = 0\<rparr>"
  using query_prints_exactly_the_matches [OF ex_no_null, of "ex_query FJson False None" ex_text "\<lambda>_. None"]
  by (simp add: ex_matching ex_query_sel shown_def flip: matching_hits [OF ex_no_null] del: matching_simps)

subsection \<open>A line that is the JSON value null\<close>

lemma qa_lines_append:
  "qa_lines parse rdate T q (as @ bs) s =
     (let s' = qa_lines parse rdate T q as s in if qs_threw s' then s' else qa_lines parse rdate T q bs s')"
  if "\<not> qs_threw s"
  using that
proof (induction as arbitrary: s)
  case (Cons a as)
  then show ?case
    by (simp add: Let_def split: option.split bool.split)
qed (simp add: Let_def)

text \<open>a line that is the JSON value null ends the run: the exit status is 1, nothing after that line
  is looked at and a summary is not printed, although lines that hold no record are meant to be passed over.\<close>

theorem null_line_ends_the_query:
  assumes "\<not> list_all ws_unit l" "parse l = Some JNull"
  shows "res_exit (qa_main parse rdate T q (before @ l # after)) = 1 \<and>
    res_report (qa_main parse rdate T q (before @ l # after)) = None \<and>
    qa_main parse rdate T q (before @ l # after) = qa_main parse rdate T q (before @ [l])"
proof -
  have null: "qa_lines parse rdate T q (l # xs) s = s\<lparr>qs_threw := True\<rparr>" for xs s
    using assms by (simp add: matches_filters_def nullish_def)
  have ok: "\<not> qs_threw qa_init" by (simp add: qa_init_def)
  let ?s = "qa_lines parse rdate T q before qa_init"
  have "qa_lines parse rdate T q (before @ l # xs) qa_init = (if qs_threw ?s then ?s else ?s\<lparr>qs_threw := True\<rparr>)" for xs
    by (simp only: qa_lines_append [OF ok] null Let_def)
  then show ?thesis by (simp add: qa_main_def Let_def)
qed

theorem null_line_ends_the_query_witness:
  "res_exit (qa_main ex_parse (\<lambda>_. None) ex_text (ex_query FJson True None) ([[65]] @ [78] # [[65]])) = 1"
proof -
  have "\<not> list_all ws_unit [78]" "ex_parse [78] = Some JNull" by (simp_all add: ex_parse_def ws_unit_def)
  from null_line_ends_the_query [where l = "[78]" and parse = ex_parse, OF this] show ?thesis by (rule conjunct1)
qed

subsection \<open>The summary is exact\<close>

text \<open>The counts listed for a text: none, or one.\<close>

definition entries_for :: "(jsval \<times> nat) list \<Rightarrow> string \<Rightarrow> nat list" where
  "entries_for m e = map snd (filter (\<lambda>(k, n). k = str e) m)"

definition listed :: "nat \<Rightarrow> nat list" where
  "listed n = (if n = 0 then [] else [n])"

lemma entries_for_simps [simp]:
  "entries_for [] e = []" "entries_for ((k, n) # m) e = (if k = str e then [n] else []) @ entries_for m e"
  by (simp_all add: entries_for_def)

lemma same_key_str [simp]: "same_key v (str e) \<longleftrightarrow> v = str e" "same_key (str e) w \<longleftrightarrow> w = str e"
  by (auto simp: same_key_def str_def split: jsval.split)

lemma same_key_eq: "same_key v w \<Longrightarrow> v = w"
  by (simp add: same_key_def split: jsval.splits)

lemma str_not_nullish [simp]: "\<not> nullish (str e)"
  by (simp add: nullish_def str_def undef_def)

lemma entries_for_inc:
  "entries_for (map_inc m k) e =
     (if k = str e then (case entries_for m e of [] \<Rightarrow> [1] | n # ns \<Rightarrow> (n + 1) # ns) else entries_for m e)"
  by (induction m k rule: map_inc.induct) (auto dest: same_key_eq)

lemma entries_for_bump:
  "entries_for m e = listed c \<Longrightarrow> entries_for (bump m k) e = listed (c + (if k = str e then 1 else 0))"
  by (auto simp: bump_def entries_for_inc listed_def split: if_splits)

lemma by_count_mset [simp]: "mset (by_count m) = mset m" "set (by_count m) = set m"
  by (simp_all add: by_count_def)

lemma entries_for_by_count: "entries_for m e = listed c \<Longrightarrow> entries_for (by_count m) e = listed c"
proof -
  assume a: "entries_for m e = listed c"
  have "mset (entries_for (by_count m) e) = mset (entries_for m e)"
    by (simp add: entries_for_def mset_filter mset_map)
  then show ?thesis using a by (auto simp: listed_def split: if_splits)
qed

definition occurrences :: "string \<Rightarrow> jsval list \<Rightarrow> string \<Rightarrow> nat" where
  "occurrences f rs e = length (filter (\<lambda>r. jget r f = str e) rs)"

lemma occurrences_simps [simp]:
  "occurrences f [] e = 0" "occurrences f (r # rs) e = (if jget r f = str e then 1 else 0) + occurrences f rs e"
  by (simp_all add: occurrences_def)

definition samples :: "jsval list \<Rightarrow> rat list" where
  "samples rs = concat (map (\<lambda>r. sample (jget r ''ms'')) rs)"

lemma ingest_all:
  assumes "entries_for (s_events s) e = listed a" "entries_for (s_status s) e = listed b"
    and "entries_for (s_reasons s) e = listed c" "fold (\<lambda>(l, r) t. ingest topField t r) ms s = s'"
  shows "s_total s' = s_total s + length ms \<and> s_ms s' = s_ms s @ samples (map snd ms) \<and>
    entries_for (s_events s') e = listed (a + occurrences ''event'' (map snd ms) e) \<and>
    entries_for (s_status s') e = listed (b + occurrences ''status'' (map snd ms) e) \<and>
    entries_for (s_reasons s') e = listed (c + occurrences ''reason'' (map snd ms) e)"
  using assms
proof (induction ms arbitrary: s a b c)
  case (Cons m ms)
  obtain l r where m: "m = (l, r)" by force
  have ing: "s_events (ingest topField s r) = bump (s_events s) (jget r ''event'')"
    "s_status (ingest topField s r) = bump (s_status s) (jget r ''status'')"
    "s_reasons (ingest topField s r) = bump (s_reasons s) (jget r ''reason'')"
    "s_total (ingest topField s r) = s_total s + 1"
    "s_ms (ingest topField s r) = s_ms s @ sample (jget r ''ms'')"
    by (simp_all add: ingest_def)
  have run: "fold (\<lambda>(l, r) t. ingest topField t r) ms (ingest topField s r) = s'" using Cons.prems m by simp
  show ?case
    using Cons.IH [OF entries_for_bump [OF Cons.prems(1), of "jget r ''event''", folded ing]
        entries_for_bump [OF Cons.prems(2), of "jget r ''status''", folded ing]
        entries_for_bump [OF Cons.prems(3), of "jget r ''reason''", folded ing] run]
    by (simp add: m ing samples_def ac_simps)
qed (simp add: samples_def)

lemma ingest_top:
  assumes "f \<noteq> []" "entries_for (case s_top s of None \<Rightarrow> [] | Some m \<Rightarrow> m) e = listed c"
    and "fold (\<lambda>(l, r) t. ingest (Some f) t r) ms s = s'"
  shows "entries_for (case s_top s' of None \<Rightarrow> [] | Some m \<Rightarrow> m) e = listed (c + occurrences f (map snd ms) e)"
  using assms(2,3)
proof (induction ms arbitrary: s c)
  case (Cons m ms)
  obtain l r where m: "m = (l, r)" by force
  have run: "fold (\<lambda>(l, r) t. ingest (Some f) t r) ms (ingest (Some f) s r) = s'" using Cons.prems m by simp
  have "entries_for (case s_top (ingest (Some f) s r) of None \<Rightarrow> [] | Some m \<Rightarrow> m) e =
      listed (c + (if jget r f = str e then 1 else 0))"
    using entries_for_bump [OF Cons.prems(1)] assms(1) by (simp add: ingest_def)
  from Cons.IH [OF this run] show ?case by (simp add: m ac_simps)
qed simp

lemma summary_state:
  assumes "no_null parse ls" "summarise q"
  shows "qa_main parse rdate T q ls =
    \<lparr>res_out = [], res_report = Some (print_summary q
        (fold (\<lambda>(l, r) t. ingest (q_top q) t r) (matching parse rdate q ls) empty_summary)),
     res_hint = False, res_exit = 0\<rparr>"
  using assms by (simp add: qa_main_def qa_lines_fold record_summary qa_init_def)

text \<open>a summary is exact: its total is the number of matching records; for every text, the report
  lists it under the events (the statuses, the reasons) once, with the number of matching records that
  carry it, and not at all when that number is zero.\<close>

theorem summary_counts_are_exact:
  assumes "no_null parse ls" "summarise q"
  shows "\<exists>rep. qa_main parse rdate T q ls = \<lparr>res_out = [], res_report = Some rep, res_hint = False, res_exit = 0\<rparr> \<and>
    r_total rep = length (matching parse rdate q ls) \<and>
    r_samples rep = length (samples (map snd (matching parse rdate q ls))) \<and>
    (\<forall>e. entries_for (r_events rep) e = listed (occurrences ''event'' (map snd (matching parse rdate q ls)) e) \<and>
         entries_for (r_status rep) e = listed (occurrences ''status'' (map snd (matching parse rdate q ls)) e) \<and>
         entries_for (r_reasons rep) e = listed (occurrences ''reason'' (map snd (matching parse rdate q ls)) e))"
proof -
  define s where "s = fold (\<lambda>(l, r) t. ingest (q_top q) t r) (matching parse rdate q ls) empty_summary"
  have sum: "s_total s = length (matching parse rdate q ls) \<and> s_ms s = samples (map snd (matching parse rdate q ls)) \<and>
    entries_for (s_events s) e = listed (occurrences ''event'' (map snd (matching parse rdate q ls)) e) \<and>
    entries_for (s_status s) e = listed (occurrences ''status'' (map snd (matching parse rdate q ls)) e) \<and>
    entries_for (s_reasons s) e = listed (occurrences ''reason'' (map snd (matching parse rdate q ls)) e)" for e
    using ingest_all [of empty_summary e 0 0 0 "q_top q" "matching parse rdate q ls" s]
    by (simp add: s_def empty_summary_def listed_def)
  have "qa_main parse rdate T q ls =
      \<lparr>res_out = [], res_report = Some (print_summary q s), res_hint = False, res_exit = 0\<rparr>"
    using summary_state [OF assms] by (simp add: s_def)
  moreover have "r_total (print_summary q s) = length (matching parse rdate q ls)"
    "r_samples (print_summary q s) = length (samples (map snd (matching parse rdate q ls)))"
    using sum by (simp_all add: print_summary_def Let_def)
  moreover have "entries_for (r_events (print_summary q s)) e = entries_for (s_events s) e"
    "entries_for (r_status (print_summary q s)) e = entries_for (s_status s) e"
    "entries_for (r_reasons (print_summary q s)) e = entries_for (s_reasons s) e" for e
    using sum [of e] by (simp_all add: print_summary_def Let_def entries_for_by_count)
  ultimately show ?thesis using sum by (intro exI [of _ "print_summary q s"]) simp
qed

theorem summary_counts_are_exact_witness:
  "\<exists>rep. res_report (qa_main ex_parse (\<lambda>_. None) ex_text (ex_query FHuman True None) [[65], [32], [66], [67], [65]]) = Some rep \<and>
    r_total rep = 2 \<and> entries_for (r_events rep) ''auth.deny'' = [2]"
proof -
  have "summarise (ex_query FHuman True None)" by (simp add: summarise_def ex_query_def)
  note t = summary_counts_are_exact [OF ex_no_null this, of "\<lambda>_. None" ex_text]
  have "occurrences ''event'' [ex_deny, ex_deny] ''auth.deny'' = 2" by (simp add: ex_deny_def)
  then show ?thesis using t by (auto simp: ex_matching listed_def simp del: matching_simps)
qed

subsection \<open>Percentiles and the top list\<close>

lemma sorted_nth_ranks:
  fixes xs :: "'a::linorder list"
  assumes "sorted xs" "k < length xs"
  shows "k < length (filter (\<lambda>x. x \<le> xs ! k) xs)" "length (filter (\<lambda>x. x < xs ! k) xs) \<le> k"
proof -
  have "filter (\<lambda>x. x \<le> xs ! k) (take (Suc k) xs) = take (Suc k) xs"
    using assms sorted_nth_mono [OF assms(1) _ assms(2)] by (auto simp: filter_id_conv in_set_conv_nth less_Suc_eq_le)
  then have "Suc k = length (filter (\<lambda>x. x \<le> xs ! k) (take (Suc k) xs))" using assms(2) by simp
  also have "\<dots> \<le> length (filter (\<lambda>x. x \<le> xs ! k) (take (Suc k) xs @ drop (Suc k) xs))"
    by (simp only: filter_append length_append)
  finally show "k < length (filter (\<lambda>x. x \<le> xs ! k) xs)" by simp
  have "filter (\<lambda>x. x < xs ! k) (drop k xs) = []"
    using assms sorted_nth_mono [OF assms(1), of k] by (auto simp: filter_empty_conv in_set_conv_nth not_less)
  then have "length (filter (\<lambda>x. x < xs ! k) (take k xs @ drop k xs)) = length (filter (\<lambda>x. x < xs ! k) (take k xs))"
    by (simp only: filter_append length_append) simp
  then show "length (filter (\<lambda>x. x < xs ! k) xs) \<le> k"
    by (metis append_take_drop_id length_filter_le length_take min.bounded_iff)
qed

lemma filter_length_mset: "mset xs = mset ys \<Longrightarrow> length (filter P xs) = length (filter P ys)"
  by (metis mset_filter size_mset)

text \<open>a printed percentile p is one of the samples, at least a share p of the samples are no larger
  and at most a share p are smaller; so p50, p95, p99 and the maximum come in this order.\<close>

theorem percentiles_are_quantiles:
  assumes "arr \<noteq> []" "0 \<le> p" "p \<le> 1"
  shows "\<exists>v. pct arr p = Some v \<and> v \<in> set arr \<and>
    p * of_nat (length arr) \<le> of_nat (length (filter (\<lambda>x. x \<le> v) arr)) \<and>
    of_nat (length (filter (\<lambda>x. x < v) arr)) \<le> p * of_nat (length arr)"
proof -
  let ?n = "length arr" let ?f = "nat \<lfloor>of_nat ?n * p\<rfloor>"
  define k where "k = min (?n - 1) ?f"
  have "0 < ?n" using assms(1) by simp
  then have k: "k < length (sort arr)" unfolding k_def length_sort by linarith
  have le: "of_nat k \<le> of_nat ?n * p"
  proof -
    have "of_nat k \<le> (of_nat ?f :: rat)" by (simp add: k_def)
    also have "\<dots> \<le> of_nat ?n * p" using assms(2) by (simp add: of_nat_floor)
    finally show ?thesis .
  qed
  have ge: "of_nat ?n * p \<le> of_nat (Suc k)"
  proof (cases "?f \<le> ?n - 1")
    case True
    then have "of_nat (Suc k) = (of_int \<lfloor>of_nat ?n * p\<rfloor> + 1 :: rat)" using assms(2) by (simp add: k_def)
    then show ?thesis using floor_correct [of "of_nat ?n * p"] by simp
  next
    case False
    then have "Suc k = ?n" using assms(1) by (simp add: k_def)
    then show ?thesis using assms(3) by (simp add: mult_left_le)
  qed
  let ?v = "sort arr ! k"
  have "?v \<in> set arr" using k nth_mem set_sort by metis
  moreover have "of_nat (Suc k) \<le> (of_nat (length (filter (\<lambda>x. x \<le> ?v) arr)) :: rat)"
    using sorted_nth_ranks(1) [OF sorted_sort k] filter_length_mset [of "sort arr" arr] by (simp del: of_nat_Suc)
  moreover have "(of_nat (length (filter (\<lambda>x. x < ?v) arr)) :: rat) \<le> of_nat k"
    using sorted_nth_ranks(2) [OF sorted_sort k] filter_length_mset [of "sort arr" arr] by simp
  ultimately show ?thesis using le ge assms(1) unfolding pct_def k_def [symmetric]
    by (intro exI [of _ ?v]) (simp add: mult.commute del: of_nat_Suc)
qed

theorem percentiles_are_quantiles_witness:
  "\<exists>v. pct [5, 1, 9] (95 / 100) = Some v \<and> v \<in> {5, 1, 9} \<and> 285 / 100 \<le> (of_nat (length (filter (\<lambda>x. x \<le> v) [5, 1, 9])) :: rat)"
proof -
  have "[5, 1, 9] \<noteq> ([] :: rat list)" "0 \<le> (95 / 100 :: rat)" "(95 / 100 :: rat) \<le> 1" by simp_all
  from percentiles_are_quantiles [OF this] show ?thesis by (elim exE conjE) (rule exI, simp)
qed

lemma sorted_by_count: "sorted (map (\<lambda>(k, n). - int n) (by_count m))"
  by (simp add: by_count_def)

lemma ingest_has_top:
  assumes "f \<noteq> []" "ms \<noteq> []"
  shows "s_top (fold (\<lambda>(l, r) t. ingest (Some f) t r) ms s) \<noteq> None"
proof -
  have keep: "s_top t \<noteq> None \<Longrightarrow> s_top (fold (\<lambda>(l, r) t. ingest (Some f) t r) ms' t) \<noteq> None" for ms' t
    using assms(1) by (induction ms' arbitrary: t) (auto simp: ingest_def)
  obtain l r ms' where "ms = (l, r) # ms'" using assms(2) by (metis list.exhaust prod.exhaust)
  then show ?thesis using keep [of "ingest (Some f) s r" ms'] assms(1) by (simp add: ingest_def)
qed

lemma entries_for_append: "entries_for (xs @ ys) e = entries_for xs e @ entries_for ys e"
  by (simp add: entries_for_def)

lemma entries_for_mem: "entries_for m e = listed c \<Longrightarrow> 0 < c \<Longrightarrow> (str e, c) \<in> set m"
proof -
  assume "entries_for m e = listed c" "0 < c"
  then have "c \<in> set (entries_for m e)" by (simp add: listed_def)
  then show "(str e, c) \<in> set m" by (auto simp: entries_for_def)
qed

lemma entries_for_take:
  assumes "entries_for (by_count m) e = listed c"
  shows "entries_for (take N (by_count m)) e = listed c \<or>
    (entries_for (take N (by_count m)) e = [] \<and> length (take N (by_count m)) = N \<and>
     list_all (\<lambda>(k, n). c \<le> n) (take N (by_count m)))"
proof (cases "entries_for (drop N (by_count m)) e = []")
  case True
  then show ?thesis using assms entries_for_append [of "take N (by_count m)" "drop N (by_count m)" e] by simp
next
  case False
  then have rest: "entries_for (drop N (by_count m)) e = listed c" and none: "entries_for (take N (by_count m)) e = []"
    and pos: "0 < c"
    using assms entries_for_append [of "take N (by_count m)" "drop N (by_count m)" e]
    by (auto simp: listed_def Cons_eq_append_conv split: if_splits)
  have mem: "(str e, c) \<in> set (drop N (by_count m))" by (rule entries_for_mem [OF rest pos])
  then have len: "length (take N (by_count m)) = N" by (cases "N < length (by_count m)") auto
  have "sorted (map (\<lambda>(k, n). - int n) (take N (by_count m) @ drop N (by_count m)))"
    using sorted_by_count [of m] by simp
  then have "\<forall>x \<in> set (take N (by_count m)). \<forall>y \<in> set (drop N (by_count m)). snd y \<le> snd x"
    by (simp only: map_append sorted_append) (auto simp: case_prod_beta)
  with mem have "list_all (\<lambda>(k, n). c \<le> n) (take N (by_count m))" by (fastforce simp: list_all_iff)
  with none len show ?thesis by simp
qed

text \<open>the top list of a field holds at most N entries in descending order of their count; the count
  listed for a text is the number of matching records with that value, and a text that is left out
  has no more of them than any entry that is listed.\<close>

theorem top_list_holds_the_most_frequent:
  assumes "no_null parse ls" "q_top q = Some f" "f \<noteq> []" "q_format q \<noteq> FJson" "matching parse rdate q ls \<noteq> []"
  shows "\<exists>rep top. res_report (qa_main parse rdate T q ls) = Some rep \<and> r_top rep = Some top \<and>
    length top \<le> q_limit q \<and> sorted (map (\<lambda>(k, n). - int n) top) \<and>
    (\<forall>e. entries_for top e = listed (occurrences f (map snd (matching parse rdate q ls)) e) \<or>
         (entries_for top e = [] \<and> length top = q_limit q \<and>
          list_all (\<lambda>(k, n). occurrences f (map snd (matching parse rdate q ls)) e \<le> n) top))"
proof -
  have sumq: "summarise q" using assms(2,3) by (simp add: summarise_def)
  define s where "s = fold (\<lambda>(l, r) t. ingest (Some f) t r) (matching parse rdate q ls) empty_summary"
  obtain m where m: "s_top s = Some m"
    using ingest_has_top [OF assms(3,5), of empty_summary] by (auto simp: s_def)
  have full: "entries_for (by_count m) e = listed (occurrences f (map snd (matching parse rdate q ls)) e)" for e
    using ingest_top [OF assms(3), of empty_summary e 0 "matching parse rdate q ls" s] m
    by (simp add: s_def empty_summary_def listed_def entries_for_by_count)
  have "res_report (qa_main parse rdate T q ls) = Some (print_summary q s)"
    using summary_state [OF assms(1) sumq] by (simp add: s_def assms(2))
  moreover have "r_top (print_summary q s) = Some (take (q_limit q) (by_count m))"
    using assms(4) m by (simp add: print_summary_def Let_def)
  moreover have "sorted (map (\<lambda>(k, n). - int n) (take (q_limit q) (by_count m)))"
    using sorted_by_count [of m] by (simp flip: take_map add: sorted_wrt_take)
  ultimately show ?thesis
    using entries_for_take [OF full] by (intro exI [of _ "print_summary q s"] exI [of _ "take (q_limit q) (by_count m)"]) simp
qed

theorem top_list_holds_the_most_frequent_witness:
  "\<exists>rep top. res_report (qa_main ex_parse (\<lambda>_. None) ex_text (ex_query FHuman False (Some ''event'')) [[65], [32], [66], [67], [65]]) = Some rep \<and>
    r_top rep = Some top \<and> length top \<le> 1"
proof -
  have q: "q_top (ex_query FHuman False (Some ''event'')) = Some ''event''"
    "q_format (ex_query FHuman False (Some ''event'')) \<noteq> FJson" "q_limit (ex_query FHuman False (Some ''event'')) = 1"
    by (simp_all add: ex_query_def)
  have "''event'' \<noteq> []" and
    "matching ex_parse (\<lambda>_. None) (ex_query FHuman False (Some ''event'')) [[65], [32], [66], [67], [65]] \<noteq> []"
    by (simp_all only: ex_matching) simp_all
  from top_list_holds_the_most_frequent [OF ex_no_null q(1) this(1) q(2) this(2), of ex_text] show ?thesis by (simp only: ex_matching q) (elim exE conjE, intro exI conjI, assumption, assumption, simp)
qed

end
