(* ===== verification/Server_Typing.thy ===== *)
theory Server_Typing
  imports Server_Restart
begin

section \<open>The state of the server is well typed\<close>

text \<open>
  The handlers read \<open>chains.get(keyId)\<close> and the fingerprint index without a check. A typed state is
  one in which these reads find something: each listed key has a chain whose state fits the buffer of
  \<open>advance\<close>, and neither the chains nor the index know a key that is not listed. A start of the
  process makes such a state from any data directory it accepts, and every request keeps it,
  the refused and the failing ones included.
\<close>

definition typed_server :: "'s server \<Rightarrow> bool" where
  "typed_server s \<longleftrightarrow> distinct (map fst (keystore s)) \<and>
     (\<forall>k \<in> fst ` set (keystore s). \<exists>c. chains s k = Some c \<and> wf_chain c) \<and>
     dom (chains s) \<subseteq> fst ` set (keystore s) \<and> ran (fp_index s) \<subseteq> fst ` set (keystore s)"

text \<open>The chain store gives back states that fit; the file store does.\<close>

definition loads_fit :: "'s server_env \<Rightarrow> bool" where
  "loads_fit E \<longleftrightarrow> (\<forall>d k seed l. length seed \<le> 32 \<longrightarrow> cfg_load E d k seed = Inr l \<longrightarrow> length (l_state l) \<le> 40)"

lemma log_loop_length:
  "sha3_len h \<Longrightarrow> length st \<le> 40 \<Longrightarrow> log_loop h i st n rs = Inr st' \<Longrightarrow> length st' \<le> 40"
  by (induction h i st n rs rule: log_loop.induct) (auto simp: Let_def derive_next_def split: if_splits)

lemma file_loads_fit:
  assumes "sha3_len h" "cfg_load E = file_load h"
  shows "loads_fit E"
proof -
  have "length (l_state l) \<le> 40" if "length seed \<le> 32" "verify_log h f seed = Inr l" for f seed l
    using that log_loop_length [OF assms(1), of seed]
    by (auto simp: verify_log_def verify_records_def bind_r_eq_Inr Let_def split: option.splits if_splits)
  then show ?thesis using assms(2) by (auto simp: loads_fit_def file_load_def split: sum.splits)
qed

lemma typed_core:
  assumes "core s = core s'"
  shows "typed_server s = typed_server s'"
  by (simp add: typed_server_def core_fields [OF assms])

lemma typed_fields:
  "keystore s' = keystore s \<Longrightarrow> chains s' = chains s \<Longrightarrow> fp_index s' = fp_index s \<Longrightarrow> typed_server s' = typed_server s"
  by (simp add: typed_server_def)

lemma typed_updates [simp]:
  "typed_server (log_effect x s) = typed_server s" "typed_server (s\<lparr>lim := l\<rparr>) = typed_server s"
  "typed_server (s\<lparr>store := d\<rparr>) = typed_server s" "typed_server (s\<lparr>disk_ks := a\<rparr>) = typed_server s"
  by (simp_all add: typed_server_def log_effect_def)

lemma typed_put:
  assumes "typed_server s" "wf_chain c"
  shows "typed_server (put_key E k e c s)"
proof -
  have "fst ` set (AList.update k e (keystore s)) = insert k (fst ` set (keystore s))"
    by (simp add: dom_map_of_conv_image_fst [symmetric] update_conv')
  then show ?thesis
    using assms by (auto simp: typed_server_def put_key_def distinct_update ran_def)
qed

lemma seed_fits: "length (chain_seed e) \<le> 32"
  by (simp add: chain_seed_def slice_def)

lemma typed_load_entries:
  "loads_fit E \<Longrightarrow> typed_server s \<Longrightarrow> load_entries E kvs n s = Inr (s', m) \<Longrightarrow> typed_server s'"
proof (induction kvs arbitrary: n s)
  case (Cons kv kvs)
  obtain k v where kv: "kv = (k, v)" by force
  from Cons.prems obtain r where r: "read_entry E (of_js k) v = Inr r" by (auto simp: kv bind_r_eq_Inr Let_def)
  show ?case
  proof (cases r)
    case None
    then show ?thesis using Cons r by (simp add: kv Let_def)
  next
    case (Some a)
    obtain e b where a: "a = (e, b)" by force
    from Cons.prems obtain l where l: "cfg_load E (store s) (of_js k) (chain_seed e) = Inr l"
      "load_entries E kvs (if b then n + 1 else n)
         (put_key E (of_js k) e (from_state (l_state l) (int (l_counter l))) s) = Inr (s', m)"
      using r by (auto simp: kv Some a Let_def split: sum.splits)
    have "wf_chain (from_state (l_state l) (int (l_counter l)))"
      using Cons.prems(1) seed_fits [of e] l(1) by (auto simp: wf_chain_def from_state_def new_chain_def loads_fit_def)
    from Cons.IH [OF Cons.prems(1) typed_put [OF Cons.prems(2) this] l(2)] show ?thesis .
  qed
qed simp

lemma load_revoked_fields:
  "load_revoked s = Inr s' \<Longrightarrow> keystore s' = keystore s \<and> chains s' = chains s \<and> fp_index s' = fp_index s"
  by (auto simp: load_revoked_def split: doc.splits jsval.splits)

lemma typed_boot:
  assumes "loads_fit E" "boot E ivs can hnd s = Inr s'"
  shows "typed_server s'"
proof -
  let ?s0 = "\<lparr>keystore = [], chains = Map.empty, fp_index = Map.empty, revoked = [],
      lim = create_limiter, rejects_seen = 0, lock = hnd, disk_ks = disk_ks s, disk_rev = disk_rev s, store = store s,
      trace = []\<rparr>"
  obtain s1 where l: "load_keystore E ivs can ?s0 = Inr s1" "load_revoked s1 = Inr s'"
    using assms(2) by (auto simp: boot_def bind_r_eq_Inr)
  have t0: "typed_server ?s0" by (simp add: typed_server_def)
  have "typed_server s1"
  proof (cases "disk_ks s")
    case (Doc raw)
    then obtain s2 m where l2: "load_entries E (object_entries raw) 0 ?s0 = Inr (s2, m)"
      and s1: "s1 = s2 \<or> s1 = save_keystore E ivs can s2"
      using l(1) by (auto simp: load_keystore_def bind_r_eq_Inr split: if_splits)
    have "typed_server s2" by (rule typed_load_entries [OF assms(1) t0 l2])
    then show ?thesis using s1 typed_fields [of "save_keystore E ivs can s2" s2] by (auto simp: save_keystore_def)
  qed (use l(1) t0 in \<open>auto simp: load_keystore_def\<close>)
  then show ?thesis using load_revoked_fields [OF l(2)] typed_fields by blast
qed

subsection \<open>The writing handlers\<close>

lemma typed_with_body: "typed_server s \<Longrightarrow> typed_server (fst k) \<Longrightarrow> typed_server (fst (with_body body s k))"
  by (simp add: with_body_def Let_def)

lemma typed_keygen:
  assumes "typed_server s"
  shows "typed_server (fst (keygen_route E rq s))"
proof -
  have fits: "wf_chain (new_chain (chain_seed e))" for e
    using seed_fits [of e] by (simp add: wf_chain_def new_chain_def)
  show ?thesis
    unfolding keygen_route_def Let_def
    by (rule typed_with_body) (auto simp: assms typed_put [OF assms fits] save_keystore_def)
qed

lemma typed_chain: "typed_server s \<Longrightarrow> chains s k \<noteq> None \<Longrightarrow> wf_chain c \<Longrightarrow> typed_server (s\<lparr>chains := (chains s)(k \<mapsto> c)\<rparr>)"
  by (auto simp: typed_server_def)

lemma typed_issue_signed:
  assumes "typed_server s" "sha3_len (p_sha3 (cfg_prims E))"
  shows "typed_server (fst (issue_signed E rq k e kvs ttl su si ty ti s))"
proof (cases "chains s k")
  case None
  then show ?thesis using assms by (simp add: issue_signed_def issue_failed_def)
next
  case (Some c)
  obtain c' r where i: "issue_token (cfg_prims E) (rq_now rq) (rq_nonce rq) (issue_prm e kvs ttl si ti) c = (c', r)" by force
  have "k \<in> fst ` set (keystore s)" using assms(1) Some by (auto simp: typed_server_def)
  then have "wf_chain c" using assms(1) Some by (auto simp: typed_server_def)
  then have "wf_chain c'" using issue_token_chain [OF i] advance_wf [OF assms(2)] by blast
  then have "typed_server (s\<lparr>chains := (chains s)(k \<mapsto> c')\<rparr>)" using typed_chain [OF assms(1)] Some by simp
  then show ?thesis using Some i
    by (auto simp: issue_signed_def issue_failed_def Let_def dest!: append_chain_Some split: option.splits sum.splits)
qed

lemma typed_issue:
  assumes "typed_server s" "sha3_len (p_sha3 (cfg_prims E))"
  shows "typed_server (fst (issue_route E rq s))"
proof -
  have "typed_server (fst (issue_limited E rq k e kvs ttl su ty s))" for k e kvs ttl su ty
    using assms by (auto simp: issue_limited_def Let_def intro!: typed_issue_signed split: prod.splits option.splits)
  then show ?thesis
    unfolding issue_route_def Let_def
    by (intro typed_with_body) (auto simp: assms(1) split: sum.splits option.splits)
qed

lemma typed_revoke: "typed_server s \<Longrightarrow> revoke_route E rq v s = (s', r) \<Longrightarrow> typed_server s'"
proof -
  assume s: "typed_server s" and r: "revoke_route E rq v s = (s', r)"
  from r show "typed_server s'" by (cases rule: revoke_cases) (use s in \<open>simp_all add: typed_server_def\<close>)
qed

lemma typed_run_route:
  assumes "typed_server s" "sha3_len (p_sha3 (cfg_prims E))" "run_route E rq rt s = (s', r)"
  shows "typed_server s'"
proof (cases "writes_state rt")
  case False
  then have "core s' = core s" using core_run_route [of rt E rq s] assms(3) by simp
  then show ?thesis using typed_core assms(1) by blast
next
  case True
  then consider "rt = RKeygen" | "rt = RIssue" | seg where "rt = RRevoke seg" by (cases rt) (auto simp: writes_state_def)
  then show ?thesis
  proof cases
    case 1
    then show ?thesis using typed_keygen [OF assms(1), of E rq] assms(3) by (simp add: run_route_def)
  next
    case 2
    then show ?thesis using typed_issue [OF assms(1,2), of rq] assms(3) by (simp add: run_route_def)
  next
    case 3
    then have "s' = s \<or> (\<exists>v. revoke_route E rq v s = (s', r))"
      using assms(3) by (auto simp: run_route_def with_key_def split: option.splits)
    then show ?thesis using typed_revoke [OF assms(1)] assms(1) by blast
  qed
qed

lemma typed_step:
  assumes "typed_server s" "sha3_len (p_sha3 (cfg_prims E))" "loads_fit E"
  shows "typed_server (srv_step E s ev)"
proof (cases ev)
  case (EvRequest rq)
  obtain s' out where d: "dispatch E rq s = (s', out)" by force
  then have "typed_server s'"
  proof (cases rule: dispatch_cases)
    case refused
    then show ?thesis using typed_core assms(1) by blast
  next
    case (ran rt path s1 s2 r)
    then show ?thesis using typed_core assms(1) typed_run_route [OF _ assms(2)] by blast
  qed
  then show ?thesis using EvRequest d by simp
next
  case (EvRestart ivs can hnd)
  then show ?thesis using typed_boot [OF assms(3)] assms(1) by (auto split: sum.splits)
qed

lemma typed_run:
  "typed_server s \<Longrightarrow> sha3_len (p_sha3 (cfg_prims E)) \<Longrightarrow> loads_fit E \<Longrightarrow> typed_server (foldl (srv_step E) s evs)"
  by (induction evs arbitrary: s) (auto intro: typed_step)

subsection \<open>Property\<close>

text \<open>C10: The state stays well typed: after a start from any data directory and any run of requests and restarts,
  failing ones included, the listed key ids are distinct, each has a chain that can be advanced,
  no other chain exists, and the fingerprint index only names listed keys; so neither the lookups
  of a handler nor the next advance can throw.\<close>

theorem server_state_is_typed:
  assumes "sha3_len (p_sha3 (cfg_prims E))" "loads_fit E" "boot E ivs can hnd s0 = Inr s1"
    and "s = foldl (srv_step E) s1 evs"
  shows "distinct (map fst (keystore s)) \<and> dom (chains s) = fst ` set (keystore s) \<and>
    (\<forall>k c. chains s k = Some c \<longrightarrow> (\<exists>c'. advance (p_sha3 (cfg_prims E)) c = Inr c')) \<and>
    (\<forall>f k. fp_index s f = Some k \<longrightarrow> ks_find (keystore s) (str k) \<noteq> None)"
proof -
  have t: "typed_server s" using typed_run [OF typed_boot [OF assms(2,3)] assms(1,2)] assms(4) by simp
  then have "dom (chains s) = fst ` set (keystore s)" unfolding typed_server_def by fastforce
  moreover have "wf_chain c" if "chains s k = Some c" for k c using t that unfolding typed_server_def by fastforce
  moreover have "ks_find (keystore s) (str k) \<noteq> None" if "fp_index s f = Some k" for f k
    using t that by (auto simp: typed_server_def ks_find_str ran_def map_of_eq_None_iff)
  ultimately show ?thesis using t advance_total by (simp add: typed_server_def)
qed

theorem server_state_is_typed_witness:
  "let E = sample_env AnonMode (\<lambda>_. None); s = foldl (srv_step E) first_start [EvRequest (sample_rq ''POST'' ''/v3/keygen'' [])] in
   dom (chains s) = fst ` set (keystore s)"
proof -
  let ?E = "sample_env AnonMode (\<lambda>_. None)"
  have h: "sha3_len (p_sha3 (cfg_prims ?E))" using sample_file_env [of AnonMode "\<lambda>_. None"] by (simp add: file_env_def)
  have f: "loads_fit ?E" using file_loads_fit [OF h] sample_file_env [of AnonMode "\<lambda>_. None"] by (simp add: file_env_def)
  have "boot ?E (\<lambda>_. []) True None first_start = Inr first_start"
    by (simp add: boot_def load_keystore_def load_revoked_def first_start_def)
  from server_state_is_typed [OF h f this HOL.refl, of "[EvRequest (sample_rq ''POST'' ''/v3/keygen'' [])]"]
  show ?thesis by (simp add: Let_def)
qed

end
