(* ===== verification/Server_Tokens.thy ===== *)
theory Server_Tokens
  imports Server_Typing
begin

section \<open>A token from the issue route to the verify route\<close>

text \<open>
  The two routes together: what \<open>/v3/token/issue\<close> returns as text is what \<open>/v3/token/verify\<close> takes,
  with the same key, and the claims come back. The verify route leaves the state as it is, so it does so as
  often as it is asked.
\<close>

lemma hex_chars: "c \<in> set (to_hex bs) \<Longrightarrow> is_hex c"
proof (induction bs)
  case (Cons b bs)
  have "unat b < 256" using unsigned_less [of b, where ?'a = nat] by simp
  then have "unat b div 16 < 16" "unat b mod 16 < 16" by presburger+
  with Cons show ?case by (auto simp: is_hex_def)
qed simp

lemma token_bytes_hex: "tok \<noteq> [] \<Longrightarrow> token_bytes E (str (to_hex tok)) = Some tok"
proof -
  assume "tok \<noteq> []"
  then have ne: "js (to_hex tok) \<noteq> []" by (cases tok) (simp_all add: js_def)
  have "unat u < 256 \<and> is_hex (char_of (unat u))" if u: "u \<in> set (js (to_hex tok))" for u
  proof -
    obtain c where c: "c \<in> set (to_hex tok)" "u = word_of_nat (of_char c)" using u by (auto simp: js_def)
    have "of_char c < (256 :: nat)" by (metis of_char_mod_256 mod_less_divisor zero_less_numeral)
    then show ?thesis using hex_chars [OF c(1)] by (simp add: c(2) unat_js_char)
  qed
  then show ?thesis using ne by (simp add: token_bytes_def str_def list_all_iff)
qed

lemma table_get_range: "table_get tab name = Some v \<Longrightarrow> v \<in> insert 0 (snd ` set tab)"
  by (auto simp: table_get_def find_Some_iff in_set_conv_nth rev_image_eqI split: option.splits if_splits)
     (metis image_eqI nth_mem snd_conv)

lemma suite_range: "suite_id E v = Some n \<Longrightarrow> 0 \<le> n \<and> n < 2 ^ 8"
  using table_get_range by (fastforce simp: suite_id_def)

lemma type_range: "type_id E v = Some n \<Longrightarrow> 0 \<le> n \<and> n < 2 ^ 8"
  using table_get_range by (fastforce simp: type_id_def)

text \<open>What a successful reply of the issue route says.\<close>

lemma issue_route_ok:
  assumes "issue_route E rq s = (s', Some (Json 200 b))"
  obtains k e kvs c tok c' suiteId typeId where
    "jget (read_body_caught E rq) ''keyId'' = str k" "(k, e) \<in> set (keystore s)"
    "ks_find (keystore s) (str k) = Some (k, e)"
    "kvs = (case jget (read_body_caught E rq) ''claims'' of JObj kvs \<Rightarrow> kvs | _ \<Rightarrow> [])"
    "chains s k = Some c" "jget b ''tokenHex'' = str (to_hex tok)"
    "0 \<le> suiteId" "suiteId < 2 ^ 8" "0 \<le> typeId" "typeId < 2 ^ 8"
    "issue_token (cfg_prims E) (rq_now rq) (rq_nonce rq)
      (issue_prm e kvs (or_default (jget (read_body_caught E rq) ''ttl'') (num 3600)) suiteId typeId) c = (c', Inr (tok, to_hex tok))"
proof -
  let ?body = "read_body_caught E rq"
  define ttl where "ttl = or_default (jget ?body ''ttl'') (num 3600)"
  define suite where "suite = or_default (jget ?body ''suite'') (str ''dilithium5'')"
  define ty where "ty = or_default (jget ?body ''tokenType'') (str ''access'')"
  obtain kvs k e where 1: "check_claims E (jget ?body ''claims'') = Inr kvs"
    "ks_find (keystore s) (jget ?body ''keyId'') = Some (k, e)"
    "issue_limited E rq k e kvs ttl suite ty s = (s', Some (Json 200 b))"
    using assms
    by (auto simp: issue_route_def with_body_def Let_def fail_def check_claims_def ttl_def suite_def ty_def
        split: if_splits option.splits sum.splits)
  have kvs: "kvs = (case jget ?body ''claims'' of JObj kvs \<Rightarrow> kvs | _ \<Rightarrow> [])"
    using 1(1) by (auto simp: check_claims_def split: option.splits if_splits sum.splits)
  obtain l suiteId typeId where 2: "suite_id E suite = Some suiteId" "type_id E ty = Some typeId"
    "issue_signed E rq k e kvs ttl suite suiteId ty typeId (s\<lparr>lim := l\<rparr>) = (s', Some (Json 200 b))"
    using 1(3) by (auto simp: issue_limited_def Let_def fail_def split: prod.splits if_splits option.splits)
  obtain c where c: "chains s k = Some c"
    using 2(3) by (auto simp: issue_signed_def issue_failed_def split: option.splits)
  obtain c' r where i: "issue_token (cfg_prims E) (rq_now rq) (rq_nonce rq) (issue_prm e kvs ttl suiteId typeId) c = (c', r)"
    by force
  obtain tok hex where r: "r = Inr (tok, hex)" "jget b ''tokenHex'' = str hex"
    using 2(3) c i by (auto simp: issue_signed_def issue_failed_def Let_def split: sum.splits option.splits)
  have "hex = to_hex tok" by (rule issue_token_Inr [OF i [unfolded r]])
  moreover have k: "jget ?body ''keyId'' = str k" "(k, e) \<in> set (keystore s)" using ks_find_Some [OF 1(2)] by simp_all
  moreover have "ks_find (keystore s) (str k) = Some (k, e)" using 1(2) k(1) by simp
  moreover have "0 \<le> suiteId" "suiteId < 2 ^ 8" "0 \<le> typeId" "typeId < 2 ^ 8"
    using suite_range [OF 2(1)] type_range [OF 2(2)] by simp_all
  ultimately show thesis
    using that [of k e kvs c tok suiteId typeId c'] kvs c r i unfolding ttl_def by blast
qed

text \<open>The token of a successful \<open>issueToken\<close> at the verifier of the server, as bytes and as its text.\<close>

lemma issued_verify_with:
  assumes iss: "issue_token (cfg_prims E) now nonce (issue_prm e kvs t si ti) c = (c', Inr (tok, to_hex tok))"
    and ranges: "0 \<le> si" "si < 2 ^ 8" "0 \<le> ti" "ti < 2 ^ 8" "length tok < 2 ^ 32"
    and key: "key_pair (cfg_prims E) (signing e) (verifying e)" "0 \<le> c_counter c" "c_counter c < 2 ^ 64 - 1"
    and prims: "sha3_len (p_sha3 (cfg_prims E))" "aead_correct (cfg_prims E)" "inflate_correct (cfg_prims E)"
    and now: "length nonce = 32" "0 \<le> now" "now * 1000 < 2 ^ 64"
    and claims: "clean_claims (cfg_prims E) kvs"
    and window: "now * 1000 \<le> rq_now rq' * 1000 + 5000000" "rq_now rq' * 1000 \<le> now * 1000 + to_uint32 t * 1000000"
  shows "verify_with E rq' e tok = Inr \<lparr>v_claims = claims_map (cfg_prims E) kvs, v_issued = now * 1000,
      v_ttl = to_uint32 t, v_ctr = c_counter c + 1\<rparr> \<and> token_bytes E (str (to_hex tok)) = Some tok \<and> to_hex tok \<noteq> []"
proof -
  let ?P = "cfg_prims E"
  let ?prm = "issue_prm e kvs t si ti"
  have prm: "i_claims ?prm = kvs" "i_ttl ?prm = to_uint32 t" "i_suite ?prm = si" "i_token_type ?prm = ti" "i_device_fp ?prm = None"
    "i_encrypt_key ?prm = encrypting e" and pair: "\<And>sk. i_signing_key_seed ?prm = Some sk \<or> i_signing_key ?prm = Some sk \<Longrightarrow>
      key_pair ?P sk (verifying e)"
    using key(1) by (simp_all add: issue_prm_def)
  have ttl: "0 \<le> to_uint32 t" "to_uint32 t < 2 ^ 32" by (auto simp: to_uint32_def split: option.split)
  have wf: "wf_chain (from_state (chain_seed e) 0)" using seed_fits [of e] by (simp add: wf_chain_def from_state_def new_chain_def)
  have ctr: "c_counter (from_state (chain_seed e) 0) \<le> c_counter c" using key(2) by (simp add: from_state_def)
  have "\<exists>vchn. verify_token ?P (rq_now rq') (verifying e) (i_encrypt_key ?prm) (from_state (chain_seed e) 0) (TokenBytes tok) =
      (vchn, Inr \<lparr>v_claims = claims_map ?P (i_claims ?prm), v_issued = now * 1000, v_ttl = i_ttl ?prm,
         v_ctr = c_counter c + 1\<rparr>) \<and> c_counter vchn = c_counter c + 1"
    by (rule verify_issued [OF iss prims pair now(1)])
      (use prm ttl now key(2,3) ranges claims wf ctr window in \<open>simp_all add: token_data_def\<close>)
  then have v: "verify_with E rq' e tok = Inr \<lparr>v_claims = claims_map ?P kvs, v_issued = now * 1000, v_ttl = to_uint32 t,
      v_ctr = c_counter c + 1\<rparr>"
    unfolding verify_with_def prm by auto
  have "tok \<noteq> []"
  proof
    assume "tok = []"
    moreover have "deserialize_token [] = Inl RangeErr" by (simp add: deserialize_token_def get_uint_def bind_r_def)
    ultimately show False using v by (simp add: verify_with_def verify_token_def open_token_def token_data_def bind_r_def)
  qed
  then have "token_bytes E (str (to_hex tok)) = Some tok" by (rule token_bytes_hex)
  moreover have "length (to_hex tok) \<noteq> 0" using \<open>tok \<noteq> []\<close> by simp
  then have "to_hex tok \<noteq> []" by (metis list.size(3))
  ultimately show ?thesis using v by simp
qed

text \<open>C6: A token that the issue route returns verifies at the verify route: in its window, under the same key id
  while the key is listed and not revoked, the text of the token gives the claims back as texts, with its
  time of issue, its lifetime and its counter. The state is left as it was but for the metrics, so this
  holds for each further request as well: the route does not refuse a replay.\<close>

theorem issued_token_verifies_at_the_server:
  assumes issued: "issue_route E rq s = (s1, Some (Json 200 b))" "jget b ''tokenHex'' = str hex" "length hex < 2 ^ 33"
    and key: "jget (read_body_caught E rq) ''keyId'' = str k" "map_of (keystore s) k = Some e" "chains s k = Some c"
      "key_pair (cfg_prims E) (signing e) (verifying e)" "0 \<le> c_counter c" "c_counter c < 2 ^ 64 - 1"
    and prims: "sha3_len (p_sha3 (cfg_prims E))" "aead_correct (cfg_prims E)" "inflate_correct (cfg_prims E)"
    and now: "length (rq_nonce rq) = 32" "0 \<le> rq_now rq" "rq_now rq * 1000 < 2 ^ 64"
    and claims: "jget (read_body_caught E rq) ''claims'' = JObj kvs" "clean_claims (cfg_prims E) kvs"
    and window: "ttl = to_uint32 (or_default (jget (read_body_caught E rq) ''ttl'') (num 3600))"
      "rq_now rq * 1000 \<le> rq_now rq' * 1000 + 5000000" "rq_now rq' * 1000 \<le> rq_now rq * 1000 + ttl * 1000000"
    and request: "read_body_caught E rq' = obj [(''keyId'', str k), (''token'', str hex)]"
    and kept: "map_of (keystore s2) k = Some e" "\<not> is_revoked s2 k" "k \<noteq> []"
  shows "\<exists>s3. verify_route E rq' s2 = (s3, Some (Verified None
      \<lparr>v_claims = claims_map (cfg_prims E) kvs, v_issued = rq_now rq * 1000, v_ttl = ttl, v_ctr = c_counter c + 1\<rparr>)) \<and>
    core s3 = core s2"
proof -
  let ?P = "cfg_prims E" and ?t = "or_default (jget (read_body_caught E rq) ''ttl'') (num 3600)"
  obtain k' e' kvs' c0 tok c' si ti where i:
    "jget (read_body_caught E rq) ''keyId'' = str k'" "ks_find (keystore s) (str k') = Some (k', e')"
    "kvs' = (case jget (read_body_caught E rq) ''claims'' of JObj kvs \<Rightarrow> kvs | _ \<Rightarrow> [])"
    "chains s k' = Some c0" "jget b ''tokenHex'' = str (to_hex tok)" "0 \<le> si" "si < 2 ^ 8" "0 \<le> ti" "ti < 2 ^ 8"
    "issue_token ?P (rq_now rq) (rq_nonce rq) (issue_prm e' kvs' ?t si ti) c0 = (c', Inr (tok, to_hex tok))"
    by (rule issue_route_ok [OF issued(1)]) (rule that; assumption)
  have eqs: "k' = k" "e' = e" "c0 = c" "kvs' = kvs" "hex = to_hex tok"
    using i key issued(2) claims(1) by (auto simp: ks_find_str)
  have short: "length tok < 2 ^ 32" using issued(3) eqs(5) by simp
  have v: "verify_with E rq' e tok = Inr \<lparr>v_claims = claims_map ?P kvs, v_issued = rq_now rq * 1000, v_ttl = ttl,
      v_ctr = c_counter c + 1\<rparr>" and tb: "token_bytes E (str hex) = Some tok" "hex \<noteq> []"
    using issued_verify_with [OF i(10) [unfolded eqs] i(6-9) short key(4-6) prims now claims(2), of rq'] window eqs(5) by simp_all
  have nb: "\<not> nullish (obj kv)" for kv by (simp add: nullish_def obj_def undef_def)
  have rv: "str k \<notin> set (revoked s2)" using kept(2) by (simp add: is_revoked_def)
  have "verify_route E rq' s2 = (count_verify ''ok'' s2, Some (Verified None \<lparr>v_claims = claims_map ?P kvs,
      v_issued = rq_now rq * 1000, v_ttl = ttl, v_ctr = c_counter c + 1\<rparr>))"
    using kept(1,3) rv tb(2) by (simp add: verify_route_def request with_body_def nb Let_def ks_find_str tb(1) v)
  then show ?thesis by simp
qed

subsection \<open>A token of the sample server\<close>

lemma small_issued:
  assumes "issue_token sample_prims now sample_nonce prm chn = (chn', Inr (tok, hex))"
    and "i_claims prm = []" "i_device_fp prm = None" "i_compress prm = CompressAuto" "i_signing_key_seed prm = Some [1]" "i_signing_key prm = None"
  shows "length tok < 2 ^ 32"
proof -
  obtain key where k: "seal_token sample_prims prm key (now * 1000) sample_nonce
      (case i_device_fp prm of None \<Rightarrow> p_sha3 sample_prims sample_nonce | Some f \<Rightarrow> f) (c_counter chn') = Inr tok"
    and "i_signing_key_seed prm = Some key \<or> i_signing_key prm = Some key"
    by (rule issue_token_Inr [OF assms(1)])
  then have key: "key = [1]" using assms(5,6) by simp
  have fp: "length (case i_device_fp prm of None \<Rightarrow> p_sha3 sample_prims sample_nonce | Some f \<Rightarrow> f) = 32"
    by (simp add: assms(3) sample_prims_def)
  obtain raw pt ep sig h where s:
    "encode_claims sample_prims (i_claims prm) = Inr raw" "pack_payload sample_prims (i_compress prm) raw = Inr pt"
    "p_aead_enc sample_prims (i_encrypt_key prm) (aead_nonce sample_prims sample_nonce) [] pt = Some ep"
    "p_sign sample_prims (signed_layout h ep) key = Some sig" "tok = signed_layout h ep @ sig" "wf_header h"
    by (rule seal_token_Inr [OF k sample_nonce_entropy(2) fp]) (rule that; assumption)
  have "length raw \<le> 1" using s(1) by (auto simp: encode_claims_def assms(2) bind_r_eq_Inr)
  moreover have "length ep = length raw + 17" "length sig = 2"
    using s(2-4) by (auto simp: assms(4) pack_payload_def sample_prims_def key)
  ultimately show ?thesis using s(5,6) by simp
qed

definition sample_body :: jsval where
  "sample_body = obj [(''keyId'', str ''k''), (''claims'', JObj [])]"

definition sample_parse :: "string \<Rightarrow> bytes \<Rightarrow> jsval option" where
  "sample_parse hex bs = Some (if bs = [1] then sample_body else obj [(''keyId'', str ''k''), (''token'', str hex)])"

lemma sample_bodies:
  "read_body_caught (sample_env a (sample_parse hex)) (sample_rq m p [1]) = sample_body"
  "read_body_caught (sample_env a (sample_parse hex)) (sample_rq m p [2]) = obj [(''keyId'', str ''k''), (''token'', str hex)]"
  by (simp_all add: read_body_caught_def sample_env_def sample_rq_def read_json_bounded_def sample_parse_def)

lemma sample_issued:
  "\<exists>tok c'. issue_token sample_prims 1000 sample_nonce (issue_prm sample_skey [] (num 3600) 5 1) (new_chain (replicate 32 9)) =
     (c', Inr (tok, to_hex tok)) \<and> c_counter c' = 1 \<and> length tok < 2 ^ 32"
proof -
  let ?prm = "issue_prm sample_skey [] (num 3600) 5 1"
  have "\<exists>c' tok. issue_token sample_prims 1000 sample_nonce ?prm (new_chain (replicate 32 9)) = (c', Inr (tok, to_hex tok)) \<and>
      c_counter c' = c_counter (new_chain (replicate 32 9)) + 1"
    by (rule issue_token_ok [where key = "[1]"])
      (simp_all add: issue_prm_def sample_skey_def encodable_def wf_chain_def new_chain_def)
  then obtain c' tok where i: "issue_token sample_prims 1000 sample_nonce ?prm (new_chain (replicate 32 9)) = (c', Inr (tok, to_hex tok))"
    "c_counter c' = 1" by (auto simp: new_chain_def)
  have "length tok < 2 ^ 32" by (rule small_issued [OF i(1)]) (simp_all add: issue_prm_def sample_skey_def)
  with i show ?thesis by blast
qed

theorem issued_token_verifies_at_the_server_witness:
  "\<exists>hex E s1 b s3 v. E = sample_env AnonMode (sample_parse hex) \<and>
     issue_route E (sample_rq ''POST'' ''/v3/token/issue'' [1]) sample_server = (s1, Some (Json 200 b)) \<and>
     jget b ''tokenHex'' = str hex \<and>
     verify_route E (sample_rq ''POST'' ''/v3/token/verify'' [2]) s1 = (s3, Some (Verified None v)) \<and> v_ctr v = 1"
proof -
  obtain tok c' where i: "issue_token sample_prims 1000 sample_nonce (issue_prm sample_skey [] (num 3600) 5 1) (new_chain (replicate 32 9)) =
     (c', Inr (tok, to_hex tok))" "c_counter c' = 1" "length tok < 2 ^ 32"
    using sample_issued by blast
  let ?E = "sample_env AnonMode (sample_parse (to_hex tok))" and ?rq = "sample_rq ''POST'' ''/v3/token/issue'' [1]"
  let ?rq' = "sample_rq ''POST'' ''/v3/token/verify'' [2]"
  have prim: "cfg_prims ?E = sample_prims" by (simp add: sample_env_def)
  have rq: "rq_now ?rq = 1000" "rq_nonce ?rq = sample_nonce" "rq_now ?rq' = 1000" by (simp_all add: sample_rq_def)
  have get: "jget sample_body ''keyId'' = str ''k''" "jget sample_body ''claims'' = JObj []" "jget sample_body ''ttl'' = undef"
    "jget sample_body ''suite'' = undef" "jget sample_body ''tokenType'' = undef" "jget sample_body ''_err'' = undef"
    "\<not> nullish sample_body"
    by (simp_all add: sample_body_def) (simp add: nullish_def obj_def undef_def)
  have "json_bytes (p_numstr (cfg_prims ?E)) (JObj []) = Some 2"
    using utf8_encode_ascii [of "''{}''"] by (simp add: json_bytes_def ascii_def js_def)
  then have ck: "check_claims ?E (JObj []) = Inr []"
    by (simp add: check_claims_def) (simp add: sample_env_def validate_claims_def default_claims_cfg_def walk.simps Let_def)
  have ids: "suite_id ?E (str ''dilithium5'') = Some 5" "type_id ?E (str ''access'') = Some 1"
    by (simp_all add: suite_id_def type_id_def table_get_def str_def)
  have lim: "check_key (cfg_rate ?E) l k op t = (l, \<lparr>allowed = True, remaining = 0, limit = 0, resetSec = Some 0, bypass = True, reason = []\<rparr>)" for l k op t
    by (simp add: check_key_def sample_env_def)
  obtain d' where d: "file_append Map.empty ''k'' 1 (c_state c') = Inr d'" by (simp add: file_append_def file_record_def)
  have "\<exists>b s1. issue_route ?E ?rq sample_server = (s1, Some (Json 200 b)) \<and> jget b ''tokenHex'' = str (to_hex tok) \<and>
      keystore s1 = keystore sample_server \<and> revoked s1 = []"
    using ids i d
    by (simp add: issue_route_def sample_bodies with_body_def get Let_def ck sample_server_def ks_find_def or_default_def
        issue_limited_def lim issue_signed_def prim rq append_chain_def log_effect_def)
      (simp add: sample_env_def log_effect_def)
  then obtain b s1 where s1: "issue_route ?E ?rq sample_server = (s1, Some (Json 200 b))" "jget b ''tokenHex'' = str (to_hex tok)"
    "keystore s1 = keystore sample_server" "revoked s1 = []" by blast
  have ks: "keystore sample_server = [(''k'', sample_skey)]" "chains sample_server ''k'' = Some (new_chain (replicate 32 9))"
    by (simp_all add: sample_server_def)
  have ttl: "(3600 :: int) = to_uint32 (or_default (jget (read_body_caught ?E ?rq) ''ttl'') (num 3600))"
    by (simp add: sample_bodies get or_default_def to_uint32_def num_def trunc_rat_def)
  have pr: "sha3_len (p_sha3 (cfg_prims ?E))" "aead_correct (cfg_prims ?E)" "inflate_correct (cfg_prims ?E)"
    using sample_prims_ok by (simp_all add: prim)
  have kp: "key_pair (cfg_prims ?E) (signing sample_skey) (verifying sample_skey)"
    by (simp add: prim key_pair_def sample_prims_def sample_skey_def)
  have "\<exists>s3. verify_route ?E ?rq' s1 = (s3, Some (Verified None
      \<lparr>v_claims = claims_map (cfg_prims ?E) [], v_issued = rq_now ?rq * 1000, v_ttl = 3600, v_ctr = c_counter (new_chain (replicate 32 9)) + 1\<rparr>)) \<and>
    core s3 = core s1"
    by (rule issued_token_verifies_at_the_server [where k = "''k''" and e = sample_skey and kvs = "[]" and s = sample_server,
        OF s1(1,2) _ _ _ ks(2) kp _ _ pr _ _ _ _ _ ttl])
      (use i(3) in \<open>simp_all add: ks s1 rq sample_bodies get is_revoked_def clean_claims_def new_chain_def\<close>)
  then show ?thesis using s1 by (fastforce simp: new_chain_def)
qed

end
