(* ===== verification/Legacy_Server.thy ===== *)
theory Legacy_Server
  imports Server_Tokens
begin

section \<open>The first REST server\<close>

text \<open>
  \<open>qv-server/server.mjs\<close> (\<open>npm run start:legacy\<close>): six handlers on Express over two maps in memory. The
  body is what \<open>express.json()\<close> gives the handler (routing, CORS and the size limit are Express's, and
  arguments here); the records of keys, requests and replies and the verifier are those of the sovereign server.
\<close>

record legacy =
  l_keystore :: "(string \<times> skey) list"
  l_chains :: "string \<Rightarrow> chain option"

definition legacy_start :: legacy where
  "legacy_start = \<lparr>l_keystore = [], l_chains = Map.empty\<rparr>"

datatype legacy_call = CallHealth | CallSpec | CallKeygen | CallIssue | CallVerify | CallInspect

definition api_error :: "int \<Rightarrow> string \<Rightarrow> reply" where
  "api_error n c = Fail n (str c)"

text \<open>\<open>req.body ?? \{\}\<close>; reading \<open>req.body?.label\<close> is the same.\<close>

definition body_of :: "jsval \<Rightarrow> jsval" where
  "body_of b = (if nullish b then JObj [] else b)"

text \<open>\<open>new MutationChain()\<close> draws its own seed.\<close>

definition legacy_keygen :: "'s server_env \<Rightarrow> request \<Rightarrow> bytes \<Rightarrow> jsval \<Rightarrow> legacy \<Rightarrow> legacy \<times> reply" where
  "legacy_keygen E rq seed body s =
     (let keyId = rq_uuid rq; e = new_skey rq (body_of body) in
      (s\<lparr>l_keystore := AList.update keyId e (l_keystore s), l_chains := (l_chains s)(keyId \<mapsto> new_chain seed)\<rparr>,
       Json 201 (obj [(''keyId'', str keyId), (''label'', label e),
         (''verifyingKeyB64'', str (base64url_encode (verifying e))),
         (''encryptKeyB64'', str (base64url_encode (encrypting e))),
         (''signingKeyLen'', num (int (length (signing e)))),
         (''verifyingKeyLen'', num (int (length (verifying e)))),
         (''algorithm'', str ''ML-DSA-87''), (''createdAt'', str (cfg_iso E (rq_now rq)))])))"

definition legacy_suite :: "'s server_env \<Rightarrow> jsval \<Rightarrow> int option" where
  "legacy_suite E v = table_get [(''dilithium5'', 5), (''dual'', 9), (''triple'', 255)] (prop_name (p_numstr (cfg_prims E)) v)"

text \<open>The claims are not checked here: \<open>issueToken\<close> takes the entries of whatever was sent.\<close>

definition legacy_issue_signed ::
  "'s server_env \<Rightarrow> request \<Rightarrow> string \<Rightarrow> skey \<Rightarrow> jsval \<Rightarrow> jsval \<Rightarrow> jsval \<Rightarrow> int \<Rightarrow> jsval \<Rightarrow> int \<Rightarrow> legacy \<Rightarrow> legacy \<times> reply" where
  "legacy_issue_signed E rq k e claims ttl suite suiteId tokenType typeId s =
     (case l_chains s k of
        None \<Rightarrow> (s, IssueFailed (Some TypeErr))
      | Some c \<Rightarrow>
          (case issue_token (cfg_prims E) (rq_now rq) (rq_nonce rq)
              (issue_prm e (object_entries claims) ttl suiteId typeId) c of
             (c', r) \<Rightarrow>
               let s1 = s\<lparr>l_chains := (l_chains s)(k \<mapsto> c')\<rparr> in
               (case r of
                  Inl x \<Rightarrow> (s1, IssueFailed (Some x))
                | Inr (tok, hex) \<Rightarrow>
                    (s1, Json 200 (obj [(''tokenHex'', str hex), (''tokenB64'', str (base64url_encode tok)),
                       (''sizeBytes'', num (int (length tok))), (''issuedAt'', str (cfg_iso E (rq_now rq))),
                       (''ttlSecs'', ttl), (''mutationCtr'', num (c_counter c')), (''suite'', suite),
                       (''tokenType'', tokenType)])))))"

definition legacy_issue :: "'s server_env \<Rightarrow> request \<Rightarrow> jsval \<Rightarrow> legacy \<Rightarrow> legacy \<times> reply" where
  "legacy_issue E rq body s =
     (let b = body_of body; keyId = jget b ''keyId''; claims = jget b ''claims'';
          suite = or_default (jget b ''suite'') (str ''dilithium5'');
          tokenType = or_default (jget b ''tokenType'') (str ''access'') in
      if \<not> truthy keyId then (s, api_error 400 ''MISSING_KEY_ID'')
      else if \<not> truthy claims then (s, api_error 400 ''MISSING_CLAIMS'')
      else (case ks_find (l_keystore s) keyId of
              None \<Rightarrow> (s, api_error 404 ''KEY_NOT_FOUND'')
            | Some (k, e) \<Rightarrow>
                (case legacy_suite E suite of
                   None \<Rightarrow> (s, api_error 400 ''INVALID_SUITE'')
                 | Some suiteId \<Rightarrow>
                     (case type_id E tokenType of
                        None \<Rightarrow> (s, api_error 400 ''INVALID_TYPE'')
                      | Some typeId \<Rightarrow>
                          legacy_issue_signed E rq k e claims (or_default (jget b ''ttl'') (num 3600))
                            suite suiteId tokenType typeId s))))"

definition legacy_verify :: "'s server_env \<Rightarrow> request \<Rightarrow> jsval \<Rightarrow> legacy \<Rightarrow> reply" where
  "legacy_verify E rq body s =
     (let b = body_of body; keyId = jget b ''keyId''; token = jget b ''token'' in
      if \<not> truthy keyId then api_error 400 ''MISSING_KEY_ID''
      else if \<not> truthy token then api_error 400 ''MISSING_TOKEN''
      else (case ks_find (l_keystore s) keyId of
              None \<Rightarrow> api_error 404 ''KEY_NOT_FOUND''
            | Some (k, e) \<Rightarrow>
                (case token_bytes E token of
                   None \<Rightarrow> api_error 400 ''INVALID_TOKEN''
                 | Some tok \<Rightarrow>
                     (case verify_with E rq e tok of
                        Inl x \<Rightarrow> Unverified x
                      | Inr out \<Rightarrow> Verified None out))))"

definition legacy_inspect :: "'s server_env \<Rightarrow> jsval \<Rightarrow> reply" where
  "legacy_inspect E body =
     (let token = jget (body_of body) ''token'' in
      if \<not> truthy token then api_error 400 ''MISSING_TOKEN''
      else (case token_bytes E token of
              None \<Rightarrow> InspectFailed TypeErr
            | Some tok \<Rightarrow> (case inspect_token (TokenBytes tok) of Inl x \<Rightarrow> InspectFailed x | Inr r \<Rightarrow> Inspected r)))"

definition legacy_health :: reply where
  "legacy_health = Json 200 (obj [(''status'', str ''ok''), (''version'', str ''3.0.0''),
     (''algorithm'', str ''ML-DSA-87 (NIST FIPS 204)'')])"

text \<open>One call; \<open>spec\<close> is the constant document of \<open>/v3/spec\<close>.\<close>

definition legacy_step :: "'s server_env \<Rightarrow> jsval \<Rightarrow> legacy \<Rightarrow> legacy_call \<times> request \<times> bytes \<times> jsval \<Rightarrow> legacy \<times> reply" where
  "legacy_step E spec s = (\<lambda>(call, rq, seed, body).
     case call of
       CallHealth \<Rightarrow> (s, legacy_health)
     | CallSpec \<Rightarrow> (s, Json 200 spec)
     | CallKeygen \<Rightarrow> legacy_keygen E rq seed body s
     | CallIssue \<Rightarrow> legacy_issue E rq body s
     | CallVerify \<Rightarrow> (s, legacy_verify E rq body s)
     | CallInspect \<Rightarrow> (s, legacy_inspect E body))"

definition legacy_run :: "'s server_env \<Rightarrow> jsval \<Rightarrow> legacy \<Rightarrow> (legacy_call \<times> request \<times> bytes \<times> jsval) list \<Rightarrow> legacy" where
  "legacy_run E spec s calls = foldl (\<lambda>s c. fst (legacy_step E spec s c)) s calls"

subsection \<open>Property\<close>

lemma legacy_step_keeps:
  assumes "map_of (l_keystore s) k = Some e" "fst c = CallKeygen \<longrightarrow> rq_uuid (fst (snd c)) \<noteq> k"
  shows "map_of (l_keystore (fst (legacy_step E spec s c))) k = Some e"
proof -
  obtain call rq seed body where c: "c = (call, rq, seed, body)" by (cases c) auto
  show ?thesis
    using assms
    by (cases call) (auto simp: c legacy_step_def legacy_keygen_def legacy_issue_def legacy_issue_signed_def Let_def
        update_conv' split: option.split prod.split sum.split)
qed

lemma legacy_run_keeps:
  "map_of (l_keystore s) k = Some e \<Longrightarrow> \<forall>c \<in> set calls. fst c = CallKeygen \<longrightarrow> rq_uuid (fst (snd c)) \<noteq> k \<Longrightarrow>
    map_of (l_keystore (legacy_run E spec s calls)) k = Some e"
  unfolding legacy_run_def by (induction calls arbitrary: s) (simp_all add: legacy_step_keeps)

lemma legacy_suite_range: "legacy_suite E v = Some n \<Longrightarrow> 0 \<le> n \<and> n < 2 ^ 8"
  using table_get_range by (fastforce simp: legacy_suite_def)

lemma legacy_issue_ok:
  assumes "legacy_issue E rq body s = (s', Json 200 b)"
  obtains k e c tok c' suiteId typeId where
    "jget (body_of body) ''keyId'' = str k" "map_of (l_keystore s) k = Some e" "l_chains s k = Some c"
    "jget b ''tokenHex'' = str (to_hex tok)" "l_keystore s' = l_keystore s"
    "0 \<le> suiteId" "suiteId < 2 ^ 8" "0 \<le> typeId" "typeId < 2 ^ 8"
    "issue_token (cfg_prims E) (rq_now rq) (rq_nonce rq) (issue_prm e (object_entries (jget (body_of body) ''claims''))
      (or_default (jget (body_of body) ''ttl'') (num 3600)) suiteId typeId) c = (c', Inr (tok, to_hex tok))"
proof -
  let ?b = "body_of body"
  let ?suite = "or_default (jget ?b ''suite'') (str ''dilithium5'')" and ?ty = "or_default (jget ?b ''tokenType'') (str ''access'')"
  let ?ttl = "or_default (jget ?b ''ttl'') (num 3600)"
  obtain k e suiteId typeId where 1: "ks_find (l_keystore s) (jget ?b ''keyId'') = Some (k, e)"
    "legacy_suite E ?suite = Some suiteId" "type_id E ?ty = Some typeId"
    "legacy_issue_signed E rq k e (jget ?b ''claims'') ?ttl ?suite suiteId ?ty typeId s = (s', Json 200 b)"
    using assms by (auto simp: legacy_issue_def Let_def api_error_def split: if_splits option.splits)
  obtain c where c: "l_chains s k = Some c"
    using 1(4) by (auto simp: legacy_issue_signed_def split: option.splits)
  obtain c' r where i: "issue_token (cfg_prims E) (rq_now rq) (rq_nonce rq)
      (issue_prm e (object_entries (jget ?b ''claims'')) ?ttl suiteId typeId) c = (c', r)" by force
  obtain tok hex where r: "r = Inr (tok, hex)" "jget b ''tokenHex'' = str hex" "l_keystore s' = l_keystore s"
    using 1(4) c i by (auto simp: legacy_issue_signed_def Let_def split: sum.splits)
  have "hex = to_hex tok" by (rule issue_token_Inr [OF i [unfolded r]])
  moreover have k: "jget ?b ''keyId'' = str k" using ks_find_Some [OF 1(1)] by simp
  moreover have "map_of (l_keystore s) k = Some e" using 1(1) k by (simp add: ks_find_str)
  moreover have "0 \<le> suiteId" "suiteId < 2 ^ 8" "0 \<le> typeId" "typeId < 2 ^ 8"
    using legacy_suite_range [OF 1(2)] type_range [OF 1(3)] by simp_all
  ultimately show thesis using that [of k e c tok suiteId typeId c'] c r i by blast
qed

text \<open>A token of the first server is accepted again and again: whatever calls come between, under its key id and in
  its window the text that was returned verifies, with the entries of the claims as texts, its time,
  lifetime and counter; there is no revocation and no replay protection.\<close>

theorem legacy_token_stays_valid:
  assumes issued: "legacy_issue E rq body s = (s1, Json 200 b)" "jget b ''tokenHex'' = str hex" "length hex < 2 ^ 33"
    and key: "jget (body_of body) ''keyId'' = str k" "map_of (l_keystore s) k = Some e" "l_chains s k = Some c" "k \<noteq> []"
      "key_pair (cfg_prims E) (signing e) (verifying e)" "0 \<le> c_counter c" "c_counter c < 2 ^ 64 - 1"
    and prims: "sha3_len (p_sha3 (cfg_prims E))" "aead_correct (cfg_prims E)" "inflate_correct (cfg_prims E)"
    and now: "length (rq_nonce rq) = 32" "0 \<le> rq_now rq" "rq_now rq * 1000 < 2 ^ 64"
    and claims: "kvs = object_entries (jget (body_of body) ''claims'')" "clean_claims (cfg_prims E) kvs"
    and window: "ttl = to_uint32 (or_default (jget (body_of body) ''ttl'') (num 3600))"
      "rq_now rq * 1000 \<le> rq_now rq' * 1000 + 5000000" "rq_now rq' * 1000 \<le> rq_now rq * 1000 + ttl * 1000000"
    and between: "\<forall>c \<in> set calls. fst c = CallKeygen \<longrightarrow> rq_uuid (fst (snd c)) \<noteq> k"
  shows "legacy_verify E rq' (obj [(''keyId'', str k), (''token'', str hex)]) (legacy_run E spec s1 calls) =
    Verified None \<lparr>v_claims = claims_map (cfg_prims E) kvs, v_issued = rq_now rq * 1000, v_ttl = ttl, v_ctr = c_counter c + 1\<rparr>"
proof -
  obtain k' e' c0 tok c' si ti where i:
    "jget (body_of body) ''keyId'' = str k'" "map_of (l_keystore s) k' = Some e'" "l_chains s k' = Some c0"
    "jget b ''tokenHex'' = str (to_hex tok)" "l_keystore s1 = l_keystore s" "0 \<le> si" "si < 2 ^ 8" "0 \<le> ti" "ti < 2 ^ 8"
    "issue_token (cfg_prims E) (rq_now rq) (rq_nonce rq) (issue_prm e' (object_entries (jget (body_of body) ''claims''))
      (or_default (jget (body_of body) ''ttl'') (num 3600)) si ti) c0 = (c', Inr (tok, to_hex tok))"
    by (rule legacy_issue_ok [OF issued(1)]) (rule that; assumption)
  have eqs: "k' = k" "e' = e" "c0 = c" "hex = to_hex tok" using i key issued(2) by auto
  have short: "length tok < 2 ^ 32" using issued(3) eqs(4) by simp
  have v: "verify_with E rq' e tok = Inr \<lparr>v_claims = claims_map (cfg_prims E) kvs, v_issued = rq_now rq * 1000, v_ttl = ttl,
      v_ctr = c_counter c + 1\<rparr>" and tb: "token_bytes E (str hex) = Some tok" "hex \<noteq> []"
    using issued_verify_with [OF i(10) [unfolded eqs claims(1) [symmetric]] i(6-9) short key(5-7) prims now claims(2), of rq'] window eqs(4)
    by simp_all
  have "map_of (l_keystore (legacy_run E spec s1 calls)) k = Some e"
    by (rule legacy_run_keeps [OF _ between]) (simp add: key(2) i(5))
  moreover have "\<not> nullish (obj kv)" for kv by (simp add: nullish_def obj_def undef_def)
  ultimately show ?thesis using key(4) tb v by (simp add: legacy_verify_def body_of_def ks_find_str Let_def)
qed

theorem legacy_token_stays_valid_witness:
  "\<exists>s1 b hex v. let E = sample_env AnonMode (\<lambda>_. None); rq = sample_rq ''POST'' ''/'' [] in
     legacy_issue E rq sample_body \<lparr>l_keystore = [(''k'', sample_skey)], l_chains = [''k'' \<mapsto> new_chain (replicate 32 9)]\<rparr> = (s1, Json 200 b) \<and>
     jget b ''tokenHex'' = str hex \<and>
     legacy_verify E rq (obj [(''keyId'', str ''k''), (''token'', str hex)])
       (legacy_run E JNull s1 [(CallHealth, rq, [], JNull), (CallKeygen, rq, [], JNull)]) = Verified None v \<and> v_ctr v = 1"
proof -
  obtain tok c' where i: "issue_token sample_prims 1000 sample_nonce (issue_prm sample_skey [] (num 3600) 5 1) (new_chain (replicate 32 9)) =
     (c', Inr (tok, to_hex tok))" "length tok < 2 ^ 32"
    using sample_issued by blast
  let ?E = "sample_env AnonMode (\<lambda>_. None)" and ?rq = "sample_rq ''POST'' ''/'' []"
  let ?s = "\<lparr>l_keystore = [(''k'', sample_skey)], l_chains = [''k'' \<mapsto> new_chain (replicate 32 9)]\<rparr>"
  have prim: "cfg_prims ?E = sample_prims" by (simp add: sample_env_def)
  have rq: "rq_now ?rq = 1000" "rq_nonce ?rq = sample_nonce" "rq_uuid ?rq = ''k2''" by (simp_all add: sample_rq_def)
  have get: "jget (body_of sample_body) ''keyId'' = str ''k''" "jget (body_of sample_body) ''claims'' = JObj []"
    "jget (body_of sample_body) ''ttl'' = undef" "jget (body_of sample_body) ''suite'' = undef"
    "jget (body_of sample_body) ''tokenType'' = undef"
    by (simp_all add: body_of_def sample_body_def) (simp_all add: nullish_def obj_def undef_def jget_def js_def)
  have ids: "legacy_suite ?E (str ''dilithium5'') = Some 5" "type_id ?E (str ''access'') = Some 1"
    by (simp_all add: legacy_suite_def type_id_def table_get_def str_def)
  have "\<exists>s1 b. legacy_issue ?E ?rq sample_body ?s = (s1, Json 200 b) \<and> jget b ''tokenHex'' = str (to_hex tok)"
    using ids i(1) by (simp add: legacy_issue_def get Let_def ks_find_def or_default_def legacy_issue_signed_def prim rq object_entries_def)
  then obtain s1 b where s1: "legacy_issue ?E ?rq sample_body ?s = (s1, Json 200 b)" "jget b ''tokenHex'' = str (to_hex tok)" by blast
  have ttl: "(3600 :: int) = to_uint32 (or_default (jget (body_of sample_body) ''ttl'') (num 3600))"
    by (simp add: get or_default_def to_uint32_def num_def trunc_rat_def)
  have pr: "sha3_len (p_sha3 (cfg_prims ?E))" "aead_correct (cfg_prims ?E)" "inflate_correct (cfg_prims ?E)"
    using sample_prims_ok by (simp_all add: prim)
  have kp: "key_pair (cfg_prims ?E) (signing sample_skey) (verifying sample_skey)"
    by (simp add: prim key_pair_def sample_prims_def sample_skey_def)
  have "legacy_verify ?E ?rq (obj [(''keyId'', str ''k''), (''token'', str (to_hex tok))])
      (legacy_run ?E JNull s1 [(CallHealth, ?rq, [], JNull), (CallKeygen, ?rq, [], JNull)]) =
    Verified None \<lparr>v_claims = claims_map (cfg_prims ?E) [], v_issued = rq_now ?rq * 1000, v_ttl = 3600,
      v_ctr = c_counter (new_chain (replicate 32 9)) + 1\<rparr>"
    by (rule legacy_token_stays_valid [OF s1 _ get(1) _ _ _ kp _ _ pr _ _ _ _ _ ttl])
      (use i(2) in \<open>simp_all add: get rq new_chain_def clean_claims_def object_entries_def\<close>)
  then show ?thesis using s1 by (fastforce simp: new_chain_def Let_def)
qed

end
