(* ===== verification/Middleware.thy ===== *)
theory Middleware
  imports Counter_Store Js_Value
begin

section \<open>The Express and Fastify middlewares of the SDK\<close>

text \<open>
  \<open>qv-sdk/src/middleware\<close>: the token of a request, the verifier (in the process over a counter store, or
  by a call to a server) and the two adapters. \<open>fetch\<close> is an argument: \<open>None\<close> when it rejects, else
  whether the status is in the 200s and the body, if it is JSON. So is the \<open>code\<close> property of an error
  of the SDK or its packages (\<open>[]\<close> when it has none). Options have the documented types; error messages
  are left out, their codes are kept.
\<close>

record mw_options =
  mo_server :: "string option"
  mo_keyId :: "string option"
  mo_vk :: "bytes option"
  mo_ek :: "bytes option"
  mo_header :: string
  mo_scheme :: string

subsection \<open>The token of a request\<close>

definition extract_token :: "mw_options \<Rightarrow> (string \<Rightarrow> string option) \<Rightarrow> string option" where
  "extract_token opts headers =
     (case headers (to_lower (mo_header opts)) of
        None \<Rightarrow> None
      | Some raw \<Rightarrow>
          if raw = [] then None
          else if mo_scheme opts = [] then Some (js_trim raw)
          else let prefix = mo_scheme opts @ '' '' in
            if \<not> starts_with prefix raw then None else Some (js_trim (drop (length prefix) raw)))"

subsection \<open>The verifier\<close>

datatype mw_mode = Remote string "string option" | Local string bytes bytes

definition given :: "string option \<Rightarrow> string option" where
  "given v = (case v of Some s \<Rightarrow> if s = [] then None else Some s | None \<Rightarrow> None)"

definition strip_slashes :: "string \<Rightarrow> string" where
  "strip_slashes s = rev (dropWhile (\<lambda>c. c = CHR ''/'') (rev s))"

text \<open>\<open>None\<close> is the error thrown for incomplete options.\<close>

definition create_token_verifier :: "mw_options \<Rightarrow> mw_mode option" where
  "create_token_verifier opts =
     (case given (mo_server opts) of
        Some serverUrl \<Rightarrow> Some (Remote (strip_slashes serverUrl) (given (mo_keyId opts)))
      | None \<Rightarrow>
          (case (mo_vk opts, mo_ek opts, given (mo_keyId opts)) of
             (Some vk, Some ek, Some k) \<Rightarrow> Some (Local k vk ek)
           | _ \<Rightarrow> None))"

type_synonym fetch_fun = "string \<Rightarrow> jsval \<Rightarrow> (bool \<times> jsval option) option"

datatype mw_result = RemoteData jsval | LocalResult string verified

text \<open>\<open>Inl\<close> is a throw, with the \<open>code\<close> of the error.\<close>

definition verify_remote :: "fetch_fun \<Rightarrow> string \<Rightarrow> string option \<Rightarrow> string \<Rightarrow> jsval + mw_result" where
  "verify_remote fetch base keyId token =
     (let path = (if keyId \<noteq> None then ''/v3/token/verify'' else ''/v3/token/verify-auto'');
          body = (case keyId of Some k \<Rightarrow> obj [(''keyId'', str k), (''token'', str token)] | None \<Rightarrow> obj [(''token'', str token)]) in
      case fetch (base @ path) body of
        None \<Rightarrow> Inl undef
      | Some (_, None) \<Rightarrow> Inl undef
      | Some (good, Some data) \<Rightarrow>
          if good \<and> nullish data then Inl undef
          else if \<not> good \<or> \<not> truthy (jget data ''valid'') then
            Inl (val_or (jget (jget data ''error'') ''code'') (str ''TOKEN_INVALID''))
          else Inr (RemoteData data))"

definition run_verifier ::
  "prims \<Rightarrow> fetch_fun \<Rightarrow> 's observe_fun \<Rightarrow> (sdk_error \<Rightarrow> string) \<Rightarrow> mw_mode \<Rightarrow> int \<Rightarrow> 's \<Rightarrow> string \<Rightarrow> 's \<times> (jsval + mw_result)" where
  "run_verifier P fetch obs code_of m now store token =
     (case m of
        Remote base keyId \<Rightarrow> (store, verify_remote fetch base keyId token)
      | Local k vk ek \<Rightarrow>
          (case verify_token_with_store P obs now store k None vk ek (TokenHex token) of
             (s', Inl e) \<Rightarrow> (s', Inl (if code_of e = [] then undef else str (code_of e)))
           | (s', Inr v) \<Rightarrow> (s', Inr (LocalResult k v))))"

subsection \<open>The adapters\<close>

text \<open>What happens to a request: the application runs with the result, or a 401 is sent. \<open>app\<close> tells
  whether \<open>next()\<close> throws, and the code of what it throws.\<close>

datatype mw_event = Handled mw_result | Reply401 jsval

definition reply_code :: "jsval \<Rightarrow> jsval" where
  "reply_code c = val_or c (str ''TOKEN_INVALID'')"

definition sigvault_express ::
  "('s \<Rightarrow> string \<Rightarrow> 's \<times> (jsval + mw_result)) \<Rightarrow> (mw_result \<Rightarrow> jsval option) \<Rightarrow> string option \<Rightarrow> 's \<Rightarrow> 's \<times> mw_event list" where
  "sigvault_express verify app token store =
     (case token of
        None \<Rightarrow> (store, [Reply401 (str ''TOKEN_MISSING'')])
      | Some t \<Rightarrow>
          if t = [] then (store, [Reply401 (str ''TOKEN_MISSING'')])
          else (case verify store t of
             (s', Inl c) \<Rightarrow> (s', [Reply401 (reply_code c)])
           | (s', Inr r) \<Rightarrow>
               (s', Handled r # (case app r of None \<Rightarrow> [] | Some c \<Rightarrow> [Reply401 (reply_code c)]))))"

definition sigvault_fastify ::
  "('s \<Rightarrow> string \<Rightarrow> 's \<times> (jsval + mw_result)) \<Rightarrow> string option \<Rightarrow> 's \<Rightarrow> 's \<times> mw_event list" where
  "sigvault_fastify verify token store =
     (case token of
        None \<Rightarrow> (store, [Reply401 (str ''TOKEN_MISSING'')])
      | Some t \<Rightarrow>
          if t = [] then (store, [Reply401 (str ''TOKEN_MISSING'')])
          else (case verify store t of
             (s', Inl c) \<Rightarrow> (s', [Reply401 (reply_code c)])
           | (s', Inr r) \<Rightarrow> (s', [Handled r])))"

text \<open>A run: requests with their time and headers, in the order in which their tokens are verified.\<close>

fun express_run ::
  "(int \<Rightarrow> 's \<Rightarrow> string \<Rightarrow> 's \<times> (jsval + mw_result)) \<Rightarrow> (mw_result \<Rightarrow> jsval option) \<Rightarrow> mw_options \<Rightarrow>
   (int \<times> (string \<Rightarrow> string option)) list \<Rightarrow> 's \<Rightarrow> 's \<times> mw_event list" where
  "express_run verify app opts [] s = (s, [])"
| "express_run verify app opts ((now, headers) # rqs) s =
     (let (s1, es) = sigvault_express (verify now) app (extract_token opts headers) s;
          (s2, es2) = express_run verify app opts rqs s1 in (s2, es @ es2))"

subsection \<open>What reaches the application\<close>

definition handled_counters :: "mw_event list \<Rightarrow> int list" where
  "handled_counters es = concat (map (\<lambda>x. case x of Handled (LocalResult k v) \<Rightarrow> [v_ctr v] | _ \<Rightarrow> []) es)"

lemma handled_counters_simps [simp]:
  "handled_counters [] = []" "handled_counters (es @ es') = handled_counters es @ handled_counters es'"
  "handled_counters (Reply401 c # es) = handled_counters es"
  "handled_counters (Handled (LocalResult k v) # es) = v_ctr v # handled_counters es"
  by (simp_all add: handled_counters_def)

definition authentic_request :: "prims \<Rightarrow> string \<Rightarrow> bytes \<Rightarrow> bytes \<Rightarrow> mw_options \<Rightarrow> (int \<times> (string \<Rightarrow> string option)) \<Rightarrow> mw_result \<Rightarrow> bool" where
  "authentic_request P k vk ek opts rq r \<longleftrightarrow> (\<exists>t v. extract_token opts (snd rq) = Some t \<and> r = LocalResult k v \<and>
     snd (verify_token P (fst rq) vk ek (from_state (slice 0 32 ek) 0) (TokenHex t)) = Inr v)"

lemma verify_with_store_authentic:
  "verify_token_with_store P obs now s k None vk ek t = (s', Inr v) \<Longrightarrow>
    snd (verify_token P now vk ek (from_state (slice 0 32 ek) 0) t) = Inr v"
  by (auto simp: verify_token_with_store_def Let_def split: sum.splits)

context counter_store
begin

lemma express_step:
  assumes "sigvault_express (run_verifier P fetch observe code_of (Local k vk ek) now) app (extract_token opts hs) s = (s', es)"
  shows "handled_counters es = [] \<and> current s' = current s \<and> (\<forall>r. Handled r \<notin> set es) \<or>
    (\<exists>v :: verified. handled_counters es = [v_ctr v] \<and> current s k < v_ctr v \<and> current s' k = v_ctr v \<and>
      (\<forall>r. Handled r \<in> set es \<longrightarrow> authentic_request P k vk ek opts (now, hs) r))"
proof (cases "extract_token opts hs = None \<or> extract_token opts hs = Some []")
  case True
  then show ?thesis using assms by (auto simp: sigvault_express_def)
next
  case False
  then obtain t where t: "extract_token opts hs = Some t" "t \<noteq> []" by auto
  obtain s1 x where v: "verify_token_with_store P observe now s k None vk ek (TokenHex t) = (s1, x)" by force
  from verify_with_store_cases [OF v] show ?thesis
  proof
    assume "s1 = s \<and> (\<exists>e. x = Inl e)"
    then show ?thesis using assms t v by (auto simp: sigvault_express_def run_verifier_def)
  next
    assume "\<exists>w. x = Inr w \<and> current s k < v_ctr w \<and> current s1 = (current s)(k := v_ctr w)"
    then obtain w where w: "x = Inr w" "current s k < v_ctr w" "current s1 = (current s)(k := v_ctr w)" by blast
    have es: "s' = s1" "es = Handled (LocalResult k w) # (case app (LocalResult k w) of None \<Rightarrow> [] | Some c \<Rightarrow> [Reply401 (reply_code c)])"
      using assms t v w(1) by (auto simp: sigvault_express_def run_verifier_def)
    have "authentic_request P k vk ek opts (now, hs) (LocalResult k w)"
      using t(1) verify_with_store_authentic [of P observe now s k vk ek "TokenHex t" s1 w] v w(1) by (auto simp: authentic_request_def)
    then have "\<forall>r. Handled r \<in> set es \<longrightarrow> authentic_request P k vk ek opts (now, hs) r"
      using es(2) by (auto split: option.splits)
    moreover have "handled_counters es = [v_ctr w]" using es(2) by (simp split: option.split)
    ultimately show ?thesis using w(2,3) es(1) by (intro disjI2 exI [of _ w] conjI) simp_all
  qed
qed

lemma express_increasing:
  "express_run (run_verifier P fetch observe code_of (Local k vk ek)) app opts rqs s = (s', es) \<Longrightarrow>
   sorted_wrt (<) (handled_counters es) \<and> (\<forall>n \<in> set (handled_counters es). current s k < n) \<and>
   (\<forall>r. Handled r \<in> set es \<longrightarrow> (\<exists>rq \<in> set rqs. authentic_request P k vk ek opts rq r))"
proof (induction rqs arbitrary: s s' es)
  case (Cons rq rqs)
  obtain now hs where rq: "rq = (now, hs)" by force
  obtain s1 es1 where st: "sigvault_express (run_verifier P fetch observe code_of (Local k vk ek) now) app (extract_token opts hs) s = (s1, es1)"
    by force
  obtain s2 es2 where ru: "express_run (run_verifier P fetch observe code_of (Local k vk ek)) app opts rqs s1 = (s2, es2)" by force
  have es: "es = es1 @ es2" using Cons.prems st ru by (simp add: rq)
  note IH = Cons.IH [OF ru]
  have later: "\<exists>rq \<in> set ((now, hs) # rqs). authentic_request P k vk ek opts rq r" if "Handled r \<in> set es2" for r
    using IH that by auto
  from express_step [OF st] show ?case
  proof
    assume "handled_counters es1 = [] \<and> current s1 = current s \<and> (\<forall>r. Handled r \<notin> set es1)"
    then show ?thesis using IH later by (simp add: es rq)
  next
    assume "\<exists>v :: verified. handled_counters es1 = [v_ctr v] \<and> current s k < v_ctr v \<and> current s1 k = v_ctr v \<and>
      (\<forall>r. Handled r \<in> set es1 \<longrightarrow> authentic_request P k vk ek opts (now, hs) r)"
    then show ?thesis using IH later by (force simp: es rq)
  qed
qed simp

end

lemma hex_digit_not_ws: "n < 16 \<Longrightarrow> \<not> is_ws (hex_digit n)"
proof -
  assume "n < 16"
  then have "n \<in> set [0..<16]" by simp
  moreover have "list_all (\<lambda>n. \<not> is_ws (hex_digit n)) [0..<16]" by (simp add: upt_rec hex_digit_def is_ws_def code_def)
  ultimately show ?thesis unfolding list_all_iff by blast
qed

lemma js_trim_hex: "js_trim (to_hex bs) = to_hex bs"
proof -
  have "\<not> is_ws c" if "c \<in> set (to_hex bs)" for c
    using that
  proof (induction bs)
    case (Cons b bs)
    have "unat b < 256" using unsigned_less [of b, where ?'a = nat] by simp
    then have "unat b div 16 < 16" "unat b mod 16 < 16" by presburger+
    with Cons hex_digit_not_ws show ?case by auto
  qed simp
  then show ?thesis by (intro js_trim_id) (metis hd_in_set last_in_set)
qed

subsection \<open>Property\<close>

text \<open>C13: In local mode the application behind the Express middleware only runs for requests whose header
  carries a token that verifies under the configured keys at that time, with the verified result; and over
  any sequence of requests the counters it sees are strictly increasing, so no token reaches it twice.\<close>

theorem middleware_admits_each_token_once:
  assumes "express_run (run_verifier P fetch store_observe code_of (Local k vk ek)) app opts rqs m = (m', es)"
  shows "sorted_wrt (<) (handled_counters es) \<and> (\<forall>n \<in> set (handled_counters es). store_current m k < n) \<and>
    (\<forall>r. Handled r \<in> set es \<longrightarrow> (\<exists>rq \<in> set rqs. authentic_request P k vk ek opts rq r))"
  by (rule mem.express_increasing [OF assms])

definition sample_opts :: mw_options where
  "sample_opts = \<lparr>mo_server = None, mo_keyId = Some ''k'', mo_vk = Some [1, 2, 3], mo_ek = Some (replicate 32 9),
     mo_header = ''authorization'', mo_scheme = ''Bearer''\<rparr>"

text \<open>A request that carries a fresh token reaches the application, and the same request does not a second time.\<close>

theorem middleware_admits_each_token_once_witness:
  "\<exists>hex v. let hs = [''authorization'' \<mapsto> ''Bearer '' @ hex];
       r = express_run (run_verifier sample_prims (\<lambda>_ _. None) store_observe (\<lambda>_. ''REPLAY'') (Local ''k'' [1, 2, 3] (replicate 32 9)))
         (\<lambda>_. None) sample_opts [(1000, hs), (1000, hs)] Map.empty in
     snd r = [Handled (LocalResult ''k'' v), Reply401 (str ''REPLAY'')] \<and> sorted_wrt (<) (handled_counters (snd r))"
proof -
  have wf: "wf_chain (from_state (replicate 32 1) n)" "wf_chain (from_state (replicate 32 9) n)" for n
    by (simp_all add: from_state_def new_chain_def wf_chain_def)
  have ctr: "c_counter (from_state s n) = n" for s n by (simp add: from_state_def)
  obtain tok vchn' v where
    "verify_token sample_prims 1000 [1, 2, 3] (replicate 32 9) (from_state (replicate 32 9) 0) (TokenBytes tok) = (vchn', Inr v)"
    "v_ctr v = 5"
    using sample_verifies [OF wf(1) wf(2), of 4 0] by (auto simp: ctr)
  then have v: "verify_token sample_prims 1000 [1, 2, 3] (replicate 32 9) (from_state (replicate 32 9) 0) (TokenHex (to_hex tok)) = (vchn', Inr v)"
    by (simp add: verify_token_def open_token_def token_data_def)
  let ?hs = "[''authorization'' \<mapsto> ''Bearer '' @ to_hex tok]"
  let ?run = "express_run (run_verifier sample_prims (\<lambda>_ _. None) store_observe (\<lambda>_. ''REPLAY'') (Local ''k'' [1, 2, 3] (replicate 32 9)))
         (\<lambda>_. None) sample_opts [(1000, ?hs), (1000, ?hs)] Map.empty"
  have x: "extract_token sample_opts ?hs = Some (to_hex tok)"
    by (simp add: extract_token_def sample_opts_def to_lower_def lower_char_def code_def Let_def starts_with_def js_trim_hex)
  have ne: "to_hex tok \<noteq> []"
  proof
    assume "to_hex tok = []"
    then have "tok = []" by (cases tok) simp_all
    moreover have "deserialize_token [] = Inl RangeErr" by (simp add: deserialize_token_def get_uint_def bind_r_def)
    ultimately show False using v by (simp add: verify_token_def open_token_def token_data_def bind_r_def)
  qed
  have sl: "slice 0 32 (replicate 32 (9 :: byte)) = replicate 32 9" by simp
  let ?v = "run_verifier sample_prims (\<lambda>_ _. None) store_observe (\<lambda>_. ''REPLAY'') (Local ''k'' [1, 2, 3] (replicate 32 9)) 1000"
  have f: "verify_token_with_store sample_prims store_observe 1000 m ''k'' None [1, 2, 3] (replicate 32 9) (TokenHex (to_hex tok)) =
      (case store_observe m ''k'' 5 of Inl e \<Rightarrow> (m, Inl e) | Inr m' \<Rightarrow> (m', Inr v))" for m
    unfolding verify_token_with_store_def Let_def option.case sl v snd_conv sum.case \<open>v_ctr v = 5\<close> ..
  have o1: "store_observe Map.empty ''k'' 5 = Inr [''k'' \<mapsto> 5]" "store_observe [''k'' \<mapsto> 5] ''k'' 5 = Inl (Replay 5 5)"
    by (simp_all add: store_observe_def store_current_def)
  have e: "sigvault_express ?v (\<lambda>_. None) (Some (to_hex tok)) Map.empty = ([''k'' \<mapsto> 5], [Handled (LocalResult ''k'' v)])"
    "sigvault_express ?v (\<lambda>_. None) (Some (to_hex tok)) [''k'' \<mapsto> 5] = ([''k'' \<mapsto> 5], [Reply401 (str ''REPLAY'')])"
    using ne by (simp_all add: sigvault_express_def run_verifier_def f o1 reply_code_def val_or_def)
  have "snd ?run = [Handled (LocalResult ''k'' v), Reply401 (str ''REPLAY'')]"
    unfolding express_run.simps x by (simp only: e prod.case Let_def append.simps snd_conv)
  moreover have "sorted_wrt (<) (handled_counters (snd ?run))"
    by (rule middleware_admits_each_token_once [OF prod.collapse [symmetric], THEN conjunct1])
  ultimately show ?thesis by (intro exI [of _ "to_hex tok"] exI [of _ v]) (simp add: Let_def)
qed

text \<open>An exception of the application under Express is answered with 401; under Fastify it is not.\<close>

lemma express_catches_the_application:
  assumes "token = Some t" "t \<noteq> []" "verify s t = (s', Inr r)" "app r = Some c"
  shows "sigvault_express verify app token s = (s', [Handled r, Reply401 (reply_code c)]) \<and>
    sigvault_fastify verify token s = (s', [Handled r])"
  using assms by (simp add: sigvault_express_def sigvault_fastify_def)

end
