(* ===== verification/Server_Start.thy ===== *)
theory Server_Start
  imports Server_Restart Metrics Http_Edge Audit_Log Otlp Cidr Master_Key Chain_Store Writer_Lock
begin

section \<open>The start of the server process\<close>

text \<open>
  The top level of \<open>qv-server/server-sovereign.mjs\<close>: the loaders in their order, the lease, the master
  key, the pool, the chain store, then keystore and revocations. \<open>start\<close> takes the directory as the last
  process left it and returns it as this process leaves it, with the running server or the exception
  that ended the process. The shutdown hooks are installed after the loaders, so an exception before
  them keeps the lease that was taken. The lemmas say that a crashed server starts again with
  all it had, and how long the lease keeps a second server away.
\<close>

text \<open>What the process finds outside its environment variables.\<close>

record host =
  h_me :: me
  h_kill :: "int \<Rightarrow> bool"
  h_now :: int
  h_cpus :: nat
  h_default_dir :: string
  h_json :: "string \<Rightarrow> jsval option"
  h_url :: "string \<Rightarrow> string option"
  h_spawn :: "string \<Rightarrow> spawn_result"
  h_rand :: bytes
  h_exists :: "string \<Rightarrow> bool"
  h_on_path :: bool
  h_repo :: string
  h_help :: "string \<Rightarrow> int option \<times> string"
  h_log_opens :: bool
  h_logs :: "nat \<Rightarrow> line list option"
  h_worker_starts :: "nat \<Rightarrow> bool"
  h_connects :: "string \<Rightarrow> bool"
  h_ivs :: "nat \<Rightarrow> bytes"
  h_can_write :: bool

text \<open>The data directory. Of the server only the documents and the store are on disk.\<close>

record 's data_dir =
  d_lease :: "lock_text option"
  d_key :: "bytes option"
  d_server :: "'s server"

datatype start_error =
    StartSecurity | StartCors cors_error | StartNoDir | StartLock lock_error | StartAdmin admin_error
  | StartRate rl_error | StartClaims config_error | StartAudit string | StartOtlp otlp_error | StartCidr cidr_error
  | StartMaster mk_error | StartPool | StartStore dispatch_error | StartConnect | StartBoot boot_error

subsection \<open>The loaders\<close>

definition load_http :: "(string \<Rightarrow> string option) \<Rightarrow> start_error + sec_config \<times> cors_config" where
  "load_http env =
     (case load_security_config env of
        None \<Rightarrow> Inl StartSecurity
      | Some sec \<Rightarrow> map_sum StartCors (\<lambda>cors. (sec, cors)) (load_cors_config env))"

definition data_path :: "host \<Rightarrow> (string \<Rightarrow> string option) \<Rightarrow> string" where
  "data_path H env = (case env ''QV_DATA_DIR'' of Some d \<Rightarrow> d | None \<Rightarrow> h_default_dir H)"

text \<open>\<open>acquireWriterLock\<close> refuses an empty directory name. 30000 is its default lifetime of a lease.\<close>

definition take_writer_lock ::
  "host \<Rightarrow> (string \<Rightarrow> string option) \<Rightarrow> lock_text option \<Rightarrow> start_error + handle option \<times> lock_text option" where
  "take_writer_lock H env file =
     (if env ''QV_WRITER_LOCK_DISABLED'' = Some ''true'' then Inr (None, file)
      else if data_path H env = [] then Inl StartNoDir
      else map_sum StartLock (\<lambda>(h, f). (Some h, Some f))
        (acquire_writer_lock (h_kill H) (h_now H) (h_me H) 30000 True file))"

record guards =
  g_admin :: admin_config
  g_rate :: rl_config
  g_claims :: claims_cfg
  g_metrics :: "bool \<times> bool"
  g_audit :: auditor
  g_otlp :: "otlp_config option"
  g_falcon :: bool
  g_admin_list :: "cidr list"
  g_metrics_list :: "cidr list"

definition load_guards :: "host \<Rightarrow> (string \<Rightarrow> string option) \<Rightarrow> start_error + guards" where
  "load_guards H env =
     bind_r (map_sum StartAdmin id (load_admin_config env)) (\<lambda>adm.
     bind_r (map_sum StartRate id (load_rate_limit_config (h_json H) env)) (\<lambda>rate.
     bind_r (map_sum StartClaims id (load_claims_config env)) (\<lambda>claims.
     bind_r (map_sum StartAudit id (load_audit_config env (data_path H env))) (\<lambda>aud.
     bind_r (map_sum StartOtlp id (load_otlp_config (h_url H) env)) (\<lambda>otlp.
     bind_r (map_sum StartCidr id (load_cidr_config env)) (\<lambda>(al, ml).
       Inr \<lparr>g_admin = adm, g_rate = rate, g_claims = claims, g_metrics = load_metrics_config env,
            g_audit = create_auditor aud (h_log_opens H) (h_logs H), g_otlp = otlp,
            g_falcon = probe_falcon_cli (find_qv_cli (h_exists H) (h_on_path H) (env ''QV_CLI_BIN'') (h_repo H)) (h_help H),
            g_admin_list = al, g_metrics_list = ml\<rparr>))))))"

subsection \<open>The pool and the store\<close>

text \<open>A size that is not a number means no pool, and so does a worker that does not start; a size that is
  not a 32-bit integer makes \<open>new Array(size)\<close> throw outside the \<open>try\<close>. The limit of the queue is
  \<open>None\<close> when it is not a finite number: no length reaches it.\<close>

definition pool_size :: "host \<Rightarrow> (string \<Rightarrow> string option) \<Rightarrow> start_error + nat" where
  "pool_size H env =
     (case env ''QV_WORKERS'' of
        None \<Rightarrow> Inr (max 2 (h_cpus H - 1))
      | Some s \<Rightarrow>
          (case js_number s of
             None \<Rightarrow> Inr 0
           | Some None \<Rightarrow> if starts_with ''-'' (js_trim s) then Inr 0 else Inl StartPool
           | Some (Some r) \<Rightarrow>
               if r \<le> 0 then Inr 0
               else if r \<noteq> of_int \<lfloor>r\<rfloor> \<or> 2 ^ 32 \<le> r then Inl StartPool
               else Inr (nat \<lfloor>r\<rfloor>)))"

definition queue_max :: "(string \<Rightarrow> string option) \<Rightarrow> nat option" where
  "queue_max env =
     (case env ''QV_VERIFY_QUEUE_MAX'' of
        None \<Rightarrow> Some 1024
      | Some s \<Rightarrow>
          (case js_number s of
             Some (Some r) \<Rightarrow> Some (nat \<lceil>max 1 r\<rceil>)
           | Some None \<Rightarrow> if starts_with ''-'' (js_trim s) then Some 1 else None
           | None \<Rightarrow> None))"

text \<open>The number of workers, the limit of the queue, and whether keys stay with their worker.\<close>

definition start_pool :: "host \<Rightarrow> (string \<Rightarrow> string option) \<Rightarrow> start_error + (nat \<times> nat option \<times> bool) option" where
  "start_pool H env =
     bind_r (pool_size H env) (\<lambda>n.
       Inr (if n \<noteq> 0 \<and> list_all (h_worker_starts H) [0..<n]
            then Some (n, queue_max env, env ''QV_VERIFY_AFFINITY'' = Some ''true'') else None))"

definition open_store :: "host \<Rightarrow> (string \<Rightarrow> string option) \<Rightarrow> start_error + store_kind" where
  "open_store H env =
     bind_r (map_sum StartStore id (create_chain_store None (env ''QV_CHAIN_STORE'')
       (Some (data_path H env @ ''/chains'')) None (env ''QV_CHAIN_STORE_URL''))) (\<lambda>kind.
         case kind of FileStore \<Rightarrow> Inr kind | PostgresStore u \<Rightarrow> if h_connects H u then Inr kind else Inl StartConnect)"

subsection \<open>The process\<close>

text \<open>\<open>backend\<close> are the two operations of the chosen store. The packages' part of the environment comes with
  \<open>E\<close>, the rest is what was loaded.\<close>

definition configured ::
  "'s server_env \<Rightarrow> (store_kind \<Rightarrow> ('s \<Rightarrow> string \<Rightarrow> bytes \<Rightarrow> store_error + loaded) \<times>
     ('s \<Rightarrow> string \<Rightarrow> int \<Rightarrow> bytes \<Rightarrow> store_error + 's)) \<Rightarrow> cors_config \<Rightarrow> guards \<Rightarrow> bytes \<Rightarrow> store_kind \<Rightarrow> 's server_env" where
  "configured E backend cors g key kind =
     E\<lparr>cfg_rate := g_rate g, cfg_claims := g_claims g, cfg_admin := g_admin g, cfg_admin_list := g_admin_list g,
       cfg_master := key, cfg_cors := cors, cfg_metrics_enabled := fst (g_metrics g),
       cfg_metrics_public := snd (g_metrics g), cfg_load := fst (backend kind), cfg_append := snd (backend kind)\<rparr>"

record 's running =
  r_env :: "'s server_env"
  r_server :: "'s server"
  r_security :: sec_config
  r_guards :: guards
  r_pool :: "(nat \<times> nat option \<times> bool) option"

definition blank_server :: "handle option \<Rightarrow> 's server \<Rightarrow> 's server" where
  "blank_server hnd s =
     \<lparr>keystore = [], chains = Map.empty, fp_index = Map.empty, revoked = [], lim = create_limiter, rejects_seen = 0,
      lock = hnd, disk_ks = disk_ks s, disk_rev = disk_rev s, store = store s, trace = []\<rparr>"

text \<open>The boot block. The migration of old keys is on disk even when the revocations do not load.\<close>

definition run_boot ::
  "'s server_env \<Rightarrow> host \<Rightarrow> handle option \<Rightarrow> 's data_dir \<Rightarrow> 's data_dir \<times> (start_error + 's server)" where
  "run_boot E H hnd d =
     (case load_keystore E (h_ivs H) (h_can_write H) (blank_server hnd (d_server d)) of
        Inl e \<Rightarrow> (d, Inl (StartBoot e))
      | Inr s1 \<Rightarrow>
          (case load_revoked s1 of
             Inl e \<Rightarrow> (d\<lparr>d_server := (d_server d)\<lparr>disk_ks := disk_ks s1\<rparr>\<rparr>, Inl (StartBoot e))
           | Inr s2 \<Rightarrow> (d\<lparr>d_server := s2\<rparr>, Inr s2)))"

text \<open>After the lease: master key, pool, store, documents.\<close>

definition start_locked where
  "start_locked E backend H env sec cors hnd d =
     (case load_guards H env of
        Inl e \<Rightarrow> (d, Inl e)
      | Inr g \<Rightarrow>
          (case load_master_key (h_spawn H) env (d_key d) True (h_rand H) of (key, r) \<Rightarrow>
             let d1 = d\<lparr>d_key := key\<rparr> in
             (case r of
                Inl e \<Rightarrow> (d1, Inl (StartMaster e))
              | Inr mk \<Rightarrow>
                  (case bind_r (start_pool H env) (\<lambda>p. bind_r (open_store H env) (\<lambda>k. Inr (p, k))) of
                     Inl e \<Rightarrow> (d1, Inl e)
                   | Inr (p, kind) \<Rightarrow>
                       let E1 = configured E backend cors g (mk_key mk) kind in
                       (case run_boot E1 H hnd d1 of (d2, b) \<Rightarrow>
                          (d2, map_sum id (\<lambda>s. \<lparr>r_env = E1, r_server = s, r_security = sec, r_guards = g, r_pool = p\<rparr>) b))))))"

definition start ::
  "'s server_env \<Rightarrow> (store_kind \<Rightarrow> ('s \<Rightarrow> string \<Rightarrow> bytes \<Rightarrow> store_error + loaded) \<times>
     ('s \<Rightarrow> string \<Rightarrow> int \<Rightarrow> bytes \<Rightarrow> store_error + 's)) \<Rightarrow> host \<Rightarrow> (string \<Rightarrow> string option) \<Rightarrow> 's data_dir \<Rightarrow>
   's data_dir \<times> (start_error + 's running)" where
  "start E backend H env d =
     (case load_http env of
        Inl e \<Rightarrow> (d, Inl e)
      | Inr (sec, cors) \<Rightarrow>
          (case take_writer_lock H env (d_lease d) of
             Inl e \<Rightarrow> (d, Inl e)
           | Inr (hnd, lease) \<Rightarrow> start_locked E backend H env sec cors hnd (d\<lparr>d_lease := lease\<rparr>)))"

text \<open>The part of the shutdown that concerns the directory: the last callback gives the lease back.\<close>

definition stop_server :: "'s server \<Rightarrow> 's data_dir \<Rightarrow> 's data_dir" where
  "stop_server s d = (case lock s of None \<Rightarrow> d | Some h \<Rightarrow> d\<lparr>d_lease := snd (release h (d_lease d))\<rparr>)"

subsection \<open>What a start does\<close>

lemma run_boot_Inr:
  "run_boot E H hnd d = (d', Inr s) \<longleftrightarrow> boot E (h_ivs H) (h_can_write H) hnd (d_server d) = Inr s \<and> d' = d\<lparr>d_server := s\<rparr>"
  by (auto simp: run_boot_def boot_def blank_server_def bind_r_eq_Inr split: sum.splits)

lemma start_cases [consumes 1, case_names started]:
  assumes "start E backend H env d = (d', Inr r)"
  obtains sec cors hnd lease g key mk p kind s where
    "load_http env = Inr (sec, cors)" "take_writer_lock H env (d_lease d) = Inr (hnd, lease)" "load_guards H env = Inr g"
    "load_master_key (h_spawn H) env (d_key d) True (h_rand H) = (key, Inr mk)" "start_pool H env = Inr p"
    "open_store H env = Inr kind" "r_env r = configured E backend cors g (mk_key mk) kind"
    "boot (r_env r) (h_ivs H) (h_can_write H) hnd (d_server d) = Inr s"
    "d' = \<lparr>d_lease = lease, d_key = key, d_server = s\<rparr>" "r_server r = s"
proof -
  obtain sec cors where 1: "load_http env = Inr (sec, cors)"
    using assms by (auto simp: start_def split: sum.splits)
  obtain hnd lease where 2: "take_writer_lock H env (d_lease d) = Inr (hnd, lease)"
    using assms by (auto simp: start_def 1 split: sum.splits)
  obtain g where 3: "load_guards H env = Inr g"
    using assms by (auto simp: start_def start_locked_def 1 2 split: sum.splits)
  obtain key x where 4: "load_master_key (h_spawn H) env (d_key d) True (h_rand H) = (key, x)" by force
  obtain mk where 5: "x = Inr mk"
    using assms by (cases x) (simp_all add: start_def start_locked_def 1 2 3 4)
  let ?b = "bind_r (start_pool H env) (\<lambda>p. bind_r (open_store H env) (\<lambda>k. Inr (p, k)))"
  obtain p kind where 6: "?b = Inr (p, kind)"
    using assms by (cases ?b) (simp_all add: start_def start_locked_def 1 2 3 4 5, metis surj_pair)
  then have 7: "start_pool H env = Inr p" "open_store H env = Inr kind" by (auto simp: bind_r_eq_Inr)
  let ?E = "configured E backend cors g (mk_key mk) kind" and ?d = "d\<lparr>d_lease := lease, d_key := key\<rparr>"
  obtain d2 y where 8: "run_boot ?E H hnd ?d = (d2, y)" by force
  with assms have y: "d2 = d'" "map_sum id (\<lambda>s. \<lparr>r_env = ?E, r_server = s, r_security = sec, r_guards = g, r_pool = p\<rparr>) y = Inr r"
    by (simp_all add: start_def start_locked_def 1 2 3 4 5 6)
  then obtain s where s: "y = Inr s" "r_env r = ?E" "r_server r = s" by (cases y) auto
  with 8 y(1) have "boot ?E (h_ivs H) (h_can_write H) hnd (d_server d) = Inr s" "d' = ?d\<lparr>d_server := s\<rparr>"
    by (simp_all add: run_boot_Inr)
  moreover have "?d\<lparr>d_server := s\<rparr> = \<lparr>d_lease = lease, d_key = key, d_server = s\<rparr>" by simp
  ultimately show ?thesis using that 1 2 3 4 5 7 s by metis
qed

lemma start_intro:
  assumes "load_http env = Inr (sec, cors)" "take_writer_lock H env (d_lease d) = Inr (hnd, lease)" "load_guards H env = Inr g"
    "load_master_key (h_spawn H) env (d_key d) True (h_rand H) = (key, Inr mk)" "start_pool H env = Inr p"
    "open_store H env = Inr kind" "E1 = configured E backend cors g (mk_key mk) kind"
    "boot E1 (h_ivs H) (h_can_write H) hnd (d_server d) = Inr s"
  shows "start E backend H env d = (\<lparr>d_lease = lease, d_key = key, d_server = s\<rparr>,
    Inr \<lparr>r_env = E1, r_server = s, r_security = sec, r_guards = g, r_pool = p\<rparr>)"
proof -
  have "run_boot E1 H hnd (d\<lparr>d_lease := lease, d_key := key\<rparr>) =
      (d\<lparr>d_lease := lease, d_key := key\<rparr>\<lparr>d_server := s\<rparr>, Inr s)"
    using assms(8) by (simp add: run_boot_Inr)
  then show ?thesis using assms(1-7) by (simp add: start_def start_locked_def)
qed

subsection \<open>Two starts\<close>

text \<open>What must be the same for two processes to load the same configuration: the default directory, the
  language's functions, the command that prints the master key and the database.\<close>

definition same_host :: "host \<Rightarrow> host \<Rightarrow> bool" where
  "same_host H H' \<longleftrightarrow> h_default_dir H' = h_default_dir H \<and> h_json H' = h_json H \<and> h_url H' = h_url H \<and>
     h_spawn H' = h_spawn H \<and> h_connects H' = h_connects H"

lemma data_path_same: "same_host H H' \<Longrightarrow> data_path H' env = data_path H env"
  by (auto simp: data_path_def same_host_def split: option.splits)

lemma guards_same:
  assumes "same_host H H'" "load_guards H env = Inr g"
  shows "\<exists>a f. load_guards H' env = Inr (g\<lparr>g_audit := a, g_falcon := f\<rparr>)"
proof -
  have h: "h_json H' = h_json H" "h_url H' = h_url H" "data_path H' env = data_path H env"
    using assms(1) data_path_same [OF assms(1)] by (simp_all add: same_host_def)
  from assms(2) obtain adm rate claims aud otlp al ml where
    "map_sum StartAdmin id (load_admin_config env) = Inr adm" "map_sum StartRate id (load_rate_limit_config (h_json H) env) = Inr rate"
    "map_sum StartClaims id (load_claims_config env) = Inr claims"
    "map_sum StartAudit id (load_audit_config env (data_path H env)) = Inr aud"
    "map_sum StartOtlp id (load_otlp_config (h_url H) env) = Inr otlp" "map_sum StartCidr id (load_cidr_config env) = Inr (al, ml)"
    "g = \<lparr>g_admin = adm, g_rate = rate, g_claims = claims, g_metrics = load_metrics_config env,
       g_audit = create_auditor aud (h_log_opens H) (h_logs H), g_otlp = otlp,
       g_falcon = probe_falcon_cli (find_qv_cli (h_exists H) (h_on_path H) (env ''QV_CLI_BIN'') (h_repo H)) (h_help H),
       g_admin_list = al, g_metrics_list = ml\<rparr>"
      unfolding load_guards_def bind_r_eq_Inr by (elim exE conjE) (auto split: prod.splits)
  then show ?thesis by (simp add: load_guards_def h)
qed

lemma store_same: "same_host H H' \<Longrightarrow> open_store H' env = open_store H env"
  using data_path_same [of H H' env] by (auto simp: open_store_def same_host_def cong: store_kind.case_cong)

lemma pool_same:
  assumes "start_pool H env = Inr p"
  shows "\<exists>p'. start_pool H' env = Inr p'"
  using assms by (auto simp: start_pool_def bind_r_eq_Inr pool_size_def split: option.splits if_splits)

lemma lock_taken:
  assumes "env ''QV_WRITER_LOCK_DISABLED'' = Some ''true'' \<or> data_path H env \<noteq> []"
    and "\<And>cur. file = Some (Lease cur) \<Longrightarrow> \<not> lease_live (h_kill H) (h_now H) (my_host (h_me H)) cur"
  shows "\<exists>hnd lease. take_writer_lock H env file = Inr (hnd, lease)"
  using assms by (auto simp: take_writer_lock_def acquire_writer_lock_def Let_def split: option.splits lock_text.splits)

lemma lock_needs_path:
  "take_writer_lock H env file = Inr x \<Longrightarrow> env ''QV_WRITER_LOCK_DISABLED'' = Some ''true'' \<or> data_path H env \<noteq> []"
  by (auto simp: take_writer_lock_def split: if_splits)

lemma take_lock_Inr:
  assumes "take_writer_lock H env file = Inr (hnd, lease)" "env ''QV_WRITER_LOCK_DISABLED'' \<noteq> Some ''true''"
  shows "\<exists>n. hnd = Some \<lparr>h_fence = n, h_id = my_id (h_me H), h_released = False\<rparr> \<and>
    lease = Some (write_lease (h_me H) n (h_now H) 30000)"
proof -
  from assms obtain h f where a: "acquire_writer_lock (h_kill H) (h_now H) (h_me H) 30000 True file = Inr (h, f)"
    "hnd = Some h" "lease = Some f"
    by (cases "acquire_writer_lock (h_kill H) (h_now H) (h_me H) 30000 True file") (auto simp: take_writer_lock_def split: if_splits)
  show ?thesis using acquire_Inr [OF a(1)] a(2,3) by metis
qed

lemma boot_lock: "boot E ivs can hnd s = Inr s' \<Longrightarrow> settled E s \<Longrightarrow> file_env E \<Longrightarrow> settled E s' \<and> lock s' = hnd"
  using boot_settled [of E s ivs can hnd] settled_core [of s' "s\<lparr>lock := hnd\<rparr>" E] core_fields(8) [of s' "s\<lparr>lock := hnd\<rparr>"]
  by (auto simp: settled_def keys_saved_def revocations_saved_def chain_logged_def [abs_def])

lemma start_locked_lease: "start_locked E backend H env sec cors hnd d = (d', x) \<Longrightarrow> d_lease d' = d_lease d"
  by (auto simp: start_locked_def run_boot_def Let_def split: sum.splits prod.splits)

lemma boot_keeps_lock:
  assumes "boot E ivs can hnd s = Inr s'"
  shows "lock s' = hnd"
proof -
  have "load_keystore E ivs can t = Inr u \<Longrightarrow> lock u = lock t" for t u
    by (auto simp: load_keystore_def bind_r_eq_Inr save_keystore_def dest: load_entries_same split: doc.splits if_splits)
  moreover have "load_revoked u = Inr v \<Longrightarrow> lock v = lock u" for u v :: "'a server"
    by (auto simp: load_revoked_def split: doc.splits jsval.splits)
  ultimately show ?thesis using assms by (fastforce simp: boot_def bind_r_eq_Inr)
qed

text \<open>A 200 of the issue route means that the log took the record.\<close>

lemma issue_route_appends:
  assumes "issue_route E rq s = (s', Some (Json 200 b))"
  shows "\<exists>k c st t. append_chain E (rq_lease rq) k c st t \<noteq> None \<and> lock t = lock s"
proof -
  obtain k e kvs ttl suite ty where 1: "issue_limited E rq k e kvs ttl suite ty s = (s', Some (Json 200 b))"
    using assms by (auto simp: issue_route_def with_body_def Let_def fail_def check_claims_def split: if_splits option.splits sum.splits)
  obtain l suiteId typeId where 2: "issue_signed E rq k e kvs ttl suite suiteId ty typeId (s\<lparr>lim := l\<rparr>) = (s', Some (Json 200 b))"
    using 1 by (auto simp: issue_limited_def Let_def fail_def split: prod.splits if_splits option.splits)
  then obtain c st c' where "append_chain E (rq_lease rq) k c st (s\<lparr>lim := l, chains := c'\<rparr>) \<noteq> None"
    by (auto simp: issue_signed_def issue_failed_def Let_def split: option.splits sum.splits prod.splits)
  then show ?thesis by fastforce
qed

subsection \<open>Properties\<close>

definition sample_vars :: "string \<Rightarrow> string option" where
  "sample_vars = [''QV_ALLOW_ANON'' \<mapsto> ''true'', ''QV_HSTS_ENABLED'' \<mapsto> ''false'', ''QV_RATE_LIMIT_DISABLED'' \<mapsto> ''true'']"

definition sample_host :: "string \<Rightarrow> int \<Rightarrow> bool \<Rightarrow> host" where
  "sample_host i t alive =
     \<lparr>h_me = sample_me i, h_kill = (\<lambda>_. alive), h_now = t, h_cpus = 4, h_default_dir = ''d'', h_json = (\<lambda>_. None),
      h_url = (\<lambda>_. None), h_spawn = (\<lambda>_. SpawnError), h_rand = replicate 32 0, h_exists = (\<lambda>_. False),
      h_on_path = False, h_repo = ''r'', h_help = (\<lambda>_. (None, [])), h_log_opens = True, h_logs = Map.empty,
      h_worker_starts = (\<lambda>_. True), h_connects = (\<lambda>_. True), h_ivs = (\<lambda>_. replicate 12 0), h_can_write = True\<rparr>"

definition sample_backend ::
  "store_kind \<Rightarrow> (chain_dir \<Rightarrow> string \<Rightarrow> bytes \<Rightarrow> store_error + loaded) \<times>
     (chain_dir \<Rightarrow> string \<Rightarrow> int \<Rightarrow> bytes \<Rightarrow> store_error + chain_dir)" where
  "sample_backend k = (file_load sample_hash, file_append)"

definition sample_rates :: rl_config where
  "sample_rates = \<lparr>disabled = True, rpm = DEFAULTS, issueRpm = 0, perKeyOverrides = Map.empty, maxBodyBytes = 65536,
     maxClaimsBytes = 16384, maxIps = 100000, idleSweepSec = 300\<rparr>"

definition started_env :: "chain_dir server_env" where
  "started_env = (sample_env AnonMode (\<lambda>_. None))\<lparr>cfg_rate := sample_rates\<rparr>"

definition empty_dir :: "chain_dir data_dir" where
  "empty_dir = \<lparr>d_lease = None, d_key = None, d_server = first_start\<rparr>"

lemma sample_loads:
  "\<exists>sec. load_http sample_vars = Inr (sec, \<lparr>cors_mode = CorsOff, allowCreds = False\<rparr>)"
  "load_admin_config sample_vars = Inr AnonMode" "load_rate_limit_config j sample_vars = Inr sample_rates"
  "load_claims_config sample_vars = Inr default_claims_cfg" "\<exists>c. load_audit_config sample_vars p = Inr c"
  "load_otlp_config u sample_vars = Inr None" "load_cidr_config sample_vars = Inr ([], [])"
  "load_metrics_config sample_vars = (True, False)"
proof -
  show "\<exists>sec. load_http sample_vars = Inr (sec, \<lparr>cors_mode = CorsOff, allowCreds = False\<rparr>)"
    by (simp add: load_http_def load_security_config_def load_cors_config_def sample_vars_def first_set_def js_trim_def Let_def)
  show "load_admin_config sample_vars = Inr AnonMode" by (simp add: load_admin_config_def sample_vars_def env_text_def)
  have "(\<lambda>c. case c of Public \<Rightarrow> DEFAULTS Public | Verify \<Rightarrow> DEFAULTS Verify | Admin \<Rightarrow> DEFAULTS Admin
      | AuthFail \<Rightarrow> DEFAULTS AuthFail) = DEFAULTS" by (auto simp: fun_eq_iff split: category.splits)
  then show "load_rate_limit_config j sample_vars = Inr sample_rates"
    by (simp add: load_rate_limit_config_def sample_vars_def env_number_def load_overrides_def sample_rates_def)
  show "load_claims_config sample_vars = Inr default_claims_cfg"
    by (simp add: load_claims_config_def sample_vars_def int_env_def default_claims_cfg_def)
  show "\<exists>c. load_audit_config sample_vars p = Inr c" by (simp add: load_audit_config_def sample_vars_def audit_int_def)
  show "load_otlp_config u sample_vars = Inr None" by (simp add: load_otlp_config_def sample_vars_def)
  show "load_cidr_config sample_vars = Inr ([], [])" by (simp add: load_cidr_config_def sample_vars_def load_cidr_list_def)
  show "load_metrics_config sample_vars = (True, False)" by (simp add: load_metrics_config_def sample_vars_def)
qed

lemma started_sound: "file_env started_env" "settled started_env first_start"
  using sample_file_env settled_first by (simp_all add: started_env_def file_env_def gcm_correct_def)

definition blank :: "chain_dir server \<Rightarrow> bool" where
  "blank s \<longleftrightarrow> keystore s = [] \<and> chains s = Map.empty \<and> lim s = create_limiter \<and> revoked s = []"

lemma sample_start:
  "\<exists>r. start (sample_env AnonMode (\<lambda>_. None)) sample_backend (sample_host i t a) sample_vars empty_dir =
     (\<lparr>d_lease = Some (write_lease (sample_me i) 1 t 30000), d_key = Some (replicate 32 0), d_server = r_server r\<rparr>, Inr r) \<and>
   r_env r = started_env \<and> blank (r_server r)"
proof -
  let ?H = "sample_host i t a" and ?h = "\<lparr>h_fence = 1, h_id = i, h_released = False\<rparr>"
  obtain sec where http: "load_http sample_vars = Inr (sec, \<lparr>cors_mode = CorsOff, allowCreds = False\<rparr>)" using sample_loads(1) by blast
  have lock: "take_writer_lock ?H sample_vars (d_lease empty_dir) = Inr (Some ?h, Some (write_lease (sample_me i) 1 t 30000))"
    by (simp add: take_writer_lock_def sample_vars_def sample_host_def data_path_def empty_dir_def acquire_writer_lock_def sample_me_def)
  obtain c where "load_audit_config sample_vars (data_path ?H sample_vars) = Inr c" using sample_loads(5) by blast
  with sample_loads(2-4,6-8) obtain g where g: "load_guards ?H sample_vars = Inr g" "g_admin g = AnonMode" "g_rate g = sample_rates"
    "g_claims g = default_claims_cfg" "g_metrics g = (True, False)" "g_admin_list g = []"
    by (simp add: load_guards_def)
  have key: "load_master_key (h_spawn ?H) sample_vars (d_key empty_dir) True (h_rand ?H) =
      (Some (replicate 32 0), Inr \<lparr>mk_key = replicate 32 0, mk_source = FileSource, mk_generated = True\<rparr>)"
    by (simp add: load_master_key_def sample_vars_def sample_host_def empty_dir_def env_set_def file_provider_def js_trim_def to_lower_def)
  obtain p where p: "start_pool ?H sample_vars = Inr p" by (simp add: start_pool_def pool_size_def sample_vars_def)
  have k: "open_store ?H sample_vars = Inr FileStore"
    by (simp add: open_store_def create_chain_store_def sample_vars_def or_else_def data_path_def sample_host_def to_lower_def lower_char_def code_def Let_def)
  have e: "started_env = configured (sample_env AnonMode (\<lambda>_. None)) sample_backend \<lparr>cors_mode = CorsOff, allowCreds = False\<rparr> g (replicate 32 0) FileStore"
    by (simp add: configured_def started_env_def sample_env_def sample_backend_def g)
  obtain s where b: "boot started_env (h_ivs ?H) (h_can_write ?H) (Some ?h) (d_server empty_dir) = Inr s" "blank s"
    by (simp add: blank_def boot_def load_keystore_def load_revoked_def empty_dir_def first_start_def)
  show ?thesis
    using start_intro [OF http lock g(1) key p k _ b(1)] e b(2) by fastforce
qed

text \<open>C4: A server that crashed starts again with all it had. Let a server have started on a sound directory and
  answered any run of requests without a 500; whatever the lease of the dead process, if it is
  not live any more (the process is gone or 30 seconds passed), the next start with the same environment
  succeeds, loads the same configuration and the same master key although it may have been generated
  by the first start, and has every key, chain, fingerprint and revocation.\<close>

theorem crashed_server_starts_again:
  assumes "start E backend H env d = (d1, Inr r)" "length (h_rand H) = 32" "file_env (r_env r)" "settled (r_env r) (d_server d)"
    and "sound_run (r_env r) (r_server r) evs" "s = foldl (srv_step (r_env r)) (r_server r) evs"
    and "same_host H H'" "\<And>cur. lease = Some (Lease cur) \<Longrightarrow> \<not> lease_live (h_kill H') (h_now H') (my_host (h_me H')) cur"
  shows "\<exists>d2 r'. start E backend H' env (d1\<lparr>d_lease := lease, d_server := s\<rparr>) = (d2, Inr r') \<and> r_env r' = r_env r \<and>
    keystore (r_server r') = keystore s \<and> chains (r_server r') = chains s \<and> fp_index (r_server r') = fp_index s \<and>
    revoked (r_server r') = revoked s"
  using assms(1)
proof (cases rule: start_cases)
  case (started sec cors hnd lease1 g key mk p kind s0)
  have s: "settled (r_env r) s"
    using boot_lock [OF started(8) assms(4,3)] settled_run [OF assms(3) _ assms(5)] assms(6) started(10) by simp
  obtain hnd' lease' where l: "take_writer_lock H' env lease = Inr (hnd', lease')"
    using lock_taken [OF _ assms(8)] lock_needs_path [OF started(2)] data_path_same [OF assms(7)] by metis
  obtain a f where g: "load_guards H' env = Inr (g\<lparr>g_audit := a, g_falcon := f\<rparr>)" using guards_same [OF assms(7) started(3)] by blast
  have sp: "h_spawn H' = h_spawn H" using assms(7) by (simp add: same_host_def)
  obtain mk' where mk: "load_master_key (h_spawn H') env key True (h_rand H') = (key, Inr mk')" "mk_key mk' = mk_key mk"
    using load_stable [OF started(4) assms(2)] unfolding sp by blast
  obtain p' where p: "start_pool H' env = Inr p'" using pool_same [OF started(5)] by blast
  have k: "open_store H' env = Inr kind" using store_same [OF assms(7)] started(6) by simp
  obtain s' where b: "boot (r_env r) (h_ivs H') (h_can_write H') hnd' s = Inr s'" "core s' = core (s\<lparr>lock := hnd'\<rparr>)"
    using boot_settled [OF assms(3) s] by blast
  have e: "r_env r = configured E backend cors (g\<lparr>g_audit := a, g_falcon := f\<rparr>) (mk_key mk') kind"
    unfolding started(7) by (simp add: configured_def mk(2))
  have "start E backend H' env (d1\<lparr>d_lease := lease, d_server := s\<rparr>) = (\<lparr>d_lease = lease', d_key = key, d_server = s'\<rparr>,
      Inr \<lparr>r_env = r_env r, r_server = s', r_security = sec, r_guards = g\<lparr>g_audit := a, g_falcon := f\<rparr>, r_pool = p'\<rparr>)"
    by (rule start_intro [where hnd = hnd' and mk = mk' and cors = cors and kind = kind])
      (simp_all add: started(1,9) l g mk(1) p k b(1) e [symmetric])
  then show ?thesis using core_fields [OF b(2)] by simp
qed

lemma started_keygen:
  assumes "blank s"
  shows "\<exists>s1 b. dispatch started_env (sample_rq ''POST'' ''/v3/keygen'' []) s =
     (s1, Replied (Json 201 b)) \<and> keystore s1 = [(''k2'', sample_key2)]"
  using assms by (simp add: blank_def dispatch_eval started_env_def sample_rates_def new_skey_def sample_key2_def chain_seed_def slice_def coalesce_def
      keygen_route_def read_body_caught_def read_json_bounded_def with_body_def
      Let_def put_key_def save_keystore_def log_effect_def finish_def nullish_def undef_def jget_def truthy_def)

lemma crashed_server_starts_again_witness:
  "\<exists>d1 r s b d2 r'. start (sample_env AnonMode (\<lambda>_. None)) sample_backend (sample_host ''a'' 0 True) sample_vars empty_dir = (d1, Inr r) \<and>
     dispatch (r_env r) (sample_rq ''POST'' ''/v3/keygen'' []) (r_server r) = (s, Replied (Json 201 b)) \<and>
     start (sample_env AnonMode (\<lambda>_. None)) sample_backend (sample_host ''b'' 60000 True) sample_vars (d1\<lparr>d_server := s\<rparr>) = (d2, Inr r') \<and>
     map fst (keystore (r_server r')) = [''k2'']"
proof -
  let ?E = "sample_env AnonMode (\<lambda>_. None)" and ?H = "sample_host ''a'' 0 True" and ?H' = "sample_host ''b'' 60000 True"
  let ?rq = "sample_rq ''POST'' ''/v3/keygen'' []"
  obtain d1 r where r: "start ?E sample_backend ?H sample_vars empty_dir = (d1, Inr r)" "r_env r = started_env"
    "d_lease d1 = Some (write_lease (sample_me ''a'') 1 0 30000)" "blank (r_server r)"
    using sample_start [of "''a''" 0 True] by auto
  obtain s b where s: "dispatch (r_env r) ?rq (r_server r) = (s, Replied (Json 201 b))" "keystore s = [(''k2'', sample_key2)]"
    using started_keygen [OF r(4)] by (auto simp: r(2))
  have run: "sound_run (r_env r) (r_server r) [EvRequest ?rq]"
    using s(1) r(4) by (simp add: sound_request_def status_of_def blank_def) (simp add: sample_rq_def)
  have "h_spawn ?H = h_spawn ?H'" "same_host ?H ?H'" "length (h_rand ?H) = 32" by (simp_all add: same_host_def sample_host_def)
  moreover have "\<not> lease_live (h_kill ?H') (h_now ?H') (my_host (h_me ?H')) cur" if "d_lease d1 = Some (Lease cur)" for cur
    using that by (auto simp: r(3) write_lease_def lease_live_def sample_host_def)
  moreover have "settled (r_env r) (d_server empty_dir)" "file_env (r_env r)"
    using started_sound by (simp_all add: r(2) empty_dir_def)
  ultimately obtain d2 r' where "start ?E sample_backend ?H' sample_vars (d1\<lparr>d_lease := d_lease d1, d_server := s\<rparr>) = (d2, Inr r')"
    "keystore (r_server r') = keystore s"
    using crashed_server_starts_again [OF r(1) _ _ _ run, of s ?H' "d_lease d1"] s(1) by auto
  moreover have "d1\<lparr>d_lease := d_lease d1, d_server := s\<rparr> = d1\<lparr>d_server := s\<rparr>" by simp
  ultimately show ?thesis using r(1) s by (metis list.simps(8,9) fst_conv)
qed

text \<open>C15: The lease keeps a second server away for 30 seconds, and no longer: within them a start by another process
  of the same machine ends with an exception and changes nothing on disk; but the server never renews its
  lease, so after them another start takes it although the first server is alive, and from then
  on the first server's issue route cannot answer 200 for any key.\<close>

theorem lease_guards_thirty_seconds:
  assumes "start E backend H env d = (d1, Inr r)" "env ''QV_WRITER_LOCK_DISABLED'' \<noteq> Some ''true''"
    and "env' ''QV_WRITER_LOCK_DISABLED'' \<noteq> Some ''true''" "my_id (h_me H') \<noteq> my_id (h_me H)" "d_lease d' = d_lease d1"
    and "start E' backend' H' env' d' = (d2, x)"
  shows "(h_now H' < h_now H + 30000 \<and> my_host (h_me H') = my_host (h_me H) \<and> 0 < my_pid (h_me H) \<and> h_kill H' (my_pid (h_me H)) \<longrightarrow>
      d2 = d' \<and> isl x) \<and>
    (h_now H + 30000 \<le> h_now H' \<and> load_http env' = Inr q \<and> data_path H' env' \<noteq> [] \<and>
      lock s = lock (r_server r) \<and> rq_lease rq = d_lease d2 \<longrightarrow>
      snd (issue_route (r_env r) rq s) \<noteq> Some (Json 200 b))"
proof -
  from assms(1) obtain hnd g mk kind s0 where st: "take_writer_lock H env (d_lease d) = Inr (hnd, d_lease d1)"
    "boot (r_env r) (h_ivs H) (h_can_write H) hnd (d_server d) = Inr s0" "r_server r = s0"
    by (cases rule: start_cases) auto
  obtain n where n: "hnd = Some \<lparr>h_fence = n, h_id = my_id (h_me H), h_released = False\<rparr>"
    "d_lease d1 = Some (write_lease (h_me H) n (h_now H) 30000)"
    using take_lock_Inr [OF st(1) assms(2)] by blast
  show ?thesis
  proof (intro conjI impI)
    assume "h_now H' < h_now H + 30000 \<and> my_host (h_me H') = my_host (h_me H) \<and> 0 < my_pid (h_me H) \<and> h_kill H' (my_pid (h_me H))"
    then have "\<exists>e. take_writer_lock H' env' (d_lease d') = Inl e"
      using assms(3) by (auto simp: take_writer_lock_def acquire_writer_lock_def write_lease_def lease_live_def pid_alive_def assms(5) n(2))
    then have "d2 = d' \<and> (\<exists>e. x = Inl e)" using assms(6) by (auto simp: start_def split: sum.splits)
    then show "d2 = d'" "isl x" by auto
  next
    assume h: "h_now H + 30000 \<le> h_now H' \<and> load_http env' = Inr q \<and> data_path H' env' \<noteq> [] \<and>
      lock s = lock (r_server r) \<and> rq_lease rq = d_lease d2"
    then obtain hnd' lease' where l: "take_writer_lock H' env' (d_lease d') = Inr (hnd', lease')"
      using lock_taken [of env' H' "d_lease d'"] by (auto simp: assms(5) n(2) lease_live_def write_lease_def)
    then obtain n' where n': "lease' = Some (write_lease (h_me H') n' (h_now H') 30000)" using take_lock_Inr assms(3) by blast
    have "d_lease d2 = lease'" using assms(6) h l start_locked_lease by (fastforce simp: start_def split: prod.splits)
    moreover have "lock s = Some \<lparr>h_fence = n, h_id = my_id (h_me H), h_released = False\<rparr>"
      using h boot_keeps_lock [OF st(2)] st(3) n(1) by simp
    ultimately have "append_chain (r_env r) (rq_lease rq) k' c st (t\<lparr>lock := lock s\<rparr>) = None" for k' c st t
      using assms(4) h by (simp add: append_chain_def check_fence_def n' write_lease_def split: option.splits)
    then have "append_chain (r_env r) (rq_lease rq) k' c st t = None" if "lock t = lock s" for k' c st t
      using that by (metis server.surjective server.update_convs(7))
    then show "snd (issue_route (r_env r) rq s) \<noteq> Some (Json 200 b)"
      using issue_route_appends [of "r_env r" rq s "fst (issue_route (r_env r) rq s)" b] by (metis prod.collapse)
  qed
qed

lemma lease_guards_thirty_seconds_witness:
  "\<exists>d r. start (sample_env AnonMode (\<lambda>_. None)) sample_backend (sample_host ''a'' 0 True) sample_vars empty_dir = (d, Inr r) \<and>
     isl (snd (start (sample_env AnonMode (\<lambda>_. None)) sample_backend (sample_host ''b'' 29999 True) sample_vars d)) \<and>
     snd (issue_route (r_env r) (sample_rq ''POST'' ''/v3/token/issue'' []
       \<lparr>rq_lease := d_lease (fst (start (sample_env AnonMode (\<lambda>_. None)) sample_backend (sample_host ''b'' 30000 True) sample_vars d))\<rparr>)
       (r_server r)) \<noteq> Some (Json 200 JNull)"
proof -
  let ?E = "sample_env AnonMode (\<lambda>_. None)" and ?H = "\<lambda>t. sample_host ''b'' t True"
  obtain d r where r: "start ?E sample_backend (sample_host ''a'' 0 True) sample_vars empty_dir = (d, Inr r)"
    using sample_start [of "''a''" 0 True] by blast
  have v: "sample_vars ''QV_WRITER_LOCK_DISABLED'' \<noteq> Some ''true''" "data_path (?H t) sample_vars \<noteq> []"
    "my_id (h_me (?H t)) \<noteq> my_id (h_me (sample_host ''a'' 0 True))" for t
    by (simp_all add: sample_vars_def data_path_def sample_host_def sample_me_def)
  obtain q where q: "load_http sample_vars = Inr q" using sample_loads(1) by blast
  obtain d2 x d3 y where two: "start ?E sample_backend (?H 29999) sample_vars d = (d2, x)"
    "start ?E sample_backend (?H 30000) sample_vars d = (d3, y)" by (meson surj_pair)
  have "isl x"
    using lease_guards_thirty_seconds [where H = "sample_host ''a'' 0 True" and H' = "?H 29999" and d' = d, OF r v(1,1,3) HOL.refl two(1)]
    by (simp add: sample_host_def sample_me_def)
  moreover have "snd (issue_route (r_env r) (sample_rq ''POST'' ''/v3/token/issue'' [] \<lparr>rq_lease := d_lease d3\<rparr>) (r_server r)) \<noteq> Some (Json 200 JNull)"
    using lease_guards_thirty_seconds [where H = "sample_host ''a'' 0 True" and H' = "?H 30000" and d' = d and q = q and s = "r_server r"
      and rq = "sample_rq ''POST'' ''/v3/token/issue'' [] \<lparr>rq_lease := d_lease d3\<rparr>" and b = JNull, OF r v(1,1,3) HOL.refl two(2)]
      q v(2) [of 30000] by (simp add: sample_host_def)
  ultimately show ?thesis using r two by (metis fst_conv snd_conv)
qed

subsection \<open>A start that fails\<close>

text \<open>Revocations, chain logs and an existing master key survive a start that fails; the lease is the old one or that
  of the process that just died.\<close>

theorem failed_start_keeps_the_data:
  assumes "start E backend H env d = (d', Inl x)"
  shows "disk_rev (d_server d') = disk_rev (d_server d) \<and> store (d_server d') = store (d_server d) \<and>
    (\<forall>k. d_key d = Some k \<longrightarrow> d_key d' = Some k) \<and>
    (d_lease d' = d_lease d \<or> (\<exists>n. d_lease d' = Some (write_lease (h_me H) n (h_now H) 30000)))"
proof -
  have key: "fst (load_master_key (h_spawn H) env (Some k) True (h_rand H)) = Some k" for k
    by (simp add: load_master_key_def file_provider_def Let_def)
  have locked: "disk_rev (d_server d2) = disk_rev (d_server d1) \<and> store (d_server d2) = store (d_server d1) \<and>
      d_lease d2 = d_lease d1 \<and> (\<forall>k. d_key d1 = Some k \<longrightarrow> d_key d2 = Some k)"
    if "start_locked E backend H env sec cors hnd d1 = (d2, Inl x)" for sec cors hnd d1 d2
    using that key by (auto simp: start_locked_def run_boot_def Let_def split: sum.splits prod.splits) (metis fst_conv)+
  show ?thesis
  proof (cases "load_http env")
    case (Inr q)
    then obtain sec cors where q: "load_http env = Inr (sec, cors)" by (cases q) simp
    show ?thesis
    proof (cases "take_writer_lock H env (d_lease d)")
      case (Inr l)
      then obtain hnd lease where l: "take_writer_lock H env (d_lease d) = Inr (hnd, lease)" by (cases l) simp
      have "lease = d_lease d \<or> (\<exists>n. lease = Some (write_lease (h_me H) n (h_now H) 30000))"
        using take_lock_Inr [OF l] l by (cases "env ''QV_WRITER_LOCK_DISABLED'' = Some ''true''") (auto simp: take_writer_lock_def)
      moreover have "start_locked E backend H env sec cors hnd (d\<lparr>d_lease := lease\<rparr>) = (d', Inl x)"
        using assms by (simp add: start_def q l)
      ultimately show ?thesis using locked by fastforce
    qed (use assms in \<open>simp add: start_def q\<close>)
  qed (use assms in \<open>simp add: start_def\<close>)
qed

end
