(* ===== verification/Pg_Store.thy ===== *)
theory Pg_Store
  imports Pg_Client Server
begin

section \<open>The Postgres store over the client\<close>

text \<open>
  The outside of \<open>qv-server/chain-store-postgres.mjs\<close>: the URL of the database, the name of the table and
  the statements made of it, the connection with the schema request, and the three operations of the store
  as exchanges of the client of \<open>Pg_Client\<close>. \<open>Chain_Store\<close> treats the two statements as functions of a
  database; here they are what the client sends and what it makes of the bytes that come back. The
  \<open>URL\<close> class is an argument; its parts are Latin-1 text.
\<close>

subsection \<open>The URL\<close>

record url_parts =
  u_protocol :: string
  u_hostname :: string
  u_port :: string
  u_username :: string
  u_password :: string
  u_pathname :: string
  u_app :: "string option"

datatype open_error = UrlRequired | UrlInvalid | UrlProtocol string | UrlEncoding | TableInvalid | OpenFailed pg_failure

record pg_options =
  po_host :: string
  po_port :: "rat option option"
  po_user :: jsstr
  po_password :: jsstr
  po_database :: jsstr
  po_app :: jsstr

definition text_or :: "string \<Rightarrow> string \<Rightarrow> string" where
  "text_or s d = (if s = [] then d else s)"

definition decode_component :: "string \<Rightarrow> open_error + jsstr" where
  "decode_component s = (case decode_uri s of Some (JStr t) \<Rightarrow> Inr t | _ \<Rightarrow> Inl UrlEncoding)"

definition parse_pg_url :: "(string \<Rightarrow> url_parts option) \<Rightarrow> string \<Rightarrow> open_error + pg_options" where
  "parse_pg_url parse url =
     (if url = [] then Inl UrlRequired
      else case parse url of
        None \<Rightarrow> Inl UrlInvalid
      | Some u \<Rightarrow>
          if u_protocol u \<noteq> ''postgres:'' \<and> u_protocol u \<noteq> ''postgresql:'' then Inl (UrlProtocol (u_protocol u))
          else bind_r (decode_component (text_or (u_username u) ''postgres'')) (\<lambda>user.
               bind_r (decode_component (u_password u)) (\<lambda>password.
               bind_r (let path = drop 1 (text_or (u_pathname u) ''/'') in
                       if path \<noteq> [] then Inr (js path)
                       else bind_r (decode_component (u_username u)) (\<lambda>n. Inr (if n = [] then js ''postgres'' else n))) (\<lambda>database.
                 Inr \<lparr>po_host = u_hostname u, po_port = js_number (text_or (u_port u) ''5432''), po_user = user,
                      po_password = password, po_database = database,
                      po_app = js (case u_app u of None \<Rightarrow> ''sigvault-server'' | Some a \<Rightarrow> text_or a ''sigvault-server'')\<rparr>))))"

subsection \<open>The statements\<close>

definition word_char :: "char \<Rightarrow> bool" where
  "word_char c \<longleftrightarrow> (let n = code c in (48 \<le> n \<and> n \<le> 57) \<or> (65 \<le> n \<and> n \<le> 90) \<or> (97 \<le> n \<and> n \<le> 122) \<or> n = 95)"

definition table_name :: "string option \<Rightarrow> open_error + string" where
  "table_name opt =
     (let t = filter word_char (the (or_else opt (Some ''sigvault_chain''))) in
      if t = [] then Inl TableInvalid else Inr t)"

definition schema_sql :: "string \<Rightarrow> string" where
  "schema_sql table =
     concat (map (\<lambda>l. char_of (10 :: nat) # l)
       [''CREATE TABLE IF NOT EXISTS '' @ table @ '' ('',
        ''  key_id     text   NOT NULL,'',
        ''  counter    bigint NOT NULL,'',
        ''  state_hash bytea  NOT NULL,'',
        ''  PRIMARY KEY (key_id, counter)'',
        '');'',
        ''SET bytea_output = '' @ [CHR 39] @ ''hex'' @ [CHR 39] @ '';'', []])"

definition select_sql :: "string \<Rightarrow> string" where
  "select_sql table = ''SELECT counter, state_hash FROM '' @ table @ '' WHERE key_id = $1 ORDER BY counter ASC''"

definition insert_sql :: "string \<Rightarrow> string" where
  "insert_sql table = ''INSERT INTO '' @ table @ '' (key_id, counter, state_hash) VALUES ($1, $2, $3)''"

definition has_sql :: "string \<Rightarrow> string" where
  "has_sql table = ''SELECT 1 FROM '' @ table @ '' WHERE key_id = $1 LIMIT 1''"

subsection \<open>Opening\<close>

text \<open>\<open>createPostgresChainStore\<close> up to the schema request: the URL, the name, the connection (\<open>E\<close> with the
  options of the URL), the start-up over the bytes of the server, then the request.\<close>

definition with_options :: "pg_env \<Rightarrow> pg_options \<Rightarrow> pg_env" where
  "with_options E p = E\<lparr>pe_user := po_user p, pe_password := po_password p, pe_database := po_database p, pe_app := po_app p\<rparr>"

definition plan_store :: "(string \<Rightarrow> url_parts option) \<Rightarrow> string \<Rightarrow> string option \<Rightarrow> open_error + pg_options \<times> string" where
  "plan_store parse url table =
     bind_r (parse_pg_url parse url) (\<lambda>p. bind_r (table_name table) (\<lambda>t. Inr (p, t)))"

definition dial :: "pg_env \<Rightarrow> pg_options \<Rightarrow> connect_event \<Rightarrow> open_error + pg_client" where
  "dial E p ev = (case pg_connect (with_options E p) ev of Inl f \<Rightarrow> Inl (OpenFailed f) | Inr c \<Rightarrow> Inr c)"

definition ensure_schema :: "string \<Rightarrow> pg_client \<Rightarrow> pg_client" where
  "ensure_schema table c = pg_query (js (schema_sql table)) c"

subsection \<open>The operations\<close>

text \<open>One request and the bytes that come back: the client afterwards and how the promise of the request
  settled. \<open>None\<close>: the parser never returns, or the promise is still pending.\<close>

definition exchange ::
  "pg_env \<Rightarrow> pg_client \<Rightarrow> string \<Rightarrow> pg_param list \<Rightarrow> bytes list \<Rightarrow> (pg_client \<times> pg_outcome) option" where
  "exchange E c sql params pieces =
     (case feed E (pg_exec (js sql) params c) pieces of
        None \<Rightarrow> None
      | Some c' \<Rightarrow> map_option (\<lambda>out. (c', out)) (map_of (pc_settled c') (pc_next c)))"

text \<open>\<open>e.pgCode\<close> of a rejection; a failure of the client has none.\<close>

definition error_of :: "pg_failure \<Rightarrow> pg_error" where
  "error_of f = (case f of ServerError o' \<Rightarrow> PgError (of_js (f_code o')) (of_js (f_message o')) | _ \<Rightarrow> PgError [] [])"

definition row_pair :: "jsstr option list \<Rightarrow> (string \<times> string) option" where
  "row_pair r = (case r of Some a # Some b # _ \<Rightarrow> Some (of_js a, of_js b) | _ \<Rightarrow> None)"

text \<open>The loop of \<open>load\<close>. A NULL or a missing column throws when its row is reached.\<close>

definition load_rows :: "(bytes \<Rightarrow> bytes) \<Rightarrow> bytes \<Rightarrow> jsstr option list list \<Rightarrow> store_error + loaded" where
  "load_rows h seed rs =
     (let good = takeWhile (\<lambda>r. row_pair r \<noteq> None) rs in
      bind_r (pg_loop h seed 1 (map (\<lambda>r. the (row_pair r)) good)) (\<lambda>st.
        if length good < length rs then Inl SSyntax
        else Inr \<lparr>l_counter = length rs, l_state = st, l_records = length rs\<rparr>))"

definition store_load ::
  "pg_env \<Rightarrow> (bytes \<Rightarrow> bytes) \<Rightarrow> string \<Rightarrow> pg_client \<Rightarrow> string \<Rightarrow> bytes \<Rightarrow> bytes list \<Rightarrow> (pg_client \<times> (store_error + loaded)) option" where
  "store_load E h table c key seed pieces =
     map_option (\<lambda>(c', out). (c', case out of
         Rejected f \<Rightarrow> Inl (SPg (error_of f))
       | Resolved None \<Rightarrow> Inl SSyntax
       | Resolved (Some r) \<Rightarrow> load_rows h seed (r_rows r)))
       (exchange E c (select_sql table) [PText key] pieces)"

definition store_append ::
  "pg_env \<Rightarrow> string \<Rightarrow> pg_client \<Rightarrow> string \<Rightarrow> int \<Rightarrow> bytes \<Rightarrow> bytes list \<Rightarrow> (pg_client \<times> (store_error + unit)) option" where
  "store_append E table c key counter state_hash pieces =
     map_option (\<lambda>(c', out). (c', case out of
         Rejected f \<Rightarrow> if pg_code (error_of f) = ''23505'' then Inl (SConflict key counter) else Inl (SPg (error_of f))
       | Resolved _ \<Rightarrow> Inr ()))
       (exchange E c (insert_sql table) [PText key, PBig counter, PBuf state_hash] pieces)"

definition store_has ::
  "pg_env \<Rightarrow> string \<Rightarrow> pg_client \<Rightarrow> string \<Rightarrow> bytes list \<Rightarrow> (pg_client \<times> (store_error + bool)) option" where
  "store_has E table c key pieces =
     map_option (\<lambda>(c', out). (c', case out of
         Rejected f \<Rightarrow> Inl (SPg (error_of f))
       | Resolved None \<Rightarrow> Inl SSyntax
       | Resolved (Some r) \<Rightarrow> Inr (r_rows r \<noteq> [])))
       (exchange E c (has_sql table) [PText key] pieces)"

definition store_close :: "pg_client \<Rightarrow> pg_client" where
  "store_close c = pg_end c"

subsection \<open>Exchanges\<close>

text \<open>A client between two requests.\<close>

definition idle :: "pg_client \<Rightarrow> bool" where
  "idle c \<longleftrightarrow> pc_queue c = [] \<and> pc_buf c = [] \<and> \<not> pc_closed c \<and> pc_fatal c = None \<and> (\<forall>i \<in> fst ` set (pc_settled c). i < pc_next c)"

lemma map_of_new: "\<forall>i \<in> fst ` set xs. i < n \<Longrightarrow> map_of (xs @ [(n, v)]) n = Some v" for n :: nat
  by (induction xs) auto

lemma exchange_reply:
  assumes "idle c" "good_reply y" "length params < 2 ^ 16" "concat pieces = wire [y]"
  shows "\<exists>c'. exchange E c sql params pieces = Some (c', reply_outcome y) \<and> idle c' \<and>
    pc_sent c' = pc_sent c @ [parse_message (js sql), bind_message params, execute_message, sync_message]"
proof -
  let ?i = "pc_next c" and ?c = "pg_exec (js sql) params c"
  let ?c' = "pg_settle ?i (reply_outcome y) (?c\<lparr>pc_tx := unat (y_tx y), pc_queue := []\<rparr>)"
  have c: "pc_queue ?c = [(?i, Collecting empty_result None)]" "pc_buf ?c = []" "\<not> pc_closed ?c" "pc_fatal ?c = None"
    "pc_next ?c = Suc ?i" "pc_settled ?c = pc_settled c"
    "pc_sent ?c = pc_sent c @ [parse_message (js sql), bind_message params, execute_message, sync_message]"
    using assms(1,3) by (simp_all add: pg_exec_def idle_def pg_enqueue_def pg_write_def Let_def)
  have "pg_messages E ?c (received (reply_messages y)) = Some ?c'" by (rule one_reply [OF assms(2) c(1)])
  then have "feed E ?c pieces = Some (?c'\<lparr>pc_buf := []\<rparr>)"
    using feed_messages [of ?c E pieces] wire_frames [of "[y]"] assms(2,4) c(2) by (simp add: frames_short)
  moreover have "pc_buf ?c' = []" using c(2) by (simp add: pg_settle_def)
  ultimately have "feed E ?c pieces = Some ?c'" by simp
  moreover have "map_of (pc_settled ?c') ?i = Some (reply_outcome y)"
    using assms(1) map_of_new [of "pc_settled c" ?i] c(6) by (simp add: pg_settle_def idle_def)
  moreover have "idle ?c'" using assms(1) c by (auto simp: idle_def pg_settle_def)
  ultimately show ?thesis using c(7) by (simp add: exchange_def pg_settle_def)
qed

definition wire_row :: "nat \<times> bytes \<Rightarrow> jsstr option list" where
  "wire_row r = [Some (js (fst (row_text r))), Some (js (snd (row_text r)))]"

lemma load_rows_wire: "load_rows h seed (map wire_row rs) = Inr l \<longleftrightarrow> verify_records h seed rs = Inr l"
proof -
  have p: "row_pair (wire_row r) = Some (row_text r)" for r by (cases "row_text r") (simp add: row_pair_def wire_row_def)
  then have "takeWhile (\<lambda>r. row_pair r \<noteq> None) (map wire_row rs) = map wire_row rs" by (intro takeWhile_eq_all_conv [THEN iffD2]) auto
  moreover have "map (\<lambda>r. the (row_pair r)) (map wire_row rs) = map row_text rs" by (simp add: p)
  ultimately have "load_rows h seed (map wire_row rs) =
      bind_r (pg_loop h seed 1 (map row_text rs)) (\<lambda>st. Inr \<lparr>l_counter = length rs, l_state = st, l_records = length rs\<rparr>)"
    by (simp only: load_rows_def Let_def length_map less_irrefl if_False)
  then show ?thesis using pg_loop_rows [of h seed 1 rs _ 0] by (auto simp: verify_records_def bind_r_eq_Inr)
qed

definition pg_reply_code :: "(nat \<times> jsstr) list \<Rightarrow> string" where
  "pg_reply_code fs = of_js (f_code (foldl (\<lambda>o' (t, v). put_field t v o') no_fields fs))"

subsection \<open>Properties\<close>

text \<open>C23: The Postgres store over the wire: on an idle connection and a reply of the server, in whatever pieces it arrives,
  a load of rows of the table returns exactly what the linkage check of the chain log makes of them, an append is
  reported as done when the server completed the statement and as a conflict when it answered with
  \<open>unique_violation\<close>, exactly the parameters were sent, and the connection is idle again.\<close>

theorem pg_store_over_the_wire:
  assumes "idle c" "good_reply y" "concat pieces = wire [y]"
  shows "(\<forall>cmd rs. y_end y = Inl cmd \<and> y_rows y = map wire_row rs \<longrightarrow>
      (\<exists>c' r. store_load E h table c key seed pieces = Some (c', r) \<and> idle c' \<and>
        pc_sent c' = pc_sent c @ [parse_message (js (select_sql table)), bind_message [PText key], execute_message, sync_message] \<and>
        (\<forall>l. r = Inr l \<longleftrightarrow> verify_records h seed rs = Inr l))) \<and>
    (\<exists>c' r. store_append E table c key n st pieces = Some (c', r) \<and> idle c' \<and>
      pc_sent c' = pc_sent c @ [parse_message (js (insert_sql table)), bind_message [PText key, PBig n, PBuf st], execute_message, sync_message] \<and>
      (r = Inr () \<longleftrightarrow> isl (y_end y)) \<and>
      (r = Inl (SConflict key n) \<longleftrightarrow> (\<exists>fs. y_end y = Inr fs \<and> pg_reply_code fs = ''23505'')))"
proof (intro conjI allI impI)
  fix cmd rs
  assume y: "y_end y = Inl cmd \<and> y_rows y = map wire_row rs"
  obtain c' where c': "exchange E c (select_sql table) [PText key] pieces = Some (c', reply_outcome y)" "idle c'"
    "pc_sent c' = pc_sent c @ [parse_message (js (select_sql table)), bind_message [PText key], execute_message, sync_message]"
    using exchange_reply [OF assms(1,2) _ assms(3), of "[PText key]"] by fastforce
  have "store_load E h table c key seed pieces = Some (c', load_rows h seed (map wire_row rs))"
    using y by (simp add: store_load_def c'(1) reply_outcome_def)
  then show "\<exists>c' r. store_load E h table c key seed pieces = Some (c', r) \<and> idle c' \<and>
      pc_sent c' = pc_sent c @ [parse_message (js (select_sql table)), bind_message [PText key], execute_message, sync_message] \<and>
      (\<forall>l. r = Inr l \<longleftrightarrow> verify_records h seed rs = Inr l)"
    using c'(2,3) load_rows_wire by blast
next
  obtain c' where c': "exchange E c (insert_sql table) [PText key, PBig n, PBuf st] pieces = Some (c', reply_outcome y)" "idle c'"
    "pc_sent c' = pc_sent c @ [parse_message (js (insert_sql table)), bind_message [PText key, PBig n, PBuf st], execute_message, sync_message]"
    using exchange_reply [OF assms(1,2) _ assms(3), of "[PText key, PBig n, PBuf st]"] by fastforce
  then show "\<exists>c' r. store_append E table c key n st pieces = Some (c', r) \<and> idle c' \<and>
      pc_sent c' = pc_sent c @ [parse_message (js (insert_sql table)), bind_message [PText key, PBig n, PBuf st], execute_message, sync_message] \<and>
      (r = Inr () \<longleftrightarrow> isl (y_end y)) \<and> (r = Inl (SConflict key n) \<longleftrightarrow> (\<exists>fs. y_end y = Inr fs \<and> pg_reply_code fs = ''23505''))"
    by (cases "y_end y") (auto simp: store_append_def reply_outcome_def error_of_def pg_reply_code_def)
qed

definition idle_client :: pg_client where
  "idle_client = two_queries\<lparr>pc_queue := []\<rparr>"

definition one_row :: pg_reply where
  "one_row = \<lparr>y_acks = ''12'', y_columns = None, y_rows = map wire_row [(1, replicate 32 7)], y_end = Inl (js ''SELECT 1''), y_tx = 73\<rparr>"

lemma one_row_good: "good_reply one_row"
proof -
  let ?a = "js (fst (row_text (1, replicate 32 7)))" and ?b = "js (snd (row_text (1, replicate 32 7)))"
  have "length (int_text 1) = 1" by code_simp
  then have l: "length ?a = 1" "length ?b = 66" by (simp_all add: row_text_def js_def)
  then have b: "length (utf8_encode ?a) < 100" "length (utf8_encode ?b) < 2000"
    using length_utf8_encode [of ?a] length_utf8_encode [of ?b] by simp_all
  have c: "length (utf8_encode (js ''SELECT 1'')) < 100" using length_utf8_encode [of "js ''SELECT 1''"] by (simp add: js_def)
  show ?thesis
    using b c sample_texts(3) well_formed_js
    by (auto simp: good_reply_def one_row_def reply_messages_def data_row_def wire_row_def field_bytes_simps cstr_encode)
qed

lemma pg_store_over_the_wire_witness:
  "\<exists>c1 c2. store_load sample_pg (\<lambda>_. replicate 32 7) ''t'' idle_client ''k'' (replicate 32 3) (chunks 5 (wire [one_row])) =
       Some (c1, Inr \<lparr>l_counter = 1, l_state = replicate 32 7, l_records = 1\<rparr>) \<and> idle c1 \<and>
     store_append sample_pg ''t'' idle_client ''k'' 1 (replicate 32 7) [wire [sample_error]] = Some (c2, Inl (SConflict ''k'' 1)) \<and> idle c2"
proof -
  have i: "idle idle_client" by (simp add: idle_def idle_client_def two_queries_def)
  have v: "verify_records (\<lambda>_. replicate 32 7) (replicate 32 3) [(1, replicate 32 7)] = Inr \<lparr>l_counter = 1, l_state = replicate 32 7, l_records = 1\<rparr>"
    by (simp add: verify_records_def derive_next_def Let_def)
  have y: "y_end one_row = Inl (js ''SELECT 1'') \<and> y_rows one_row = map wire_row [(1, replicate 32 7)]"
    by (simp add: one_row_def)
  have "concat (chunks 5 (wire [one_row])) = wire [one_row]" by (rule concat_chunks) simp
  from pg_store_over_the_wire [where E = sample_pg and h = "\<lambda>_. replicate 32 7" and table = "''t''" and key = "''k''" and seed = "replicate 32 3",
      OF i one_row_good this, THEN conjunct1, rule_format, OF y]
  obtain c1 r where "store_load sample_pg (\<lambda>_. replicate 32 7) ''t'' idle_client ''k'' (replicate 32 3) (chunks 5 (wire [one_row])) = Some (c1, r)"
    "idle c1" "\<forall>l. r = Inr l \<longleftrightarrow> verify_records (\<lambda>_. replicate 32 7) (replicate 32 3) [(1, replicate 32 7)] = Inr l" by blast
  then have "\<exists>c1. store_load sample_pg (\<lambda>_. replicate 32 7) ''t'' idle_client ''k'' (replicate 32 3) (chunks 5 (wire [one_row])) =
       Some (c1, Inr \<lparr>l_counter = 1, l_state = replicate 32 7, l_records = 1\<rparr>) \<and> idle c1"
    using v by auto
  moreover have "\<exists>c2. store_append sample_pg ''t'' idle_client ''k'' 1 (replicate 32 7) [wire [sample_error]] = Some (c2, Inl (SConflict ''k'' 1)) \<and> idle c2"
  proof -
    have "\<exists>fs. y_end sample_error = Inr fs \<and> pg_reply_code fs = ''23505''"
      by (simp add: sample_error_def pg_reply_code_def put_field_def no_fields_def)
    then show ?thesis
      using pg_store_over_the_wire [OF i sample_replies(3), of "[wire [sample_error]]" sample_pg "\<lambda>_. []" "''t''" "''k''" "[]" 1 "replicate 32 7"]
      by auto
  qed
  ultimately show ?thesis by blast
qed

text \<open>A table name goes into the statements as letters, digits and underscores only, and an open store has a name.\<close>

theorem table_name_is_a_word:
  "table_name opt = Inr t \<Longrightarrow> t \<noteq> [] \<and> (\<forall>c \<in> set t. word_char c)"
  by (auto simp: table_name_def Let_def split: if_splits)

end
