(* ===== verification/Concurrent_Issue.thy ===== *)
theory Concurrent_Issue
  imports Server_Tokens
begin

section \<open>Overlapping issue requests\<close>

text \<open>
  The handler of \<open>POST /v3/token/issue\<close> waits once between its parts: for \<open>appendChain\<close>, which with the
  Postgres store takes a round trip. Here the handler is the two parts around that \<open>await\<close>, so that other
  issue requests run between them: \<open>issue_begin\<close> advances the chain, makes the token and sends the record,
  \<open>issue_end\<close> takes the store's answer and replies. The records of all requests travel over one
  connection and are answered in the order they were sent. The lemmas say that the two parts in a row are the
  route of \<open>Server_Routes\<close>, that overlapping requests leave the log a chain, and what the reply then
  says of the counter.
\<close>

subsection \<open>The two parts\<close>

record issue_job =
  ij_key :: string
  ij_entry :: skey
  ij_claims :: "(jsstr \<times> jsval) list"
  ij_ttl :: jsval
  ij_suite :: jsval
  ij_suite_id :: int
  ij_type :: jsval
  ij_type_id :: int

text \<open>Everything before the \<open>try\<close>: an early reply, or what to issue.\<close>

definition prepare_limited ::
  "'s server_env \<Rightarrow> request \<Rightarrow> string \<Rightarrow> skey \<Rightarrow> (jsstr \<times> jsval) list \<Rightarrow> jsval \<Rightarrow> jsval \<Rightarrow> jsval \<Rightarrow>
   's server \<Rightarrow> 's server \<times> (reply option + issue_job)" where
  "prepare_limited E rq k e kvs ttl suite tokenType s =
     (case check_key (cfg_rate E) (lim s) k ''issue'' (rq_now rq) of
        (l, v) \<Rightarrow>
          let s1 = s\<lparr>lim := l\<rparr> in
          if \<not> allowed v then
            (log_effect (Audit ''ratelimit.deny'' ''warn'' [(''requestId'', str (rq_id rq)), (''ip'', str (client_ip rq)),
               (''keyId'', str k), (''category'', str ''per_key''), (''limit'', num (int (limit v))),
               (''retryAfter'', case resetSec v of Some n \<Rightarrow> num n | None \<Rightarrow> JNum NonFinite), (''reason'', str (reason v))])
              (log_effect (Inc ''qv_rate_limit_denies_total'' [(''category'', str ''per_key'')]) s1),
             Inl (fail 429 ''RATE_LIMITED_PER_KEY''))
          else
            (case suite_id E suite of
               None \<Rightarrow> (s1, Inl (fail 400 ''INVALID_SUITE''))
             | Some suiteId \<Rightarrow>
                 (case type_id E tokenType of
                    None \<Rightarrow> (s1, Inl (fail 400 ''INVALID_TYPE''))
                  | Some typeId \<Rightarrow>
                      (s1, Inr \<lparr>ij_key = k, ij_entry = e, ij_claims = kvs, ij_ttl = ttl, ij_suite = suite,
                        ij_suite_id = suiteId, ij_type = tokenType, ij_type_id = typeId\<rparr>))))"

definition issue_prepare :: "'s server_env \<Rightarrow> request \<Rightarrow> 's server \<Rightarrow> 's server \<times> (reply option + issue_job)" where
  "issue_prepare E rq s =
     (let body = read_body_caught E rq; keyId = jget body ''keyId''; claims = jget body ''claims'' in
      if nullish body then (s, Inl None)
      else if truthy (jget body ''_err'') then
        (let n = to_uint32 (jget body ''_status'') in
         (s, Inl (if 100 \<le> n \<and> n \<le> 999 then Some (Fail n (jget body ''_err'')) else None)))
      else if \<not> truthy keyId then (s, Inl (fail 400 ''MISSING_KEY_ID''))
      else if \<not> truthy claims then (s, Inl (fail 400 ''MISSING_CLAIMS''))
      else (case check_claims E claims of
              Inl r \<Rightarrow> (s, Inl r)
            | Inr kvs \<Rightarrow>
                if set_has (revoked s) keyId then (s, Inl (fail 410 ''KEY_REVOKED''))
                else (case ks_find (keystore s) keyId of
                        None \<Rightarrow> (s, Inl (fail 404 ''KEY_NOT_FOUND''))
                      | Some (k, e) \<Rightarrow>
                          prepare_limited E rq k e kvs (or_default (jget body ''ttl'') (num 3600))
                            (or_default (jget body ''suite'') (str ''dilithium5''))
                            (or_default (jget body ''tokenType'') (str ''access'')) s)))"

text \<open>A request that waits for the store: its token and the record it sent.\<close>

record flight =
  fl_rq :: request
  fl_job :: issue_job
  fl_token :: bytes
  fl_hex :: string
  fl_counter :: int
  fl_state :: bytes

definition job_failed :: "request \<Rightarrow> issue_job \<Rightarrow> sdk_error option \<Rightarrow> 's server \<Rightarrow> 's server \<times> reply option" where
  "job_failed rq j x s = issue_failed rq (ij_key j) (ij_suite j) (ij_type j) x s"

text \<open>The \<open>try\<close> block up to the \<open>await\<close>: the token, the fence, the record on its way.\<close>

definition issue_launch :: "'s server_env \<Rightarrow> request \<Rightarrow> issue_job \<Rightarrow> 's server \<Rightarrow> 's server \<times> (reply option + flight)" where
  "issue_launch E rq j s =
     (case chains s (ij_key j) of
        None \<Rightarrow> apsnd Inl (job_failed rq j (Some TypeErr) s)
      | Some c \<Rightarrow>
          (case issue_token (cfg_prims E) (rq_now rq) (rq_nonce rq)
                  (issue_prm (ij_entry j) (ij_claims j) (ij_ttl j) (ij_suite_id j) (ij_type_id j)) c of
             (c', r) \<Rightarrow>
               let s1 = s\<lparr>chains := (chains s)(ij_key j \<mapsto> c')\<rparr> in
               (case r of
                  Inl x \<Rightarrow> apsnd Inl (job_failed rq j (Some x) s1)
                | Inr (tok, hex) \<Rightarrow>
                    (case (case lock s1 of None \<Rightarrow> Inr 0 | Some h \<Rightarrow> check_fence h (rq_lease rq)) of
                       Inl _ \<Rightarrow> apsnd Inl (job_failed rq j None s1)
                     | Inr _ \<Rightarrow> (s1, Inr \<lparr>fl_rq = rq, fl_job = j, fl_token = tok, fl_hex = hex,
                                          fl_counter = c_counter c', fl_state = c_state c'\<rparr>)))))"

definition issue_begin :: "'s server_env \<Rightarrow> request \<Rightarrow> 's server \<Rightarrow> 's server \<times> (reply option + flight)" where
  "issue_begin E rq s =
     (case issue_prepare E rq s of
        (s1, Inl r) \<Rightarrow> (s1, Inl r)
      | (s1, Inr j) \<Rightarrow> issue_launch E rq j s1)"

text \<open>After the \<open>await\<close>. \<open>chain\<close> is the live object, so the counter of the reply is the one it has by then.\<close>

definition issue_done :: "'s server_env \<Rightarrow> flight \<Rightarrow> 's server \<Rightarrow> 's server \<times> reply option" where
  "issue_done E f s =
     (let rq = fl_rq f; j = fl_job f;
          ctr = num (case chains s (ij_key j) of Some c \<Rightarrow> c_counter c | None \<Rightarrow> fl_counter f) in
      (log_effect (Inc ''qv_token_issue_total'' [(''suite'', ij_suite j), (''tokenType'', ij_type j), (''result'', str ''ok'')])
         (log_effect (Audit ''token.issue'' ''info'' (issue_fields rq (ij_key j) (ij_suite j) (ij_type j) @
            [(''ttlSecs'', ij_ttl j), (''sizeBytes'', num (int (length (fl_token f)))), (''mutationCtr'', ctr)])) s),
       Some (Json 200 (obj [(''tokenHex'', str (fl_hex f)), (''tokenB64'', str (base64url_encode (fl_token f))),
         (''sizeBytes'', num (int (length (fl_token f)))), (''issuedAt'', str (cfg_iso E (rq_now rq))),
         (''ttlSecs'', ij_ttl j), (''mutationCtr'', ctr), (''suite'', ij_suite j), (''tokenType'', ij_type j)]))))"

text \<open>The store's answer to the oldest record: what the store does with it, or an error (of the server: the record is not
  stored; of the connection: it may have arrived or not).\<close>

datatype store_answer = Answered | Failed bool

definition issue_end :: "'s server_env \<Rightarrow> store_answer \<Rightarrow> flight \<Rightarrow> 's server \<Rightarrow> 's server \<times> reply option" where
  "issue_end E a f s =
     (let r = cfg_append E (store s) (ij_key (fl_job f)) (fl_counter f) (fl_state f) in
      case a of
        Answered \<Rightarrow>
          (case r of Inl _ \<Rightarrow> job_failed (fl_rq f) (fl_job f) None s
           | Inr d \<Rightarrow> issue_done E f (s\<lparr>store := d\<rparr>))
      | Failed arrived \<Rightarrow>
          job_failed (fl_rq f) (fl_job f) None (case r of Inr d \<Rightarrow> if arrived then s\<lparr>store := d\<rparr> else s | Inl _ \<Rightarrow> s))"

subsection \<open>Requests in a row\<close>

lemma prepare_limited_route:
  "issue_limited E rq k e kvs ttl suite ty s = (case prepare_limited E rq k e kvs ttl suite ty s of
     (s1, Inl r) \<Rightarrow> (s1, r)
   | (s1, Inr j) \<Rightarrow> issue_signed E rq (ij_key j) (ij_entry j) (ij_claims j) (ij_ttl j) (ij_suite j) (ij_suite_id j)
       (ij_type j) (ij_type_id j) s1)"
  by (simp add: issue_limited_def prepare_limited_def Let_def split: prod.splits option.splits)

lemma prepare_route:
  "issue_route E rq s = (case issue_prepare E rq s of
     (s1, Inl r) \<Rightarrow> (s1, r)
   | (s1, Inr j) \<Rightarrow> issue_signed E rq (ij_key j) (ij_entry j) (ij_claims j) (ij_ttl j) (ij_suite j) (ij_suite_id j)
       (ij_type j) (ij_type_id j) s1)"
  by (auto simp: issue_route_def issue_prepare_def with_body_def Let_def prepare_limited_route split: sum.splits option.splits)

lemma launch_signed:
  "issue_signed E rq (ij_key j) (ij_entry j) (ij_claims j) (ij_ttl j) (ij_suite j) (ij_suite_id j) (ij_type j) (ij_type_id j) s =
   (case issue_launch E rq j s of (s1, Inl r) \<Rightarrow> (s1, r) | (s1, Inr f) \<Rightarrow> issue_end E Answered f s1)"
proof (cases "chains s (ij_key j)")
  case (Some c)
  obtain c' r where i: "issue_token (cfg_prims E) (rq_now rq) (rq_nonce rq)
      (issue_prm (ij_entry j) (ij_claims j) (ij_ttl j) (ij_suite_id j) (ij_type_id j)) c = (c', r)" by force
  show ?thesis
  proof (cases r)
    case (Inr a)
    then show ?thesis using Some i
      by (auto simp: issue_signed_def issue_launch_def issue_end_def issue_done_def append_chain_def job_failed_def issue_failed_def Let_def
          split: sum.splits prod.splits)
  qed (use Some i in \<open>simp add: issue_signed_def issue_launch_def job_failed_def issue_failed_def Let_def\<close>)
qed (simp add: issue_signed_def issue_launch_def job_failed_def issue_failed_def)

text \<open>The issue route is its two parts with nothing between them: for every request, environment and state, beginning
  the request and, when a record was sent, taking the store's answer at once gives exactly the state and the reply of the
  route.\<close>

theorem issue_is_begin_then_end:
  "issue_route E rq s = (case issue_begin E rq s of
     (s1, Inl r) \<Rightarrow> (s1, r) | (s1, Inr f) \<Rightarrow> issue_end E Answered f s1)"
  by (auto simp: prepare_route issue_begin_def launch_signed split: prod.splits sum.splits)

subsection \<open>Overlapping requests\<close>

record 's traffic =
  t_server :: "'s server"
  t_waiting :: "flight list"
  t_answered :: "(flight \<times> reply option) list"
  t_refused :: "(request \<times> reply option) list"

datatype issue_event = Begin request | End store_answer

fun traffic_step :: "'s server_env \<Rightarrow> 's traffic \<Rightarrow> issue_event \<Rightarrow> 's traffic" where
  "traffic_step E T (Begin rq) =
     (case issue_begin E rq (t_server T) of
        (s, Inl r) \<Rightarrow> T\<lparr>t_server := s, t_refused := t_refused T @ [(rq, r)]\<rparr>
      | (s, Inr f) \<Rightarrow> T\<lparr>t_server := s, t_waiting := t_waiting T @ [f]\<rparr>)"
| "traffic_step E T (End a) =
     (case t_waiting T of
        [] \<Rightarrow> T
      | f # fs \<Rightarrow>
          (case issue_end E a f (t_server T) of
             (s, r) \<Rightarrow> T\<lparr>t_server := s, t_waiting := fs, t_answered := t_answered T @ [(f, r)]\<rparr>))"

definition no_traffic :: "'s server \<Rightarrow> 's traffic" where
  "no_traffic s = \<lparr>t_server = s, t_waiting = [], t_answered = [], t_refused = []\<rparr>"

definition of_key :: "string \<Rightarrow> flight list \<Rightarrow> flight list" where
  "of_key k fs = filter (\<lambda>f. ij_key (fl_job f) = k) fs"

text \<open>No record fails, and no request fails after it moved the chain.\<close>

fun smooth :: "'s server_env \<Rightarrow> 's traffic \<Rightarrow> issue_event list \<Rightarrow> bool" where
  "smooth E T [] = True"
| "smooth E T (ev # evs) =
     ((case ev of
         Begin rq \<Rightarrow> (case issue_begin E rq (t_server T) of (_, Inl (Some (IssueFailed _))) \<Rightarrow> False | _ \<Rightarrow> True)
       | End a \<Rightarrow> a = Answered) \<and> smooth E (traffic_step E T ev) evs)"

text \<open>The state between events, of one key: the log \<open>rs\<close> holds the first \<open>m\<close> records, the next ones up to the
  counter of the chain are on their way in order, and those after \<open>base\<close> were answered in order.\<close>

definition in_line :: "(bytes \<Rightarrow> bytes) \<Rightarrow> bytes \<Rightarrow> nat \<Rightarrow> (nat \<times> bytes) list \<Rightarrow> chain \<Rightarrow> flight list \<Rightarrow> flight list \<Rightarrow> bool" where
  "in_line h seed base rs c waiting answered \<longleftrightarrow>
     (\<exists>m n. base \<le> m \<and> m \<le> n \<and> c = chain_at h seed n \<and> rs = chain_records h seed m \<and>
        map (\<lambda>f. (fl_counter f, fl_state f)) waiting = map (\<lambda>i. (int (Suc i), ratchet h seed (Suc i))) [m..<n] \<and>
        map fl_counter answered = map int [Suc base..<Suc m])"

definition orderly ::
  "(bytes \<Rightarrow> bytes) \<Rightarrow> ('s \<Rightarrow> string \<Rightarrow> (nat \<times> bytes) list) \<Rightarrow> (string \<Rightarrow> bytes) \<Rightarrow> (string \<Rightarrow> nat) \<Rightarrow> 's traffic \<Rightarrow> bool" where
  "orderly h recs seed base T \<longleftrightarrow>
     (\<forall>f \<in> set (t_waiting T). chains (t_server T) (ij_key (fl_job f)) \<noteq> None) \<and>
     (\<forall>k c. chains (t_server T) k = Some c \<longrightarrow>
        in_line h (seed k) (base k) (recs (store (t_server T)) k) c (of_key k (t_waiting T)) (of_key k (map fst (t_answered T))))"

definition told :: "'s traffic \<Rightarrow> bool" where
  "told T \<longleftrightarrow> (\<forall>(f, r) \<in> set (t_answered T). \<exists>b m. r = Some (Json 200 b) \<and> jget b ''mutationCtr'' = num m \<and> fl_counter f \<le> m)"

lemma of_key_simps [simp]:
  "of_key k [] = []" "of_key k (f # fs) = (if ij_key (fl_job f) = k then f # of_key k fs else of_key k fs)"
  "of_key k (fs @ gs) = of_key k fs @ of_key k gs"
  by (simp_all add: of_key_def)

lemma issue_failed_reply: "snd (job_failed rq j x s) = Some (IssueFailed x)"
  "chains (fst (job_failed rq j x s)) = chains s" "store (fst (job_failed rq j x s)) = store s"
  by (simp_all add: job_failed_def issue_failed_def log_effect_def)

lemma prepare_keeps: "issue_prepare E rq s = (s', x) \<Longrightarrow> chains s' = chains s \<and> store s' = store s \<and>
    (\<forall>y. x \<noteq> Inl (Some (IssueFailed y)))"
  by (auto simp: issue_prepare_def prepare_limited_def check_claims_def fail_def log_effect_def Let_def
      split: if_splits sum.splits option.splits prod.splits)

lemma launch_cases:
  assumes "issue_launch E rq j s = (s', x)"
  shows "(\<exists>y. x = Inl (Some (IssueFailed y))) \<or> (\<exists>c c' f. x = Inr f \<and> chains s (ij_key j) = Some c \<and>
    advance (p_sha3 (cfg_prims E)) c = Inr c' \<and> s' = s\<lparr>chains := (chains s)(ij_key j \<mapsto> c')\<rparr> \<and> fl_job f = j \<and>
    fl_counter f = c_counter c' \<and> fl_state f = c_state c')"
proof (cases "chains s (ij_key j)")
  case None
  then show ?thesis using assms by (auto simp: issue_launch_def job_failed_def issue_failed_def)
next
  case (Some c)
  obtain c' r where i: "issue_token (cfg_prims E) (rq_now rq) (rq_nonce rq)
      (issue_prm (ij_entry j) (ij_claims j) (ij_ttl j) (ij_suite_id j) (ij_type_id j)) c = (c', r)" by force
  have "advance (p_sha3 (cfg_prims E)) c = Inr c'" if "r = Inr a" for a using issue_token_chain [OF i] that by simp
  then show ?thesis
    using assms Some i by (cases r) (auto simp: issue_launch_def job_failed_def issue_failed_def Let_def split: prod.splits sum.splits)
qed

lemma begin_cases:
  assumes "issue_begin E rq s = (s', x)" "\<And>y. x \<noteq> Inl (Some (IssueFailed y))"
  obtains (refused) r where "x = Inl r" "chains s' = chains s" "store s' = store s"
  | (sent) f c c' where "x = Inr f" "chains s (ij_key (fl_job f)) = Some c" "advance (p_sha3 (cfg_prims E)) c = Inr c'"
    "chains s' = (chains s)(ij_key (fl_job f) \<mapsto> c')" "store s' = store s" "fl_counter f = c_counter c'" "fl_state f = c_state c'"
proof -
  obtain s1 y where p: "issue_prepare E rq s = (s1, y)" by force
  show ?thesis
  proof (cases y)
    case (Inl r)
    then show ?thesis using refused [of r] prepare_keeps [OF p] assms(1) p by (simp add: issue_begin_def)
  next
    case (Inr j)
    then have "issue_launch E rq j s1 = (s', x)" using assms(1) p by (simp add: issue_begin_def)
    from launch_cases [OF this] obtain c c' f where "x = Inr f" "chains s1 (ij_key j) = Some c" "advance (p_sha3 (cfg_prims E)) c = Inr c'"
      "s' = s1\<lparr>chains := (chains s1)(ij_key j \<mapsto> c')\<rparr>" "fl_job f = j" "fl_counter f = c_counter c'" "fl_state f = c_state c'"
      using assms(2) by blast
    then show ?thesis using sent [of f c c'] prepare_keeps [OF p] by simp
  qed
qed

definition small :: "nat \<Rightarrow> 's traffic \<Rightarrow> bool" where
  "small d T \<longleftrightarrow> (\<forall>k c. chains (t_server T) k = Some c \<longrightarrow> c_counter c + int d < 2 ^ 63)"

lemma small_begin:
  assumes "small (Suc d) T" "smooth E T (Begin rq # evs)"
  shows "small d (traffic_step E T (Begin rq))"
proof -
  obtain s' x where b: "issue_begin E rq (t_server T) = (s', x)" by force
  have ok: "x \<noteq> Inl (Some (IssueFailed y))" for y using assms(2) b by auto
  from b ok show ?thesis
  proof (cases rule: begin_cases)
    case (refused r)
    then show ?thesis using assms(1) b by (fastforce simp: small_def)
  next
    case (sent f c c')
    then show ?thesis using assms(1) b advance_counter [OF sent(3)] by (fastforce simp: small_def)
  qed
qed

lemma in_line_begin:
  assumes "sha3_len h" "length seed = 32" "in_line h seed base rs c ws as" "c_counter c + int (Suc d) < 2 ^ 63"
    and "advance h c = Inr c'" "fl_counter f = c_counter c'" "fl_state f = c_state c'"
  shows "in_line h seed base rs c' (ws @ [f]) as"
proof -
  from assms(3) obtain m n where mn: "base \<le> m" "m \<le> n" "c = chain_at h seed n" "rs = chain_records h seed m"
    "map (\<lambda>f. (fl_counter f, fl_state f)) ws = map (\<lambda>i. (int (Suc i), ratchet h seed (Suc i))) [m..<n]"
    "map fl_counter as = map int [Suc base..<Suc m]" unfolding in_line_def by blast
  have "int n < 2 ^ 63" using assms(4) by (simp add: mn(3))
  then have "n < 2 ^ 63" by (metis of_nat_less_iff of_nat_numeral of_nat_power)
  then have c': "c' = chain_at h seed (Suc n)" using assms(5) advance_chain_at [OF assms(1,2), of n] by (simp add: mn(3))
  have "map (\<lambda>f. (fl_counter f, fl_state f)) (ws @ [f]) = map (\<lambda>i. (int (Suc i), ratchet h seed (Suc i))) ([m..<n] @ [n])"
    using mn(5) assms(6,7) by (simp add: c' del: ratchet.simps)
  moreover have "[m..<n] @ [n] = [m..<Suc n]" using mn(2) by simp
  ultimately have w: "map (\<lambda>f. (fl_counter f, fl_state f)) (ws @ [f]) = map (\<lambda>i. (int (Suc i), ratchet h seed (Suc i))) [m..<Suc n]" by simp
  show ?thesis unfolding in_line_def
    by (rule exI [of _ m], rule exI [of _ "Suc n"], intro conjI mn(1,4,6) c' w) (rule le_SucI [OF mn(2)])
qed

lemma in_line_end:
  assumes "in_line h seed base rs c (f # ws) as"
  obtains m n where "m < n" "c = chain_at h seed n" "rs = chain_records h seed m" "fl_counter f = int (Suc m)"
    "fl_state f = ratchet h seed (Suc m)" "length ws = n - Suc m"
    "in_line h seed base (chain_records h seed (Suc m)) c ws (as @ [f])"
proof -
  from assms obtain m n where mn: "base \<le> m" "m \<le> n" "c = chain_at h seed n" "rs = chain_records h seed m"
    "map (\<lambda>f. (fl_counter f, fl_state f)) (f # ws) = map (\<lambda>i. (int (Suc i), ratchet h seed (Suc i))) [m..<n]"
    "map fl_counter as = map int [Suc base..<Suc m]" unfolding in_line_def by blast
  have lt: "m < n" using mn(5) by (cases "m < n") auto
  then have hd: "fl_counter f = int (Suc m)" "fl_state f = ratchet h seed (Suc m)"
    "map (\<lambda>f. (fl_counter f, fl_state f)) ws = map (\<lambda>i. (int (Suc i), ratchet h seed (Suc i))) [Suc m..<n]"
    using mn(5) unfolding upt_conv_Cons [OF lt] by (simp_all del: ratchet.simps of_nat_Suc)
  have "length ws = n - Suc m" using arg_cong [OF hd(3), of length] by simp
  moreover have "[Suc base..<Suc (Suc m)] = [Suc base..<Suc m] @ [Suc m]" using mn(1) by simp
  then have "map fl_counter (as @ [f]) = map int [Suc base..<Suc (Suc m)]" using mn(6) hd(1) by (simp only: map_append list.map)
  then have "in_line h seed base (chain_records h seed (Suc m)) c ws (as @ [f])"
    unfolding in_line_def using mn(1,3) lt hd(3) by (intro exI [of _ "Suc m"] exI [of _ n] conjI) (simp_all only: le_SucI Suc_leI)
  ultimately show ?thesis using that lt mn(3,4) hd(1,2) by blast
qed

lemma orderly_begin:
  assumes h: "sha3_len h" "\<And>k. length (seed k) = 32" "p_sha3 (cfg_prims E) = h"
    and "orderly h recs seed base T" "smooth E T (Begin rq # evs)" "small (Suc d) T"
  shows "orderly h recs seed base (traffic_step E T (Begin rq)) \<and> t_answered (traffic_step E T (Begin rq)) = t_answered T \<and>
    store (t_server (traffic_step E T (Begin rq))) = store (t_server T)"
proof -
  obtain s' x where b: "issue_begin E rq (t_server T) = (s', x)" by force
  have ok: "x \<noteq> Inl (Some (IssueFailed y))" for y using assms(5) b by auto
  from b ok show ?thesis
  proof (cases rule: begin_cases)
    case (refused r)
    then show ?thesis using assms(4) b by (simp add: orderly_def)
  next
    case (sent f c c')
    let ?k = "ij_key (fl_job f)"
    have "in_line h (seed ?k) (base ?k) (recs (store (t_server T)) ?k) c (of_key ?k (t_waiting T)) (of_key ?k (map fst (t_answered T)))"
      using assms(4) sent(2) by (simp add: orderly_def)
    moreover have "c_counter c + int (Suc d) < 2 ^ 63" using assms(6) sent(2) by (simp add: small_def)
    ultimately have new: "in_line h (seed ?k) (base ?k) (recs (store s') ?k) c' (of_key ?k (t_waiting T @ [f])) (of_key ?k (map fst (t_answered T)))"
      using in_line_begin [OF h(1,2)] sent(3,5,6,7) by (simp add: h(3))
    have step: "traffic_step E T (Begin rq) = T\<lparr>t_server := s', t_waiting := t_waiting T @ [f]\<rparr>" using b sent(1) by simp
    have "orderly h recs seed base (traffic_step E T (Begin rq))"
      unfolding orderly_def step
    proof (intro conjI ballI allI impI, goal_cases)
      case (1 g)
      then show ?case using assms(4) sent(4) by (auto simp: orderly_def)
    next
      case (2 k c1)
      then show ?case using assms(4) new sent(4,5) by (cases "k = ?k") (auto simp: orderly_def)
    qed
    then show ?thesis using step sent(5) by simp
  qed
qed

context chain_store
begin

lemma orderly_end:
  assumes h: "sha3_len h" "\<And>k. length (seed k) = 32" "cfg_append E = append"
    and T: "orderly h recs seed base T" "inv (store (t_server T))" "small d T" "t_waiting T = f # fs"
    and r: "issue_end E Answered f (t_server T) = (s', r)"
  shows "orderly h recs seed base (T\<lparr>t_server := s', t_waiting := fs, t_answered := t_answered T @ [(f, r)]\<rparr>) \<and>
    inv (store s') \<and> chains s' = chains (t_server T) \<and>
    (\<exists>b. r = Some (Json 200 b) \<and> jget b ''mutationCtr'' = num (fl_counter f + int (length (of_key (ij_key (fl_job f)) fs))))"
proof -
  let ?k = "ij_key (fl_job f)" and ?s = "t_server T"
  obtain c where c: "chains ?s ?k = Some c" using T(1,4) by (auto simp: orderly_def)
  then have "in_line h (seed ?k) (base ?k) (recs (store ?s) ?k) c (f # of_key ?k fs) (of_key ?k (map fst (t_answered T)))"
    using T(1) T(4) unfolding orderly_def by (metis of_key_simps(2))
  then obtain m n where mn: "m < n" "c = chain_at h (seed ?k) n" "recs (store ?s) ?k = chain_records h (seed ?k) m"
    "fl_counter f = int (Suc m)" "fl_state f = ratchet h (seed ?k) (Suc m)" "length (of_key ?k fs) = n - Suc m"
    "in_line h (seed ?k) (base ?k) (chain_records h (seed ?k) (Suc m)) c (of_key ?k fs) (of_key ?k (map fst (t_answered T)) @ [f])"
    by (rule in_line_end)
  have "int n + int d < 2 ^ 63" using T(3) c mn(2) by (fastforce simp: small_def)
  then have "int (Suc m) < 2 ^ 63" using mn(1) by linarith
  then have "Suc m < 2 ^ 63" by (metis of_nat_less_iff of_nat_numeral of_nat_power)
  from append_advance [OF h(1,2) this T(2) mn(3)] obtain d' where
    d': "append (store ?s) ?k (int (Suc m)) (ratchet h (seed ?k) (Suc m)) = Inr d'" "inv d'"
      "recs d' = (recs (store ?s))(?k := chain_records h (seed ?k) (Suc m))" by blast
  have s': "issue_done E f (?s\<lparr>store := d'\<rparr>) = (s', r)" using r d'(1) by (simp add: issue_end_def h(3) mn(4,5) del: ratchet.simps of_nat_Suc)
  then have same: "chains s' = chains ?s" "store s' = d'" by (auto simp: issue_done_def log_effect_def Let_def)
  have "c_counter c = fl_counter f + int (length (of_key ?k fs))" using mn(1,6) by (simp add: mn(2,4))
  then have reply: "\<exists>b. r = Some (Json 200 b) \<and> jget b ''mutationCtr'' = num (fl_counter f + int (length (of_key ?k fs)))"
    using s' c by (auto simp: issue_done_def Let_def)
  have "orderly h recs seed base (T\<lparr>t_server := s', t_waiting := fs, t_answered := t_answered T @ [(f, r)]\<rparr>)"
    unfolding orderly_def
  proof (intro conjI ballI allI impI, goal_cases)
    case (1 g)
    then show ?case using T(1,4) same(1) by (auto simp: orderly_def)
  next
    case (2 k c1)
    then have k: "chains ?s k = Some c1" using same(1) by simp
    then have "in_line h (seed k) (base k) (recs (store ?s) k) c1 (of_key k (f # fs)) (of_key k (map fst (t_answered T)))"
      using T(1) T(4) unfolding orderly_def by metis
    then show ?case using k c mn(7) d'(3) same(2) by (cases "k = ?k") simp_all
  qed
  then show ?thesis using same d'(2) reply by simp
qed

lemma orderly_run:
  assumes h: "sha3_len h" "\<And>k. length (seed k) = 32" "cfg_append E = append" "p_sha3 (cfg_prims E) = h"
    and "orderly h recs seed base T" "inv (store (t_server T))" "told T" "small (length evs) T" "smooth E T evs"
  shows "orderly h recs seed base (foldl (traffic_step E) T evs) \<and> inv (store (t_server (foldl (traffic_step E) T evs))) \<and>
    told (foldl (traffic_step E) T evs) \<and> small 0 (foldl (traffic_step E) T evs)"
  using assms(5-9)
proof (induction evs arbitrary: T)
  case (Cons ev evs)
  have "orderly h recs seed base (traffic_step E T ev) \<and> inv (store (t_server (traffic_step E T ev))) \<and>
      told (traffic_step E T ev) \<and> small (length evs) (traffic_step E T ev)"
  proof (cases ev)
    case (Begin rq)
    have s: "small (Suc (length evs)) T" using Cons.prems(4) by simp
    from Cons.prems(5) have sm: "smooth E T (Begin rq # evs)" by (simp only: Begin)
    show ?thesis
      using orderly_begin [OF h(1,2,4) Cons.prems(1) sm s] small_begin [OF s sm] Cons.prems(2,3) unfolding Begin told_def by presburger
  next
    case (End a)
    then have a: "a = Answered" using Cons.prems(5) by simp
    have weaker: "small (length evs) T" using Cons.prems(4) by (fastforce simp: small_def)
    show ?thesis
    proof (cases "t_waiting T")
      case Nil
      then show ?thesis using Cons.prems weaker by (simp add: End)
    next
      case W: (Cons f fs)
      obtain s' r where r: "issue_end E Answered f (t_server T) = (s', r)" by force
      have step: "traffic_step E T ev = T\<lparr>t_server := s', t_waiting := fs, t_answered := t_answered T @ [(f, r)]\<rparr>"
        using r by (simp add: End a W)
      note e = orderly_end [OF h(1-3) Cons.prems(1,2,4) W r]
      have "told (traffic_step E T ev)" using Cons.prems(3) e
        by (auto simp: step told_def intro!: exI [of _ "fl_counter f + int (length (of_key (ij_key (fl_job f)) fs))"])
      moreover have "small (length evs) (traffic_step E T ev)" using weaker e by (simp add: step small_def)
      ultimately show ?thesis using e by (simp add: step)
    qed
  qed
  then show ?case using Cons.IH [of "traffic_step E T ev"] Cons.prems(5) by simp
qed simp_all

lemma orderly_start:
  assumes "\<And>k c. chains s k = Some c \<Longrightarrow> c = chain_at h (seed k) (base k) \<and> recs (store s) k = chain_records h (seed k) (base k)"
  shows "orderly h recs seed base (no_traffic s)" "told (no_traffic s)"
proof -
  have "in_line h (seed k) (base k) (recs (store s) k) c [] []" if "chains s k = Some c" for k c
    unfolding in_line_def by (intro exI [of _ "base k"]) (use assms [OF that] in simp)
  then show "orderly h recs seed base (no_traffic s)" by (simp add: orderly_def no_traffic_def)
qed (simp add: told_def no_traffic_def)

end

text \<open>Before the first of \<open>d\<close> events: the log of every key is its chain, with room for \<open>d\<close> records more.\<close>

definition settled_logs ::
  "(bytes \<Rightarrow> bytes) \<Rightarrow> ('s \<Rightarrow> string \<Rightarrow> (nat \<times> bytes) list) \<Rightarrow> (string \<Rightarrow> bytes) \<Rightarrow> (string \<Rightarrow> nat) \<Rightarrow> nat \<Rightarrow> 's server \<Rightarrow> bool" where
  "settled_logs h recs seed base d s \<longleftrightarrow> (\<forall>k. length (seed k) = 32) \<and>
     (\<forall>k c. chains s k = Some c \<longrightarrow> c = chain_at h (seed k) (base k) \<and> recs (store s) k = chain_records h (seed k) (base k) \<and>
        int (base k) + int d < 2 ^ 63)"

lemma pg_traffic:
  assumes "pg_contract tab ins sel" "sha3_len h" "cfg_append E = pg_append ins" "p_sha3 (cfg_prims E) = h"
    and "settled_logs h tab seed base (length evs) s" "smooth E (no_traffic s) evs" "T = foldl (traffic_step E) (no_traffic s) evs"
  shows "orderly h tab seed base T \<and> told T \<and> small 0 T"
proof -
  note store = pg_chain_store [OF assms(1), of h]
  have seeds: "length (seed k) = 32" for k using assms(5) by (simp add: settled_logs_def)
  have start: "orderly h tab seed base (no_traffic s)" "told (no_traffic s)"
    using chain_store.orderly_start [OF store, of s seed base] assms(5) unfolding settled_logs_def by blast+
  have "small (length evs) (no_traffic s)" using assms(5) by (fastforce simp: small_def no_traffic_def settled_logs_def)
  then show ?thesis
    using chain_store.orderly_run [OF store assms(2) seeds assms(3,4), where base = base and T = "no_traffic s" and evs = evs]
      assms(6,7) start by simp
qed

subsection \<open>Properties\<close>

text \<open>C7: Overlapping issue requests keep the chain: over any database that behaves as documented, however issue requests and
  the answers of the store alternate, as long as no record fails and no request fails after it moved its
  chain, the log of every key can be loaded and is its chain up to the answered records, the chain is ahead by
  exactly the records on their way, every answered request got 200, and the tokens of a key carry
  consecutive counters in the order of the requests.\<close>

theorem overlapping_issues_keep_the_chain:
  assumes "pg_contract tab ins sel" "sha3_len h" "cfg_append E = pg_append ins" "p_sha3 (cfg_prims E) = h"
    and "settled_logs h tab seed base (length evs) s" "smooth E (no_traffic s) evs" "T = foldl (traffic_step E) (no_traffic s) evs"
    and "chains (t_server T) k = Some c"
  shows "\<exists>m. pg_load sel h (store (t_server T)) k (seed k) = Inr \<lparr>l_counter = m, l_state = ratchet h (seed k) m, l_records = m\<rparr> \<and>
      c = chain_at h (seed k) (m + length (of_key k (t_waiting T))) \<and>
      map fl_counter (of_key k (map fst (t_answered T))) = map int [Suc (base k)..<Suc m] \<and>
      (\<forall>(f, r) \<in> set (t_answered T). \<exists>b. r = Some (Json 200 b))"
proof -
  note T = pg_traffic [OF assms(1-7)]
  from T assms(8) obtain m n where mn: "m \<le> n" "c = chain_at h (seed k) n" "tab (store (t_server T)) k = chain_records h (seed k) m"
    "map (\<lambda>f. (fl_counter f, fl_state f)) (of_key k (t_waiting T)) = map (\<lambda>i. (int (Suc i), ratchet h (seed k) (Suc i))) [m..<n]"
    "map fl_counter (of_key k (map fst (t_answered T))) = map int [Suc (base k)..<Suc m]"
    unfolding orderly_def in_line_def by blast
  have "length (of_key k (t_waiting T)) = n - m" using arg_cong [OF mn(4), of length] by simp
  then have "c = chain_at h (seed k) (m + length (of_key k (t_waiting T)))" using mn(1,2) by simp
  moreover have "pg_load sel h (store (t_server T)) k (seed k) = Inr \<lparr>l_counter = m, l_state = ratchet h (seed k) m, l_records = m\<rparr>"
    using chain_store.reload [OF pg_chain_store [OF assms(1), of h] assms(2) _ mn(3)] by simp
  ultimately show ?thesis using mn(5) T unfolding told_def by (intro exI [of _ m]) auto
qed

text \<open>C8: The counter in the reply is not the token's: the handler reads the live chain after the wait, so while requests of the
  same key are on their way behind it, a request is told the counter of the last of them, its token's counter plus their
  number; the reply is right exactly when none is.\<close>

theorem reply_names_the_last_counter:
  assumes "pg_contract tab ins sel" "sha3_len h" "cfg_append E = pg_append ins" "p_sha3 (cfg_prims E) = h"
    and "settled_logs h tab seed base (length evs) s" "smooth E (no_traffic s) evs" "T = foldl (traffic_step E) (no_traffic s) evs"
    and "t_waiting T = f # fs"
  shows "\<exists>s' b. issue_end E Answered f (t_server T) = (s', Some (Json 200 b)) \<and>
    jget b ''mutationCtr'' = num (fl_counter f + int (length (of_key (ij_key (fl_job f)) fs)))"
proof -
  note T = pg_traffic [OF assms(1-7)]
  have seeds: "length (seed k) = 32" for k using assms(5) by (simp add: settled_logs_def)
  obtain s' r where r: "issue_end E Answered f (t_server T) = (s', r)" by force
  show ?thesis
    using chain_store.orderly_end [OF pg_chain_store [OF assms(1), of h] assms(2) seeds assms(3) _ _ _ assms(8) r] T r by auto
qed

text \<open>A record that fails while a later one of the same key is on its way breaks the log: the later one is stored with a gap
  before it and answered with 200, and the key can not be loaded any more.\<close>

theorem failed_record_breaks_the_log:
  assumes "pg_contract tab ins sel" "sha3_len h" "cfg_append E = pg_append ins" "p_sha3 (cfg_prims E) = h"
    and "settled_logs h tab seed base (length evs) s" "smooth E (no_traffic s) evs" "T = foldl (traffic_step E) (no_traffic s) evs"
    and "t_waiting T = f # g # fs" "ij_key (fl_job f) = k" "ij_key (fl_job g) = k"
    and "T' = traffic_step E (traffic_step E T (End (Failed False))) (End Answered)"
  shows "\<exists>e b. pg_load sel h (store (t_server T')) k (seed k) = Inl e \<and> snd (last (t_answered T')) = Some (Json 200 b)"
proof -
  note store = pg_chain_store [OF assms(1), of h]
  note T = pg_traffic [OF assms(1-7)]
  have seeds: "length (seed k) = 32" for k using assms(5) by (simp add: settled_logs_def)
  obtain c where c: "chains (t_server T) k = Some c" using T assms(8,9) by (auto simp: orderly_def)
  have "in_line h (seed k) (base k) (tab (store (t_server T)) k) c (of_key k (f # g # fs)) (of_key k (map fst (t_answered T)))"
    using T c assms(8) unfolding orderly_def by metis
  then have l: "in_line h (seed k) (base k) (tab (store (t_server T)) k) c (f # g # of_key k fs) (of_key k (map fst (t_answered T)))"
    using assms(9,10) by simp
  from l obtain m n where mn: "m < n" "tab (store (t_server T)) k = chain_records h (seed k) m"
    "in_line h (seed k) (base k) (chain_records h (seed k) (Suc m)) c (g # of_key k fs) (of_key k (map fst (t_answered T)) @ [f])"
    by (rule in_line_end)
  from mn(3) obtain m' n' where g: "m' < n'" "c = chain_at h (seed k) n'" "chain_records h (seed k) (Suc m) = chain_records h (seed k) m'"
    "fl_counter g = int (Suc m')" "fl_state g = ratchet h (seed k) (Suc m')" by (rule in_line_end)
  have "m' = Suc m" using arg_cong [OF g(3), of length] by (simp add: chain_records_def)
  have "c_counter c < 2 ^ 63" using T c by (fastforce simp: small_def)
  then have "int (Suc m') < 2 ^ 63" using g(1,2) by simp
  then have lt: "Suc m' < 2 ^ 63" by (metis of_nat_less_iff of_nat_numeral of_nat_power)
  have "length (fl_state g) = 32" using assms(2) by (simp add: g(5) sha3_len_def)
  from chain_store.append_gap [OF store assms(2) _ mn(2) _ lt this] obtain d e where
    d: "pg_append ins (store (t_server T)) k (int (Suc m')) (fl_state g) = Inr d" "pg_load sel h d k (seed k) = Inl e"
    using \<open>m' = Suc m\<close> by auto
  obtain s1 r1 where 1: "issue_end E (Failed False) f (t_server T) = (s1, r1)" by force
  then have s1: "store s1 = store (t_server T)"
    by (auto simp: issue_end_def job_failed_def issue_failed_def log_effect_def Let_def split: sum.splits)
  obtain s2 r2 where 2: "issue_end E Answered g s1 = (s2, r2)" by force
  then have "store s2 = d" "\<exists>b. r2 = Some (Json 200 b)"
    using d(1) assms(3,10) g(4) by (auto simp: issue_end_def s1 issue_done_def log_effect_def Let_def)
  then show ?thesis using d(2) 1 2 assms(8) by (auto simp: assms(11))
qed

subsection \<open>An instance\<close>

text \<open>A table in memory that behaves as documented. Rows that are not in order count as none.\<close>

type_synonym mem_table = "string \<Rightarrow> (nat \<times> bytes) list"

definition mem_rows :: "mem_table \<Rightarrow> string \<Rightarrow> (nat \<times> bytes) list" where
  "mem_rows db k = (if sorted (map fst (db k)) \<and> distinct (map fst (db k)) then db k else [])"

definition mem_insert :: "mem_table pg_insert" where
  "mem_insert db k ctr st =
     (case (big_of_text ctr, parse_bytea st) of
        (Some c, Inr b) \<Rightarrow>
          if nat c \<in> fst ` set (mem_rows db k) then Inl (PgError ''23505'' [])
          else Inr (db(k := insort_key fst (nat c, b) (mem_rows db k)))
      | _ \<Rightarrow> Inl (PgError ''22P02'' []))"

definition mem_select :: "mem_table pg_select" where
  "mem_select db k = Inr (map row_text (mem_rows db k))"

lemma map_fst_insort: "map fst (insort_key fst x xs) = insort (fst x) (map fst xs)"
  by (induction xs) auto

lemma mem_contract: "pg_contract mem_rows mem_insert mem_select"
proof -
  have ordered: "sorted (map fst (mem_rows db k))" "distinct (map fst (mem_rows db k))" for db k by (simp_all add: mem_rows_def)
  have "if c \<in> fst ` set (mem_rows db k)
      then \<exists>m. mem_insert db k (int_text (int c)) (the (param_text (PBuf st))) = Inl (PgError ''23505'' m)
      else \<exists>db'. mem_insert db k (int_text (int c)) (the (param_text (PBuf st))) = Inr db' \<and>
        mem_rows db' = (mem_rows db)(k := insort_key fst (c, st) (mem_rows db k))" for db k c st
  proof (cases "c \<in> fst ` set (mem_rows db k)")
    case True
    then show ?thesis using parse_bytea_param [of st] by (simp add: mem_insert_def)
  next
    case False
    then have "distinct (map fst (insort_key fst (c, st) (mem_rows db k)))" "sorted (map fst (insort_key fst (c, st) (mem_rows db k)))"
      using ordered [of db k] by (simp_all add: map_fst_insort sorted_insort distinct_insort)
    then have "mem_rows (db(k := insort_key fst (c, st) (mem_rows db k))) = (mem_rows db)(k := insort_key fst (c, st) (mem_rows db k))"
      by (auto simp: mem_rows_def fun_eq_iff)
    then show ?thesis using False parse_bytea_param [of st] by (simp add: mem_insert_def)
  qed
  then show ?thesis unfolding pg_contract_def using ordered mem_select_def by blast
qed

definition mem_env :: "mem_table server_env" where
  "mem_env = (let E = sample_env AnonMode (sample_parse []) in
     \<lparr>cfg_prims = sample_prims, cfg_rate = cfg_rate E, cfg_claims = cfg_claims E, cfg_admin = AnonMode, cfg_admin_list = [],
      cfg_sha256 = sample_hash, cfg_gcm_enc = cfg_gcm_enc E, cfg_gcm_dec = cfg_gcm_dec E, cfg_master = cfg_master E,
      cfg_parse = cfg_parse E, cfg_buffer = cfg_buffer E, cfg_cors = cfg_cors E, cfg_metrics_enabled = True,
      cfg_metrics_public = False, cfg_iso = int_text, cfg_load = pg_load mem_select sample_hash, cfg_append = pg_append mem_insert\<rparr>)"

definition mem_server :: "mem_table server" where
  "mem_server =
     \<lparr>keystore = [(''k'', sample_skey)], chains = [''k'' \<mapsto> new_chain (replicate 32 9)], fp_index = Map.empty, revoked = [],
      lim = create_limiter, rejects_seen = 0, lock = None, disk_ks = NoFile, disk_rev = NoFile, store = (\<lambda>_. []), trace = []\<rparr>"

definition mem_rq :: request where
  "mem_rq = sample_rq ''POST'' ''/v3/token/issue'' [1]"

lemma mem_begin:
  assumes "chains s ''k'' = Some c" "wf_chain c" "keystore s = [(''k'', sample_skey)]" "revoked s = []" "lock s = None"
  shows "\<exists>s' f c'. issue_begin mem_env mem_rq s = (s', Inr f) \<and> ij_key (fl_job f) = ''k'' \<and> fl_counter f = c_counter c + 1 \<and>
    chains s' ''k'' = Some c' \<and> wf_chain c' \<and> c_counter c' = c_counter c + 1 \<and>
    keystore s' = keystore s \<and> revoked s' = [] \<and> lock s' = None"
proof -
  let ?prm = "issue_prm sample_skey [] (num 3600) 5 1"
  obtain c' tok where i: "issue_token sample_prims 1000 sample_nonce ?prm c = (c', Inr (tok, to_hex tok))" "c_counter c' = c_counter c + 1"
  proof -
    have "\<exists>c' tok. issue_token sample_prims 1000 sample_nonce ?prm c = (c', Inr (tok, to_hex tok)) \<and> c_counter c' = c_counter c + 1"
      by (rule issue_token_ok [where key = "[1]"]) (use assms(2) in \<open>simp_all add: issue_prm_def sample_skey_def encodable_def\<close>)
    then show ?thesis using that by blast
  qed
  have "advance (p_sha3 sample_prims) c = Inr c'" using issue_token_chain [OF i(1)] by simp
  then have wf: "wf_chain c'" by (rule advance_wf [rotated]) (simp add: sample_prims_def)
  have body: "read_body_caught mem_env mem_rq = sample_body"
    by (simp add: read_body_caught_def mem_env_def mem_rq_def sample_env_def sample_rq_def read_json_bounded_def sample_parse_def Let_def)
  have get: "jget sample_body ''keyId'' = str ''k''" "jget sample_body ''claims'' = JObj []" "jget sample_body ''ttl'' = undef"
    "jget sample_body ''suite'' = undef" "jget sample_body ''tokenType'' = undef" "jget sample_body ''_err'' = undef"
    "\<not> nullish sample_body"
    by (simp_all add: sample_body_def) (simp add: nullish_def obj_def undef_def)
  have "json_bytes (p_numstr (cfg_prims mem_env)) (JObj []) = Some 2"
    using utf8_encode_ascii [of "''{}''"] by (simp add: json_bytes_def ascii_def js_def)
  then have ck: "check_claims mem_env (JObj []) = Inr []"
    by (simp add: check_claims_def) (simp add: mem_env_def sample_env_def validate_claims_def default_claims_cfg_def walk.simps Let_def)
  have ids: "suite_id mem_env (str ''dilithium5'') = Some 5" "type_id mem_env (str ''access'') = Some 1"
    by (simp_all add: suite_id_def type_id_def table_get_def str_def)
  have lim: "check_key (cfg_rate mem_env) l k op t = (l, \<lparr>allowed = True, remaining = 0, limit = 0, resetSec = Some 0, bypass = True, reason = []\<rparr>)" for l k op t
    by (simp add: check_key_def mem_env_def sample_env_def Let_def)
  have prep: "issue_prepare mem_env mem_rq s = (s, Inr \<lparr>ij_key = ''k'', ij_entry = sample_skey, ij_claims = [], ij_ttl = num 3600,
      ij_suite = str ''dilithium5'', ij_suite_id = 5, ij_type = str ''access'', ij_type_id = 1\<rparr>)"
    using assms(3,4) by (simp add: issue_prepare_def body get Let_def ck ks_find_def or_default_def prepare_limited_def lim ids)
  have "cfg_prims mem_env = sample_prims" "rq_now mem_rq = 1000" "rq_nonce mem_rq = sample_nonce"
    by (simp_all add: mem_env_def mem_rq_def sample_rq_def Let_def)
  then show ?thesis
    using prep assms(1,3,4,5) i wf by (simp add: issue_begin_def issue_launch_def Let_def)
qed

lemma two_begun:
  "\<exists>s f g. traffic_step mem_env (traffic_step mem_env (no_traffic mem_server) (Begin mem_rq)) (Begin mem_rq) =
      \<lparr>t_server = s, t_waiting = [f, g], t_answered = [], t_refused = []\<rparr> \<and>
    ij_key (fl_job f) = ''k'' \<and> ij_key (fl_job g) = ''k'' \<and> fl_counter f = 1 \<and> chains s ''k'' \<noteq> None \<and>
    smooth mem_env (no_traffic mem_server) [Begin mem_rq, Begin mem_rq]"
proof -
  let ?c = "new_chain (replicate 32 9)"
  have c: "wf_chain ?c" "c_counter ?c = 0" by (simp_all add: wf_chain_def new_chain_def)
  obtain s1 f c1 where 1: "issue_begin mem_env mem_rq mem_server = (s1, Inr f)" "ij_key (fl_job f) = ''k''" "fl_counter f = 1"
    "chains s1 ''k'' = Some c1" "wf_chain c1" "keystore s1 = [(''k'', sample_skey)]" "revoked s1 = []" "lock s1 = None"
    using mem_begin [of mem_server ?c] c by (auto simp: mem_server_def)
  obtain s2 g c2 where 2: "issue_begin mem_env mem_rq s1 = (s2, Inr g)" "ij_key (fl_job g) = ''k''" "chains s2 ''k'' = Some c2"
    using mem_begin [OF 1(4,5,6,7,8)] by blast
  show ?thesis using 1 2 by (auto simp: no_traffic_def)
qed

lemma mem_settled: "settled_logs sample_hash mem_rows (\<lambda>_. replicate 32 9) (\<lambda>_. 0) d mem_server" if "d < 2 ^ 63"
proof -
  have "int d < 2 ^ 63" using that by (metis of_nat_less_iff of_nat_numeral of_nat_power)
  then show ?thesis by (auto simp: settled_logs_def mem_server_def mem_rows_def new_chain_at [of _ sample_hash] split: if_splits)
qed

lemma mem_facts: "sha3_len sample_hash" "cfg_append mem_env = pg_append mem_insert" "p_sha3 (cfg_prims mem_env) = sample_hash"
  by (simp_all add: mem_env_def sample_prims_def Let_def)

lemma overlapping_issues_keep_the_chain_witness:
  "\<exists>T. T = foldl (traffic_step mem_env) (no_traffic mem_server) [Begin mem_rq, Begin mem_rq, End Answered] \<and>
     length (t_answered T) = 1 \<and> length (t_waiting T) = 1 \<and>
     pg_load mem_select sample_hash (store (t_server T)) ''k'' (replicate 32 9) =
       Inr \<lparr>l_counter = 1, l_state = ratchet sample_hash (replicate 32 9) 1, l_records = 1\<rparr>"
proof -
  let ?evs = "[Begin mem_rq, Begin mem_rq, End Answered]"
  obtain s f g where b: "traffic_step mem_env (traffic_step mem_env (no_traffic mem_server) (Begin mem_rq)) (Begin mem_rq) =
      \<lparr>t_server = s, t_waiting = [f, g], t_answered = [], t_refused = []\<rparr>"
    "ij_key (fl_job f) = ''k''" "chains s ''k'' \<noteq> None" "smooth mem_env (no_traffic mem_server) [Begin mem_rq, Begin mem_rq]"
    "fl_counter f = 1" using two_begun by blast
  obtain s' r where e: "issue_end mem_env Answered f s = (s', r)" by force
  define T where "T = foldl (traffic_step mem_env) (no_traffic mem_server) ?evs"
  have T: "T = \<lparr>t_server = s', t_waiting = [g], t_answered = [(f, r)], t_refused = []\<rparr>" using b(1) e by (simp add: T_def)
  have "chains s' = chains s"
    using e by (auto simp: issue_end_def issue_done_def job_failed_def issue_failed_def log_effect_def Let_def split: sum.splits)
  then obtain c where c: "chains (t_server T) ''k'' = Some c" using b(3) by (auto simp: T)
  have sm: "smooth mem_env (no_traffic mem_server) ?evs" using b(4) by simp
  have set: "settled_logs sample_hash mem_rows (\<lambda>_. replicate 32 9) (\<lambda>_. 0) (length ?evs) mem_server" by (rule mem_settled) simp
  from overlapping_issues_keep_the_chain [OF mem_contract mem_facts set sm T_def c] obtain m where
    m: "pg_load mem_select sample_hash (store (t_server T)) ''k'' (replicate 32 9) =
      Inr \<lparr>l_counter = m, l_state = ratchet sample_hash (replicate 32 9) m, l_records = m\<rparr>"
    "map fl_counter (of_key ''k'' (map fst (t_answered T))) = map int [Suc 0..<Suc m]" by blast
  have "m = 1" using arg_cong [OF m(2), of length] b(2) by (simp add: T del: upt_Suc)
  moreover have "length (t_answered T) = 1" "length (t_waiting T) = 1" by (simp_all add: T)
  ultimately show ?thesis using m(1) T_def by blast
qed

lemma reply_names_the_last_counter_witness:
  "\<exists>f g s' b. t_waiting (foldl (traffic_step mem_env) (no_traffic mem_server) [Begin mem_rq, Begin mem_rq]) = [f, g] \<and> fl_counter f = 1 \<and>
     issue_end mem_env Answered f (t_server (foldl (traffic_step mem_env) (no_traffic mem_server) [Begin mem_rq, Begin mem_rq])) =
       (s', Some (Json 200 b)) \<and> jget b ''mutationCtr'' = num 2"
proof -
  let ?evs = "[Begin mem_rq, Begin mem_rq]"
  obtain s f g where b: "traffic_step mem_env (traffic_step mem_env (no_traffic mem_server) (Begin mem_rq)) (Begin mem_rq) =
      \<lparr>t_server = s, t_waiting = [f, g], t_answered = [], t_refused = []\<rparr>"
    "ij_key (fl_job f) = ''k''" "ij_key (fl_job g) = ''k''" "smooth mem_env (no_traffic mem_server) ?evs"
    "fl_counter f = 1" using two_begun by blast
  define T where "T = foldl (traffic_step mem_env) (no_traffic mem_server) ?evs"
  have w: "t_waiting T = [f, g]" using b(1) by (simp add: T_def)
  have set: "settled_logs sample_hash mem_rows (\<lambda>_. replicate 32 9) (\<lambda>_. 0) (length ?evs) mem_server" by (rule mem_settled) simp
  from reply_names_the_last_counter [OF mem_contract mem_facts set b(4) T_def w] obtain s' bd where
    "issue_end mem_env Answered f (t_server T) = (s', Some (Json 200 bd))" "jget bd ''mutationCtr'' = num (fl_counter f + 1)"
    using b(2,3) by auto
  then show ?thesis using w b(5) unfolding T_def by auto
qed

end
