(* ===== verification/Js_Regex.thy ===== *)
theory Js_Regex
  imports Js_Text
begin

section \<open>Regular expressions as the language matches them\<close>

text \<open>
  The scripts under \<open>qv-ops\<close> read source text with regular expressions. A pattern is a value of \<open>re\<close>, written after
  the literal in the code; \<open>run\<close> gives every way to match it from a place, in the order the engine tries
  them, so its first element is the match. A repetition is greedy or lazy, drops an iteration that consumes
  nothing, and has as fuel the length of the text ahead, which it can not use up. \<open>scan\<close> is the loop of the global
  flag: \<open>matchAll\<close>, \<open>replace\<close> and \<open>match\<close> read its result. The lemmas say where a pattern can match
  (\<open>run\<close> as a set) and which match is the first.
\<close>

subsection \<open>Patterns and places\<close>

datatype re =
    Chars "char \<Rightarrow> bool"
  | Empty
  | Cat re re
  | Or re re
  | Many re
  | Few re
  | Group nat re
  | Line_start
  | Text_start
  | Text_end
  | Edge
  | Peek re

record place =
  behind :: string
  ahead :: string
  caught :: "(nat \<times> string) list"

definition is_word :: "char \<Rightarrow> bool" where
  "is_word c \<longleftrightarrow> (let k = code c in 48 \<le> k \<and> k \<le> 57 \<or> 65 \<le> k \<and> k \<le> 90 \<or> 97 \<le> k \<and> k \<le> 122 \<or> k = 95)"

definition is_upper :: "char \<Rightarrow> bool" where
  "is_upper c \<longleftrightarrow> 65 \<le> code c \<and> code c \<le> 90"

definition is_alpha :: "char \<Rightarrow> bool" where
  "is_alpha c \<longleftrightarrow> is_upper c \<or> 97 \<le> code c \<and> code c \<le> 122"

definition is_dec :: "char \<Rightarrow> bool" where
  "is_dec c \<longleftrightarrow> 48 \<le> code c \<and> code c \<le> 57"

definition at_edge :: "place \<Rightarrow> bool" where
  "at_edge x \<longleftrightarrow> (behind x \<noteq> [] \<and> is_word (hd (behind x))) \<noteq> (ahead x \<noteq> [] \<and> is_word (hd (ahead x)))"

text \<open>What was read from \<open>x\<close> to \<open>y\<close>.\<close>

definition between :: "place \<Rightarrow> place \<Rightarrow> string" where
  "between x y = take (length (ahead x) - length (ahead y)) (ahead x)"

definition nearer :: "place \<Rightarrow> place list \<Rightarrow> place list" where
  "nearer x ys = filter (\<lambda>y. length (ahead y) < length (ahead x)) ys"

fun again :: "bool \<Rightarrow> (place \<Rightarrow> place list) \<Rightarrow> nat \<Rightarrow> place \<Rightarrow> place list" where
  "again greedy f 0 x = [x]"
| "again greedy f (Suc n) x =
     (let more = concat (map (again greedy f n) (nearer x (f x))) in
      if greedy then more @ [x] else x # more)"

fun run :: "re \<Rightarrow> place \<Rightarrow> place list" where
  "run (Chars P) x =
     (case ahead x of [] \<Rightarrow> [] | c # s \<Rightarrow> if P c then [x\<lparr>behind := c # behind x, ahead := s\<rparr>] else [])"
| "run Empty x = [x]"
| "run (Cat r q) x = concat (map (run q) (run r x))"
| "run (Or r q) x = run r x @ run q x"
| "run (Many r) x = again True (run r) (length (ahead x)) x"
| "run (Few r) x = again False (run r) (length (ahead x)) x"
| "run (Group n r) x = map (\<lambda>y. y\<lparr>caught := (n, between x y) # caught y\<rparr>) (run r x)"
| "run Line_start x = (if behind x = [] \<or> code (hd (behind x)) \<in> {10, 13} then [x] else [])"
| "run Text_start x = (if behind x = [] then [x] else [])"
| "run Text_end x = (if ahead x = [] then [x] else [])"
| "run Edge x = (if at_edge x then [x] else [])"
| "run (Peek r) x = (case run r x of [] \<Rightarrow> [] | y # _ \<Rightarrow> [x\<lparr>caught := caught y\<rparr>])"

fun lit :: "string \<Rightarrow> re" where
  "lit [] = Empty"
| "lit (c # s) = Cat (Chars ((=) c)) (lit s)"

definition one_of :: "string \<Rightarrow> char \<Rightarrow> bool" where
  "one_of s c \<longleftrightarrow> c \<in> set s"

definition some_of :: "(char \<Rightarrow> bool) \<Rightarrow> re" where
  "some_of P = Cat (Chars P) (Many (Chars P))"

definition blanks :: re where
  "blanks = Many (Chars is_ws)"

fun cat :: "re list \<Rightarrow> re" where
  "cat [] = Empty"
| "cat [r] = r"
| "cat (r # q # rs) = Cat r (cat (q # rs))"

fun any_of :: "re list \<Rightarrow> re" where
  "any_of [] = Chars (\<lambda>_. False)"
| "any_of [r] = r"
| "any_of (r # q # rs) = Or r (any_of (q # rs))"

subsection \<open>The loop over a text\<close>

record hit =
  hit_text :: string
  hit_groups :: "(nat \<times> string) list"

definition spot :: "string \<Rightarrow> string \<Rightarrow> place" where
  "spot d s = \<lparr>behind = d, ahead = s, caught = []\<rparr>"

definition hit_of :: "place \<Rightarrow> place \<Rightarrow> hit" where
  "hit_of x y = \<lparr>hit_text = between x y, hit_groups = caught y\<rparr>"

function scan :: "re \<Rightarrow> string \<Rightarrow> string \<Rightarrow> (char + hit) list" where
  "scan r d s =
     (case run r (spot d s) of
        y # _ \<Rightarrow>
          Inr (hit_of (spot d s) y) #
          (if length (ahead y) < length s then scan r (behind y) (ahead y)
           else (case s of [] \<Rightarrow> [] | c # s' \<Rightarrow> Inl c # scan r (c # d) s'))
      | [] \<Rightarrow> (case s of [] \<Rightarrow> [] | c # s' \<Rightarrow> Inl c # scan r (c # d) s'))"
  by pat_completeness auto
termination by (relation "measure (\<lambda>(r, d, s). length s)") auto

declare scan.simps [simp del]

definition group :: "nat \<Rightarrow> hit \<Rightarrow> string" where
  "group n h = (case map_of (hit_groups h) n of Some t \<Rightarrow> t | None \<Rightarrow> [])"

fun hits_of :: "(char + hit) list \<Rightarrow> hit list" where
  "hits_of [] = []"
| "hits_of (Inl c # ps) = hits_of ps"
| "hits_of (Inr h # ps) = h # hits_of ps"

definition match_all :: "re \<Rightarrow> string \<Rightarrow> hit list" where
  "match_all r s = hits_of (scan r [] s)"

definition match_first :: "re \<Rightarrow> string \<Rightarrow> hit option" where
  "match_first r s = (case match_all r s of [] \<Rightarrow> None | h # _ \<Rightarrow> Some h)"

fun put :: "(hit \<Rightarrow> string) \<Rightarrow> (char + hit) list \<Rightarrow> string" where
  "put f [] = []"
| "put f (Inl c # ps) = c # put f ps"
| "put f (Inr h # ps) = f h @ put f ps"

definition replace_all :: "re \<Rightarrow> (hit \<Rightarrow> string) \<Rightarrow> string \<Rightarrow> string" where
  "replace_all r f s = put f (scan r [] s)"

fun put_first :: "(hit \<Rightarrow> string) \<Rightarrow> (char + hit) list \<Rightarrow> string" where
  "put_first f [] = []"
| "put_first f (Inl c # ps) = c # put_first f ps"
| "put_first f (Inr h # ps) = f h @ put hit_text ps"

definition replace_first :: "re \<Rightarrow> (hit \<Rightarrow> string) \<Rightarrow> string \<Rightarrow> string" where
  "replace_first r f s = put_first f (scan r [] s)"

subsection \<open>What a match reads\<close>

text \<open>\<open>x\<close> comes to \<open>y\<close> by reading on.\<close>

definition reads :: "place \<Rightarrow> place \<Rightarrow> bool" where
  "reads x y \<longleftrightarrow> (\<exists>u. ahead x = u @ ahead y \<and> behind y = rev u @ behind x)"

lemma reads_refl [simp, intro]: "reads x x"
  by (simp add: reads_def)

lemma reads_trans [trans]: "reads x y \<Longrightarrow> reads y z \<Longrightarrow> reads x z"
  unfolding reads_def by force

lemma reads_caught [simp]: "reads x (y\<lparr>caught := c\<rparr>) \<longleftrightarrow> reads x y"
  by (simp add: reads_def)

lemma reads_length: "reads x y \<Longrightarrow> length (ahead y) \<le> length (ahead x)"
  by (auto simp: reads_def)

lemma reads_between: "reads x y \<Longrightarrow> ahead x = between x y @ ahead y \<and> behind y = rev (between x y) @ behind x"
  by (auto simp: reads_def between_def)

lemma again_reads:
  assumes "\<And>x y. y \<in> set (f x) \<Longrightarrow> reads x y"
  shows "y \<in> set (again g f n x) \<Longrightarrow> reads x y"
proof (induction n arbitrary: x)
  case (Suc n)
  from Suc.prems consider "y = x" | z where "z \<in> set (f x)" "y \<in> set (again g f n z)"
    by (auto simp: nearer_def Let_def split: if_splits)
  then show ?case
  proof cases
    case 2
    then show ?thesis using assms Suc.IH reads_trans by blast
  qed simp
qed simp

lemma run_reads: "y \<in> set (run r x) \<Longrightarrow> reads x y"
proof (induction r arbitrary: x y)
  case (Chars P)
  then show ?case by (auto simp: reads_def split: list.splits if_splits)
next
  case (Cat r q)
  then obtain z where "z \<in> set (run r x)" "y \<in> set (run q z)" by auto
  then show ?case using Cat.IH reads_trans by blast
next
  case (Many r)
  then show ?case using again_reads [of "run r"] by simp
next
  case (Few r)
  then show ?case using again_reads [of "run r"] by simp
next
  case (Peek r)
  then show ?case by (auto split: list.splits)
qed (auto split: if_splits)

text \<open>The fuel of a repetition does not limit it: with any fuel from the length of the text ahead on, it is the same.\<close>

lemma again_fuel:
  assumes "\<And>x y. y \<in> set (f x) \<Longrightarrow> reads x y" "length (ahead x) \<le> n"
  shows "again g f n x = again g f (length (ahead x)) x"
  using assms(2)
proof (induction n arbitrary: x rule: less_induct)
  case (less n)
  show ?case
  proof (cases "ahead x = []")
    case True
    then show ?thesis by (cases n) (simp_all add: nearer_def Let_def)
  next
    case False
    then obtain l where l: "length (ahead x) = Suc l" by (cases "ahead x") auto
    obtain m where m: "n = Suc m" "l \<le> m" using less.prems l by (cases n) auto
    have "again g f m y = again g f l y" if "y \<in> set (nearer x (f x))" for y
    proof -
      have y: "length (ahead y) \<le> l" using that l by (simp add: nearer_def)
      then have "again g f m y = again g f (length (ahead y)) y" using less.IH [of m y] m by simp
      also have "\<dots> = again g f l y" using less.IH [of l y] y m by simp
      finally show ?thesis .
    qed
    then have "map (again g f m) (nearer x (f x)) = map (again g f l) (nearer x (f x))" by simp
    then show ?thesis by (simp only: m(1) l again.simps)
  qed
qed

lemma again_unfold:
  "again g (run r) (length (ahead x)) x =
     (let more = concat (map (\<lambda>y. again g (run r) (length (ahead y)) y) (nearer x (run r x))) in
      if g then more @ [x] else x # more)"
proof (cases "length (ahead x)")
  case 0
  then show ?thesis by (simp add: nearer_def)
next
  case (Suc n)
  have "map (again g (run r) n) (nearer x (run r x)) = map (\<lambda>y. again g (run r) (length (ahead y)) y) (nearer x (run r x))"
    using again_fuel [OF run_reads, where n = n] Suc by (auto simp: nearer_def)
  then show ?thesis by (simp only: Suc again.simps)
qed

lemma run_repeat: "run (Many r) = (\<lambda>x. again True (run r) (length (ahead x)) x)"
  "run (Few r) = (\<lambda>x. again False (run r) (length (ahead x)) x)"
  by (simp_all add: fun_eq_iff)

lemma run_Many: "run (Many r) x = concat (map (run (Many r)) (nearer x (run r x))) @ [x]"
  using again_unfold [of True r x] by (simp only: run_repeat Let_def if_True)

lemma run_Few: "run (Few r) x = x # concat (map (run (Few r)) (nearer x (run r x)))"
  using again_unfold [of False r x] by (simp only: run_repeat Let_def if_False)

declare run.simps(5,6) [simp del]

subsection \<open>Repeated characters\<close>

text \<open>The place \<open>k\<close> characters on.\<close>

definition forward :: "nat \<Rightarrow> place \<Rightarrow> place" where
  "forward k x = x\<lparr>behind := rev (take k (ahead x)) @ behind x, ahead := drop k (ahead x)\<rparr>"

lemma forward_simps [simp]:
  "forward 0 x = x" "ahead (forward k x) = drop k (ahead x)" "caught (forward k x) = caught x"
  "behind (forward k x) = rev (take k (ahead x)) @ behind x"
  by (simp_all add: forward_def)

lemma forward_Suc: "ahead x = c # s \<Longrightarrow> forward (Suc k) x = forward k (x\<lparr>behind := c # behind x, ahead := s\<rparr>)"
  by (simp add: forward_def)

lemma run_Chars: "run (Chars P) x = (if ahead x \<noteq> [] \<and> P (hd (ahead x)) then [forward 1 x] else [])"
  by (cases "ahead x") (simp_all add: forward_def)

lemma nearer_Chars: "ahead x = c # s \<Longrightarrow>
    nearer x (run (Chars P) x) = (if P c then [x\<lparr>behind := c # behind x, ahead := s\<rparr>] else [])"
  unfolding nearer_def run.simps by (cases "P c") (simp_all only: list.simps if_True if_False filter.simps place.simps list.size, simp_all)

lemma run_Many_Cons: "ahead x = c # s \<Longrightarrow>
    run (Many (Chars P)) x = (if P c then run (Many (Chars P)) (x\<lparr>behind := c # behind x, ahead := s\<rparr>) else []) @ [x]"
  unfolding run_Many [of _ x] nearer_Chars by (simp only: if_distrib list.map concat.simps append_Nil2 split: if_split; simp)

lemma run_Few_Cons: "ahead x = c # s \<Longrightarrow>
    run (Few (Chars P)) x = x # (if P c then run (Few (Chars P)) (x\<lparr>behind := c # behind x, ahead := s\<rparr>) else [])"
  unfolding run_Few [of _ x] nearer_Chars by (simp only: if_distrib list.map concat.simps append_Nil2 split: if_split; simp)

lemma down_Suc: "map f (rev [0..<Suc (Suc n)]) = map (\<lambda>k. f (Suc k)) (rev [0..<Suc n]) @ [f 0]"
  by (induction n) simp_all

lemma up_Suc: "map f [0..<Suc (Suc n)] = f 0 # map (\<lambda>k. f (Suc k)) [0..<Suc n]"
  by (induction n) simp_all

lemma run_Many_Chars:
  "run (Many (Chars P)) x = map (\<lambda>k. forward k x) (rev [0..<Suc (length (takeWhile P (ahead x)))])"
proof (induction "ahead x" arbitrary: x)
  case Nil
  then show ?case by (subst run_Many) (simp add: nearer_def)
next
  case (Cons c s)
  note x = Cons.hyps(2) [symmetric]
  show ?case
    using Cons.hyps(1) [of "x\<lparr>behind := c # behind x, ahead := s\<rparr>"]
    by (simp add: run_Many_Cons [OF x] x forward_Suc [OF x] down_Suc del: upt_Suc) simp
qed

lemma run_Few_Chars:
  "run (Few (Chars P)) x = map (\<lambda>k. forward k x) [0..<Suc (length (takeWhile P (ahead x)))]"
proof (induction "ahead x" arbitrary: x)
  case Nil
  then show ?case by (subst run_Few) (simp add: nearer_def)
next
  case (Cons c s)
  note x = Cons.hyps(2) [symmetric]
  show ?case
    using Cons.hyps(1) [of "x\<lparr>behind := c # behind x, ahead := s\<rparr>"]
    by (simp add: run_Few_Cons [OF x] x forward_Suc [OF x] up_Suc del: upt_Suc) simp
qed

lemma run_lit: "run (lit w) x = (if starts_with w (ahead x) then [forward (length w) x] else [])"
proof (induction w arbitrary: x)
  case (Cons c w)
  then show ?case by (cases "ahead x") (auto simp: starts_with_def forward_Suc)
qed (simp add: starts_with_def)

subsection \<open>The first match\<close>

text \<open>\<open>first r x\<close> is the place the engine stops at.\<close>

definition first :: "re \<Rightarrow> place \<Rightarrow> place option" where
  "first r x = (case run r x of [] \<Rightarrow> None | y # _ \<Rightarrow> Some y)"

lemma first_None: "first r x = None \<longleftrightarrow> run r x = []"
  by (simp add: first_def split: list.splits)

lemma first_Some: "first r x = Some y \<longleftrightarrow> (\<exists>ys. run r x = y # ys)"
  by (auto simp: first_def split: list.splits)

lemma first_Cat: "first r x = Some y \<Longrightarrow> first q y = Some z \<Longrightarrow> first (Cat r q) x = Some z"
  by (auto simp: first_Some)

lemma first_Group: "first r x = Some y \<Longrightarrow> first (Group n r) x = Some (y\<lparr>caught := (n, between x y) # caught y\<rparr>)"
  by (auto simp: first_Some)

lemma first_lit: "ahead x = w @ s \<Longrightarrow> first (lit w) x = Some (forward (length w) x)"
  by (simp add: first_def run_lit starts_with_def)

lemma first_Chars: "ahead x = c # s \<Longrightarrow> P c \<Longrightarrow> first (Chars P) x = Some (forward 1 x)"
  by (simp add: first_def run_Chars)

definition stops :: "(char \<Rightarrow> bool) \<Rightarrow> string \<Rightarrow> bool" where
  "stops P s \<longleftrightarrow> s = [] \<or> \<not> P (hd s)"

lemma takeWhile_stops: "list_all P u \<Longrightarrow> stops P s \<Longrightarrow> takeWhile P (u @ s) = u"
  by (cases s) (auto simp: stops_def list_all_iff takeWhile_append)

lemma first_Many: "ahead x = u @ s \<Longrightarrow> list_all P u \<Longrightarrow> stops P s \<Longrightarrow>
    first (Many (Chars P)) x = Some (forward (length u) x)"
  by (simp add: first_def run_Many_Chars takeWhile_stops)

lemma first_some_of:
  assumes "ahead x = u @ s" "u \<noteq> []" "list_all P u" "stops P s"
  shows "first (some_of P) x = Some (forward (length u) x)"
proof -
  obtain c v where u: "u = c # v" using assms(2) by (cases u) auto
  have "first (Chars P) x = Some (forward 1 x)" using first_Chars [of x c "v @ s"] assms u by simp
  moreover have "first (Many (Chars P)) (forward 1 x) = Some (forward (length v) (forward 1 x))"
    by (rule first_Many [where s = s]) (use assms u in simp_all)
  moreover have "forward (length v) (forward 1 x) = forward (length u) x" using assms u by (simp add: forward_def)
  ultimately show ?thesis unfolding some_of_def using first_Cat by metis
qed

text \<open>A repetition that has to give characters back: it keeps the last \<open>k\<close> from which the rest matches.\<close>

lemma first_Many_back:
  assumes "k \<le> length (takeWhile P (ahead x))" "first q (forward k x) = Some z"
    and "\<And>i. k < i \<Longrightarrow> i \<le> length (takeWhile P (ahead x)) \<Longrightarrow> run q (forward i x) = []"
  shows "first (Cat (Many (Chars P)) q) x = Some z"
proof -
  let ?n = "length (takeWhile P (ahead x))"
  have "[0..<Suc ?n] = [0..<k] @ k # [Suc k..<Suc ?n]"
    using assms(1) by (metis le_add_diff_inverse le_imp_less_Suc upt_add_eq_append upt_conv_Cons zero_le less_imp_le)
  then have "run (Cat (Many (Chars P)) q) x = concat (map (\<lambda>i. run q (forward i x)) (rev [Suc k..<Suc ?n])) @
      run q (forward k x) @ concat (map (\<lambda>i. run q (forward i x)) (rev [0..<k]))"
    by (simp add: run_Many_Chars comp_def del: upt_Suc)
  moreover have "concat (map (\<lambda>i. run q (forward i x)) (rev [Suc k..<Suc ?n])) = []" using assms(3) by auto
  ultimately show ?thesis using assms(2) unfolding first_Some by (metis append_Cons append_Nil)
qed

lemma run_Cat_lit: "run (Cat (lit w) q) x = (if starts_with w (ahead x) then run q (forward (length w) x) else [])"
  by (simp add: run_lit)

subsection \<open>The loop\<close>

lemma scan_hit:
  assumes "first r (spot d s) = Some y" "length (ahead y) < length s"
  shows "scan r d s = Inr (hit_of (spot d s) y) # scan r (behind y) (ahead y)"
  using assms by (subst scan.simps) (auto simp: first_Some)

lemma scan_miss: "run r (spot d (c # s)) = [] \<Longrightarrow> scan r d (c # s) = Inl c # scan r (c # d) s"
  by (subst scan.simps) simp

lemma scan_Nil: "run r (spot d []) = [] \<Longrightarrow> scan r d [] = []"
  by (subst scan.simps) simp

lemma scan_skip:
  assumes "\<And>v w. u = v @ w \<Longrightarrow> w \<noteq> [] \<Longrightarrow> run r (spot (rev v @ d) (w @ s)) = []"
  shows "scan r d (u @ s) = map Inl u @ scan r (rev u @ d) s"
  using assms
proof (induction u arbitrary: d)
  case (Cons c u)
  have "scan r (c # d) (u @ s) = map Inl u @ scan r (rev u @ c # d) s"
    by (rule Cons.IH) (use Cons.prems [of "c # _"] in simp)
  then show ?case using scan_miss [of r d c "u @ s"] Cons.prems [of "[]" "c # u"] by simp
qed simp

lemma hits_of_append [simp]: "hits_of (ps @ qs) = hits_of ps @ hits_of qs" "hits_of (map Inl u) = []"
proof -
  show "hits_of (ps @ qs) = hits_of ps @ hits_of qs" by (induction ps rule: hits_of.induct) auto
qed (induction u; simp)

lemma put_append [simp]: "put f (ps @ qs) = put f ps @ put f qs" "put f (map Inl u) = u"
proof -
  show "put f (ps @ qs) = put f ps @ put f qs" by (induction f ps rule: put.induct) auto
qed (induction u; simp)

text \<open>The pieces of a text are the text, and there is no hit exactly where no place of the text matches.\<close>

lemma scan_text: "put hit_text (scan r d s) = s"
proof (induction r d s rule: scan.induct)
  case (1 r d s)
  show ?case
  proof (cases "run r (spot d s)")
    case Nil
    then show ?thesis using 1(1) [OF Nil] by (subst scan.simps) (simp split: list.splits)
  next
    case (Cons y ys)
    then have "reads (spot d s) y" using run_reads by (metis list.set_intros(1))
    then have s: "s = between (spot d s) y @ ahead y" using reads_between by (fastforce simp: spot_def)
    then have "between (spot d s) y = []" if "\<not> length (ahead y) < length s"
      using that by (metis (no_types) length_append length_greater_0_conv less_add_same_cancel2)
    then show ?thesis using Cons s 1(2,3) by (subst scan.simps) (auto simp: hit_of_def split: list.splits)
  qed
qed

lemma no_hits_iff: "hits_of (scan r d s) = [] \<longleftrightarrow> (\<forall>u v. s = u @ v \<longrightarrow> run r (spot (rev u @ d) v) = [])"
proof (induction s arbitrary: d)
  case Nil
  then show ?case by (subst scan.simps) (auto split: list.splits)
next
  case (Cons c s)
  have "(\<forall>u v. c # s = u @ v \<longrightarrow> run r (spot (rev u @ d) v) = []) \<longleftrightarrow>
      run r (spot d (c # s)) = [] \<and> (\<forall>u v. s = u @ v \<longrightarrow> run r (spot (rev u @ c # d) v) = [])"
    (is "?l \<longleftrightarrow> ?r")
  proof
    assume l: ?l
    have "run r (spot (rev u @ c # d) v) = []" if "s = u @ v" for u v
      using l [rule_format, of "c # u" v] that by simp
    then show ?r using l [rule_format, of "[]" "c # s"] by simp
  qed (auto simp: Cons_eq_append_conv)
  moreover have "hits_of (scan r d (c # s)) = [] \<longleftrightarrow> run r (spot d (c # s)) = [] \<and> hits_of (scan r (c # d) s) = []"
    by (subst scan.simps) (auto split: list.splits)
  ultimately show ?case using Cons.IH by simp
qed

text \<open>A replacement by what was matched changes nothing.\<close>

lemma put_same: "(\<And>h. Inr h \<in> set ps \<Longrightarrow> f h = g h) \<Longrightarrow> put f ps = put g ps"
  by (induction f ps rule: put.induct) auto

subsection \<open>Patterns that take a known text\<close>

text \<open>Wherever \<open>u\<close> is followed by a text in \<open>F\<close>, the pattern stops after \<open>u\<close> with the groups \<open>cs\<close>.\<close>

definition takes :: "re \<Rightarrow> string \<Rightarrow> (nat \<times> string) list \<Rightarrow> (string \<Rightarrow> bool) \<Rightarrow> bool" where
  "takes r u cs F \<longleftrightarrow> (\<forall>x s. ahead x = u @ s \<longrightarrow> F s \<longrightarrow>
     first r x = Some (x\<lparr>behind := rev u @ behind x, ahead := s, caught := cs @ caught x\<rparr>))"

lemma takes_lit: "takes (lit w) w [] F"
  unfolding takes_def by (auto simp: first_lit forward_def)

lemma takes_some_of: "u \<noteq> [] \<Longrightarrow> list_all P u \<Longrightarrow> takes (some_of P) u [] (stops P)"
  unfolding takes_def by (auto simp: first_some_of forward_def)

lemma takes_Many: "list_all P u \<Longrightarrow> takes (Many (Chars P)) u [] (stops P)"
  unfolding takes_def by (auto simp: first_Many forward_def)

lemma takes_Chars: "P c \<Longrightarrow> takes (Chars P) [c] [] F"
  unfolding takes_def by (auto simp: first_Chars forward_def)

lemma takes_Cat:
  assumes "takes r u cs F" "takes q v ds G" "\<And>s. G s \<Longrightarrow> F (v @ s)"
  shows "takes (Cat r q) (u @ v) (ds @ cs) G"
  unfolding takes_def
proof (intro allI impI)
  fix x :: place and s assume x: "ahead x = (u @ v) @ s" "G s"
  let ?y = "x\<lparr>behind := rev u @ behind x, ahead := v @ s, caught := cs @ caught x\<rparr>"
  have "first r x = Some ?y" using assms(1,3) x by (simp add: takes_def)
  moreover have "first q ?y = Some (?y\<lparr>behind := rev v @ behind ?y, ahead := s, caught := ds @ caught ?y\<rparr>)"
    using assms(2) x(2) by (simp add: takes_def)
  ultimately show "first (Cat r q) x = Some (x\<lparr>behind := rev (u @ v) @ behind x, ahead := s, caught := (ds @ cs) @ caught x\<rparr>)"
    using first_Cat by simp
qed

lemma takes_Group: "takes r u cs F \<Longrightarrow> takes (Group n r) u ((n, u) # cs) F"
  unfolding takes_def
proof (intro allI impI)
  fix x :: place and s assume t: "\<forall>x s. ahead x = u @ s \<longrightarrow> F s \<longrightarrow>
      first r x = Some (x\<lparr>behind := rev u @ behind x, ahead := s, caught := cs @ caught x\<rparr>)" and x: "ahead x = u @ s" "F s"
  from t x have "first r x = Some (x\<lparr>behind := rev u @ behind x, ahead := s, caught := cs @ caught x\<rparr>)" by blast
  from first_Group [OF this, of n]
  show "first (Group n r) x = Some (x\<lparr>behind := rev u @ behind x, ahead := s, caught := ((n, u) # cs) @ caught x\<rparr>)"
    using x by (simp add: between_def)
qed

lemma takes_weaken: "takes r u cs F \<Longrightarrow> (\<And>s. G s \<Longrightarrow> F s) \<Longrightarrow> takes r u cs G"
  unfolding takes_def by blast

lemma concat_concat_map: "concat (map f (concat (map g zs))) = concat (map (\<lambda>z. concat (map f (g z))) zs)"
  by (induction zs) simp_all

lemma run_Cat_assoc: "run (Cat (Cat r q) p) x = run (Cat r (Cat q p)) x"
proof -
  have "run (Cat q p) = (\<lambda>z. concat (map (run p) (run q z)))" by (simp add: fun_eq_iff)
  then show ?thesis by (simp only: run.simps(3) concat_concat_map)
qed

lemma scan_takes:
  assumes "takes r u cs F" "u \<noteq> []" "F s"
  shows "scan r d (u @ s) = Inr \<lparr>hit_text = u, hit_groups = cs\<rparr> # scan r (rev u @ d) s"
proof -
  have "first r (spot d (u @ s)) = Some (spot d (u @ s)\<lparr>behind := rev u @ d, ahead := s, caught := cs\<rparr>)"
    using assms(1,3) by (simp add: takes_def spot_def)
  from scan_hit [OF this] show ?thesis using assms(2) by (simp add: hit_of_def between_def spot_def)
qed

text \<open>A pattern that begins with a literal matches only where the literal is.\<close>

definition opens_with :: "string \<Rightarrow> re \<Rightarrow> bool" where
  "opens_with w r \<longleftrightarrow> (\<forall>x. run r x \<noteq> [] \<longrightarrow> starts_with w (ahead x))"

lemma opens_with_Cat: "opens_with w (Cat (lit w) q)" "opens_with w (lit w)"
  by (simp_all add: opens_with_def run_lit)

lemma run_closed: "opens_with w r \<Longrightarrow> \<not> starts_with w s \<Longrightarrow> run r (spot d s) = []"
  by (auto simp: opens_with_def spot_def)

lemma scan_pass:
  assumes "opens_with w r" "\<And>v z. u = v @ z \<Longrightarrow> z \<noteq> [] \<Longrightarrow> \<not> starts_with w (z @ s)"
  shows "scan r d (u @ s) = map Inl u @ scan r (rev u @ d) s"
  by (rule scan_skip) (use assms run_closed in blast)

lemma starts_with_Cons: "starts_with (c # w) s \<Longrightarrow> s \<noteq> [] \<and> hd s = c"
  by (cases s) (auto simp: starts_with_def)

lemma scan_pass_char:
  assumes "opens_with (c # w) r" "c \<notin> set u"
  shows "scan r d (u @ s) = map Inl u @ scan r (rev u @ d) s"
  by (rule scan_pass [OF assms(1)]) (use assms(2) in \<open>auto dest!: starts_with_Cons simp: hd_append\<close>)

lemma scan_end: "opens_with (c # w) r \<Longrightarrow> scan r d [] = []"
  by (rule scan_Nil) (simp add: run_closed starts_with_def)

subsection \<open>Repetitions with one way to go on\<close>

text \<open>When what follows a repetition cannot begin with one of its characters, only the longest repetition goes on.\<close>

definition begins :: "(char \<Rightarrow> bool) \<Rightarrow> re \<Rightarrow> bool" where
  "begins C r \<longleftrightarrow> (\<forall>x. run r x \<noteq> [] \<longrightarrow> ahead x \<noteq> [] \<and> C (hd (ahead x)))"

lemma begins_Cat: "begins C r \<Longrightarrow> begins C (Cat r q)"
  unfolding begins_def by force

lemma begins_Group: "begins C r \<Longrightarrow> begins C (Group n r)"
  unfolding begins_def by simp

lemma begins_Chars: "begins P (Chars P)"
  unfolding begins_def by (simp add: run_Chars del: run.simps(1))

lemma begins_lit: "begins ((=) c) (lit (c # w))"
  unfolding lit.simps by (intro begins_Cat begins_Chars)

lemma begins_some_of: "begins P (some_of P)"
  unfolding some_of_def by (intro begins_Cat begins_Chars)

lemma run_off: "begins C q \<Longrightarrow> stops C (ahead x) \<Longrightarrow> run q x = []"
  unfolding begins_def stops_def by blast

lemma takeWhile_nth: "k < length (takeWhile P s) \<Longrightarrow> P (s ! k)"
  by (metis nth_mem set_takeWhileD takeWhile_nth)

lemma run_Cat_Many:
  assumes "begins C q" "\<And>c. C c \<Longrightarrow> \<not> P c"
  shows "run (Cat (Many (Chars P)) q) x = run q (forward (length (takeWhile P (ahead x))) x)"
proof -
  let ?n = "length (takeWhile P (ahead x))"
  have "run q (forward k x) = []" if "k < ?n" for k
  proof (rule run_off [OF assms(1)])
    have "k < length (ahead x)" using that length_takeWhile_le [of P "ahead x"] by linarith
    then show "stops C (ahead (forward k x))"
      using assms(2) takeWhile_nth [OF that] by (auto simp: stops_def hd_drop_conv_nth)
  qed
  then have "concat (map (\<lambda>k. run q (forward k x)) (rev [0..<?n])) = []" by simp
  then show ?thesis by (simp add: run_Many_Chars comp_def)
qed

lemma run_Cat_span:
  assumes "begins C q" "\<And>c. C c \<Longrightarrow> \<not> P c" "ahead x = u @ s" "list_all P u" "stops P s"
  shows "run (Cat (Many (Chars P)) q) x = run q (x\<lparr>behind := rev u @ behind x, ahead := s\<rparr>)"
  using run_Cat_Many [where P = P and x = x, OF assms(1,2)] assms(3-5) by (simp add: takeWhile_stops forward_def)

lemma run_Cat_group:
  assumes "begins C q" "\<And>c. C c \<Longrightarrow> \<not> P c" "ahead x = u @ s" "u \<noteq> []" "list_all P u" "stops P s"
  shows "run (Cat (Group n (some_of P)) q) x = run q (x\<lparr>behind := rev u @ behind x, ahead := s, caught := (n, u) # caught x\<rparr>)"
proof -
  obtain c v where u: "u = c # v" using assms(4) by (cases u) auto
  let ?g = "\<lambda>y. y\<lparr>caught := (n, between x y) # caught y\<rparr>" and ?y = "forward 1 x" and ?m = "length v"
  have tw: "takeWhile P (ahead ?y) = v" using assms(3,5,6) by (simp add: u takeWhile_stops)
  have "run (some_of P) x = map (\<lambda>k. forward k ?y) (rev [0..<Suc ?m])"
    using assms(3,5) tw by (simp add: some_of_def run_Chars u run_Many_Chars del: upt_Suc run.simps(1) forward_simps(2))
  then have "run (Cat (Group n (some_of P)) q) x = concat (map (\<lambda>k. run q (?g (forward k ?y))) (rev [0..<Suc ?m]))"
    by (simp add: comp_def del: upt_Suc)
  moreover have "run q (?g (forward k ?y)) = []" if "k < ?m" for k
  proof (rule run_off [OF assms(1)])
    have "P (v ! k)" using assms(5) that by (simp add: u list_all_iff)
    then show "stops C (ahead (?g (forward k ?y)))"
      using that assms(2,3) by (auto simp: stops_def u hd_drop_conv_nth hd_append nth_append)
  qed
  then have "concat (map (\<lambda>k. run q (?g (forward k ?y))) (rev [0..<?m])) = []" by simp
  moreover have "?g (forward ?m ?y) = x\<lparr>behind := rev u @ behind x, ahead := s, caught := (n, u) # caught x\<rparr>"
    using assms(3) by (simp add: u forward_def between_def)
  ultimately show ?thesis by simp
qed

lemma run_Cat_Few:
  "run (Cat (Few (Chars P)) q) x \<noteq> [] \<longleftrightarrow> (\<exists>k \<le> length (takeWhile P (ahead x)). run q (forward k x) \<noteq> [])"
proof -
  have "run (Cat (Few (Chars P)) q) x = concat (map (\<lambda>k. run q (forward k x)) [0..<Suc (length (takeWhile P (ahead x)))])"
    by (simp add: run_Few_Chars comp_def del: upt_Suc)
  then show ?thesis by (auto simp: less_Suc_eq_le simp del: upt_Suc)
qed

end
