(* ===== verification/Openapi_Sync.thy ===== *)
theory Openapi_Sync
  imports Js_Regex
begin

section \<open>The gate between the server and its published interface\<close>

text \<open>
  \<open>qv-ops/scripts/openapi-sync.mjs\<close>: the routes and the error codes that occur in the text of
  \<open>server-sovereign.mjs\<close> against the paths of \<open>openapi.yaml\<close> and the codes of \<open>error-codes.md\<close>. The three texts are
  arguments, \<open>None\<close> for a file that does not exist. A \<open>Map\<close> of \<open>Set\<close>s is an association list of lists, a \<open>Set\<close> a list
  without duplicates. The message texts are a \<open>violation\<close>, the verbose output is left out.
  The lemmas say when the gate passes, that the routes written in the source are the ones it compares, and
  that the spellings of a route agree.
\<close>

definition sq :: char where "sq = CHR 0x27"
definition dq :: char where "dq = CHR 0x22"
definition bslash :: char where "bslash = CHR 0x5C"
definition newline :: char where "newline = CHR 0x0A"
definition carriage :: char where "carriage = CHR 0x0D"

type_synonym route_map = "(string \<times> string list) list"

subsection \<open>Paths\<close>

definition key_param :: string where "key_param = ''{keyId}''"

definition normalise_express_path :: "string \<Rightarrow> string" where
  "normalise_express_path p =
     replace_all (cat [lit '':'', Group 1 (Cat (Chars is_alpha) (Many (Chars is_word)))]) (\<lambda>h. ''{'' @ group 1 h @ ''}'') p"

definition normalise_regex_literal :: "string \<Rightarrow> string" where
  "normalise_regex_literal re =
     (let s = replace_first (cat [lit ''$/'', Text_end]) (\<lambda>_. []) (replace_first (cat [Text_start, lit ''/^'']) (\<lambda>_. []) re);
          s = replace_all (lit [bslash, CHR ''/'']) (\<lambda>_. ''/'') s;
          s = replace_all (lit [bslash, CHR ''.'']) (\<lambda>_. ''.'') s
      in replace_all (lit ''([^/]+)'') (\<lambda>_. key_param) s)"

definition canonicalise_path_params :: "string \<Rightarrow> string" where
  "canonicalise_path_params p =
     replace_all (cat [lit ''{'', Chars (\<lambda>c. is_alpha c \<or> c = CHR ''_''), Many (Chars is_word), lit ''}'']) (\<lambda>_. key_param) p"

subsection \<open>The server's side\<close>

fun add_route :: "route_map \<Rightarrow> string \<Rightarrow> string \<Rightarrow> route_map" where
  "add_route [] p m = [(p, [m])]"
| "add_route ((q, ms) # rs) p m =
     (if q = p then (q, if m \<in> set ms then ms else ms @ [m]) # rs else (q, ms) # add_route rs p m)"

definition declaration_start :: "re list" where
  "declaration_start = [lit ''route('', blanks, lit [sq], Group 1 (some_of is_upper), lit [sq], blanks, lit '','', blanks]"

definition re_string :: re where
  "re_string = cat (declaration_start @ [lit [sq], Group 2 (some_of (\<lambda>c. c \<noteq> sq)), lit [sq]])"

definition re_regex :: re where
  "re_regex = cat (declaration_start @ [Group 2 (cat [lit ''/'', some_of (\<lambda>c. c \<noteq> CHR '',''), lit ''/''])])"

definition extract_server_routes :: "string \<Rightarrow> route_map" where
  "extract_server_routes src =
     (let add = (\<lambda>norm rs h. add_route rs (canonicalise_path_params (norm (group 2 h))) (group 1 h));
          rs = foldl (add normalise_express_path) [] (match_all re_string src)
      in foldl (add normalise_regex_literal) rs (match_all re_regex src))"

definition add_code :: "string list \<Rightarrow> string \<Rightarrow> string list" where
  "add_code cs c = (if c \<in> set cs then cs else cs @ [c])"

definition is_code :: "char \<Rightarrow> bool" where
  "is_code c \<longleftrightarrow> is_upper c \<or> is_dec c \<or> c = CHR ''_''"

definition re_err :: re where
  "re_err = cat [Edge, lit ''err('', blanks, Chars (\<lambda>c. is_alpha c \<or> c = CHR ''_''), Many (Chars is_word), blanks, lit '','', blanks,
     some_of is_dec, blanks, lit '','', blanks, Chars (one_of [sq, dq]), Group 1 (Cat (Chars is_upper) (Many (Chars is_code))),
     Chars (one_of [sq, dq])]"

definition re_code :: re where
  "re_code = cat [lit ''code'', blanks, lit '':'', blanks, Chars (one_of [sq, dq]),
     Group 1 (Cat (Chars is_upper) (some_of is_code)), Chars (one_of [sq, dq])]"

definition extract_server_error_codes :: "string \<Rightarrow> string list" where
  "extract_server_error_codes src =
     (let codes = foldl (\<lambda>cs h. add_code cs (group 1 h)) [] (match_all re_err src)
      in foldl (\<lambda>cs h. add_code cs (group 1 h)) codes (match_all re_code src))"

subsection \<open>The specification's side\<close>

definition re_paths :: re where
  "re_paths = cat [lit ([newline] @ ''paths:'' @ [newline]), Group 1 (Few (Chars (\<lambda>_. True))),
     Peek (any_of [cat [lit [newline], some_of is_alpha, lit ('':'' @ [newline])], Text_end])]"

text \<open>\<open>block.split(/\r?\n/)\<close>.\<close>

fun drop_carriage :: "string list \<Rightarrow> string list" where
  "drop_carriage [] = []"
| "drop_carriage [l] = [l]"
| "drop_carriage (l # k # ls) = (if l \<noteq> [] \<and> last l = carriage then butlast l else l) # drop_carriage (k # ls)"

definition yaml_lines :: "string \<Rightarrow> string list" where
  "yaml_lines s = drop_carriage (split_on newline s)"

definition re_path_line :: re where
  "re_path_line = cat [Text_start, lit ''  '', Group 1 (cat [lit ''/'', some_of (\<lambda>c. \<not> is_ws c \<and> c \<noteq> CHR '':'')]), lit '':'', blanks, Text_end]"

definition re_method_line :: re where
  "re_method_line = cat [Text_start, lit ''    '',
     Group 1 (any_of (map lit [''get'', ''post'', ''put'', ''delete'', ''patch'', ''head'', ''options''])), lit '':'']"

text \<open>\<open>toUpperCase\<close> of what \<open>re_method_line\<close> can match.\<close>

definition to_upper_method :: "string \<Rightarrow> string" where
  "to_upper_method s = map (\<lambda>c. if 97 \<le> code c \<and> code c \<le> 122 then char_of (code c - 32) else c) s"

fun has_path :: "route_map \<Rightarrow> string \<Rightarrow> bool" where
  "has_path [] p \<longleftrightarrow> False"
| "has_path ((q, _) # rs) p \<longleftrightarrow> q = p \<or> has_path rs p"

fun spec_line :: "route_map \<times> string option \<Rightarrow> string \<Rightarrow> route_map \<times> string option" where
  "spec_line (rs, cur) line =
     (case match_first re_path_line line of
        Some h \<Rightarrow>
          let p = canonicalise_path_params (group 1 h) in
          (if has_path rs p then rs else rs @ [(p, [])], Some p)
      | None \<Rightarrow>
          (case (cur, match_first re_method_line line) of
             (Some p, Some h) \<Rightarrow> (add_route rs p (to_upper_method (group 1 h)), cur)
           | _ \<Rightarrow> (rs, cur)))"

text \<open>\<open>None\<close> when there is no \<open>paths:\<close> block.\<close>

definition extract_spec_paths :: "string \<Rightarrow> route_map option" where
  "extract_spec_paths yaml =
     (case match_first re_paths yaml of
        None \<Rightarrow> None
      | Some h \<Rightarrow> Some (fst (foldl spec_line ([], None) (yaml_lines (group 1 h)))))"

definition re_quoted_code :: re where
  "re_quoted_code = cat [lit ''`'', Group 1 (cat [Chars is_upper, Chars is_code, some_of is_code]), lit ''`'']"

definition extract_spec_error_codes :: "string \<Rightarrow> string list" where
  "extract_spec_error_codes md =
     foldl (\<lambda>cs h. let c = group 1 h in
         if starts_with ''QV_'' c then cs
         else if c \<in> {''TLS'', ''NIST'', ''AGPL'', ''BUSL'', ''CC''} then cs
         else add_code cs c)
       [] (match_all re_quoted_code md)"

subsection \<open>The comparison\<close>

datatype gate_file = ServerFile | OpenapiFile | ErrdocFile

datatype violation =
    MissingFile gate_file
  | NoPaths
  | PathNotInSpec string "string list"
  | MethodNotInSpec string string
  | PathNotServed string "string list"
  | MethodNotServed string string
  | CodeNotDocumented string

definition missing :: "gate_file \<Rightarrow> string option \<Rightarrow> violation list" where
  "missing f t = (if t = None then [MissingFile f] else [])"

text \<open>One direction: what \<open>rs\<close> has and \<open>qs\<close> has not.\<close>

definition path_drift ::
  "(string \<Rightarrow> string list \<Rightarrow> violation) \<Rightarrow> (string \<Rightarrow> string \<Rightarrow> violation) \<Rightarrow> route_map \<Rightarrow> route_map \<Rightarrow> violation list" where
  "path_drift no_path no_method rs qs =
     concat (map (\<lambda>(p, ms). case map_of qs p of
         None \<Rightarrow> [no_path p ms]
       | Some ds \<Rightarrow> map (\<lambda>m. no_method m p) (filter (\<lambda>m. m \<notin> set ds) ms)) rs)"

definition allow_undocumented :: "string list" where
  "allow_undocumented = [''TIMESTAMP_NOT_NUMERIC'', ''CRYPTO_ERROR'', ''TLS'', ''NIST'', ''AGPL'', ''CC'']"

definition code_drift :: "string list \<Rightarrow> string list \<Rightarrow> violation list" where
  "code_drift server_codes spec_codes =
     map CodeNotDocumented (filter (\<lambda>c. c \<notin> set allow_undocumented \<and> c \<notin> set spec_codes) server_codes)"

definition code_warnings :: "string list \<Rightarrow> string list \<Rightarrow> string list" where
  "code_warnings server_codes spec_codes =
     filter (\<lambda>c. 4 \<le> length c \<and> c \<notin> set server_codes \<and> c \<notin> set allow_undocumented) spec_codes"

record gate_result =
  g_violations :: "violation list"
  g_warnings :: "string list"
  g_exit :: nat

definition gate_done :: "violation list \<Rightarrow> string list \<Rightarrow> gate_result" where
  "gate_done vs ws = \<lparr>g_violations = vs, g_warnings = ws, g_exit = (if vs = [] then 0 else 1)\<rparr>"

text \<open>A specification without a block is the empty map and one violation, ahead of the others.\<close>

definition sync_texts :: "string \<Rightarrow> string \<Rightarrow> string \<Rightarrow> gate_result" where
  "sync_texts src yaml md =
     (let server_routes = extract_server_routes src;
          (spec_paths, vs) = (case extract_spec_paths yaml of None \<Rightarrow> ([], [NoPaths]) | Some rs \<Rightarrow> (rs, []));
          server_codes = extract_server_error_codes src;
          spec_codes = extract_spec_error_codes md
      in gate_done
        (vs @ path_drift PathNotInSpec MethodNotInSpec server_routes spec_paths @
         path_drift PathNotServed MethodNotServed spec_paths server_routes @ code_drift server_codes spec_codes)
        (code_warnings server_codes spec_codes))"

definition sync_main :: "string option \<Rightarrow> string option \<Rightarrow> string option \<Rightarrow> gate_result" where
  "sync_main server openapi errdoc =
     (case (server, openapi, errdoc) of
        (Some src, Some yaml, Some md) \<Rightarrow> sync_texts src yaml md
      | _ \<Rightarrow> gate_done (missing ServerFile server @ missing OpenapiFile openapi @ missing ErrdocFile errdoc) [])"

subsection \<open>What passes\<close>

definition offers :: "route_map \<Rightarrow> string \<Rightarrow> string \<Rightarrow> bool" where
  "offers rs p m \<longleftrightarrow> (\<exists>ms. map_of rs p = Some ms \<and> m \<in> set ms)"

lemma add_route_keys: "fst ` set (add_route rs p m) = insert p (fst ` set rs)"
  by (induction rs p m rule: add_route.induct) auto

lemma add_route_distinct: "distinct (map fst rs) \<Longrightarrow> distinct (map fst (add_route rs p m))"
proof (induction rs p m rule: add_route.induct)
  case (2 q ms rs p m)
  then show ?case by (auto simp: add_route_keys)
qed simp

lemma add_route_offers: "offers (add_route rs p m) q n \<longleftrightarrow> offers rs q n \<or> q = p \<and> n = m"
  by (induction rs p m rule: add_route.induct) (auto simp: offers_def)

lemma map_of_add_route: "map_of (add_route rs p m) q = None \<longleftrightarrow> map_of rs q = None \<and> q \<noteq> p"
  using add_route_keys [of rs p m] by (auto simp: map_of_eq_None_iff)

lemma foldl_add_route: "distinct (map fst rs) \<Longrightarrow> distinct (map fst (foldl (\<lambda>rs h. add_route rs (f h) (g h)) rs hs))"
  by (induction hs arbitrary: rs) (simp_all add: add_route_distinct)

lemma server_distinct: "distinct (map fst (extract_server_routes src))"
  by (simp add: extract_server_routes_def foldl_add_route)

lemma has_path_map_of: "has_path rs p \<longleftrightarrow> map_of rs p \<noteq> None"
  by (induction rs p rule: has_path.induct) auto

lemma spec_line_distinct: "distinct (map fst rs) \<Longrightarrow> distinct (map fst (fst (spec_line (rs, cur) l)))"
  by (auto simp: Let_def has_path_map_of map_of_eq_None_iff add_route_distinct split: option.splits)

lemma spec_distinct: "extract_spec_paths yaml = Some rs \<Longrightarrow> distinct (map fst rs)"
proof -
  have "distinct (map fst (fst x)) \<Longrightarrow> distinct (map fst (fst (foldl spec_line x ls)))" for x ls
  proof (induction ls arbitrary: x)
    case (Cons l ls)
    then show ?case using spec_line_distinct [of "fst x" "snd x" l] by (simp del: spec_line.simps)
  qed simp
  then show "extract_spec_paths yaml = Some rs \<Longrightarrow> distinct (map fst rs)"
    by (auto simp: extract_spec_paths_def split: option.splits)
qed

lemma both_ways:
  "((\<forall>p. \<not> A p \<longrightarrow> \<not> B p) \<and> (\<forall>p m. P p m \<longrightarrow> Q p m)) \<and> ((\<forall>p. \<not> B p \<longrightarrow> \<not> A p) \<and> (\<forall>p m. Q p m \<longrightarrow> P p m)) \<and> C \<longleftrightarrow>
   (\<forall>p. A p \<longleftrightarrow> B p) \<and> (\<forall>p m. P p m \<longleftrightarrow> Q p m) \<and> C"
  by blast

lemma path_drift_none:
  assumes "distinct (map fst rs)"
  shows "path_drift a b rs qs = [] \<longleftrightarrow> (\<forall>p. map_of rs p \<noteq> None \<longrightarrow> map_of qs p \<noteq> None) \<and> (\<forall>p m. offers rs p m \<longrightarrow> offers qs p m)"
proof -
  have "(case map_of qs p of None \<Rightarrow> [a p ms] | Some ds \<Rightarrow> map (\<lambda>m. b m p) (filter (\<lambda>m. m \<notin> set ds) ms)) = [] \<longleftrightarrow>
      (\<exists>ds. map_of qs p = Some ds \<and> set ms \<subseteq> set ds)" for p ms
    by (auto simp: filter_empty_conv split: option.splits)
  then have "path_drift a b rs qs = [] \<longleftrightarrow> (\<forall>(p, ms) \<in> set rs. \<exists>ds. map_of qs p = Some ds \<and> set ms \<subseteq> set ds)"
    by (simp add: path_drift_def case_prod_beta)
  also have "\<dots> \<longleftrightarrow> (\<forall>p ms. map_of rs p = Some ms \<longrightarrow> (\<exists>ds. map_of qs p = Some ds \<and> set ms \<subseteq> set ds))"
    using map_of_eq_Some_iff [OF assms] by auto
  also have "\<dots> \<longleftrightarrow> (\<forall>p. map_of rs p \<noteq> None \<longrightarrow> map_of qs p \<noteq> None) \<and> (\<forall>p m. offers rs p m \<longrightarrow> offers qs p m)"
    (is "?l \<longleftrightarrow> ?r")
  proof
    assume r: ?r
    show ?l
    proof (intro allI impI)
      fix p ms assume p: "map_of rs p = Some ms"
      then obtain ds where "map_of qs p = Some ds" using r by blast
      then show "\<exists>ds. map_of qs p = Some ds \<and> set ms \<subseteq> set ds" using r p by (fastforce simp: offers_def)
    qed
  qed (fastforce simp: offers_def)
  finally show ?thesis .
qed

text \<open>The gate passes exactly when all three files are there, the specification has its \<open>paths\<close> block, both sides have the same
  paths with the same methods, and every error code of the server is documented or on the list of exceptions.\<close>

lemma sync_exit_iff:
  "g_exit (sync_main server openapi errdoc) = 0 \<longleftrightarrow>
   (\<exists>src yaml md spec. server = Some src \<and> openapi = Some yaml \<and> errdoc = Some md \<and> extract_spec_paths yaml = Some spec \<and>
      (\<forall>p. map_of (extract_server_routes src) p = None \<longleftrightarrow> map_of spec p = None) \<and>
      (\<forall>p m. offers (extract_server_routes src) p m \<longleftrightarrow> offers spec p m) \<and>
      set (extract_server_error_codes src) \<subseteq> set (extract_spec_error_codes md) \<union> set allow_undocumented)"
proof (cases "server = None \<or> openapi = None \<or> errdoc = None")
  case True
  then show ?thesis by (auto simp: sync_main_def gate_done_def missing_def split: option.splits)
next
  case False
  then obtain src yaml md where t: "server = Some src" "openapi = Some yaml" "errdoc = Some md" by auto
  have codes: "code_drift cs ds = [] \<longleftrightarrow> set cs \<subseteq> set ds \<union> set allow_undocumented" for cs ds
    by (auto simp: code_drift_def filter_empty_conv)
  show ?thesis
  proof (cases "extract_spec_paths yaml")
    case None
    then show ?thesis by (simp add: t sync_main_def sync_texts_def gate_done_def Let_def)
  next
    case (Some spec)
    let ?rs = "extract_server_routes src"
    have "g_exit (sync_main server openapi errdoc) = 0 \<longleftrightarrow> path_drift PathNotInSpec MethodNotInSpec ?rs spec = [] \<and>
        path_drift PathNotServed MethodNotServed spec ?rs = [] \<and>
        code_drift (extract_server_error_codes src) (extract_spec_error_codes md) = []"
      by (simp add: t Some sync_main_def sync_texts_def gate_done_def Let_def)
    also have "\<dots> \<longleftrightarrow> (\<forall>p. map_of ?rs p = None \<longleftrightarrow> map_of spec p = None) \<and> (\<forall>p m. offers ?rs p m \<longleftrightarrow> offers spec p m) \<and>
        set (extract_server_error_codes src) \<subseteq> set (extract_spec_error_codes md) \<union> set allow_undocumented"
      unfolding path_drift_none [OF server_distinct] path_drift_none [OF spec_distinct [OF Some]] codes by (rule both_ways)
    finally show ?thesis using t Some by simp
  qed
qed

subsection \<open>The routes that are written\<close>

text \<open>A route the way the server declares it, with its path as a text or as a regular expression literal.\<close>

datatype route_decl = Plain string string | Pattern string string

fun decl_text :: "route_decl \<Rightarrow> string" where
  "decl_text (Plain m p) = ''route('' @ [sq] @ m @ [sq] @ '', '' @ [sq] @ p @ [sq]"
| "decl_text (Pattern m b) = ''route('' @ [sq] @ m @ [sq] @ '', '' @ ''/'' @ b @ ''/''"

text \<open>No declaration begins inside.\<close>

definition calm :: "string \<Rightarrow> bool" where
  "calm t \<longleftrightarrow> list_all (\<lambda>k. \<not> starts_with ''route('' (drop k t)) [0..<length t]"

fun well_written :: "route_decl \<Rightarrow> bool" where
  "well_written (Plain m p) \<longleftrightarrow> m \<noteq> [] \<and> list_all is_upper m \<and> p \<noteq> [] \<and> list_all (\<lambda>c. c \<noteq> sq) p \<and> calm (tl (decl_text (Plain m p) @ '',''))"
| "well_written (Pattern m b) \<longleftrightarrow>
     m \<noteq> [] \<and> list_all is_upper m \<and> b \<noteq> [] \<and> list_all (\<lambda>c. c \<noteq> CHR '','') b \<and> calm (tl (decl_text (Pattern m b) @ '',''))"

fun written :: "(string \<times> route_decl) list \<Rightarrow> string \<Rightarrow> string" where
  "written [] end_text = end_text"
| "written ((gap, d) # ds) end_text = gap @ decl_text d @ '','' @ written ds end_text"

fun plain_hits :: "(string \<times> route_decl) list \<Rightarrow> (string \<times> string) list" where
  "plain_hits [] = []"
| "plain_hits ((_, Plain m p) # ds) = (m, p) # plain_hits ds"
| "plain_hits (_ # ds) = plain_hits ds"

fun pattern_hits :: "(string \<times> route_decl) list \<Rightarrow> (string \<times> string) list" where
  "pattern_hits [] = []"
| "pattern_hits ((_, Pattern m b) # ds) = (m, ''/'' @ b @ ''/'') # pattern_hits ds"
| "pattern_hits (_ # ds) = pattern_hits ds"

lemma quote_class [simp]: "\<not> is_ws sq" "\<not> is_upper sq" "\<not> is_ws CHR '',''" "is_ws CHR '' ''"
  by (simp_all add: sq_def is_ws_def is_upper_def code_def)

lemma cat_Cons: "rs \<noteq> [] \<Longrightarrow> cat (r # rs) = Cat r (cat rs)"
  by (cases rs) simp_all

lemma begins_cat: "rs \<noteq> [] \<Longrightarrow> begins C r \<Longrightarrow> begins C (cat (r # rs))"
  by (simp add: cat_Cons begins_Cat)

lemmas run_blanks = run_Cat_span [where P = is_ws, folded blanks_def]

lemma run_declaration:
  assumes "ahead x = ''route('' @ [sq] @ m @ [sq] @ '', '' @ t" "m \<noteq> []" "list_all is_upper m" "stops is_ws t"
    and "qs \<noteq> []" "begins C (cat qs)" "\<And>c. C c \<Longrightarrow> \<not> is_ws c"
  shows "run (cat (declaration_start @ qs)) x =
    run (cat qs) (x\<lparr>behind := rev (''route('' @ [sq] @ m @ [sq] @ '', '') @ behind x, ahead := t, caught := (1, m) # caught x\<rparr>)"
proof -
  obtain bh ca where x: "x = \<lparr>behind = bh, ahead = ''route('' @ [sq] @ m @ [sq] @ '', '' @ t, caught = ca\<rparr>"
    using assms(1) by (cases x) auto
  let ?q7 = "cat qs" let ?q6 = "Cat blanks ?q7" let ?q5 = "Cat (lit '','') ?q6" let ?q4 = "Cat blanks ?q5"
  let ?q3 = "Cat (lit [sq]) ?q4" let ?q2 = "Cat (Group 1 (some_of is_upper)) ?q3" let ?q1 = "Cat (lit [sq]) ?q2" let ?q0 = "Cat blanks ?q1"
  have c: "cat (declaration_start @ qs) = Cat (lit ''route('') ?q0"
    using assms(5) by (simp add: declaration_start_def cat_Cons)
  have b: "begins ((=) sq) ?q1" "begins ((=) sq) ?q3" "begins ((=) CHR '','') ?q5" by (intro begins_Cat begins_lit)+
  let ?x = "\<lambda>u s cs. x\<lparr>behind := rev u @ behind x, ahead := s, caught := cs @ caught x\<rparr>"
  have "run (cat (declaration_start @ qs)) x = run ?q0 (?x ''route('' ([sq] @ m @ [sq] @ '', '' @ t) [])"
    unfolding c run_Cat_lit using assms(1) by (simp add: starts_with_def forward_def)
  also have "\<dots> = run ?q1 (?x ''route('' ([sq] @ m @ [sq] @ '', '' @ t) [])"
    by (rule trans [OF run_blanks [OF b(1), where u = "[]" and s = "[sq] @ m @ [sq] @ '', '' @ t"]]) (auto simp: x stops_def simp del: run.simps)
  also have "\<dots> = run ?q2 (?x (''route('' @ [sq]) (m @ [sq] @ '', '' @ t) [])"
    by (simp add: x run_Cat_lit starts_with_def forward_def del: run.simps lit.simps)
  also have "\<dots> = run ?q3 (?x (''route('' @ [sq] @ m) ([sq] @ '', '' @ t) [(1, m)])"
    by (rule trans [OF run_Cat_group [OF b(2), where u = m and s = "[sq] @ '', '' @ t"]]) (use assms(2,3) in \<open>auto simp: x stops_def simp del: run.simps\<close>)
  also have "\<dots> = run ?q4 (?x (''route('' @ [sq] @ m @ [sq]) ('', '' @ t) [(1, m)])"
    by (simp add: x run_Cat_lit starts_with_def forward_def del: run.simps lit.simps)
  also have "\<dots> = run ?q5 (?x (''route('' @ [sq] @ m @ [sq]) ('', '' @ t) [(1, m)])"
    by (rule trans [OF run_blanks [OF b(3), where u = "[]" and s = "'', '' @ t"]]) (auto simp: x stops_def simp del: run.simps)
  also have "\<dots> = run ?q6 (?x (''route('' @ [sq] @ m @ [sq] @ '','') ('' '' @ t) [(1, m)])"
    by (simp add: x run_Cat_lit starts_with_def forward_def del: run.simps lit.simps)
  also have "\<dots> = run ?q7 (?x (''route('' @ [sq] @ m @ [sq] @ '', '') t [(1, m)])"
    by (rule trans [OF run_blanks [OF assms(6), where u = "'' ''" and s = t]]) (use assms(4,7) in \<open>auto simp: x simp del: run.simps\<close>)
  finally show ?thesis by simp
qed

lemma begins_quoted: "begins ((=) sq) (cat [lit [sq], Group 2 (some_of (\<lambda>c. c \<noteq> sq)), lit [sq]])"
  by (intro begins_cat begins_lit) simp

lemma begins_slashed: "begins ((=) CHR ''/'') (cat [Group 2 (cat [lit ''/'', some_of (\<lambda>c. c \<noteq> CHR '',''), lit ''/''])])"
  by (simp add: begins_Group begins_Cat begins_lit del: lit.simps)

lemma sq_neq [simp]: "sq \<noteq> CHR ''/''" "CHR ''/'' \<noteq> sq" "sq \<noteq> CHR '',''" "CHR '','' \<noteq> sq" by (simp_all add: sq_def)

lemma slash_blank: "\<not> is_ws CHR ''/''" by (simp add: is_ws_def code_def)

lemma string_takes:
  assumes "m \<noteq> []" "list_all is_upper m" "p \<noteq> []" "list_all (\<lambda>c. c \<noteq> sq) p"
  shows "takes re_string (decl_text (Plain m p)) [(2, p), (1, m)] F"
  unfolding takes_def
proof (intro allI impI)
  fix x :: place and s assume x: "ahead x = decl_text (Plain m p) @ s"
  let ?c = "cat [lit [sq], Group 2 (some_of (\<lambda>c. c \<noteq> sq)), lit [sq]]"
  let ?y = "x\<lparr>behind := rev (''route('' @ [sq] @ m @ [sq] @ '', '') @ behind x, ahead := [sq] @ p @ [sq] @ s, caught := (1, m) # caught x\<rparr>"
  have "run re_string x = run ?c ?y"
    unfolding re_string_def by (rule run_declaration [OF _ assms(1,2) _ _ begins_quoted]) (use x in \<open>auto simp: stops_def\<close>)
  also have "\<dots> = run (Cat (Group 2 (some_of (\<lambda>c. c \<noteq> sq))) (lit [sq])) (forward 1 ?y)"
    by (simp add: run_Cat_lit starts_with_def del: run.simps lit.simps)
  also have "\<dots> = run (lit [sq]) (forward 1 ?y\<lparr>behind := rev p @ behind (forward 1 ?y), ahead := [sq] @ s,
      caught := (2, p) # caught (forward 1 ?y)\<rparr>)"
    by (rule run_Cat_group [OF begins_lit]) (use assms in \<open>auto simp: stops_def\<close>)
  finally show "first re_string x = Some (x\<lparr>behind := rev (decl_text (Plain m p)) @ behind x, ahead := s,
      caught := [(2, p), (1, m)] @ caught x\<rparr>)"
    using x by (cases x) (simp add: first_def run_lit starts_with_def forward_def del: lit.simps)
qed

lemma pattern_takes:
  assumes "m \<noteq> []" "list_all is_upper m" "b \<noteq> []" "list_all (\<lambda>c. c \<noteq> CHR '','') b"
  shows "takes re_regex (decl_text (Pattern m b)) [(2, ''/'' @ b @ ''/''), (1, m)] (\<lambda>s. s \<noteq> [] \<and> hd s = CHR '','')"
  unfolding takes_def
proof (intro allI impI)
  fix x :: place and s assume x: "ahead x = decl_text (Pattern m b) @ s" and s: "s \<noteq> [] \<and> hd s = CHR '',''"
  let ?P = "\<lambda>c. c \<noteq> CHR '',''" let ?l = "lit ''/''" let ?g = "Cat ?l (Cat (some_of ?P) ?l)"
  let ?y = "x\<lparr>behind := rev (''route('' @ [sq] @ m @ [sq] @ '', '') @ behind x, ahead := ''/'' @ b @ ''/'' @ s, caught := (1, m) # caught x\<rparr>"
  have "run re_regex x = run (cat [Group 2 (cat [?l, some_of ?P, ?l])]) ?y"
    unfolding re_regex_def
    by (rule run_declaration [OF _ assms(1,2) _ _ begins_slashed]) (use x slash_blank in \<open>auto simp: stops_def\<close>)
  then have r: "run re_regex x = run (Group 2 ?g) ?y" by (simp only: cat.simps)
  obtain c v where b: "b = c # v" "c \<noteq> CHR '',''" "list_all ?P v" using assms(3,4) by (cases b) auto
  let ?z = "forward 1 (forward 1 ?y)"
  have tw: "takeWhile ?P (ahead ?z) = v @ ''/''"
    using takeWhile_stops [of ?P "v @ ''/''" s] s b by (simp add: stops_def)
  have l: "first ?l (forward (length v) ?z) = Some (forward 1 (forward (length v) ?z))"
    by (simp add: first_def run_lit starts_with_def b del: lit.simps)
  have "first (Cat (Many (Chars ?P)) ?l) ?z = Some (forward 1 (forward (length v) ?z))"
  proof (rule first_Many_back [OF _ l])
    fix i assume "length v < i" "i \<le> length (takeWhile ?P (ahead ?z))"
    then have "i = Suc (length v)" using tw by simp
    then show "run ?l (forward i ?z) = []" using s by (cases s) (simp_all add: run_lit starts_with_def b del: lit.simps)
  qed (simp only: tw length_append)
  then have "first (Cat (Chars ?P) (Cat (Many (Chars ?P)) ?l)) (forward 1 ?y) = Some (forward 1 (forward (length v) ?z))"
    using first_Cat [OF first_Chars] b by (simp del: run.simps lit.simps)
  then have "first (Cat (some_of ?P) ?l) (forward 1 ?y) = Some (forward 1 (forward (length v) ?z))"
    unfolding some_of_def first_def run_Cat_assoc .
  then have "first ?g ?y = Some (forward 1 (forward (length v) ?z))"
    using first_Cat [OF first_lit [where w = "''/''" and s = "b @ ''/'' @ s"]] by (simp del: lit.simps)
  from first_Group [OF this, of 2] have "first re_regex x = Some (forward 1 (forward (length v) ?z)
      \<lparr>caught := (2, between ?y (forward 1 (forward (length v) ?z))) # caught (forward 1 (forward (length v) ?z))\<rparr>)"
    by (simp only: first_def r)
  then show "first re_regex x = Some (x\<lparr>behind := rev (decl_text (Pattern m b)) @ behind x, ahead := s,
      caught := [(2, ''/'' @ b @ ''/''), (1, m)] @ caught x\<rparr>)"
    using x by (cases x) (simp add: b forward_def between_def numeral_eq_Suc)
qed

lemma string_not_pattern:
  assumes "m \<noteq> []" "list_all is_upper m" "ahead x = decl_text (Pattern m b) @ s"
  shows "run re_string x = []"
  unfolding re_string_def
  by (subst run_declaration [OF _ assms(1,2) _ _ begins_quoted, where t = "''/'' @ b @ ''/'' @ s"])
    (use assms(3) slash_blank in \<open>auto simp: stops_def run_Cat_lit starts_with_def simp del: run.simps lit.simps\<close>)

lemma regex_not_string:
  assumes "m \<noteq> []" "list_all is_upper m" "ahead x = decl_text (Plain m p) @ s"
  shows "run re_regex x = []"
  unfolding re_regex_def
proof (subst run_declaration [OF _ assms(1,2) _ _ begins_slashed, where t = "[sq] @ p @ [sq] @ s"])
  show "run (cat [Group 2 (cat [lit ''/'', some_of (\<lambda>c. c \<noteq> CHR '',''), lit ''/''])]) (x\<lparr>behind := rev (''route('' @ [sq] @ m @ [sq] @ '', '') @ behind x,
      ahead := [sq] @ p @ [sq] @ s, caught := (1, m) # caught x\<rparr>) = []"
    by (rule run_off [OF begins_slashed]) (simp add: stops_def)
qed (use assms(3) slash_blank in \<open>auto simp: stops_def\<close>)

lemma opens_declaration: "opens_with ''route('' re_string" "opens_with ''route('' re_regex"
  unfolding re_string_def re_regex_def declaration_start_def append_Cons append_Nil cat.simps by (rule opens_with_Cat)+

lemma calm_suffix: "calm (v @ z) \<Longrightarrow> z \<noteq> [] \<Longrightarrow> \<not> starts_with ''route('' z"
proof -
  assume c: "calm (v @ z)" and z: "z \<noteq> []"
  have "length v \<in> set [0..<length (v @ z)]" using z by simp
  then have "\<not> starts_with ''route('' (drop (length v) (v @ z))" using c unfolding calm_def list_all_iff by blast
  then show ?thesis by simp
qed

text \<open>An occurrence that begins in a calm text and leaves it.\<close>

lemma leaves_calm:
  assumes "calm (v @ z)" "z \<noteq> []" "starts_with ''route('' (z @ s)"
  shows "\<exists>n \<in> {1..5}. z = take n ''route('' \<and> starts_with (drop n ''route('') s"
proof -
  have "length z < 6"
  proof (rule ccontr)
    assume "\<not> length z < 6"
    then have "starts_with ''route('' z" using assms(3) by (simp add: starts_with_def)
    then show False using calm_suffix [OF assms(1,2)] by simp
  qed
  then have e: "z @ take (6 - length z) s = ''route(''" using assms(3) by (simp add: starts_with_def numeral_eq_Suc)
  have "z = take (length z) ''route(''" by (simp flip: e)
  moreover have "drop (length z) ''route('' = take (6 - length z) s" by (simp flip: e)
  moreover have "length (drop (length z) ''route('') = 6 - length z" by simp
  ultimately have "z = take (length z) ''route(''" "starts_with (drop (length z) ''route('') s" unfolding starts_with_def by metis+
  then show ?thesis using assms(2) \<open>length z < 6\<close> by (intro bexI [of _ "length z"]) (auto simp: Suc_le_eq)
qed

lemma route_cases: "n \<in> {1..5} \<Longrightarrow> n = 1 \<or> n = 2 \<or> n = 3 \<or> n = 4 \<or> n = (5 :: nat)"
  by auto

lemma scan_gap:
  assumes "opens_with ''route('' r" "calm g"
  shows "scan r d (g @ ''route('' @ s) = map Inl g @ scan r (rev g @ d) (''route('' @ s)"
proof (rule scan_pass [OF assms(1)])
  fix v z assume z: "g = v @ z" "z \<noteq> []"
  show "\<not> starts_with ''route('' (z @ ''route('' @ s)"
  proof
    assume "starts_with ''route('' (z @ ''route('' @ s)"
    from leaves_calm [OF _ z(2) this, of v] obtain n where "n \<in> {1..5}" "starts_with (drop n ''route('') (''route('' @ s)"
      using assms(2) z(1) by blast
    from route_cases [OF this(1)] this(2) show False by (elim disjE) (simp_all add: starts_with_def)
  qed
qed

lemma scan_closed:
  assumes "opens_with ''route('' r" "calm t" "last t = CHR '',''"
  shows "scan r d (t @ s) = map Inl t @ scan r (rev t @ d) s"
proof (rule scan_pass [OF assms(1)])
  fix v z assume z: "t = v @ z" "z \<noteq> []"
  show "\<not> starts_with ''route('' (z @ s)"
  proof
    assume "starts_with ''route('' (z @ s)"
    from leaves_calm [OF _ z(2) this, of v] obtain n where n: "n \<in> {1..5}" "z = take n ''route(''" using assms(2) z(1) by blast
    moreover have "last z = CHR '',''" using assms(3) z by simp
    ultimately show False using route_cases [OF n(1)] n(2) by (elim disjE) simp_all
  qed
qed

lemma scan_calm_end:
  assumes "opens_with ''route('' r" "calm t"
  shows "hits_of (scan r d t) = []"
proof -
  have "scan r d (t @ []) = map Inl t @ scan r (rev t @ d) []"
  proof (rule scan_pass [OF assms(1)])
    fix v z assume z: "t = v @ z" "z \<noteq> []"
    then show "\<not> starts_with ''route('' (z @ [])" using calm_suffix assms(2) by simp
  qed
  then show ?thesis using scan_end [OF assms(1)] by simp
qed

lemma decl_text_start: "decl_text d = ''route('' @ drop 6 (decl_text d)"
  by (cases d) simp_all

lemma scan_to_declaration:
  assumes "opens_with ''route('' r" "calm g"
  shows "scan r b (g @ decl_text d @ s) = map Inl g @ scan r (rev g @ b) (decl_text d @ s)"
proof -
  have "decl_text d @ s = ''route('' @ drop 6 (decl_text d) @ s" using decl_text_start [of d] by (metis append_assoc)
  then show ?thesis using scan_gap [OF assms] by metis
qed

lemma scan_declared:
  assumes "opens_with ''route('' r" "calm g" "takes r (decl_text d) cs F" "F (CHR '','' # s)"
  shows "hits_of (scan r b (g @ decl_text d @ '','' @ s)) =
    \<lparr>hit_text = decl_text d, hit_groups = cs\<rparr> # hits_of (scan r (CHR '','' # rev (decl_text d) @ rev g @ b) s)"
proof -
  have "scan r b (g @ decl_text d @ '','' @ s) = map Inl g @ scan r (rev g @ b) (decl_text d @ '','' @ s)"
    by (rule scan_to_declaration [OF assms(1,2)])
  moreover have "decl_text d \<noteq> []" by (cases d) simp_all
  ultimately show ?thesis
    using scan_takes [OF assms(3), of "'','' @ s"] assms(4) scan_pass_char [of "CHR ''r''" "''oute(''" r "'',''" _ s] assms(1) by simp
qed

lemma scan_undeclared:
  assumes "opens_with ''route('' r" "calm g" "\<And>x s. ahead x = decl_text d @ s \<Longrightarrow> run r x = []" "calm (tl (decl_text d @ '',''))"
  shows "hits_of (scan r b (g @ decl_text d @ '','' @ s)) = hits_of (scan r (CHR '','' # rev (decl_text d) @ rev g @ b) s)"
proof -
  obtain u where d: "decl_text d = CHR ''r'' # u" by (cases d) simp_all
  have "scan r b (g @ decl_text d @ '','' @ s) = map Inl g @ scan r (rev g @ b) (CHR ''r'' # (u @ '','') @ s)"
    using scan_to_declaration [OF assms(1,2), of b d "'','' @ s"] d by simp
  also have "scan r (rev g @ b) (CHR ''r'' # (u @ '','') @ s) = Inl CHR ''r'' # scan r (CHR ''r'' # rev g @ b) ((u @ '','') @ s)"
    by (rule scan_miss, rule assms(3)) (simp add: spot_def d)
  also have "scan r (CHR ''r'' # rev g @ b) ((u @ '','') @ s) = map Inl (u @ '','') @ scan r (rev (u @ '','') @ CHR ''r'' # rev g @ b) s"
    by (rule scan_closed [OF assms(1)]) (use assms(4) d in simp_all)
  finally show ?thesis by (simp add: d)
qed

definition found :: "hit \<Rightarrow> string \<times> string" where
  "found h = (group 1 h, group 2 h)"

lemma declarations_found:
  assumes "\<forall>(g, d) \<in> set ds. calm g \<and> well_written d" "calm e"
  shows "map found (hits_of (scan re_string b (written ds e))) = plain_hits ds"
    "map found (hits_of (scan re_regex b (written ds e))) = pattern_hits ds"
proof -
  note o = opens_declaration and ok = decl_text.simps
  show "map found (hits_of (scan re_string b (written ds e))) = plain_hits ds" using assms
  proof (induction ds e arbitrary: b rule: written.induct)
    case (2 g d ds e)
    then have g: "calm g" "well_written d" by simp_all
    show ?case
    proof (cases d)
      case (Plain m p)
      have "takes re_string (decl_text d) [(2, p), (1, m)] (\<lambda>_. True)" unfolding Plain by (rule string_takes) (use g(2) Plain in simp_all)
      from scan_declared [OF o(1) g(1) this] show ?thesis using 2 Plain by (simp add: found_def group_def del: decl_text.simps)
    next
      case (Pattern m p)
      have "run re_string x = []" if "ahead x = decl_text d @ s" for x s
        by (rule string_not_pattern) (use g(2) Pattern that in auto)
      from scan_undeclared [OF o(1) g(1) this] show ?thesis using 2 Pattern g(2) by (simp del: decl_text.simps)
    qed
  qed (simp add: scan_calm_end [OF o(1)])
  show "map found (hits_of (scan re_regex b (written ds e))) = pattern_hits ds" using assms
  proof (induction ds e arbitrary: b rule: written.induct)
    case (2 g d ds e)
    then have g: "calm g" "well_written d" by simp_all
    show ?case
    proof (cases d)
      case (Plain m p)
      have "run re_regex x = []" if "ahead x = decl_text d @ s" for x s
        by (rule regex_not_string) (use g(2) Plain that in auto)
      from scan_undeclared [OF o(2) g(1) this] show ?thesis using 2 Plain g(2) by (simp del: decl_text.simps)
    next
      case (Pattern m p)
      have "takes re_regex (decl_text d) [(2, ''/'' @ p @ ''/''), (1, m)] (\<lambda>s. s \<noteq> [] \<and> hd s = CHR '','')"
        unfolding Pattern by (rule pattern_takes) (use g(2) Pattern in simp_all)
      from scan_declared [OF o(2) g(1) this] show ?thesis using 2 Pattern by (simp add: found_def group_def del: decl_text.simps)
    qed
  qed (simp add: scan_calm_end [OF o(2)])
qed

text \<open>The route a declaration stands for, as the gate compares it.\<close>

fun decl_route :: "route_decl \<Rightarrow> string \<times> string" where
  "decl_route (Plain m p) = (canonicalise_path_params (normalise_express_path p), m)"
| "decl_route (Pattern m b) = (canonicalise_path_params (normalise_regex_literal (''/'' @ b @ ''/'')), m)"

definition declared :: "(string \<times> route_decl) list \<Rightarrow> (string \<times> string) set" where
  "declared ds = (\<lambda>x. decl_route (snd x)) ` set ds"

lemma declared_split: "declared ds = (\<lambda>(m, p). (canonicalise_path_params (normalise_express_path p), m)) ` set (plain_hits ds) \<union>
    (\<lambda>(m, p). (canonicalise_path_params (normalise_regex_literal p), m)) ` set (pattern_hits ds)"
  by (induction ds rule: plain_hits.induct) (auto simp: declared_def)

lemma foldl_offers: "offers (foldl (\<lambda>rs h. add_route rs (f h) (g h)) rs hs) p m \<longleftrightarrow> offers rs p m \<or> (p, m) \<in> (\<lambda>h. (f h, g h)) ` set hs"
  by (induction hs arbitrary: rs) (auto simp: add_route_offers)

lemma foldl_keys: "map_of (foldl (\<lambda>rs h. add_route rs (f h) (g h)) rs hs) p = None \<longleftrightarrow> map_of rs p = None \<and> p \<notin> f ` set hs"
  by (induction hs arbitrary: rs) (auto simp: map_of_add_route)

lemma extracted_routes:
  assumes "\<forall>(g, d) \<in> set ds. calm g \<and> well_written d" "calm e"
  shows "offers (extract_server_routes (written ds e)) p m \<longleftrightarrow> (p, m) \<in> declared ds"
    "map_of (extract_server_routes (written ds e)) p = None \<longleftrightarrow> p \<notin> fst ` declared ds"
proof -
  let ?hs = "match_all re_string (written ds e)" and ?ks = "match_all re_regex (written ds e)"
  have h: "set (plain_hits ds) = found ` set ?hs" "set (pattern_hits ds) = found ` set ?ks"
    using declarations_found [OF assms, of "[]"] by (metis list.set_map match_all_def)+
  have d: "declared ds = (\<lambda>h. (canonicalise_path_params (normalise_express_path (group 2 h)), group 1 h)) ` set ?hs \<union>
      (\<lambda>h. (canonicalise_path_params (normalise_regex_literal (group 2 h)), group 1 h)) ` set ?ks"
    unfolding declared_split h by (auto simp: found_def image_image)
  show "offers (extract_server_routes (written ds e)) p m \<longleftrightarrow> (p, m) \<in> declared ds"
    unfolding d extract_server_routes_def Let_def foldl_offers by (simp add: offers_def)
  show "map_of (extract_server_routes (written ds e)) p = None \<longleftrightarrow> p \<notin> fst ` declared ds"
    unfolding d extract_server_routes_def Let_def foldl_keys by (auto simp: image_Un image_image)
qed

lemma same_absent: "{p. N p \<noteq> None} = A \<longleftrightarrow> (\<forall>p. p \<notin> A \<longleftrightarrow> N p = None)"
  unfolding set_eq_iff mem_Collect_eq by (rule all_cong1) argo

lemma same_pairs: "{(p, m). Q p m} = D \<longleftrightarrow> (\<forall>p m. (p, m) \<in> D \<longleftrightarrow> Q p m)"
  by auto

text \<open>C39: The gate compares exactly the routes that are written: for a server text that declares routes the way the
  server does, with texts between them in which no declaration begins, the gate passes if and only if the
  specification has its \<open>paths\<close> block, its paths and methods are those of the declarations, none missing and none more, and every
  error code of the text is documented or on the list of exceptions.\<close>

theorem gate_passes_iff_routes_agree:
  assumes "\<forall>(g, d) \<in> set ds. calm g \<and> well_written d" "calm e"
  shows "g_exit (sync_main (Some (written ds e)) (Some yaml) (Some md)) = 0 \<longleftrightarrow>
    (\<exists>spec. extract_spec_paths yaml = Some spec \<and> {p. map_of spec p \<noteq> None} = fst ` declared ds \<and>
      {(p, m). offers spec p m} = declared ds \<and>
      set (extract_server_error_codes (written ds e)) \<subseteq> set (extract_spec_error_codes md) \<union> set allow_undocumented)"
proof -
  have "g_exit (sync_main (Some (written ds e)) (Some yaml) (Some md)) = 0 \<longleftrightarrow>
    (\<exists>spec. extract_spec_paths yaml = Some spec \<and> (\<forall>p. p \<notin> fst ` declared ds \<longleftrightarrow> map_of spec p = None) \<and>
      (\<forall>p m. (p, m) \<in> declared ds \<longleftrightarrow> offers spec p m) \<and>
      set (extract_server_error_codes (written ds e)) \<subseteq> set (extract_spec_error_codes md) \<union> set allow_undocumented)"
    unfolding sync_exit_iff by (simp add: extracted_routes [OF assms])
  also have "\<dots> \<longleftrightarrow> (\<exists>spec. extract_spec_paths yaml = Some spec \<and> {p. map_of spec p \<noteq> None} = fst ` declared ds \<and>
      {(p, m). offers spec p m} = declared ds \<and>
      set (extract_server_error_codes (written ds e)) \<subseteq> set (extract_spec_error_codes md) \<union> set allow_undocumented)"
    by (simp only: same_absent same_pairs)
  finally show ?thesis .
qed

definition sample_routes :: "(string \<times> route_decl) list" where
  "sample_routes = [(''x; '', Plain ''GET'' ''/v3/keys/:id''), ('' h); '', Pattern ''DELETE'' (''^'' @ [bslash] @ ''/v3'' @ [bslash] @ ''/keys'' @ [bslash] @ ''/([^/]+)$''))]"

definition sample_yaml :: string where
  "sample_yaml = ''o:'' @ [newline] @ ''paths:'' @ [newline] @ ''  /v3/keys/{id}:'' @ [newline] @ ''    get:'' @ [newline] @ ''    delete:'' @ [newline]"

lemma sample_written: "\<forall>(g, d) \<in> set sample_routes. calm g \<and> well_written d" "calm '' h);''"
  by code_simp+

lemma sample_declared: "declared sample_routes = {(''/v3/keys/{keyId}'', ''GET''), (''/v3/keys/{keyId}'', ''DELETE'')}"
  by code_simp

lemma sample_spec: "extract_spec_paths sample_yaml = Some [(''/v3/keys/{keyId}'', [''GET'', ''DELETE''])]"
  by code_simp

lemma gate_passes_iff_routes_agree_witness:
  "g_exit (sync_main (Some (written sample_routes '' h);'')) (Some sample_yaml) (Some [])) = 0"
proof -
  have codes: "extract_server_error_codes (written sample_routes '' h);'') = []" by code_simp
  have "{p. map_of [(''/v3/keys/{keyId}'', [''GET'', ''DELETE''])] p \<noteq> None} = {''/v3/keys/{keyId}''}"
    "{(p, m). offers [(''/v3/keys/{keyId}'', [''GET'', ''DELETE''])] p m} = declared sample_routes"
    unfolding sample_declared by (auto simp: offers_def split: if_splits)
  then show ?thesis
    using gate_passes_iff_routes_agree [OF sample_written, of sample_yaml "[]"] codes by (simp add: sample_spec sample_declared)
qed

subsection \<open>The spellings of a path\<close>

definition plain_path :: "string \<Rightarrow> bool" where
  "plain_path s \<longleftrightarrow> list_all (\<lambda>c. is_word c \<or> c \<in> {CHR ''/'', CHR ''.'', CHR ''-''}) s"

definition param_name :: "string \<Rightarrow> bool" where
  "param_name s \<longleftrightarrow> s \<noteq> [] \<and> is_alpha (hd s) \<and> list_all is_word (tl s)"

text \<open>A path inside a regular expression literal: slashes and dots escaped.\<close>

definition escape_in :: "char set \<Rightarrow> string \<Rightarrow> string" where
  "escape_in S s = concat (map (\<lambda>c. if c \<in> S then [bslash, c] else [c]) s)"

definition escaped :: "string \<Rightarrow> string" where
  "escaped = escape_in {CHR ''/'', CHR ''.''}"

lemma plain_path_char: "plain_path s \<Longrightarrow> \<not> is_word c \<Longrightarrow> c \<notin> {CHR ''/'', CHR ''.'', CHR ''-''} \<Longrightarrow> c \<notin> set s"
  unfolding plain_path_def list_all_iff by blast

lemma special_chars:
  "\<not> is_word CHR '':''" "\<not> is_word CHR ''{''" "\<not> is_word CHR ''}''" "\<not> is_word CHR ''$''" "\<not> is_word bslash" "\<not> is_word CHR ''(''"
  "\<not> is_word CHR ''^''" "is_word CHR ''k''"
  by (simp_all add: is_word_def code_def bslash_def)

lemma put_around:
  assumes "opens_with (c # w) r" "c \<notin> set a" "c \<notin> set b" "takes r u cs F" "u \<noteq> []" "F b"
  shows "replace_all r f (a @ u @ b) = a @ f \<lparr>hit_text = u, hit_groups = cs\<rparr> @ b"
  unfolding replace_all_def
  using scan_pass_char [OF assms(1,2), of "[]" "u @ b"] scan_takes [OF assms(4,5,6), of "rev a"]
    scan_pass_char [OF assms(1,3), of "rev u @ rev a" "[]"] scan_end [OF assms(1)] by simp

lemma canonical_param:
  assumes "CHR ''{'' \<notin> set a" "CHR ''{'' \<notin> set b" "param_name i"
  shows "canonicalise_path_params (a @ ''{'' @ i @ ''}'' @ b) = a @ key_param @ b"
proof -
  obtain c v where i: "i = c # v" "is_alpha c" "list_all is_word v" using assms(3) by (cases i) (auto simp: param_name_def)
  let ?r = "cat [lit ''{'', Chars (\<lambda>c. is_alpha c \<or> c = CHR ''_''), Many (Chars is_word), lit ''}'']"
  have "takes ?r (''{'' @ [c] @ v @ ''}'') ((([] @ []) @ []) @ []) (\<lambda>_. True)"
    unfolding cat.simps
    by (intro takes_Cat [where F = "\<lambda>_. True"] takes_Cat [where F = "stops is_word"] takes_lit takes_Chars takes_Many)
      (use i special_chars in \<open>simp_all add: stops_def\<close>)
  moreover have "opens_with ''{'' ?r" unfolding cat.simps by (rule opens_with_Cat)
  ultimately have "replace_all ?r (\<lambda>_. key_param) (a @ (''{'' @ [c] @ v @ ''}'') @ b) = a @ key_param @ b"
    by (intro put_around [where F = "\<lambda>_. True"]) (use assms in auto)
  then show ?thesis by (simp add: canonicalise_path_params_def i(1))
qed

lemma express_param:
  assumes "CHR '':'' \<notin> set a" "CHR '':'' \<notin> set b" "param_name i" "stops is_word b"
  shows "normalise_express_path (a @ '':'' @ i @ b) = a @ ''{'' @ i @ ''}'' @ b"
proof -
  obtain c v where i: "i = c # v" "is_alpha c" "list_all is_word v" using assms(3) by (cases i) (auto simp: param_name_def)
  let ?r = "cat [lit '':'', Group 1 (Cat (Chars is_alpha) (Many (Chars is_word)))]"
  have "takes (Cat (Chars is_alpha) (Many (Chars is_word))) ([c] @ v) ([] @ []) (stops is_word)"
    by (intro takes_Cat [where F = "\<lambda>_. True"] takes_Chars takes_Many) (use i in auto)
  from takes_Group [OF this, of 1] have "takes ?r ('':'' @ [c] @ v) ([(1, [c] @ v)] @ []) (stops is_word)"
    unfolding cat.simps by (intro takes_Cat [where F = "\<lambda>_. True"] takes_lit) auto
  moreover have "opens_with '':'' ?r" unfolding cat.simps by (rule opens_with_Cat)
  ultimately have "replace_all ?r (\<lambda>h. ''{'' @ group 1 h @ ''}'') (a @ ('':'' @ [c] @ v) @ b) = a @ (''{'' @ ([c] @ v) @ ''}'') @ b"
    using put_around [of "CHR '':''" "[]" ?r a b "'':'' @ [c] @ v" _ "stops is_word"] assms by (simp add: group_def)
  then show ?thesis by (simp add: normalise_express_path_def i(1))
qed

text \<open>Taking the escapes of one character back.\<close>

lemma unescape:
  assumes "x \<in> S" "bslash \<notin> set a" "x \<noteq> bslash"
  shows "put (\<lambda>_. [x]) (scan (lit [bslash, x]) d (escape_in S a @ s)) =
    escape_in (S - {x}) a @ put (\<lambda>_. [x]) (scan (lit [bslash, x]) (rev (escape_in S a) @ d) s)"
  using assms(2)
proof (induction a arbitrary: d)
  case (Cons c a)
  let ?r = "lit [bslash, x]"
  have skip: "scan ?r d (e # t) = Inl e # scan ?r (e # d) t" if "\<not> starts_with [bslash, x] (e # t)" for e d t
    by (rule scan_miss) (use that in \<open>simp add: run_lit spot_def del: lit.simps\<close>)
  consider "c = x" | "c \<in> S" "c \<noteq> x" | "c \<notin> S" by blast
  then show ?case
  proof cases
    case 1
    then show ?thesis
      using scan_takes [OF takes_lit, where u = "[bslash, x]" and F = "\<lambda>_. True" and d = d and s = "escape_in S a @ s"] Cons assms(1)
      by (simp add: escape_in_def del: lit.simps)
  next
    case 2
    then show ?thesis using Cons by (auto simp: escape_in_def skip starts_with_def simp del: lit.simps)
  next
    case 3
    then show ?thesis using Cons assms(1) by (auto simp: escape_in_def skip starts_with_def simp del: lit.simps)
  qed
qed (simp add: escape_in_def)

lemma escape_in_none [simp]: "escape_in {} a = a"
  by (induction a) (simp_all add: escape_in_def)

lemma unescape_all:
  assumes "x \<in> S" "x \<noteq> bslash" "bslash \<notin> set a" "bslash \<notin> set b" "bslash \<notin> set u"
  shows "replace_all (lit [bslash, x]) (\<lambda>_. [x]) (escape_in S a @ u @ escape_in S b) =
    escape_in (S - {x}) a @ u @ escape_in (S - {x}) b"
proof -
  let ?r = "lit [bslash, x]"
  have o: "opens_with [bslash, x] ?r" by (rule opens_with_Cat)
  have "put (\<lambda>_. [x]) (scan ?r d (u @ escape_in S b)) = u @ escape_in (S - {x}) b" for d
    using scan_pass_char [OF o assms(5), of d "escape_in S b"] unescape [OF assms(1,4,2), of "rev u @ d" "[]"] scan_end [OF o]
    by (simp del: lit.simps)
  then show ?thesis unfolding replace_all_def using unescape [OF assms(1,3,2), of "[]" "u @ escape_in S b"] by (simp del: lit.simps)
qed

lemma starts_with_append [simp]: "starts_with w (w @ s)"
  by (simp add: starts_with_def)

lemma strip_anchors:
  assumes "CHR ''$'' \<notin> set t"
  shows "replace_first (cat [lit ''$/'', Text_end]) (\<lambda>_. []) (replace_first (cat [Text_start, lit ''/^'']) (\<lambda>_. []) (''/^'' @ t @ ''$/'')) = t"
proof -
  let ?r = "Cat Text_start (lit ''/^'')" and ?q = "Cat (lit ''$/'') Text_end"
  have "first ?r (spot [] (''/^'' @ t @ ''$/'')) = Some (forward 2 (spot [] (''/^'' @ t @ ''$/'')))"
    by (simp add: first_def run_lit spot_def starts_with_def del: lit.simps)
  from scan_hit [OF this] have "replace_first ?r (\<lambda>_. []) (''/^'' @ t @ ''$/'') = t @ ''$/''"
    by (simp add: replace_first_def scan_text spot_def)
  moreover have "scan ?q d (t @ ''$/'') = map Inl t @ scan ?q (rev t @ d) ''$/''" for d
    by (rule scan_pass_char [OF opens_with_Cat(1)]) (rule assms)
  moreover have "first ?q (spot d ''$/'') = Some (forward 2 (spot d ''$/''))" for d
    by (simp add: first_def run_lit spot_def starts_with_def del: lit.simps)
  from scan_hit [OF this] have "\<exists>h ps. scan ?q d ''$/'' = Inr h # ps \<and> put hit_text ps = []" for d
    by (simp add: scan_text spot_def)
  moreover have "put_first f (map Inl t @ Inr h # ps) = t @ f h @ put hit_text ps" for f h ps
    by (induction t) simp_all
  ultimately show ?thesis unfolding cat.simps replace_first_def by (metis append_Nil append_Nil2)
qed

text \<open>A route is the same for the gate however its key parameter is spelled: for paths of letters, digits, slashes, dots and
  dashes around it, the path with \<open>:id\<close>, the escaped regular expression literal with a group and the path with
  \<open>{id}\<close> of the specification all become the path with \<open>{keyId}\<close>, whatever the parameter is called.\<close>

theorem route_spellings_agree:
  assumes "plain_path a" "plain_path b" "stops is_word b" "param_name i" "param_name j"
  shows "canonicalise_path_params (normalise_express_path (a @ '':'' @ i @ b)) = a @ key_param @ b \<and>
    canonicalise_path_params (normalise_regex_literal (''/^'' @ escaped a @ ''([^/]+)'' @ escaped b @ ''$/'')) = a @ key_param @ b \<and>
    canonicalise_path_params (a @ ''{'' @ j @ ''}'' @ b) = a @ key_param @ b"
proof -
  have out: "c \<notin> set a" "c \<notin> set b" if "\<not> is_word c" "c \<notin> {CHR ''/'', CHR ''.'', CHR ''-''}" for c
    using assms(1,2) plain_path_char that by blast+
  have no: "c \<notin> set a \<and> c \<notin> set b" if "c \<in> {CHR '':'', CHR ''{'', bslash, CHR ''('', CHR ''$''}" for c
    using that out special_chars by (auto simp: bslash_def)
  have canon: "canonicalise_path_params (a @ ''{'' @ k @ ''}'' @ b) = a @ key_param @ b" if "param_name k" for k
    by (rule canonical_param) (use no that in auto)
  have express: "canonicalise_path_params (normalise_express_path (a @ '':'' @ i @ b)) = a @ key_param @ b"
    using express_param [of a b i] canon [OF assms(4)] no assms(3,4) by simp
  have slash: "replace_all (lit [bslash, CHR ''/'']) (\<lambda>_. ''/'') (escaped a @ ''([^/]+)'' @ escaped b) =
      escape_in {CHR ''.''} a @ ''([^/]+)'' @ escape_in {CHR ''.''} b"
    unfolding escaped_def
    by (subst unescape_all) (use no in \<open>auto simp: bslash_def insert_Diff_if\<close>)
  have dot: "replace_all (lit [bslash, CHR ''.'']) (\<lambda>_. ''.'') (escape_in {CHR ''.''} a @ ''([^/]+)'' @ escape_in {CHR ''.''} b) =
      a @ ''([^/]+)'' @ b"
    by (subst unescape_all) (use no in \<open>auto simp: bslash_def\<close>)
  have grp: "replace_all (lit ''([^/]+)'') (\<lambda>_. key_param) (a @ ''([^/]+)'' @ b) = a @ key_param @ b"
    by (rule trans [OF put_around [OF opens_with_Cat(2) _ _ takes_lit [where F = "\<lambda>_. True"]]]) (use no in simp_all)
  have "CHR ''$'' \<notin> set (escaped a @ ''([^/]+)'' @ escaped b)"
    using no by (auto simp: escaped_def escape_in_def bslash_def split: if_splits)
  from strip_anchors [OF this] have "normalise_regex_literal (''/^'' @ escaped a @ ''([^/]+)'' @ escaped b @ ''$/'') = a @ key_param @ b"
    unfolding normalise_regex_literal_def Let_def append_assoc slash dot grp by (simp only: slash dot grp)
  then have regex: "canonicalise_path_params (normalise_regex_literal (''/^'' @ escaped a @ ''([^/]+)'' @ escaped b @ ''$/'')) = a @ key_param @ b"
    using canon [of "''keyId''"] by (simp add: key_param_def param_name_def is_alpha_def is_upper_def is_word_def code_def)
  show ?thesis using express regex canon [OF assms(5)] by blast
qed

lemma route_spellings_agree_witness:
  "canonicalise_path_params (normalise_express_path ''/v3/keys/:id/vk.bin'') = ''/v3/keys/{keyId}/vk.bin''"
  using route_spellings_agree [of "''/v3/keys/''" "''/vk.bin''" "''id''" "''k''"]
  by (simp add: plain_path_def stops_def param_name_def is_alpha_def is_upper_def is_word_def code_def key_param_def)

end
