(* ===== verification/Dep_Audit.thy ===== *)
theory Dep_Audit
  imports Js_Regex Js_Value
begin

section \<open>The gate on dependencies\<close>

text \<open>
  \<open>qv-ops/scripts/dep-audit.mjs\<close>: the policy that the server, the browser bundle and the Python client have no
  dependencies at run time and the SDK only those of the allowlist. The repository is an argument: each manifest as
  \<open>readJSON\<close> returns it (\<open>None\<close> is its \<open>null\<close>: missing, unreadable or not JSON), the texts, and the entries of the
  adapters' directories with their texts. Message texts are a \<open>dep_violation\<close>.
  The lemmas say when the audit passes, and which \<open>pyproject.toml\<close> it reads at all.
\<close>

text \<open>\<open>Object.keys\<close>; \<open>null\<close> and \<open>undefined\<close> do not reach it.\<close>

definition index_texts :: "nat \<Rightarrow> jsstr list" where
  "index_texts n = map (\<lambda>i. js (int_text (int i))) [0..<n]"

fun object_keys :: "jsval \<Rightarrow> jsstr list" where
  "object_keys (JObj kvs) = map fst kvs"
| "object_keys (JArr xs) = index_texts (length xs)"
| "object_keys (JStr s) = index_texts (length s)"
| "object_keys _ = []"

text \<open>\<open>v.field || {}\<close>.\<close>

definition field_or_empty :: "jsval \<Rightarrow> string \<Rightarrow> jsval" where
  "field_or_empty v k = (let d = jget v k in if truthy d then d else JObj [])"

definition noble_allowlist :: "jsstr list" where
  "noble_allowlist = map js [''@noble/ciphers'', ''@noble/hashes'', ''@noble/post-quantum'']"

datatype dep_violation =
    ServerPkgUnreadable
  | ServerDeps "jsstr list"
  | LockMalformed
  | LockPackages "jsstr list"
  | SdkPkgMissing
  | SdkDep jsstr
  | SdkDevDep jsstr
  | WasmDeps
  | PythonDeps string
  | PythonRequirements
  | AdapterManifest string string
  | AdapterNuget string string "string list"

record repo_tree =
  r_server_pkg :: "jsval option"
  r_server_lock :: "jsval option option"
  r_sdk_pkg :: "jsval option"
  r_wasm_pkg :: "jsval option"
  r_pyproject :: "string option"
  r_requirements :: bool
  r_adapters :: "string \<Rightarrow> (string \<times> string) list option"

subsection \<open>The checks\<close>

text \<open>A manifest whose JSON is a falsy value counts as none.\<close>

definition read_manifest :: "jsval option \<Rightarrow> jsval option" where
  "read_manifest m = (case m of Some v \<Rightarrow> if truthy v then Some v else None | None \<Rightarrow> None)"

definition check_server :: "repo_tree \<Rightarrow> dep_violation list" where
  "check_server R =
     (case read_manifest (r_server_pkg R) of
        None \<Rightarrow> [ServerPkgUnreadable]
      | Some pkg \<Rightarrow>
          (let deps = object_keys (field_or_empty pkg ''dependencies'') in
             if deps \<noteq> [] then [ServerDeps deps] else []) @
          (case r_server_lock R of
             None \<Rightarrow> []
           | Some l \<Rightarrow>
               (case read_manifest l of
                  None \<Rightarrow> [LockMalformed]
                | Some lock \<Rightarrow>
                    let nonRoot = filter (\<lambda>k. k \<noteq> []) (object_keys (field_or_empty lock ''packages'')) in
                    if nonRoot \<noteq> [] then [LockPackages nonRoot] else [])))"

definition check_sdk :: "repo_tree \<Rightarrow> dep_violation list" where
  "check_sdk R =
     (case read_manifest (r_sdk_pkg R) of
        None \<Rightarrow> [SdkPkgMissing]
      | Some pkg \<Rightarrow>
          map SdkDep (filter (\<lambda>n. n \<notin> set noble_allowlist) (object_keys (field_or_empty pkg ''dependencies''))) @
          map SdkDevDep (filter (\<lambda>n. n \<notin> set noble_allowlist \<and> \<not> starts_with (js ''@types/'') n)
            (object_keys (field_or_empty pkg ''devDependencies''))))"

definition check_wasm :: "repo_tree \<Rightarrow> dep_violation list" where
  "check_wasm R =
     (case read_manifest (r_wasm_pkg R) of
        None \<Rightarrow> []
      | Some pkg \<Rightarrow> if object_keys (field_or_empty pkg ''dependencies'') \<noteq> [] then [WasmDeps] else [])"

definition any_char :: "char \<Rightarrow> bool" where "any_char c \<longleftrightarrow> True"

text \<open>\<open>/\[project\][\s\S]*?(?=^\[|\Z)/m\<close>. Outside the \<open>u\<close> flag \<open>\Z\<close> is the letter.\<close>

definition re_project :: re where
  "re_project = cat [lit ''[project]'', Few (Chars any_char), Peek (Or (Cat Line_start (lit ''['')) (lit ''Z''))]"

definition re_dependencies :: re where
  "re_dependencies = cat [Line_start, blanks, lit ''dependencies'', blanks, lit ''='', blanks, lit ''['',
     Group 1 (Few (Chars any_char)), lit '']'']"

definition check_pyproject :: "string \<Rightarrow> dep_violation list" where
  "check_pyproject toml =
     (case match_first re_project toml of
        None \<Rightarrow> []
      | Some m \<Rightarrow>
          (case match_first re_dependencies (hit_text m) of
             None \<Rightarrow> []
           | Some d \<Rightarrow> let inner = js_trim (group 1 d) in if inner \<noteq> [] then [PythonDeps inner] else []))"

text \<open>Without a \<open>[project]\<close> block the check ends before it looks for \<open>requirements.txt\<close>.\<close>

definition check_python :: "repo_tree \<Rightarrow> dep_violation list" where
  "check_python R =
     (case r_pyproject R of
        None \<Rightarrow> []
      | Some toml \<Rightarrow>
          if match_first re_project toml = None then []
          else check_pyproject toml @ (if r_requirements R then [PythonRequirements] else []))"

definition forbidden_manifests :: "string list" where
  "forbidden_manifests = [''go.mod'', ''go.sum'', ''pom.xml'', ''build.gradle'', ''build.gradle.kts'', ''requirements.txt'', ''Pipfile'',
     ''composer.json'', ''composer.lock'', ''Gemfile'', ''Gemfile.lock'']"

definition adapter_dirs :: "string list" where
  "adapter_dirs = [''go'', ''java'', ''php'', ''csharp'', ''ruby'', ''python'']"

definition re_package :: re where
  "re_package = cat [lit ''PackageReference'', some_of is_ws, lit (''Include='' @ [CHR 0x22]),
     Group 1 (some_of (\<lambda>c. c \<noteq> CHR 0x22)), lit [CHR 0x22]]"

definition re_stdlib :: re where
  "re_stdlib = cat [Text_start, any_of [lit ''System'', lit ''Microsoft''], lit ''.'']"

definition third_party :: "string \<Rightarrow> string list" where
  "third_party txt = filter (\<lambda>r. match_first re_stdlib r = None) (map (group 1) (match_all re_package txt))"

definition check_entry :: "string \<Rightarrow> string \<times> string \<Rightarrow> dep_violation list" where
  "check_entry sub e =
     (if fst e \<in> set forbidden_manifests then [AdapterManifest sub (fst e)] else []) @
     (if starts_with (rev ''.csproj'') (rev (fst e)) \<and> third_party (snd e) \<noteq> []
      then [AdapterNuget sub (fst e) (third_party (snd e))] else [])"

definition check_adapters :: "repo_tree \<Rightarrow> dep_violation list" where
  "check_adapters R =
     concat (map (\<lambda>sub. case r_adapters R sub of None \<Rightarrow> [] | Some es \<Rightarrow> concat (map (check_entry sub) es)) adapter_dirs)"

definition audit_violations :: "repo_tree \<Rightarrow> dep_violation list" where
  "audit_violations R = check_server R @ check_sdk R @ check_wasm R @ check_python R @ check_adapters R"

definition audit_exit :: "repo_tree \<Rightarrow> nat" where
  "audit_exit R = (if audit_violations R = [] then 0 else 1)"

subsection \<open>What is read of \<open>pyproject.toml\<close>\<close>

text \<open>A place where the block of \<open>[project]\<close> can end for the pattern: a line that begins with a bracket, or a letter \<open>Z\<close>.\<close>

definition block_end :: "string \<Rightarrow> string \<Rightarrow> bool" where
  "block_end before after \<longleftrightarrow> after \<noteq> [] \<and> (hd after = CHR ''Z'' \<or>
     hd after = CHR ''['' \<and> (before = [] \<or> code (last before) \<in> {10, 13}))"

lemma run_block_end: "run (Peek (Or (Cat Line_start (lit ''['')) (lit ''Z''))) x \<noteq> [] \<longleftrightarrow> block_end (rev (behind x)) (ahead x)"
proof -
  have "starts_with [c] s \<longleftrightarrow> s \<noteq> [] \<and> hd s = c" for c :: char and s by (cases s) (auto simp: starts_with_def)
  then show ?thesis by (auto simp: run_lit block_end_def last_rev simp del: lit.simps split: list.splits)
qed

lemma run_project: "run re_project (spot d s) \<noteq> [] \<longleftrightarrow>
    (\<exists>v w. s = ''[project]'' @ v @ w \<and> block_end (rev d @ ''[project]'' @ v) w)"
proof -
  let ?e = "Peek (Or (Cat Line_start (lit ''['')) (lit ''Z''))" and ?x = "forward (length ''[project]'') (spot d s)"
  have tw: "takeWhile any_char s = s" for s by (simp add: any_char_def)
  have "run re_project (spot d s) \<noteq> [] \<longleftrightarrow> starts_with ''[project]'' s \<and> (\<exists>k \<le> length (ahead ?x). run ?e (forward k ?x) \<noteq> [])"
  proof -
    have "run re_project (spot d s) = (if starts_with ''[project]'' s then run (Cat (Few (Chars any_char)) ?e) ?x else [])"
      unfolding re_project_def cat.simps run_Cat_lit by (simp only: spot_def place.simps)
    then show ?thesis using run_Cat_Few [of any_char ?e ?x] by (simp only: tw if_not_P not_False_eq_True split: if_split) blast
  qed
  also have "\<dots> \<longleftrightarrow> (\<exists>v w. s = ''[project]'' @ v @ w \<and> block_end (rev d @ ''[project]'' @ v) w)"
  proof
    assume a: "starts_with ''[project]'' s \<and> (\<exists>k \<le> length (ahead ?x). run ?e (forward k ?x) \<noteq> [])"
    then obtain t where t: "s = ''[project]'' @ t" unfolding starts_with_def by (metis append_take_drop_id)
    from a obtain k where k: "k \<le> length t" "run ?e (forward k ?x) \<noteq> []" using t by (auto simp: spot_def)
    from k(2) have "block_end (rev d @ ''[project]'' @ take k t) (drop k t)" unfolding run_block_end by (simp add: t spot_def)
    then show "\<exists>v w. s = ''[project]'' @ v @ w \<and> block_end (rev d @ ''[project]'' @ v) w" using t by (metis append_take_drop_id)
  next
    assume "\<exists>v w. s = ''[project]'' @ v @ w \<and> block_end (rev d @ ''[project]'' @ v) w"
    then obtain v w where v: "s = ''[project]'' @ v @ w" "block_end (rev d @ ''[project]'' @ v) w" by blast
    have "run ?e (forward (length v) ?x) \<noteq> []" unfolding run_block_end using v by (simp add: spot_def)
    then show "starts_with ''[project]'' s \<and> (\<exists>k \<le> length (ahead ?x). run ?e (forward k ?x) \<noteq> [])"
      using v(1) by (intro conjI exI [of _ "length v"]) (simp_all add: starts_with_def spot_def)
  qed
  finally show ?thesis .
qed

lemma match_first_None: "match_first r s = None \<longleftrightarrow> (\<forall>u v. s = u @ v \<longrightarrow> run r (spot (rev u) v) = [])"
proof -
  have "match_first r s = None \<longleftrightarrow> hits_of (scan r [] s) = []" by (simp add: match_first_def match_all_def split: list.splits)
  then show ?thesis using no_hits_iff [of r "[]" s] by simp
qed

text \<open>The audit reads a block at all exactly when the text has \<open>[project]\<close> and after it a line that begins with a bracket, or
  a \<open>Z\<close>.\<close>

lemma project_found_iff: "match_first re_project toml \<noteq> None \<longleftrightarrow>
    (\<exists>u v w. toml = u @ ''[project]'' @ v @ w \<and> block_end (u @ ''[project]'' @ v) w)"
  unfolding match_first_None using run_project by (metis rev_rev_ident)

text \<open>A line of the text after its first begins with a bracket.\<close>

fun opens_table :: "string \<Rightarrow> bool" where
  "opens_table (c # d # s) \<longleftrightarrow> code c \<in> {10, 13} \<and> d = CHR ''['' \<or> opens_table (d # s)"
| "opens_table _ \<longleftrightarrow> False"

lemma opens_table_append: "code c \<in> {10, 13} \<Longrightarrow> opens_table (a @ c # CHR ''['' # b)"
proof (induction a)
  case (Cons x a)
  then show ?case by (cases "a @ c # CHR ''['' # b") auto
qed simp

text \<open>\<open>s\<close> is the first place of \<open>w\<close> in \<open>u @ s\<close>.\<close>

definition not_before :: "string \<Rightarrow> string \<Rightarrow> string \<Rightarrow> bool" where
  "not_before w u s \<longleftrightarrow> list_all (\<lambda>k. \<not> starts_with w (drop k (u @ s))) [0..<length u]"

lemma not_before_occurrence:
  assumes "not_before w u s" "u @ s = v @ w @ x"
  shows "length u \<le> length v"
proof (rule ccontr)
  assume "\<not> length u \<le> length v"
  then have "length v \<in> set [0..<length u]" by simp
  then have "\<not> starts_with w (drop (length v) (u @ s))" using assms(1) unfolding not_before_def list_all_iff by blast
  then show False unfolding assms(2) by (simp add: starts_with_def)
qed

lemma block_end_table:
  assumes "block_end (u @ ''[project]'' @ y) w" "CHR ''Z'' \<notin> set w"
  shows "opens_table (y @ w)"
proof -
  have "w \<noteq> []" using assms(1) by (simp add: block_end_def)
  then have "hd w \<noteq> CHR ''Z''" using assms(2) hd_in_set by metis
  then have w: "hd w = CHR ''[''" "w \<noteq> []" "code (last (''[project]'' @ y)) \<in> {10, 13}"
    using assms(1) by (auto simp: block_end_def)
  then have "y \<noteq> []" by (cases y) (simp_all add: code_def)
  then have "y @ w = butlast y @ last y # CHR ''['' # tl w" using w(1,2) by (cases w) simp_all
  moreover have "code (last y) \<in> {10, 13}" using w(3) \<open>y \<noteq> []\<close> by simp
  ultimately show ?thesis using opens_table_append by metis
qed

text \<open>C40: A last table goes unread: when no line after \<open>[project]\<close> begins a further table and no letter \<open>Z\<close> follows, the audit
  finds no violation of the Python client, whatever dependencies the table declares and whether or not there is a
  \<open>requirements.txt\<close>.\<close>

theorem last_table_goes_unread:
  assumes "r_pyproject R = Some (u @ ''[project]'' @ t)" "not_before ''[project]'' u (''[project]'' @ t)"
    and "CHR ''Z'' \<notin> set t" "\<not> opens_table t"
  shows "check_python R = []"
proof -
  have "\<not> block_end (v @ ''[project]'' @ x) w" if e: "u @ ''[project]'' @ t = v @ ''[project]'' @ x @ w" for v x w
  proof
    assume b: "block_end (v @ ''[project]'' @ x) w"
    have "length u \<le> length v" using not_before_occurrence [OF assms(2), of v "x @ w"] e by simp
    then have "length w \<le> length t" using arg_cong [OF e, of length] by simp
    then have l: "length (drop (length t - length w) t) = length w" by simp
    let ?y = "take (length t - length w) t"
    have "(u @ ''[project]'' @ ?y) @ drop (length t - length w) t = (v @ ''[project]'' @ x) @ w" using e by simp
    with l have "u @ ''[project]'' @ ?y = v @ ''[project]'' @ x" "drop (length t - length w) t = w"
      using append_eq_append_conv by blast+
    then obtain y where y: "t = y @ w" "u @ ''[project]'' @ y = v @ ''[project]'' @ x" by (metis append_take_drop_id)
    then have "opens_table (y @ w)" using block_end_table [of u y w] b assms(3) by simp
    then show False using assms(4) y(1) by simp
  qed
  then show ?thesis using assms(1) project_found_iff by (simp add: check_python_def) blast
qed

definition nl :: string where "nl = [CHR 0x0A]"

definition sample_head :: string where
  "sample_head = ''[build-system]'' @ nl"

definition sample_project :: string where
  "sample_project = nl @ ''dependencies = [ evil ]'' @ nl"

definition sample_tree :: "string \<Rightarrow> repo_tree" where
  "sample_tree toml = \<lparr>r_server_pkg = Some (obj [(''name'', str ''qv-server'')]), r_server_lock = None, r_sdk_pkg = Some (obj [(''name'', str ''sdk'')]),
     r_wasm_pkg = None, r_pyproject = Some toml, r_requirements = True, r_adapters = (\<lambda>_. None)\<rparr>"

lemma last_table_goes_unread_witness:
  "check_python (sample_tree (sample_head @ ''[project]'' @ sample_project)) = [] \<and>
   check_python (sample_tree (sample_head @ ''[project]'' @ sample_project @ ''[tool]'')) = [PythonDeps ''evil'', PythonRequirements]"
proof
  have "not_before ''[project]'' sample_head (''[project]'' @ sample_project)" "CHR ''Z'' \<notin> set sample_project" "\<not> opens_table sample_project"
    by code_simp+
  then show "check_python (sample_tree (sample_head @ ''[project]'' @ sample_project)) = []"
    by (intro last_table_goes_unread) (simp_all add: sample_tree_def)
  show "check_python (sample_tree (sample_head @ ''[project]'' @ sample_project @ ''[tool]'')) = [PythonDeps ''evil'', PythonRequirements]"
    by code_simp
qed

subsection \<open>The policy\<close>

definition no_deps :: "jsval \<Rightarrow> bool" where
  "no_deps pkg \<longleftrightarrow> object_keys (field_or_empty pkg ''dependencies'') = []"

text \<open>What the audit enforces, check by check: the server has no dependencies and an empty lock file, the SDK and its tools
  only listed ones, the browser bundle none, a \<open>[project]\<close> block that is read none and no requirements file, and
  the adapters' directories no manifest of their own.\<close>

theorem audit_passes_iff:
  "audit_exit R = 0 \<longleftrightarrow>
   (\<exists>pkg. read_manifest (r_server_pkg R) = Some pkg \<and> no_deps pkg) \<and>
   (\<forall>l. r_server_lock R = Some l \<longrightarrow> (\<exists>lock. read_manifest l = Some lock \<and> set (object_keys (field_or_empty lock ''packages'')) \<subseteq> {[]})) \<and>
   (\<exists>pkg. read_manifest (r_sdk_pkg R) = Some pkg \<and> set (object_keys (field_or_empty pkg ''dependencies'')) \<subseteq> set noble_allowlist \<and>
      (\<forall>n \<in> set (object_keys (field_or_empty pkg ''devDependencies'')). n \<in> set noble_allowlist \<or> starts_with (js ''@types/'') n)) \<and>
   (\<forall>pkg. read_manifest (r_wasm_pkg R) = Some pkg \<longrightarrow> no_deps pkg) \<and>
   (\<forall>toml. r_pyproject R = Some toml \<longrightarrow> match_first re_project toml \<noteq> None \<longrightarrow> check_pyproject toml = [] \<and> \<not> r_requirements R) \<and>
   (\<forall>sub \<in> set adapter_dirs. \<forall>es. r_adapters R sub = Some es \<longrightarrow>
      (\<forall>(n, txt) \<in> set es. n \<notin> set forbidden_manifests \<and> (starts_with (rev ''.csproj'') (rev n) \<longrightarrow> third_party txt = [])))"
proof -
  have server: "check_server R = [] \<longleftrightarrow> (\<exists>pkg. read_manifest (r_server_pkg R) = Some pkg \<and> no_deps pkg) \<and>
    (\<forall>l. r_server_lock R = Some l \<longrightarrow> (\<exists>lock. read_manifest l = Some lock \<and> set (object_keys (field_or_empty lock ''packages'')) \<subseteq> {[]}))"
    by (auto simp: check_server_def no_deps_def Let_def filter_empty_conv split: option.splits)
  have sdk: "check_sdk R = [] \<longleftrightarrow> (\<exists>pkg. read_manifest (r_sdk_pkg R) = Some pkg \<and>
      set (object_keys (field_or_empty pkg ''dependencies'')) \<subseteq> set noble_allowlist \<and>
      (\<forall>n \<in> set (object_keys (field_or_empty pkg ''devDependencies'')). n \<in> set noble_allowlist \<or> starts_with (js ''@types/'') n))"
    by (auto simp: check_sdk_def filter_empty_conv split: option.splits)
  have wasm: "check_wasm R = [] \<longleftrightarrow> (\<forall>pkg. read_manifest (r_wasm_pkg R) = Some pkg \<longrightarrow> no_deps pkg)"
    by (simp add: check_wasm_def no_deps_def split: option.splits)
  have python: "check_python R = [] \<longleftrightarrow> (\<forall>toml. r_pyproject R = Some toml \<longrightarrow> match_first re_project toml \<noteq> None \<longrightarrow>
      check_pyproject toml = [] \<and> \<not> r_requirements R)"
    by (simp add: check_python_def split: option.splits)
  have entry: "check_entry sub e = [] \<longleftrightarrow> fst e \<notin> set forbidden_manifests \<and> (starts_with (rev ''.csproj'') (rev (fst e)) \<longrightarrow> third_party (snd e) = [])" for sub e
    by (simp add: check_entry_def)
  have adapters: "check_adapters R = [] \<longleftrightarrow> (\<forall>sub \<in> set adapter_dirs. \<forall>es. r_adapters R sub = Some es \<longrightarrow>
      (\<forall>(n, txt) \<in> set es. n \<notin> set forbidden_manifests \<and> (starts_with (rev ''.csproj'') (rev n) \<longrightarrow> third_party txt = [])))"
    unfolding check_adapters_def concat_eq_Nil_conv by (simp add: entry case_prod_beta split: option.splits)
  show ?thesis by (simp only: audit_exit_def audit_violations_def append_is_Nil_conv server sdk wasm python adapters) simp
qed

end
