(* ===== verification/Release_Scripts.thy ===== *)
theory Release_Scripts
  imports Js_Regex Js_Value
begin

section \<open>The sweeps over the repository and the bill of materials\<close>

text \<open>
  \<open>rebrand-polyglot.mjs\<close> and \<open>fix-stale-007krcs.mjs\<close> rewrite the texts of a directory tree with a list of rules, each
  a pattern and its replacement; \<open>sbom.mjs\<close> builds the bill of materials of the server. A tree is a list of
  entries with their texts (\<open>None\<close>: reading throws); the console output is left out, writing does not
  fail, and an entry is a file or a directory. The hash functions, the clock and the random identifier are arguments.
  The lemmas say what the rules of the sweeps can change.
\<close>

datatype tree_node = TreeFile string nat "string option" | TreeDir string "tree_node list"

type_synonym rule = "re \<times> (hit \<Rightarrow> string)"

definition rewrite :: "rule list \<Rightarrow> string \<Rightarrow> string" where
  "rewrite rules t = foldl (\<lambda>t (r, f). replace_all r f t) t rules"

subsection \<open>Rebranding\<close>

definition text_exts :: "string list" where
  "text_exts = [''.md'', ''.mjs'', ''.js'', ''.cjs'', ''.ts'', ''.tsx'', ''.json'', ''.yaml'', ''.yml'', ''.toml'',
     ''.py'', ''.rs'', ''.go'', ''.java'', ''.php'', ''.cs'', ''.rb'', ''.h'', ''.c'', ''.html'', ''.css'']"

definition rebrand_skip_dirs :: "string list" where
  "rebrand_skip_dirs = [''node_modules'', ''target'', ''dist'', ''build'', ''.git'', ''vendor'', ''__pycache__'', ''.next'', ''.cargo'']"

definition rebrand_skip_paths :: "string list" where
  "rebrand_skip_paths = [''qv-server/qv-data'']"

definition as_is :: "string \<Rightarrow> rule" where
  "as_is w = (lit w, \<lambda>_. w)"

definition re_crate :: re where
  "re_crate = cat [Edge, lit ''quantumvault'', Edge]"

definition after_keyword :: "string \<Rightarrow> rule" where
  "after_keyword k = (cat [Group 1 (cat [Edge, lit k, some_of is_ws]), lit ''sigvault'', Edge], \<lambda>h. group 1 h @ ''sigvault'')"

definition rebrand_rules :: "rule list" where
  "rebrand_rules =
     [as_is ''SigvaultClient'', as_is ''SigvaultException'', as_is ''sigvault.io'', as_is ''sigvault.dev'', as_is ''sigvault.com'',
      as_is ''@sigvault/sdk'', (Cat (lit ''@sigvault'') Edge, \<lambda>_. ''@sigvault''), after_keyword ''from'', after_keyword ''import'',
      (re_crate, \<lambda>_. ''sigvault''), as_is ''Sigvault Sovereign'', as_is ''Sigvault Server'', as_is ''Sigvault SDK'', as_is ''Sigvault token'',
      as_is ''Sigvault tokens'', as_is ''Sigvault Wire Format'', as_is ''Sigvault Conformance'', (Cat (lit ''Sigvault'') Edge, \<lambda>_. ''Sigvault'')]"

text \<open>\<open>extname\<close>: from the last dot on, unless the name begins with it.\<close>

definition extname :: "string \<Rightarrow> string" where
  "extname name = (let ext = takeWhile (\<lambda>c. c \<noteq> CHR ''.'') (rev name); stem = length name - length ext in
     if stem \<le> 1 then [] else CHR ''.'' # rev ext)"

record sweep_count =
  scanned :: nat
  edited :: "string list"

definition rel_path :: "string \<Rightarrow> string \<Rightarrow> string" where
  "rel_path dir name = (if dir = [] then name else dir @ ''/'' @ name)"

fun rebrand_walk :: "string \<Rightarrow> tree_node list \<Rightarrow> sweep_count \<Rightarrow> tree_node list \<times> sweep_count" where
  "rebrand_walk dir [] n = ([], n)"
| "rebrand_walk dir (TreeDir name es # rest) n =
     (let rel = rel_path dir name;
          (es', n') = (if rel \<in> set rebrand_skip_paths \<or> name \<in> set rebrand_skip_dirs then (es, n) else rebrand_walk rel es n);
          (rest', n'') = rebrand_walk dir rest n'
      in (TreeDir name es' # rest', n''))"
| "rebrand_walk dir (TreeFile name sz text # rest) n =
     (let rel = rel_path dir name;
          (text', n') =
            (if rel \<in> set rebrand_skip_paths \<or> to_lower (extname name) \<notin> set text_exts \<or> 1024 * 1024 < sz then (text, n)
             else (case text of
                     None \<Rightarrow> (text, n)
                   | Some buf \<Rightarrow>
                       let out = rewrite rebrand_rules buf; n1 = n\<lparr>scanned := scanned n + 1\<rparr> in
                       if out \<noteq> buf then (Some out, n1\<lparr>edited := edited n1 @ [rel]\<rparr>) else (text, n1)));
          (rest', n'') = rebrand_walk dir rest n'
      in (TreeFile name sz text' # rest', n''))"

subsection \<open>Stale links\<close>

definition stale_skip_files :: "string list" where
  "stale_skip_files = [''CODEOWNERS'', ''AUTHORS.md'', ''package-lock.json'', ''Cargo.lock'', ''fix-stale-007krcs.mjs'']"

definition stale_skip_dirs :: "string list" where
  "stale_skip_dirs = [''node_modules'', ''target'', ''.git'', ''dist'', ''.next'']"

definition either_quote :: re where
  "either_quote = Chars (one_of [CHR 0x27, CHR 0x22])"

definition stale_rules :: "rule list" where
  "stale_rules =
     [(lit ''ghcr.io/007krcs/qv-server'', \<lambda>_. ''ghcr.io/novaai0401-ui/qv-server''),
      (lit ''ghcr.io/007krcs/charts'', \<lambda>_. ''ghcr.io/novaai0401-ui/charts''),
      (lit ''github.com/007krcs/quantum-vault'', \<lambda>_. ''github.com/novaai0401-ui/quantum-vault''),
      (lit ''githubusercontent.com/007krcs/quantum-vault'', \<lambda>_. ''githubusercontent.com/novaai0401-ui/quantum-vault''),
      (cat [Line_start, Group 1 (cat [blanks, lit ''vendor:'', blanks]), either_quote, lit ''007krcs'', either_quote],
        \<lambda>h. group 1 h @ [CHR 0x27] @ ''Sigvault'' @ [CHR 0x27]),
      (cat [Group 1 (lit (''image.vendor='' @ [CHR 0x22])), lit ''007krcs'', Group 2 (lit [CHR 0x22])],
        \<lambda>h. group 1 h @ ''Sigvault'' @ group 2 h),
      (cat [Group 1 (Cat (lit ''- name:'') blanks), lit ''007krcs''], \<lambda>h. group 1 h @ ''novaai0401-ui'')]"

definition stale_files :: re where
  "stale_files = Or
     (cat [lit ''.'', any_of (map lit [''md'', ''mjs'', ''js'', ''ts'', ''tsx'', ''toml'', ''yaml'', ''yml'', ''json'', ''py'', ''rs'', ''sh'',
        ''Dockerfile'', ''html'']), Text_end])
     (cat [Text_start, lit ''Dockerfile''])"

text \<open>A text that cannot be read ends the script.\<close>

fun stale_walk :: "string \<Rightarrow> tree_node list \<Rightarrow> sweep_count \<Rightarrow> (tree_node list \<times> sweep_count) option" where
  "stale_walk dir [] n = Some ([], n)"
| "stale_walk dir (TreeDir name es # rest) n =
     (case (if name \<in> set stale_skip_dirs then Some (es, n) else stale_walk (rel_path dir name) es n) of
        None \<Rightarrow> None
      | Some (es', n') \<Rightarrow> map_option (apfst ((#) (TreeDir name es'))) (stale_walk dir rest n'))"
| "stale_walk dir (TreeFile name sz text # rest) n =
     (case (if name \<in> set stale_skip_files \<or> match_first stale_files name = None then Some (text, n)
            else (case text of
                    None \<Rightarrow> None
                  | Some before \<Rightarrow>
                      let after = rewrite stale_rules before; n1 = n\<lparr>scanned := scanned n + 1\<rparr> in
                      Some (if after \<noteq> before then (Some after, n1\<lparr>edited := edited n1 @ [rel_path dir name]\<rparr>) else (text, n1)))) of
        None \<Rightarrow> None
      | Some (text', n') \<Rightarrow> map_option (apfst ((#) (TreeFile name sz text'))) (stale_walk dir rest n'))"

subsection \<open>The bill of materials\<close>

definition shipped :: "string list" where
  "shipped = [''server-sovereign.mjs'', ''auth.mjs'', ''audit.mjs'', ''ratelimit.mjs'', ''security.mjs'', ''shutdown.mjs'', ''metrics.mjs'',
     ''claims.mjs'', ''cidr.mjs'', ''trace.mjs'', ''durable.mjs'', ''chain-log.mjs'', ''master-key.mjs'', ''writer-lock.mjs'', ''verify-pool.mjs'',
     ''verify-worker.mjs'']"

record file_stat =
  f_bytes :: bytes
  f_size :: nat
  f_mtime :: string

record sbom_env =
  s_sha256 :: "bytes \<Rightarrow> string"
  s_sha512 :: "bytes \<Rightarrow> string"
  s_uuid :: string
  s_now :: string
  s_text :: "jsval \<Rightarrow> jsstr"
  s_file :: "string \<Rightarrow> file_stat option"
  s_pkg :: "jsval option"

definition file_component :: "sbom_env \<Rightarrow> string \<Rightarrow> jsval option" where
  "file_component E rel = map_option (\<lambda>st. obj
     [(''type'', str ''file''), (''bom-ref'', str (''file:'' @ rel)), (''name'', str rel), (''version'', str ''tracked-via-git''),
      (''hashes'', JArr [obj [(''alg'', str ''SHA-256''), (''content'', str (s_sha256 E (f_bytes st)))],
                         obj [(''alg'', str ''SHA-512''), (''content'', str (s_sha512 E (f_bytes st)))]]),
      (''properties'', JArr [obj [(''name'', str ''qv:bytes''), (''value'', str (int_text (int (f_size st))))],
                             obj [(''name'', str ''qv:mtime''), (''value'', str (f_mtime st))]])]) (s_file E rel)"

definition purl :: "sbom_env \<Rightarrow> jsval \<Rightarrow> jsval" where
  "purl E p = JStr (js ''pkg:generic/'' @ s_text E (jget p ''name'') @ js ''@'' @ s_text E (jget p ''version''))"

definition root_component :: "sbom_env \<Rightarrow> jsval \<Rightarrow> jsval" where
  "root_component E p = obj
     [(''type'', str ''application''), (''bom-ref'', purl E p), (''name'', jget p ''name''), (''version'', jget p ''version''),
      (''description'', jget p ''description''),
      (''licenses'', JArr [obj [(''license'', obj [(''id'', if truthy (jget p ''license'') then jget p ''license'' else str ''BUSL-1.1'')])]]),
      (''purl'', purl E p)]"

definition node_version :: "jsval \<Rightarrow> jsval" where
  "node_version p = (let e = jget p ''engines''; v = (if truthy e then jget e ''node'' else e) in if truthy v then v else str ''18'')"

fun all_some :: "'a option list \<Rightarrow> 'a list option" where
  "all_some [] = Some []"
| "all_some (None # _) = None"
| "all_some (Some a # xs) = map_option ((#) a) (all_some xs)"

text \<open>\<open>None\<close>: a file or the manifest cannot be read, or the manifest is \<open>null\<close>.\<close>

definition sbom :: "sbom_env \<Rightarrow> jsval option" where
  "sbom E =
     (case s_pkg E of
        None \<Rightarrow> None
      | Some p \<Rightarrow>
          if nullish p then None
          else map_option (\<lambda>components. obj
            [(''bomFormat'', str ''CycloneDX''), (''specVersion'', str ''1.5''), (''serialNumber'', str (''urn:uuid:'' @ s_uuid E)), (''version'', num 1),
             (''metadata'', obj
               [(''timestamp'', str (s_now E)),
                (''tools'', JArr [obj [(''vendor'', str ''Sigvault''), (''name'', str ''qv-ops/scripts/sbom.mjs''), (''version'', str ''1.0.0'')]]),
                (''component'', root_component E p),
                (''properties'', JArr [obj [(''name'', str ''qv:zero-dependency''), (''value'', str ''true'')],
                   obj [(''name'', str ''qv:runtime''), (''value'', JStr (js ''node>='' @ s_text E (node_version p)))]])]),
             (''components'', JArr components),
             (''dependencies'', JArr [obj [(''ref'', purl E p), (''dependsOn'', JArr [])]])])
           (all_some (map (file_component E) shipped)))"

subsection \<open>What a sweep changes\<close>

definition keeps :: "rule \<Rightarrow> bool" where
  "keeps x \<longleftrightarrow> (\<forall>d s y. y \<in> set (run (fst x) (spot d s)) \<longrightarrow> snd x (hit_of (spot d s) y) = between (spot d s) y)"

lemma scan_hits: "Inr h \<in> set (scan r d s) \<Longrightarrow> \<exists>d' s' y. y \<in> set (run r (spot d' s')) \<and> h = hit_of (spot d' s') y"
proof (induction r d s rule: scan.induct)
  case (1 r d s)
  show ?case
  proof (cases "run r (spot d s)")
    case Nil
    then show ?thesis using 1(1) [OF Nil] 1(4) by (subst (asm) scan.simps) (auto split: list.splits)
  next
    case (Cons y ys)
    from 1(4) Cons consider "h = hit_of (spot d s) y" | "length (ahead y) < length s" "Inr h \<in> set (scan r (behind y) (ahead y))"
      | c s' where "\<not> length (ahead y) < length s" "s = c # s'" "Inr h \<in> set (scan r (c # d) s')"
      by (subst (asm) scan.simps) (auto split: if_splits list.splits)
    then show ?thesis
    proof cases
      case 1
      then show ?thesis using Cons by (metis list.set_intros(1))
    next
      case 2
      then show ?thesis using 1(2) [OF Cons] by blast
    next
      case 3
      then show ?thesis using 1(3) [OF Cons] by blast
    qed
  qed
qed

lemma replace_keeps:
  assumes "keeps (r, f)"
  shows "replace_all r f t = t"
proof -
  have "f h = hit_text h" if "Inr h \<in> set (scan r [] t)" for h
    using scan_hits [OF that] assms by (auto simp: keeps_def) (simp add: hit_of_def)
  then show ?thesis unfolding replace_all_def using put_same scan_text by metis
qed

lemma rewrite_keeps: "(\<And>x. x \<in> set rules \<Longrightarrow> keeps x) \<Longrightarrow> rewrite rules t = t"
  by (induction rules) (auto simp: rewrite_def replace_keeps)

lemma rewrite_append: "rewrite (rs @ qs) t = rewrite qs (rewrite rs t)"
  by (simp add: rewrite_def)

lemma between_lit: "y \<in> set (run (lit w) x) \<Longrightarrow> between x y = w \<and> caught y = caught x"
proof -
  assume y: "y \<in> set (run (lit w) x)"
  then have s: "starts_with w (ahead x)" unfolding run_lit by (cases "starts_with w (ahead x)") simp_all
  then have f: "y = forward (length w) x" using y unfolding run_lit by simp
  obtain v where v: "ahead x = w @ v" using s unfolding starts_with_def by (metis append_take_drop_id)
  show ?thesis unfolding f between_def forward_simps v by simp
qed

lemma between_trans:
  assumes "reads x y" "reads y z"
  shows "between x z = between x y @ between y z"
proof -
  have "ahead x = between x z @ ahead z" "ahead x = (between x y @ between y z) @ ahead z"
    using reads_between [OF assms(1)] reads_between [OF assms(2)] reads_between [OF reads_trans [OF assms]] by auto
  then show ?thesis by (metis append_same_eq)
qed

lemma keeps_as_is: "keeps (as_is w)"
  using between_lit by (auto simp: keeps_def as_is_def)

lemma keeps_edge: "keeps (Cat (lit w) Edge, \<lambda>_. w)"
  unfolding keeps_def by (auto dest: between_lit simp del: lit.simps split: if_splits)

lemma keeps_keyword: "keeps (after_keyword k)"
  unfolding keeps_def after_keyword_def fst_conv snd_conv
proof (intro allI impI)
  fix d s y
  let ?g = "cat [Edge, lit k, some_of is_ws]" and ?x = "spot d s"
  assume "y \<in> set (run (cat [Group 1 ?g, lit ''sigvault'', Edge]) ?x)"
  then obtain z where z: "z \<in> set (run ?g ?x)" "y \<in> set (run (lit ''sigvault'') (z\<lparr>caught := (1, between ?x z) # caught z\<rparr>))"
    by (auto simp del: lit.simps split: if_splits)
  let ?z = "z\<lparr>caught := (1, between ?x z) # caught z\<rparr>"
  have "between ?z y = ''sigvault''" "caught y = (1, between ?x z) # caught z" using between_lit [OF z(2)] by simp_all
  moreover have "between ?x y = between ?x ?z @ between ?z y"
    using between_trans [of ?x ?z y] run_reads [OF z(1)] run_reads [OF z(2)] by simp
  moreover have "between ?x ?z = between ?x z" by (simp add: between_def)
  ultimately show "group 1 (hit_of ?x y) @ ''sigvault'' = between ?x y" by (simp add: group_def hit_of_def)
qed

text \<open>The sweep that was to rename the product only renames the crate: seventeen of its eighteen rules replace a text
  by itself, so on every text it is the replacement of the word \<open>quantumvault\<close>.\<close>

theorem rebrand_renames_only_the_crate: "rewrite rebrand_rules t = replace_all re_crate (\<lambda>_. ''sigvault'') t"
proof -
  let ?a = "[as_is ''SigvaultClient'', as_is ''SigvaultException'', as_is ''sigvault.io'', as_is ''sigvault.dev'', as_is ''sigvault.com'',
      as_is ''@sigvault/sdk'', (Cat (lit ''@sigvault'') Edge, \<lambda>_. ''@sigvault''), after_keyword ''from'', after_keyword ''import'']"
  let ?b = "[as_is ''Sigvault Sovereign'', as_is ''Sigvault Server'', as_is ''Sigvault SDK'', as_is ''Sigvault token'',
      as_is ''Sigvault tokens'', as_is ''Sigvault Wire Format'', as_is ''Sigvault Conformance'', (Cat (lit ''Sigvault'') Edge, \<lambda>_. ''Sigvault'')]"
  have split: "rebrand_rules = ?a @ [(re_crate, \<lambda>_. ''sigvault'')] @ ?b" by (simp add: rebrand_rules_def)
  have a: "rewrite ?a u = u" for u
    by (rule rewrite_keeps) (auto simp: keeps_as_is keeps_edge keeps_keyword simp del: lit.simps)
  have b: "rewrite ?b u = u" for u
    by (rule rewrite_keeps) (auto simp: keeps_as_is keeps_edge simp del: lit.simps)
  have one: "rewrite [(r, f)] u = replace_all r f u" for r f u by (simp add: rewrite_def)
  show ?thesis unfolding split rewrite_append a b one ..
qed

text \<open>A pattern that cannot match without \<open>w\<close>.\<close>

definition has_sub :: "string \<Rightarrow> string \<Rightarrow> bool" where
  "has_sub w s \<longleftrightarrow> (\<exists>u v. s = u @ w @ v)"

definition needs :: "string \<Rightarrow> re \<Rightarrow> bool" where
  "needs w r \<longleftrightarrow> (\<forall>x. run r x \<noteq> [] \<longrightarrow> has_sub w (ahead x))"

lemma has_sub_append: "has_sub w s \<Longrightarrow> has_sub w (u @ s)"
  unfolding has_sub_def by (metis append_assoc)

lemma needs_lit: "needs w (lit (a @ w @ b))"
  unfolding needs_def run_lit starts_with_def has_sub_def by (metis append_assoc append_take_drop_id)

lemma needs_Cat: "needs w r \<Longrightarrow> needs w (Cat r q)" "needs w q \<Longrightarrow> needs w (Cat r q)"
proof -
  show "needs w r \<Longrightarrow> needs w (Cat r q)" unfolding needs_def by force
  assume q: "needs w q"
  show "needs w (Cat r q)" unfolding needs_def
  proof (intro allI impI)
    fix x assume "run (Cat r q) x \<noteq> []"
    then obtain y where y: "y \<in> set (run r x)" "run q y \<noteq> []" by auto
    then have "has_sub w (ahead y)" using q by (simp add: needs_def)
    then show "has_sub w (ahead x)" using reads_between [OF run_reads [OF y(1)]] has_sub_append by metis
  qed
qed

lemma replace_without:
  assumes "needs w r" "\<not> has_sub w t"
  shows "replace_all r f t = t"
proof -
  have "hits_of (scan r [] t) = []"
    unfolding no_hits_iff using assms has_sub_append unfolding needs_def spot_def by (metis place.select_convs(2))
  moreover have "hits_of ps = [] \<Longrightarrow> put f ps = put hit_text ps" for ps by (induction ps rule: hits_of.induct) simp_all
  ultimately show ?thesis using scan_text [of r "[]" t] by (simp add: replace_all_def)
qed

text \<open>The sweep over stale links leaves every text without the old account's name as it is.\<close>

theorem stale_sweep_needs_the_account:
  assumes "\<not> has_sub ''007krcs'' t"
  shows "rewrite stale_rules t = t"
proof -
  have n: "needs ''007krcs'' (fst x)" if "x \<in> set stale_rules" for x
  proof -
    have w: "needs ''007krcs'' (lit ''007krcs'')" using needs_lit [of "''007krcs''" "[]" "[]"] by simp
    have l: "needs ''007krcs'' (lit ''ghcr.io/007krcs/qv-server'')" "needs ''007krcs'' (lit ''ghcr.io/007krcs/charts'')"
      "needs ''007krcs'' (lit ''github.com/007krcs/quantum-vault'')" "needs ''007krcs'' (lit ''githubusercontent.com/007krcs/quantum-vault'')"
      using needs_lit [of "''007krcs''" "''ghcr.io/''" "''/qv-server''"] needs_lit [of "''007krcs''" "''ghcr.io/''" "''/charts''"]
        needs_lit [of "''007krcs''" "''github.com/''" "''/quantum-vault''"] needs_lit [of "''007krcs''" "''githubusercontent.com/''" "''/quantum-vault''"]
      by (simp_all del: lit.simps)
    show ?thesis using that l w needs_Cat by (auto simp: stale_rules_def simp del: lit.simps)
  qed
  have "rewrite rs t = t" if "set rs \<subseteq> set stale_rules" for rs
    using that
  proof (induction rs)
    case (Cons x rs)
    then have "replace_all (fst x) (snd x) t = t" using replace_without [OF n assms] by simp
    then show ?case using Cons by (simp add: rewrite_def case_prod_beta)
  qed (simp add: rewrite_def)
  then show ?thesis by simp
qed

text \<open>The bill of materials says that the server has no dependencies whatever its manifest declares, and does not list the
  store the server imports.\<close>

theorem sbom_claims_no_dependencies:
  "sbom E = Some b \<Longrightarrow> \<exists>ref. jget b ''dependencies'' = JArr [obj [(''ref'', ref), (''dependsOn'', JArr [])]]"
  by (auto simp: sbom_def split: option.splits if_splits)

lemma shipped_lacks_the_store: "{''chain-store.mjs'', ''chain-store-postgres.mjs'', ''postgres.mjs'', ''otlp.mjs'', ''falcon-bridge.mjs''} \<inter> set shipped = {}"
  by (simp add: shipped_def)

end
