(* ===== verification/Fuzz.thy ===== *)
theory Fuzz
  imports Claims_Validate Http_Edge Cidr Server_Routes
begin

unbundle bit_operations_syntax

section \<open>The fuzzer\<close>

text \<open>
  \<open>qv-server/fuzz.mjs\<close>: a generator of pseudo-random numbers, generators of inputs over it, and a driver per parser.
  The state of the generator is threaded; a number \<open>rng()\<close> is the new state over \<open>2^32\<close>, so \<open>Math.floor(rng() * n)\<close> is
  exact for the sizes used. A driver says whether it threw; the times it measures and what is printed are left
  out. The lemmas say that a run never fails, whatever seed and length it is given, and which errors of the
  claims validator its inputs can reach.
\<close>

type_synonym rng = "32 word"

definition make_rng :: "int \<Rightarrow> rng" where
  "make_rng seed = (let s = word_of_int seed in if s = 0 then 0xDEADBEEF else s)"

definition rng_next :: "rng \<Rightarrow> rng" where
  "rng_next s =
     (let s = s XOR push_bit 13 s; s = s XOR drop_bit 17 s in s XOR push_bit 5 s)"

text \<open>\<open>Math.floor(rng() * n)\<close> and \<open>rng() < a / b\<close>, of the number that was drawn.\<close>

definition pick :: "nat \<Rightarrow> rng \<Rightarrow> nat" where
  "pick n s = unat s * n div 2 ^ 32"

definition below :: "nat \<Rightarrow> nat \<Rightarrow> rng \<Rightarrow> bool" where
  "below a b s \<longleftrightarrow> unat s * b < a * 2 ^ 32"

fun times :: "nat \<Rightarrow> (rng \<Rightarrow> 'a \<times> rng) \<Rightarrow> rng \<Rightarrow> 'a list \<times> rng" where
  "times 0 f s = ([], s)"
| "times (Suc n) f s = (let (x, s) = f s; (xs, s) = times n f s in (x # xs, s))"

subsection \<open>Mutators\<close>

definition fuzz_pool :: string where
  "fuzz_pool = ''abcdefghij{}[]'' @ [CHR 0x22, CHR 0x5C, CHR 0x0A, CHR 0x09, CHR 0x00, CHR 0xFF] @ ''.,:;()<>!=ABC0123  ''"

definition rand_char :: "rng \<Rightarrow> char \<times> rng" where
  "rand_char s = (let s = rng_next s in (fuzz_pool ! pick (length fuzz_pool) s, s))"

definition rand_str :: "nat \<Rightarrow> rng \<Rightarrow> string \<times> rng" where
  "rand_str n = times n rand_char"

definition flip_bit :: "string \<Rightarrow> rng \<Rightarrow> string \<times> rng" where
  "flip_bit t s =
     (if t = [] then (t, s)
      else let s1 = rng_next s; i = pick (length t) s1; s2 = rng_next s1 in
        (t[i := char_of ((of_char (t ! i) :: nat) XOR push_bit (pick 8 s2) 1)], s2))"

definition truncate :: "string \<Rightarrow> rng \<Rightarrow> string \<times> rng" where
  "truncate t s = (if t = [] then (t, s) else let s = rng_next s in (take (pick (length t) s) t, s))"

subsection \<open>Generators\<close>

text \<open>An assignment \<open>obj[k] = v\<close>: names that are array indices stand first, in numerical order.\<close>

definition is_index :: "string \<Rightarrow> bool" where
  "is_index k \<longleftrightarrow> k \<noteq> [] \<and> list_all (\<lambda>c. 48 \<le> code c \<and> code c \<le> 57) k \<and> (hd k = CHR ''0'' \<longrightarrow> k = ''0'')"

definition index_of_name :: "string \<Rightarrow> nat" where
  "index_of_name k = foldl (\<lambda>n c. 10 * n + (code c - 48)) 0 k"

definition obj_put :: "(string \<times> jsval) list \<Rightarrow> string \<times> jsval \<Rightarrow> (string \<times> jsval) list" where
  "obj_put kvs kv =
     (let before = (\<lambda>(k, _). is_index k \<and> (is_index (fst kv) \<longrightarrow> index_of_name k < index_of_name (fst kv))) in
      if fst kv \<in> fst ` set kvs then map (\<lambda>(k, v). if k = fst kv then kv else (k, v)) kvs
      else if is_index (fst kv) then takeWhile before kvs @ kv # dropWhile before kvs
      else kvs @ [kv])"

definition leaf :: "rng \<Rightarrow> jsval \<times> rng" where
  "leaf s =
     (let r = rng_next s in
      if below 1 5 r then (JNull, r)
      else if below 2 5 r then (let n = rng_next r in (JNum (Finite (of_nat (unat n) / 2 ^ 32 * 10 ^ 9)), n))
      else if below 3 5 r then (JBool (2 ^ 31 < unat r), r)
      else if below 4 5 r then (let n = rng_next r; (t, q) = rand_str (pick 16 n) n in (str t, q))
      else if below 17 20 r then (JNum NonFinite, r)
      else if below 9 10 r then (JNum NonFinite, r)
      else (undef, r))"

definition gen_entry :: "(rng \<Rightarrow> jsval \<times> rng) \<Rightarrow> rng \<Rightarrow> (string \<times> jsval) \<times> rng" where
  "gen_entry f s = (let n = rng_next s; (k, s) = rand_str (pick 6 n + 1) n; (v, s) = f s in ((k, v), s))"

fun build :: "nat \<Rightarrow> rng \<Rightarrow> jsval \<times> rng" where
  "build 0 s = leaf s"
| "build (Suc d) s =
     (let r = rng_next s in
      if below 1 2 r then let l = rng_next r; (vs, s) = times (pick 4 l) (build d) l in (JArr vs, s)
      else let l = rng_next r; (kvs, s) = times (pick 4 l) (gen_entry (build d)) l in (obj (foldl obj_put [] kvs), s))"

definition gen_claims :: "rng \<Rightarrow> jsval \<times> rng" where
  "gen_claims s = (let s = rng_next s in build (pick 7 s) s)"

definition hex_only :: "string \<Rightarrow> string" where
  "hex_only t = map (\<lambda>c. if is_hex c then c else CHR ''0'') t"

definition gen_traceparent :: "rng \<Rightarrow> string \<times> rng" where
  "gen_traceparent s =
     (let r = rng_next s in
      if below 3 10 r then (let n = rng_next r in rand_str (pick 60 n) n)
      else
        let (v, s) = rand_str 2 r; s = rng_next s; ver = [''00'', ''ff'', ''aa'', v] ! pick 4 s;
            (trace, s) = rand_str 32 s; (span, s) = rand_str 16 s; (flags, s) = rand_str 2 s;
            t = join_with ''-'' [ver, hex_only trace, hex_only span, hex_only flags];
            s = rng_next s; (t, s) = (if below 2 5 s then flip_bit t s else (t, s));
            s = rng_next s
        in if below 1 5 s then truncate t s else (t, s))"

subsection \<open>Drivers\<close>

definition stable_codes :: "string list" where
  "stable_codes = [''CLAIMS_NOT_OBJECT'', ''CLAIMS_TOO_DEEP'', ''CLAIMS_TOO_MANY_KEYS'', ''CLAIMS_ARRAY_TOO_LARGE'', ''CLAIMS_STRING_TOO_LONG'',
     ''CLAIMS_KEY_TOO_LONG'', ''CLAIMS_BAD_NUMBER'', ''CLAIMS_BAD_TYPE'', ''CLAIMS_TOO_MANY_NODES'']"

definition fuzz_claims :: "claims_cfg \<Rightarrow> rng \<Rightarrow> bool \<times> rng" where
  "fuzz_claims cfg s =
     (let (c, s) = gen_claims s in
      (case validate_claims cfg c of Inl e \<Rightarrow> claims_code e \<notin> set stable_codes | Inr _ \<Rightarrow> False, s))"

text \<open>A result of \<open>parseTraceparent\<close> is a complete record by its type.\<close>

definition fuzz_traceparent :: "rng \<Rightarrow> bool \<times> rng" where
  "fuzz_traceparent s =
     (let (t, s) = gen_traceparent s in (case parse_traceparent (Some t) of None \<Rightarrow> False | Some (_, _, _) \<Rightarrow> False, s))"

definition fuzz_tracestate :: "rng \<Rightarrow> bool \<times> rng" where
  "fuzz_tracestate s =
     (let n = rng_next s; (t, s) = rand_str (pick 1500 n) n in
      (case sanitize_tracestate (Some t) of None \<Rightarrow> False | Some r \<Rightarrow> 512 < length r, s))"

definition known_good_cidrs :: "cidr_error + cidr list" where
  "known_good_cidrs = load_cidr_list (Some ''10.0.0.0/8,192.168.0.0/16,fe80::/10'')"

definition fuzz_cidr :: "cidr list \<Rightarrow> rng \<Rightarrow> bool \<times> rng" where
  "fuzz_cidr cidrs s = (let n = rng_next s; (ip, s) = rand_str (pick 50 n) n in (case matches_any ip cidrs of _ \<Rightarrow> False, s))"

text \<open>One iteration: the parsers in turn.\<close>

definition fuzz_once :: "claims_cfg \<Rightarrow> cidr list \<Rightarrow> nat \<Rightarrow> rng \<Rightarrow> bool \<times> rng" where
  "fuzz_once cfg cidrs i s =
     (let which = i mod 4 in
      if which = 0 then fuzz_claims cfg s
      else if which = 1 then fuzz_traceparent s
      else if which = 2 then fuzz_tracestate s
      else fuzz_cidr cidrs s)"

text \<open>The loop: \<open>Some i\<close> when iteration \<open>i\<close> threw.\<close>

fun fuzz_loop :: "claims_cfg \<Rightarrow> cidr list \<Rightarrow> nat \<Rightarrow> nat \<Rightarrow> rng \<Rightarrow> nat option" where
  "fuzz_loop cfg cidrs 0 i s = None"
| "fuzz_loop cfg cidrs (Suc n) i s = (case fuzz_once cfg cidrs i s of (failed, s) \<Rightarrow> if failed then Some i else fuzz_loop cfg cidrs n (i + 1) s)"

text \<open>\<open>Number(raw) || d\<close>, for texts that are not infinite.\<close>

definition number_or :: "rat \<Rightarrow> string option \<Rightarrow> rat" where
  "number_or d raw = (case raw of None \<Rightarrow> d | Some t \<Rightarrow> (case text_number (js t) of Some r \<Rightarrow> if r = 0 then d else r | None \<Rightarrow> d))"

definition fuzz_main :: "env \<Rightarrow> nat" where
  "fuzz_main env =
     (let seed = number_or 1 (env ''QV_FUZZ_SEED''); iters = number_or 100000 (env ''QV_FUZZ_ITERS'') in
      case (known_good_cidrs, load_claims_config Map.empty) of
        (Inr cidrs, Inr cfg) \<Rightarrow>
          (case fuzz_loop cfg cidrs (nat \<lceil>iters\<rceil>) 0 (make_rng (trunc_rat seed mod 2 ^ 32)) of None \<Rightarrow> 0 | Some _ \<Rightarrow> 1)
      | _ \<Rightarrow> 1)"

subsection \<open>The generator of numbers\<close>

text \<open>A shift of less than the width and the exclusive or with it can be undone.\<close>

lemma xor_shift_inj:
  fixes s t :: "32 word"
  assumes "0 < k"
  shows "s XOR push_bit k s = t XOR push_bit k t \<longleftrightarrow> s = t" "s XOR drop_bit k s = t XOR drop_bit k t \<longleftrightarrow> s = t"
proof -
  show "s XOR push_bit k s = t XOR push_bit k t \<longleftrightarrow> s = t"
  proof
    assume e: "s XOR push_bit k s = t XOR push_bit k t"
    have "bit s n \<longleftrightarrow> bit t n" if "n < 32" for n
      using that
    proof (induction n rule: less_induct)
      case (less n)
      have "bit (s XOR push_bit k s) n \<longleftrightarrow> bit (t XOR push_bit k t) n" by (simp only: e)
      then show ?case using less assms by (auto simp: bit_xor_iff bit_push_bit_iff)
    qed
    then show "s = t" by (intro bit_word_eqI) simp
  qed simp
  show "s XOR drop_bit k s = t XOR drop_bit k t \<longleftrightarrow> s = t"
  proof
    assume e: "s XOR drop_bit k s = t XOR drop_bit k t"
    have "bit s n \<longleftrightarrow> bit t n" if "n < 32" for n
      using that
    proof (induction "32 - n" arbitrary: n rule: less_induct)
      case less
      have b: "bit (s XOR drop_bit k s) n \<longleftrightarrow> bit (t XOR drop_bit k t) n" by (simp only: e)
      have "bit s (k + n) \<longleftrightarrow> bit t (k + n)"
      proof (cases "k + n < 32")
        case True
        then show ?thesis using less(1) [of "k + n"] assms less(2) by simp
      next
        case False
        then show ?thesis using bit_imp_le_length [of s "k + n"] bit_imp_le_length [of t "k + n"] by auto
      qed
      then show ?case using b by (auto simp: bit_xor_iff bit_drop_bit_eq)
    qed
    then show "s = t" by (intro bit_word_eqI) simp
  qed simp
qed

text \<open>The generator is a permutation of its states that leaves only zero where it is, and it never starts there: no seed
  makes it constant, and a run returns to its start before it repeats anything else.\<close>

theorem rng_is_a_permutation: "rng_next s = rng_next t \<longleftrightarrow> s = t" "rng_next s = 0 \<longleftrightarrow> s = 0" "make_rng seed \<noteq> 0"
proof -
  show inj: "rng_next s = rng_next t \<longleftrightarrow> s = t" for s t by (simp only: rng_next_def Let_def xor_shift_inj zero_less_numeral)
  have "rng_next 0 = 0" by (simp add: rng_next_def)
  then show "rng_next s = 0 \<longleftrightarrow> s = 0" using inj [of s 0] by simp
  show "make_rng seed \<noteq> 0" by (simp add: make_rng_def Let_def)
qed

lemma pick_less: "0 < n \<Longrightarrow> pick n s < n"
proof -
  assume n: "0 < n"
  have "unat s < 2 ^ 32" using unsigned_less [of s] by simp
  then have "unat s * n < 2 ^ 32 * n" using n by simp
  then show ?thesis unfolding pick_def by (simp add: less_mult_imp_div_less mult.commute)
qed

subsection \<open>What the generated claims can be refused for\<close>

lemma times_elements: "x \<in> set (fst (times n f s)) \<Longrightarrow> \<exists>s'. x = fst (f s')"
proof (induction n arbitrary: s)
  case (Suc n)
  then show ?case by (auto simp: Let_def split: prod.splits) (metis fst_conv)+
qed simp

lemma times_length: "length (fst (times n f s)) = n"
proof (induction n arbitrary: s)
  case (Suc n)
  then show ?case by (auto simp: Let_def split: prod.splits) (metis fst_conv)
qed simp

lemma rand_str_length: "length (fst (rand_str n s)) = n"
  by (simp add: rand_str_def times_length)

lemma obj_put_keeps: "set (obj_put kvs kv) \<subseteq> insert kv (set kvs)" "length (obj_put kvs kv) \<le> Suc (length kvs)"
proof -
  show "set (obj_put kvs kv) \<subseteq> insert kv (set kvs)"
    by (auto simp: obj_put_def Let_def dest: set_takeWhileD set_dropWhileD split: if_splits)
  have "length (takeWhile P kvs) + length (dropWhile P kvs) = length kvs" for P
    by (metis length_append takeWhile_dropWhile_id)
  then show "length (obj_put kvs kv) \<le> Suc (length kvs)" by (simp add: obj_put_def Let_def)
qed

lemma foldl_obj_put: "set (foldl obj_put kvs es) \<subseteq> set kvs \<union> set es" "length (foldl obj_put kvs es) \<le> length kvs + length es"
proof (induction es arbitrary: kvs)
  case (Cons e es)
  {
    case 1
    show ?case using Cons(1) [of "obj_put kvs e"] obj_put_keeps(1) [of kvs e] by auto
  next
    case 2
    show ?case using Cons(2) [of "obj_put kvs e"] obj_put_keeps(2) [of kvs e] by simp
  }
qed simp_all

text \<open>What every value of a generated tree is like.\<close>

definition tame :: "jsval \<Rightarrow> bool" where
  "tame v = (case v of
      JStr s \<Rightarrow> length s \<le> 15 | JArr vs \<Rightarrow> length vs \<le> 3 | JObj kvs \<Rightarrow> length kvs \<le> 3 \<and> (\<forall>(k, _) \<in> set kvs. length k \<le> 6)
    | JBig _ \<Rightarrow> False | JOther t \<Rightarrow> t = ''undefined'' | _ \<Rightarrow> True)"

definition tame_tree :: "nat \<Rightarrow> nat \<Rightarrow> jsval \<Rightarrow> bool" where
  "tame_tree deepest d v \<longleftrightarrow> (\<forall>(e, w) \<in> set (values_at d v). e \<le> deepest \<and> tame w)"

lemma tame_tree_simps:
  "tame_tree deepest d (JArr vs) \<longleftrightarrow> d \<le> deepest \<and> length vs \<le> 3 \<and> (\<forall>v \<in> set vs. tame_tree deepest (d + 1) v)"
  "tame_tree deepest d (JObj kvs) \<longleftrightarrow> d \<le> deepest \<and> length kvs \<le> 3 \<and> (\<forall>(k, v) \<in> set kvs. length k \<le> 6 \<and> tame_tree deepest (d + 1) v)"
  by (auto simp: tame_tree_def tame_def)

lemma leaf_tame: "d \<le> deepest \<Longrightarrow> tame_tree deepest d (fst (leaf s))"
proof -
  assume d: "d \<le> deepest"
  have "length (fst (rand_str (pick 16 n) n)) \<le> 15" for n using rand_str_length [of "pick 16 n" n] pick_less [of 16 n] by simp
  then show ?thesis using d
    by (auto simp: leaf_def Let_def tame_tree_def tame_def str_def undef_def js_def split: prod.splits) (metis fst_conv)
qed

lemma entry_key: "length (fst (fst (gen_entry f s))) \<le> 6"
  using rand_str_length [of "pick 6 (rng_next s) + 1" "rng_next s"] pick_less [of 6 "rng_next s"]
  by (auto simp: gen_entry_def Let_def split: prod.splits)

lemma entry_value: "\<exists>s'. snd (fst (gen_entry f s)) = fst (f s')"
  by (auto simp: gen_entry_def Let_def split: prod.splits) (metis fst_conv)

lemma build_tame: "tame_tree (n + d) n (fst (build d s))"
proof (induction d arbitrary: n s)
  case 0
  then show ?case by (simp add: leaf_tame)
next
  case (Suc d)
  let ?r = "rng_next s" let ?l = "rng_next ?r" let ?k = "pick 4 ?l"
  have k: "?k \<le> 3" using pick_less [of 4 ?l] by simp
  have deep: "tame_tree (n + Suc d) (n + 1) (fst (build d s'))" for s' using Suc [of "n + 1" s'] by simp
  show ?case
  proof (cases "below 1 2 ?r")
    case True
    let ?vs = "fst (times ?k (build d) ?l)"
    have "fst (build (Suc d) s) = JArr ?vs" using True by (simp add: Let_def split: prod.splits)
    moreover have "tame_tree (n + Suc d) (n + 1) v" if "v \<in> set ?vs" for v using times_elements [OF that] deep by auto
    ultimately show ?thesis using k by (simp only: tame_tree_simps times_length) simp
  next
    case False
    let ?es = "fst (times ?k (gen_entry (build d)) ?l)" let ?kvs = "foldl obj_put [] ?es"
    have b: "fst (build (Suc d) s) = obj ?kvs" using False by (simp add: Let_def split: prod.splits)
    have "length key \<le> 6 \<and> tame_tree (n + Suc d) (n + 1) v" if "(key, v) \<in> set ?kvs" for key v
    proof -
      have "(key, v) \<in> set ?es" using that foldl_obj_put(1) [of "[]" ?es] by auto
      from times_elements [OF this] obtain s' where e: "(key, v) = fst (gen_entry (build d) s')" by blast
      then have "key = fst (fst (gen_entry (build d) s'))" "v = snd (fst (gen_entry (build d) s'))" by (metis fst_conv, metis snd_conv)
      then show ?thesis using entry_key [of "build d" s'] entry_value [of "build d" s'] deep by auto
    qed
    moreover have "length ?kvs \<le> 3" using foldl_obj_put(2) [of "[]" ?es] times_length [of ?k "gen_entry (build d)" ?l] k by simp
    ultimately show ?thesis unfolding b obj_def tame_tree_simps by (auto simp: js_def)
  qed
qed

definition reachable_refusal :: "claims_cfg \<Rightarrow> claims_error \<Rightarrow> bool" where
  "reachable_refusal cfg e \<longleftrightarrow> e \<in> {ClaimsNotObject, ClaimsTooManyNodes (maxNodes cfg), ClaimsBadNumber, ClaimsBadType ''undefined''}"

lemma walk_tame:
  assumes "deepest \<le> maxDepth cfg" "15 \<le> maxString cfg" "3 \<le> maxArray cfg" "3 \<le> maxKeys cfg"
  shows "tame_tree deepest d v \<Longrightarrow> walk cfg d v n = Inl e \<Longrightarrow> reachable_refusal cfg e"
    "\<forall>v \<in> set vs. tame_tree deepest d v \<Longrightarrow> walk_elems cfg d vs n = Inl e \<Longrightarrow> reachable_refusal cfg e"
    "\<forall>(k, v) \<in> set kvs. length k \<le> 6 \<and> tame_tree deepest d v \<Longrightarrow> walk_props cfg d kvs n = Inl e \<Longrightarrow> reachable_refusal cfg e"
  using assms
proof (induction cfg d v n and cfg d vs n and cfg d kvs n arbitrary: e and e and e rule: walk_walk_elems_walk_props.induct)
  case (1 cfg depth v nodes)
  show ?case
  proof (cases "maxNodes cfg < nodes + 1")
    case True
    then show ?thesis using 1(4) by (simp add: walk.simps reachable_refusal_def)
  next
    case False
    have d: "depth \<le> maxDepth cfg" using 1(3,5) by (cases v) (auto simp: tame_tree_def)
    show ?thesis
    proof (cases v)
      case (JArr vs)
      then show ?thesis using 1 False d by (simp add: walk.simps tame_tree_simps Let_def split: if_splits)
    next
      case (JObj kvs)
      then show ?thesis using 1 False d by (simp add: walk.simps tame_tree_simps Let_def split: if_splits)
    next
      case (JNum m)
      then show ?thesis using 1 False d by (cases m) (simp_all add: walk.simps Let_def reachable_refusal_def)
    qed (use 1 False d in \<open>auto simp: walk.simps Let_def reachable_refusal_def tame_tree_def tame_def\<close>)
  qed
next
  case (3 cfg d v vs n)
  then show ?case by (cases "walk cfg d v n") auto
next
  case (5 cfg d k v kvs n)
  then show ?case by (cases "walk cfg d v n") (auto split: if_splits)
qed auto

text \<open>The claims the fuzzer makes reach four of the nine refusals: for every state of the generator, the validator with its
  default limits refuses them only for not being an object, a number that is not finite, an undefined value or
  more than 1024 values; never for depth, for the number or length of keys, or for the length of an array or
  a text.\<close>

theorem fuzz_claims_reach_four_refusals:
  assumes "validate_claims default_claims_cfg (fst (gen_claims s)) = Inl e"
  shows "e \<in> {ClaimsNotObject, ClaimsTooManyNodes 1024, ClaimsBadNumber, ClaimsBadType ''undefined''}"
proof -
  let ?s = "rng_next s" let ?v = "fst (gen_claims s)"
  have v: "?v = fst (build (pick 7 ?s) ?s)" by (simp add: gen_claims_def Let_def)
  have "pick 7 ?s \<le> 6" using pick_less [of 7 ?s] by simp
  then have "tame_tree 7 1 ?v" using build_tame [of 1 "pick 7 ?s" ?s] unfolding v by (fastforce simp: tame_tree_def)
  then have "walk default_claims_cfg 1 ?v 0 = Inl e \<Longrightarrow> reachable_refusal default_claims_cfg e"
    using walk_tame(1) [of 7 default_claims_cfg] by (simp add: default_claims_cfg_def)
  then have "reachable_refusal default_claims_cfg e"
    using assms by (auto simp: validate_claims_def reachable_refusal_def split: jsval.splits) (auto simp: bind_r_def split: sum.splits)
  then show ?thesis by (simp add: reachable_refusal_def default_claims_cfg_def)
qed

text \<open>A run of the fuzzer ends with success, whatever its seed and length: the parsers keep their contract on every input it
  makes.\<close>

lemma fuzz_once_passes: "\<not> fst (fuzz_once cfg cidrs i s)"
proof -
  have "claims_code e \<in> set stable_codes" for e by (cases e) (simp_all add: claims_code_def stable_codes_def)
  then have "\<not> fst (fuzz_claims cfg s)" by (simp add: fuzz_claims_def split: prod.splits sum.splits)
  moreover have "\<not> fst (fuzz_tracestate s)"
    by (auto simp: fuzz_tracestate_def sanitize_tracestate_def Let_def split: prod.splits option.splits if_splits)
  ultimately show ?thesis
    by (simp add: fuzz_once_def fuzz_traceparent_def fuzz_cidr_def Let_def split: prod.splits option.splits)
qed

lemma known_good_v6: "parse_v6 ''fe80::'' = Some [0xFE, 0x80, 0, 0, 0, 0, 0, 0, 0, 0, 0, 0, 0, 0, 0, 0]"
proof -
  have "v4_mapped ''fe80::'' = None" "expand_v6 ''fe80::'' = Some ''fe80:0:0:0:0:0:0:0''" by code_simp+
  moreover have "split_on (CHR '':'') ''fe80:0:0:0:0:0:0:0'' = [''fe80'', ''0'', ''0'', ''0'', ''0'', ''0'', ''0'', ''0'']" by code_simp
  moreover have "parse_int16 ''0'' = Some 0" "parse_int16 ''fe80'' = Some 0xFE80"
    by (simp_all add: parse_int16_def is_ws_def code_def strip_0x_def is_hex_def hex_val_def digits_val_def)
  ultimately show ?thesis by (simp add: parse_v6_def hextet_bytes_def)
qed

lemma known_good_parts:
  "parse_cidr ''10.0.0.0/8'' = Inr \<lparr>family = 4, addr = [10, 0, 0, 0], mask_len = 8\<rparr>"
  "parse_cidr ''192.168.0.0/16'' = Inr \<lparr>family = 4, addr = [192, 168, 0, 0], mask_len = 16\<rparr>"
  "\<exists>c. parse_cidr ''fe80::/10'' = Inr c"
proof -
  show "parse_cidr ''10.0.0.0/8'' = Inr \<lparr>family = 4, addr = [10, 0, 0, 0], mask_len = 8\<rparr>"
    "parse_cidr ''192.168.0.0/16'' = Inr \<lparr>family = 4, addr = [192, 168, 0, 0], mask_len = 16\<rparr>" by code_simp+
  have "split_on (CHR ''/'') ''fe80::/10'' = [''fe80::'', ''10'']" "js_integer ''10'' = Some 10" by code_simp+
  then show "\<exists>c. parse_cidr ''fe80::/10'' = Inr c" by (simp add: parse_cidr_def parse_ip_def known_good_v6)
qed

lemma known_good_loads: "\<exists>cidrs. known_good_cidrs = Inr cidrs"
proof -
  have "filter (\<lambda>p. p \<noteq> []) (map js_trim (split_on (CHR '','') ''10.0.0.0/8,192.168.0.0/16,fe80::/10'')) =
      [''10.0.0.0/8'', ''192.168.0.0/16'', ''fe80::/10'']"
    by code_simp
  then show ?thesis unfolding known_good_cidrs_def load_cidr_list_def using known_good_parts by auto
qed

theorem fuzz_always_passes: "fuzz_main env = 0"
proof -
  have "fuzz_loop cfg cidrs n i s = None" for cfg cidrs n i s
  proof (induction n arbitrary: i s)
    case (Suc n)
    then show ?case using fuzz_once_passes [of cfg cidrs i s] by (cases "fuzz_once cfg cidrs i s") simp
  qed simp
  moreover obtain cidrs where c: "known_good_cidrs = Inr cidrs" using known_good_loads by blast
  ultimately show ?thesis unfolding fuzz_main_def Let_def c load_claims_config_default by simp
qed

end
