(* ===== verification/Spec2Isabelle.thy ===== *)
theory Spec2Isabelle
  imports Counter_Store Chain_Store Claims_Validate Rate_Limit Cidr Admin_Auth Durable Writer_Lock Master_Key
    Metrics Http_Edge Server_Revocation Server_Restart Verify_Pool Shutdown Audit_Log Otlp Pg_Client Rotate_Master Qv_Audit
    Legacy_Server Middleware Server_Start Pg_Store Concurrent_Issue
    Openapi_Sync Dep_Audit Release_Scripts Fuzz
begin

text \<open>
  \<^bold>\<open>Sigvault: the JavaScript SDK and the servers\<close>

  Sigvault issues and verifies signed, encrypted tokens. The SDK (\<open>qv-sdk/src/index.mjs\<close>) makes a token from
  claims, a key pair and a mutation chain, a hash ratchet whose counter is in the token, and takes it
  apart again. The sovereign server (\<open>qv-server/server-sovereign.mjs\<close>) keeps the keys, sealed under a
  master key in \<open>keystore.json\<close>, one chain for each key with an append-only log of its states, and a set
  of revoked keys in \<open>revoked.json\<close>, and offers the SDK over HTTP. Around it stand the modules of
  \<open>qv-server\<close>: limits on requests and claims, admission of administrators, one writer at a time, a pool of
  verifying workers, audit and trace output, orderly shutdown, and two tools that work on its files.

  \<^bold>\<open>Conventions\<close>

  A JavaScript text is a list of 16-bit units (\<open>jsstr\<close>), or a \<open>string\<close> where only Latin-1 occurs; a parsed
  value is a \<open>jsval\<close>; a BigInt or an integral number an \<open>int\<close>; a byte a word of 8 bits; other finite
  numbers are exact rationals where the code has doubles (the sums of \<open>Metrics\<close> round as doubles do). A \<open>Map\<close> is an association list where its order
  is seen, else a function to \<open>option\<close>. A throw is the left side of a sum or \<open>None\<close>. Code that is not in the
  repository (the packages \<open>@noble\<close>, \<open>node:crypto\<close>, zlib, \<open>JSON.parse\<close>, \<open>Date\<close>, the file system's calls, a
  database) is an argument: the records \<open>prims\<close>, \<open>server_env\<close>, \<open>pg_env\<close>, and the clock, random bytes and
  times as values of the event that reads them. Laws of that code are hypotheses of the theorems that use them
  (\<open>aead_correct\<close>, \<open>key_pair\<close>, \<open>inflate_correct\<close>, \<open>sha3_len\<close>, \<open>gcm_correct\<close>, \<open>pg_contract\<close>), and each
  such theorem has an instance on concrete functions (\<open>sample_prims\<close>, \<open>sample_env\<close>, \<open>mem_insert\<close>).

  \<^bold>\<open>Theories\<close>

  \<^item> \<open>Prelude\<close> (errors as sums, big-endian bytes, hex), \<open>Js_Text\<close>, \<open>Utf8\<close>, \<open>Base64\<close>, \<open>Js_Value\<close>: what the code uses of the
    language and of Node's encodings; round trips of each encoding. \<open>Ledger\<close>: the locale of machines that
    lose nothing, interpreted by the pool, the trace exporter and the audit log.
  \<^item> SDK, \<open>qv-sdk/src\<close>: \<open>Sdk_Base\<close> (values, errors, primitives), \<open>Mutation_Chain\<close>, \<open>Wire\<close>, \<open>Claims_Codec\<close>, \<open>Token\<close> (issue and
    verify), \<open>Counter_Store\<close> (the interface of counter stores as a locale, \<open>InMemoryChainStore\<close>, both entry points over a
    store, inspection), \<open>Middleware\<close> (\<open>middleware/*.mjs\<close>). The lemmas say what a verifier accepts, that issuing
    and verifying are inverse, and that nothing is accepted twice against one chain or store.
  \<^item> Chains on disk: \<open>Chain_Log\<close> (\<open>chain-log.mjs\<close>), \<open>Chain_Store\<close> (\<open>chain-store.mjs\<close>, \<open>chain-store-postgres.mjs\<close>; the contract of a store
    is a locale), \<open>Durable\<close> (\<open>durable.mjs\<close>, with crashes between the system calls,
    writes that store only a part, and a directory that cannot be synced), \<open>Writer_Lock\<close> (\<open>writer-lock.mjs\<close>, an
    inductive step relation over processes and the lease file).
  \<^item> Guards: \<open>Claims_Validate\<close> (\<open>claims.mjs\<close>), \<open>Rate_Limit\<close> (\<open>ratelimit.mjs\<close>; the token bucket as a locale, with the ideal
    bucket as its specification), \<open>Cidr\<close> (\<open>cidr.mjs\<close>), \<open>Admin_Auth\<close> (\<open>auth.mjs\<close>), \<open>Master_Key\<close> (\<open>master-key.mjs\<close>), \<open>Http_Edge\<close>
    (\<open>security.mjs\<close>, \<open>trace.mjs\<close>).
  \<^item> The sovereign server: \<open>Server_State\<close> (its state, sealing, the two documents, load and save, \<open>boot\<close>), \<open>Server_Routes\<close> (key
    generation, issue), \<open>Server_Verify\<close> (verification, batches, discovery, revocation; \<open>verify-worker.mjs\<close>), \<open>Falcon_Bridge\<close>
    (\<open>falcon-bridge.mjs\<close>), \<open>Server\<close> (the remaining routes, the middleware chain, \<open>dispatch\<close>). Over these: \<open>Server_Frame\<close> (what a
    request can change), \<open>Server_Revocation\<close> (admission, and revocation over runs of requests and restarts),
    \<open>Server_Restart\<close> (memory and disk agree, and how a failing request breaks that), \<open>Server_Typing\<close> (the state stays well
    typed), \<open>Server_Tokens\<close> (from the issue route to the verify route), \<open>Server_Start\<close> (the start of the process from
    the environment and the directory another process left; how long the lease keeps a second server away),
    \<open>Concurrent_Issue\<close> (the issue handler as its two parts around the wait for the store: what holds when requests
    overlap, and the counter the reply then names).
  \<^item> \<open>Legacy_Server\<close>: the first REST server, \<open>server.mjs\<close>.
  \<^item> Beside the requests: \<open>Verify_Pool\<close> and \<open>Murmur\<close> (\<open>verify-pool.mjs\<close>), \<open>Shutdown\<close> (\<open>shutdown.mjs\<close>, with the
    language's timers for any time limit), \<open>Metrics\<close> (\<open>metrics.mjs\<close>, its sums in doubles), \<open>Audit_Log\<close> (\<open>audit.mjs\<close>), \<open>Otlp\<close> (\<open>otlp.mjs\<close>).
  \<^item> \<open>Pg_Wire\<close> and \<open>Pg_Client\<close>: the PostgreSQL client, \<open>postgres.mjs\<close>: frames, messages, SCRAM, the queue of pending requests.
    \<open>Pg_Store\<close>: the chain store over it, with its URL, table and statements.
  \<^item> Scripts of the repository, \<open>qv-ops/scripts\<close>: \<open>Js_Regex\<close> (the language's regular expressions: every way to match, in the order of the
    engine, and the loop of the global flag), \<open>Openapi_Sync\<close> (\<open>openapi-sync.mjs\<close>, the gate between the server's text and its
    published interface; when it passes), \<open>Dep_Audit\<close> (\<open>dep-audit.mjs\<close>, the gate on dependencies; what it does not read),
    \<open>Release_Scripts\<close> (\<open>rebrand-polyglot.mjs\<close>, \<open>fix-stale-007krcs.mjs\<close>, \<open>sbom.mjs\<close>).
  \<^item> \<open>Fuzz\<close>: the fuzzer of the parsers, \<open>fuzz.mjs\<close>: its generator is a permutation, its runs never fail, and which refusals its
    claims can reach.
  \<^item> Tools: \<open>Rotate_Master\<close> (\<open>rotate-master.mjs\<close>, its writes as a list of changes, so that a crash is a prefix), \<open>Qv_Audit\<close>
    (\<open>qv-audit.mjs\<close>).

  \<^bold>\<open>How the parts meet\<close>

  \<open>dispatch\<close> composes the guards, the handlers and the state; a handler calls \<open>issue_token\<close> and \<open>verify_token\<close> of the SDK, the
  chain store through \<open>cfg_load\<close> and \<open>cfg_append\<close>, the lease through \<open>check_fence\<close>. \<open>srv_step\<close> adds restarts,
  which read what earlier requests wrote; the theorems on restarts, revocation and types are about
  its runs. The tool of \<open>Rotate_Master\<close> works on the documents that \<open>Server_State\<close> reads. There a request is one
  step. \<open>Concurrent_Issue\<close> splits the issue handler at the wait for the store and shows that the route of \<open>dispatch\<close> is the
  two parts in a row; the other handlers are not split. The pool, the writer lock, the shutdown and the
  PostgreSQL client are machines over single events.

  \<^bold>\<open>Termination and bounds\<close>

  The repetitions of \<open>Js_Regex\<close> have as fuel the length of the text ahead, which an iteration that consumes something cannot
  use up (\<open>again_fuel\<close>, \<open>run_Many\<close>); no other definition has fuel. The catch-up loop of a chain ends by the distance of the counters, the drain loop of the
  PostgreSQL client by the length of the buffer, the shutdown by its hard timer. The one loop of the code that
  may not end (\<open>decodeError\<close>) returns \<open>None\<close> in that case, and a theorem says when. Counters and
  times are unbounded integers that wrap where the code stores them in 64 or 32 bits; the hypotheses
  \<open>< 2 ^ 64\<close> and \<open>< 2 ^ 32\<close> of the round trips are those widths.

  \<^bold>\<open>Not modelled\<close>

  \<^item> The native crates (\<open>qv-core\<close>, \<open>qv-cli\<close>, \<open>qv-ffi\<close>), \<open>qv-wasm\<close> and \<open>qv-python\<close>: other languages, not called by the
    JavaScript. \<open>vendor\<close>: third-party code.
  \<^item> \<open>qv-docs\<close> (React pages), \<open>qv-ops\<close> except its scripts (Helm, SQL), tests, benchmarks, demos, the harness of
    \<open>qv-spec\<close>, \<open>index.d.ts\<close>: no state of the token system.
  \<^item> Of the modelled files: message texts of errors, console output, the listen call, the seeding of a fresh data directory, \<open>generateKeypair\<close> (random bytes of a package), the layout of a printed summary, timing behaviour.
  \<^item> In the theories of the server and of the tools a durable write is one step that is whole and reaches the disk, and a line
    written to a log is whole; \<open>Durable\<close> says what the code does when a write is short or the directory is not synced.
  \<^item> The name \<open>__proto__\<close> as the id of a key (ids are UUIDs) and a message to the pool with a property \<open>jobId\<close> of its own.
  \<^item> Rounding of doubles outside \<open>Metrics\<close>, and texts outside Latin-1 where a pattern of the code is ASCII.
\<close>

end
